(* ===== verification/Prelude.thy ===== *)
theory Prelude
  imports Complex_Main "HOL-Library.AList" "HOL-Library.Char_ord" "HOL-Library.List_Lexorder"
    "HOL-Library.Product_Lexorder"
begin

text \<open>
  What every component of the model shares: results of Python code that may raise, Python
  dictionaries as association lists (insertion order is observable in Python), tables of rows
  addressed by a primary key, stable sorting by a key, and reachable states of a step relation.
  Facts about results go to \<open>result_simps\<close>, facts about dictionaries to \<open>dict_simps\<close>.
\<close>

named_theorems result_simps \<open>unfolding a computation that may raise\<close>
named_theorems dict_simps \<open>lookups and lengths of Python dictionaries\<close>

type_synonym time = rat
  \<comment> \<open>a reading of the clock, in seconds; Python's floats are taken as exact\<close>

type_synonym ('k, 'v) dict = "('k \<times> 'v) list"

section \<open>Computations that may raise\<close>

text \<open>\<open>Inl e\<close> is the exception \<open>e\<close>, \<open>Inr x\<close> the value \<open>x\<close>.\<close>

definition bindE :: "'e + 'a \<Rightarrow> ('a \<Rightarrow> 'e + 'b) \<Rightarrow> 'e + 'b" where
  "bindE m f = (case m of Inl e \<Rightarrow> Inl e | Inr x \<Rightarrow> f x)"

definition of_opt :: "'e \<Rightarrow> 'a option \<Rightarrow> 'e + 'a" where
  "of_opt e m = (case m of None \<Rightarrow> Inl e | Some x \<Rightarrow> Inr x)"

lemma bindE_simps [simp]: "bindE (Inl e) f = Inl e" "bindE (Inr x) f = f x"
  by (simp_all add: bindE_def)

lemma of_opt_simps [simp]: "of_opt e None = Inl e" "of_opt e (Some x) = Inr x"
  by (simp_all add: of_opt_def)

lemma bindE_eq_Inr [result_simps]: "bindE m f = Inr y \<longleftrightarrow> (\<exists>x. m = Inr x \<and> f x = Inr y)"
  by (cases m) auto

lemma bindE_eq_Inl [result_simps]:
  "bindE m f = Inl e \<longleftrightarrow> m = Inl e \<or> (\<exists>x. m = Inr x \<and> f x = Inl e)"
  by (cases m) auto

lemma of_opt_eq [result_simps]:
  "of_opt e m = Inr y \<longleftrightarrow> m = Some y" "of_opt e m = Inl e' \<longleftrightarrow> m = None \<and> e' = e"
  by (cases m; auto)+

lemma if_raise_eq [result_simps]:
  "(if b then Inl e else m) = Inr y \<longleftrightarrow> \<not> b \<and> m = Inr y" by auto

text \<open>A loop over a list whose body may raise: the first exception ends it.\<close>

fun foldE :: "('a \<Rightarrow> 's \<Rightarrow> 'e + 's) \<Rightarrow> 'a list \<Rightarrow> 's \<Rightarrow> 'e + 's" where
  "foldE f [] s = Inr s"
| "foldE f (x # xs) s = bindE (f x s) (foldE f xs)"

fun mapE :: "('a \<Rightarrow> 'e + 'b) \<Rightarrow> 'a list \<Rightarrow> 'e + 'b list" where
  "mapE f [] = Inr []"
| "mapE f (x # xs) = bindE (f x) (\<lambda>y. bindE (mapE f xs) (\<lambda>ys. Inr (y # ys)))"

lemma mapE_cong [fundef_cong]:
  "xs = ys \<Longrightarrow> (\<And>x. x \<in> set ys \<Longrightarrow> f x = g x) \<Longrightarrow> mapE f xs = mapE g ys"
  by (induction ys arbitrary: xs) auto

lemma bindE_cong [fundef_cong]:
  "m = m' \<Longrightarrow> (\<And>x. m' = Inr x \<Longrightarrow> f x = g x) \<Longrightarrow> bindE m f = bindE m' g"
  by (cases m') auto

lemma mapE_eq_Inr: "mapE f xs = Inr ys \<longleftrightarrow> list_all2 (\<lambda>x y. f x = Inr y) xs ys"
  by (induction xs arbitrary: ys) (auto simp: bindE_eq_Inr list_all2_Cons1)

lemma mapE_source: "mapE f xs = Inr ys \<Longrightarrow> y \<in> set ys \<Longrightarrow> \<exists>x \<in> set xs. f x = Inr y"
  by (induction xs arbitrary: ys) (auto simp: bindE_eq_Inr)

lemma mapE_in: "mapE f xs = Inr ys \<Longrightarrow> x \<in> set xs \<Longrightarrow> \<exists>y. f x = Inr y"
  by (induction xs arbitrary: ys) (auto simp: bindE_eq_Inr)

lemma foldE_cong [fundef_cong]:
  "xs = ys \<Longrightarrow> s = s' \<Longrightarrow> (\<And>x s. x \<in> set ys \<Longrightarrow> f x s = g x s) \<Longrightarrow> foldE f xs s = foldE g ys s'"
  by (induction ys arbitrary: xs s s') (auto intro: bindE_cong)

lemma foldE_append: "foldE f (xs @ ys) s = bindE (foldE f xs s) (foldE f ys)"
  by (induction xs arbitrary: s) (auto simp: bindE_def split: sum.splits)

lemma foldE_invariant:
  assumes "foldE f xs s = Inr s'" and "P s"
    and "\<And>x s s'. x \<in> set xs \<Longrightarrow> P s \<Longrightarrow> f x s = Inr s' \<Longrightarrow> P s'"
  shows "P s'"
  using assms
proof (induction xs arbitrary: s)
  case (Cons x xs)
  then obtain s1 where "f x s = Inr s1" "foldE f xs s1 = Inr s'"
    by (auto simp: bindE_eq_Inr)
  with Cons show ?case by (metis list.set_intros)
qed simp

section \<open>Python dictionaries\<close>

lemma dict_get_update [dict_simps]:
  "map_of (AList.update k v d) k' = (if k' = k then Some v else map_of d k')"
  by (simp add: update_conv)

lemma dict_get_delete [dict_simps]:
  "map_of (AList.delete k d) k' = (if k' = k then None else map_of d k')"
  by (simp add: delete_conv)

lemma map_of_None_iff: "map_of d k = None \<longleftrightarrow> k \<notin> fst ` set d"
  by (simp add: map_of_eq_None_iff)

lemma length_update_new [dict_simps]:
  "k \<notin> fst ` set d \<Longrightarrow> AList.update k v d = d @ [(k, v)]"
  by (induction d) auto

lemma keys_update_old [dict_simps]:
  "k \<in> fst ` set d \<Longrightarrow> map fst (AList.update k v d) = map fst d"
  by (induction d) auto

lemma length_update_old [dict_simps]:
  "k \<in> fst ` set d \<Longrightarrow> length (AList.update k v d) = length d"
  by (metis keys_update_old length_map)

lemma keys_update_present [dict_simps]:
  "map_of d k = Some v' \<Longrightarrow> fst ` set (AList.update k v d) = fst ` set d"
proof -
  assume "map_of d k = Some v'"
  then have "k \<in> fst ` set d" by (metis map_of_None_iff option.distinct(1))
  then show ?thesis by (metis keys_update_old list.set_map)
qed

lemma length_delete [dict_simps]:
  "distinct (map fst d) \<Longrightarrow> k \<in> fst ` set d \<Longrightarrow> Suc (length (AList.delete k d)) = length d"
proof (induction d)
  case (Cons p d)
  then show ?case
    by (cases "fst p = k") (auto simp: delete_id rev_image_eqI)
qed simp

lemma set_delete [dict_simps]:
  "set (AList.delete k d) = {p \<in> set d. fst p \<noteq> k}"
  by (induction d) auto

lemma set_update [dict_simps]:
  "distinct (map fst d) \<Longrightarrow> set (AList.update k v d) = insert (k, v) {p \<in> set d. fst p \<noteq> k}"
  by (induction d) (auto, force+)

lemma map_of_distinct_iff:
  "distinct (map fst d) \<Longrightarrow> map_of d k = Some v \<longleftrightarrow> (k, v) \<in> set d"
  by simp

section \<open>Rows addressed by a primary key\<close>

definition row_get :: "('r \<Rightarrow> 'k) \<Rightarrow> 'k \<Rightarrow> 'r list \<Rightarrow> 'r option" where
  "row_get pk k rows = find (\<lambda>r. pk r = k) rows"

definition row_upd :: "('r \<Rightarrow> 'k) \<Rightarrow> 'k \<Rightarrow> ('r \<Rightarrow> 'r) \<Rightarrow> 'r list \<Rightarrow> 'r list" where
  "row_upd pk k f rows = map (\<lambda>r. if pk r = k then f r else r) rows"

lemma row_get_Nil [simp]: "row_get pk k [] = None"
  by (simp add: row_get_def)

lemma row_get_Cons: "row_get pk k (r # rs) = (if pk r = k then Some r else row_get pk k rs)"
  by (simp add: row_get_def)

lemma row_get_None_iff: "row_get pk k rows = None \<longleftrightarrow> k \<notin> pk ` set rows"
  by (auto simp: row_get_def find_None_iff)

lemma row_get_SomeD: "row_get pk k rows = Some r \<Longrightarrow> r \<in> set rows \<and> pk r = k"
  by (auto simp: row_get_def find_Some_iff)

lemma row_get_unique:
  "distinct (map pk rows) \<Longrightarrow> row_get pk k rows = Some r \<longleftrightarrow> r \<in> set rows \<and> pk r = k"
  by (induction rows) (auto simp: row_get_Cons rev_image_eqI)

lemma row_upd_pk: "(\<And>r. pk (f r) = pk r) \<Longrightarrow> map pk (row_upd pk k f rows) = map pk rows"
  by (simp add: row_upd_def)

lemma row_get_upd:
  "(\<And>r. pk (f r) = pk r) \<Longrightarrow>
   row_get pk k (row_upd pk k' f rows) =
     (if k = k' then map_option f (row_get pk k rows) else row_get pk k rows)"
  by (induction rows) (auto simp: row_get_Cons row_upd_def)

lemma row_get_add:
  "row_get pk k (rows @ [r]) =
     (case row_get pk k rows of Some r' \<Rightarrow> Some r' | None \<Rightarrow> if pk r = k then Some r else None)"
  by (induction rows) (auto simp: row_get_Cons)

lemma row_get_filter:
  "distinct (map pk rows) \<Longrightarrow>
   row_get pk k (filter P rows) =
     (case row_get pk k rows of None \<Rightarrow> None | Some r \<Rightarrow> if P r then Some r else None)"
proof (induction rows)
  case (Cons r rows)
  then have "row_get pk (pk r) rows = None"
    by (auto simp: row_get_None_iff)
  with Cons show ?case
    by (auto simp: row_get_Cons split: option.splits)
qed simp

lemma set_row_upd: "set (row_upd pk k f rows) = (\<lambda>r. if pk r = k then f r else r) ` set rows"
  by (simp add: row_upd_def)

text \<open>
  The interface a table offers to the code above it (SQLAlchemy's \<open>session.get\<close>, attribute
  assignment on a loaded row, \<open>session.add\<close>), with the laws the queries rest on. \<open>kt_ok\<close> is the
  uniqueness of the primary key.
\<close>

locale keyed_table =
  fixes kt_get :: "'k \<Rightarrow> 't \<Rightarrow> 'r option"
    and kt_upd :: "'k \<Rightarrow> ('r \<Rightarrow> 'r) \<Rightarrow> 't \<Rightarrow> 't"
    and kt_add :: "'r \<Rightarrow> 't \<Rightarrow> 't"
    and kt_pk :: "'r \<Rightarrow> 'k"
    and kt_ok :: "'t \<Rightarrow> bool"
  assumes get_pk: "kt_get k t = Some r \<Longrightarrow> kt_pk r = k"
    and get_upd: "(\<And>r. kt_pk (f r) = kt_pk r) \<Longrightarrow>
      kt_get k (kt_upd k' f t) = (if k = k' then map_option f (kt_get k t) else kt_get k t)"
    and get_add: "kt_get (kt_pk r) t = None \<Longrightarrow>
      kt_get k (kt_add r t) = (if k = kt_pk r then Some r else kt_get k t)"
    and ok_upd: "(\<And>r. kt_pk (f r) = kt_pk r) \<Longrightarrow> kt_ok (kt_upd k f t) = kt_ok t"
    and ok_add: "kt_ok t \<Longrightarrow> kt_get (kt_pk r) t = None \<Longrightarrow> kt_ok (kt_add r t)"
begin

lemma get_upd_same:
  "(\<And>r. kt_pk (f r) = kt_pk r) \<Longrightarrow> kt_get k t = Some r \<Longrightarrow> kt_get k (kt_upd k f t) = Some (f r)"
  by (simp add: get_upd)

lemma get_upd_other:
  "(\<And>r. kt_pk (f r) = kt_pk r) \<Longrightarrow> k \<noteq> k' \<Longrightarrow> kt_get k (kt_upd k' f t) = kt_get k t"
  by (simp add: get_upd)

lemma get_upd_pred:
  assumes "\<And>r. kt_pk (f r) = kt_pk r" and "kt_get k (kt_upd k' f t) = Some r"
    and "\<And>r0. kt_get k t = Some r0 \<Longrightarrow> P r0" and "\<And>r0. k = k' \<Longrightarrow> P r0 \<Longrightarrow> P (f r0)"
  shows "P r"
  using assms by (auto simp: get_upd split: if_splits)

lemma get_add_new: "kt_get (kt_pk r) t = None \<Longrightarrow> kt_get (kt_pk r) (kt_add r t) = Some r"
  by (simp add: get_add)

lemma add_keeps: "kt_get (kt_pk r) t = None \<Longrightarrow> kt_get k t = Some r' \<Longrightarrow> kt_get k (kt_add r t) = Some r'"
  by (auto simp: get_add)

end

text \<open>Every list of rows with a key function is such a table.\<close>

lemma keyed_table_rows:
  "keyed_table (row_get pk) (row_upd pk) (\<lambda>r rows. rows @ [r]) pk (\<lambda>rows. distinct (map pk rows))"
proof unfold_locales
  show "row_get pk k (row_upd pk k' f t) =
      (if k = k' then map_option f (row_get pk k t) else row_get pk k t)"
    if "\<And>r. pk (f r) = pk r" for f k k' t
    using that by (rule row_get_upd)
  show "row_get pk k (t @ [r]) = (if k = pk r then Some r else row_get pk k t)"
    if "row_get pk (pk r) t = None" for r t k
    using that by (auto simp: row_get_add split: option.splits)
qed (auto simp: row_upd_pk row_get_None_iff dest: row_get_SomeD)

section \<open>Stable sorting\<close>

text \<open>
  Python's \<open>sorted(xs, key=f)\<close> and SQL's \<open>ORDER BY\<close>; for a descending order the key is
  compared the other way round. \<open>sort_key\<close> of the library is stable, as \<open>sorted\<close> is.
\<close>

definition sort_desc :: "('a \<Rightarrow> 'k::linorder) \<Rightarrow> 'a list \<Rightarrow> 'a list" where
  "sort_desc f xs = rev (sort_key f (rev xs))"

lemma set_sort_desc [simp]: "set (sort_desc f xs) = set xs"
  by (simp add: sort_desc_def)

lemma length_sort_desc [simp]: "length (sort_desc f xs) = length xs"
  by (simp add: sort_desc_def)

lemma distinct_sort_desc [simp]: "distinct (sort_desc f xs) = distinct xs"
  by (simp add: sort_desc_def)

lemma sorted_sort_desc: "sorted_wrt (\<lambda>a b. f b \<le> f a) (sort_desc f xs)"
proof -
  have "sorted_wrt (\<lambda>a b. f a \<le> f b) (sort_key f (rev xs))"
    using sorted_sort_key [of f "rev xs"] by (simp add: sorted_map)
  then show ?thesis by (simp add: sort_desc_def sorted_wrt_rev)
qed

section \<open>Reachable states\<close>

text \<open>The states a component can be in: the initial ones, closed under its steps.\<close>

inductive reachable :: "('s \<Rightarrow> bool) \<Rightarrow> ('s \<Rightarrow> 's \<Rightarrow> bool) \<Rightarrow> 's \<Rightarrow> bool"
  for init step where
  start: "init s \<Longrightarrow> reachable init step s"
| move: "reachable init step s \<Longrightarrow> step s t \<Longrightarrow> reachable init step t"

text \<open>
  What a component promises of its states: an inductive invariant. Each component interprets
  this locale with its own steps, and its safety properties are read off \<open>reach_inv\<close>.
\<close>

locale inductive_invariant =
  fixes init :: "'s \<Rightarrow> bool" and step :: "'s \<Rightarrow> 's \<Rightarrow> bool" and inv :: "'s \<Rightarrow> bool"
  assumes inv_init: "init s \<Longrightarrow> inv s"
    and inv_step: "inv s \<Longrightarrow> step s t \<Longrightarrow> inv t"
begin

lemma reach_inv: "reachable init step s \<Longrightarrow> inv s"
  by (induction rule: reachable.induct) (auto intro: inv_init inv_step)

lemma reach_imp: "reachable init step s \<Longrightarrow> (\<And>s. inv s \<Longrightarrow> P s) \<Longrightarrow> P s"
  using reach_inv by blast

lemma inv_steps: "step\<^sup>*\<^sup>* s t \<Longrightarrow> inv s \<Longrightarrow> inv t"
  by (induction rule: rtranclp_induct) (auto intro: inv_step)

end

section \<open>Text\<close>

definition join :: "string \<Rightarrow> string list \<Rightarrow> string" where
  \<comment> \<open>Python's \<open>sep.join(parts)\<close>\<close>
  "join sep parts = (case parts of [] \<Rightarrow> [] | p # ps \<Rightarrow> p @ concat (map (\<lambda>q. sep @ q) ps))"

fun split_on :: "char \<Rightarrow> string \<Rightarrow> string list" where
  \<comment> \<open>Python's \<open>s.split(c)\<close> for one character\<close>
  "split_on c [] = [[]]"
| "split_on c (x # xs) =
     (if x = c then [] # split_on c xs
      else (case split_on c xs of [] \<Rightarrow> [[x]] | p # ps \<Rightarrow> (x # p) # ps))"

definition starts_with :: "string \<Rightarrow> string \<Rightarrow> bool" where
  "starts_with p s = (take (length p) s = p)"

definition ends_with :: "string \<Rightarrow> string \<Rightarrow> bool" where
  "ends_with p s = (length p \<le> length s \<and> drop (length s - length p) s = p)"

definition is_lower :: "char \<Rightarrow> bool" where
  "is_lower c = (CHR ''a'' \<le> c \<and> c \<le> CHR ''z'')"
definition is_upper :: "char \<Rightarrow> bool" where
  "is_upper c = (CHR ''A'' \<le> c \<and> c \<le> CHR ''Z'')"
definition is_digit :: "char \<Rightarrow> bool" where
  "is_digit c = (CHR ''0'' \<le> c \<and> c \<le> CHR ''9'')"
definition is_alpha :: "char \<Rightarrow> bool" where
  "is_alpha c = (is_lower c \<or> is_upper c)"

lemma split_on_neq_Nil [simp]: "split_on c s \<noteq> []"
  by (induction s) (auto split: list.splits)

lemma split_on_no_sep: "p \<in> set (split_on c s) \<Longrightarrow> c \<notin> set p"
  by (induction s arbitrary: p) (auto split: list.splits if_splits)

lemma join_split_on: "join [c] (split_on c s) = s"
proof (induction s)
  case (Cons x xs)
  obtain p ps where "split_on c xs = p # ps"
    by (cases "split_on c xs") auto
  with Cons show ?case by (auto simp: join_def)
qed (simp add: join_def)

section \<open>Decimal numbers\<close>

fun dec :: "nat \<Rightarrow> string" where
  \<comment> \<open>\<open>str(n)\<close>\<close>
  "dec n = (if n < 10 then [char_of (48 + n)] else dec (n div 10) @ [char_of (48 + n mod 10)])"

declare dec.simps [simp del]

definition undec :: "string \<Rightarrow> nat" where
  "undec s = foldl (\<lambda>a c. 10 * a + (of_char c - 48)) 0 s"

lemma undec_dec [simp]: "undec (dec n) = n"
proof (induction n rule: less_induct)
  case (less n)
  have digit: "of_char (char_of (48 + d) :: char) - 48 = d" if "d < 10" for d :: nat
    using that by (simp add: of_char_of)
  show ?case
  proof (cases "n < 10")
    case True
    then show ?thesis using digit [of n] by (simp add: dec.simps [of n] undec_def)
  next
    case False
    then have "undec (dec (n div 10)) = n div 10" by (intro less) simp
    then show ?thesis using False digit [of "n mod 10"] by (simp add: dec.simps [of n] undec_def)
  qed
qed

lemma dec_inject [simp]: "dec m = dec n \<longleftrightarrow> m = n"
  by (metis undec_dec)

end
