(* ===== verification/Admission.thy ===== *)
theory Admission
  imports Prelude
begin

text \<open>
  \<open>runtime/admission.py\<close>: the admission controller of one IO actor, operation by operation,
  each under its lock and therefore one step. Clock readings are arguments: \<open>now\<close> is the reading
  an operation takes first, \<open>rel\<close> the one \<open>_release_capacity_unlocked\<close> takes when the last lease
  goes. The lease id that \<open>uuid.uuid4\<close> draws is an argument too.
\<close>

datatype lease_state = RESERVED | RUNNING

datatype actor_state = IDLE | SHARED_IO | SATURATED_IO | DRAINING

record lease =
  l_id :: string
  l_request_id :: string
  l_task_type :: string
  l_service :: string
  l_revision :: string
  l_state :: lease_state
  l_expires_at :: "time option"

record admission =
  max_io :: int
  lease_ttl_seconds :: time
  active_io :: int
  actor_draining :: bool
  leases :: "(string, lease) dict"
  idle_since :: "time option"

datatype admission_error =
    BadMaxIo | BadTtl | NotIoTask
  | LeaseMissing | LeaseConsumed

section \<open>Operations\<close>

definition new_controller :: "int \<Rightarrow> time \<Rightarrow> time \<Rightarrow> admission_error + admission" where
  "new_controller mx ttl now =
     (if mx < 1 then Inl BadMaxIo
      else if ttl \<le> 0 then Inl BadTtl
      else Inr \<lparr>max_io = mx, lease_ttl_seconds = ttl, active_io = 0, actor_draining = False,
                leases = [], idle_since = Some now\<rparr>)"

definition release_capacity :: "time \<Rightarrow> admission \<Rightarrow> admission" where
  "release_capacity rel a =
     (let n = active_io a - 1 in
      a\<lparr>active_io := n, idle_since := (if n = 0 then Some rel else idle_since a)\<rparr>)"

definition expired :: "time \<Rightarrow> lease \<Rightarrow> bool" where
  "expired now l = (l_state l = RESERVED
     \<and> (case l_expires_at l of None \<Rightarrow> False | Some t \<Rightarrow> t \<le> now))"

definition drop_lease :: "time \<Rightarrow> string \<Rightarrow> admission \<Rightarrow> admission" where
  \<comment> \<open>\<open>leases.pop(lease_id)\<close> and \<open>_release_capacity_unlocked\<close>\<close>
  "drop_lease rel k a = release_capacity rel (a\<lparr>leases := AList.delete k (leases a)\<rparr>)"

definition expire :: "time \<Rightarrow> time \<Rightarrow> admission \<Rightarrow> admission" where
  "expire now rel a =
     fold (drop_lease rel) (map fst (filter (\<lambda>(k, l). expired now l) (leases a))) a"

definition try_reserve :: "string \<Rightarrow> time \<Rightarrow> time \<Rightarrow> string \<Rightarrow> string \<Rightarrow> string \<Rightarrow> string \<Rightarrow>
    admission \<Rightarrow> (admission_error + string option) \<times> admission" where
  "try_reserve lid now rel request_id task_type service revision a0 =
     (let a = expire now rel a0 in
      if actor_draining a then (Inr None, a)
      else if task_type \<noteq> ''io'' then (Inl NotIoTask, a)
      else if active_io a \<ge> max_io a then (Inr None, a)
      else
        let l = \<lparr>l_id = lid, l_request_id = request_id, l_task_type = task_type,
                 l_service = service, l_revision = revision, l_state = RESERVED,
                 l_expires_at = Some (now + lease_ttl_seconds a)\<rparr> in
        (Inr (Some lid),
         a\<lparr>idle_since := (if active_io a = 0 then None else idle_since a),
           active_io := active_io a + 1,
           leases := AList.update lid l (leases a)\<rparr>))"

definition start_lease :: "time \<Rightarrow> time \<Rightarrow> string \<Rightarrow> admission \<Rightarrow>
    (admission_error + lease) \<times> admission" where
  "start_lease now rel lid a0 =
     (let a = expire now rel a0 in
      case map_of (leases a) lid of
        None \<Rightarrow> (Inl LeaseMissing, a)
      | Some l \<Rightarrow>
          if l_state l \<noteq> RESERVED then (Inl LeaseConsumed, a)
          else let l' = l\<lparr>l_state := RUNNING, l_expires_at := None\<rparr> in
               (Inr l', a\<lparr>leases := AList.update lid l' (leases a)\<rparr>))"

definition finish_lease :: "time \<Rightarrow> string \<Rightarrow> admission \<Rightarrow> bool \<times> admission" where
  "finish_lease rel lid a =
     (case map_of (leases a) lid of
        None \<Rightarrow> (False, a)
      | Some l \<Rightarrow> (True, drop_lease rel lid a))"

definition cancel_reservation :: "time \<Rightarrow> string \<Rightarrow> admission \<Rightarrow> bool \<times> admission" where
  "cancel_reservation rel lid a =
     (case map_of (leases a) lid of
        None \<Rightarrow> (False, a)
      | Some l \<Rightarrow> if l_state l \<noteq> RESERVED then (False, a) else (True, drop_lease rel lid a))"

definition drain_actor :: "admission \<Rightarrow> admission" where
  "drain_actor a = a\<lparr>actor_draining := True\<rparr>"

definition state_of :: "admission \<Rightarrow> actor_state" where
  "state_of a =
     (if actor_draining a then DRAINING
      else if active_io a \<ge> max_io a then SATURATED_IO
      else if active_io a \<noteq> 0 then SHARED_IO
      else IDLE)"

record actor_status =
  st_state :: actor_state
  st_active_io :: int
  st_max_io :: int
  st_reserved_leases :: int
  st_running_leases :: int
  st_idle_for_seconds :: time

definition reserved_count :: "admission \<Rightarrow> nat" where
  "reserved_count a = length (filter (\<lambda>(k, l). l_state l = RESERVED) (leases a))"

definition status :: "time \<Rightarrow> time \<Rightarrow> admission \<Rightarrow> actor_status \<times> admission" where
  "status now rel a0 =
     (let a = expire now rel a0; reserved = int (reserved_count a) in
      (\<lparr>st_state = state_of a, st_active_io = active_io a, st_max_io = max_io a,
        st_reserved_leases = reserved,
        st_running_leases = int (length (leases a)) - reserved,
        st_idle_for_seconds =
          (case idle_since a of None \<Rightarrow> 0 | Some t \<Rightarrow> max 0 (now - t))\<rparr>, a))"

section \<open>The invariant\<close>

definition lease_ok :: "string \<times> lease \<Rightarrow> bool" where
  "lease_ok = (\<lambda>(k, l). l_id l = k \<and> l_task_type l = ''io''
     \<and> (l_state l = RESERVED \<longleftrightarrow> l_expires_at l \<noteq> None))"

definition admission_inv :: "admission \<Rightarrow> bool" where
  "admission_inv a \<longleftrightarrow> 1 \<le> max_io a \<and> 0 < lease_ttl_seconds a
     \<and> distinct (map fst (leases a))
     \<and> active_io a = int (length (leases a))
     \<and> active_io a \<le> max_io a
     \<and> (idle_since a \<noteq> None \<longleftrightarrow> active_io a = 0)
     \<and> list_all lease_ok (leases a)"

lemma distinct_keys_delete: "distinct (map fst d) \<Longrightarrow> distinct (map fst (AList.delete k d))"
  by (rule distinct_delete)

lemma drop_lease_fields [simp]:
  "leases (drop_lease rel k a) = AList.delete k (leases a)"
  "max_io (drop_lease rel k a) = max_io a"
  "lease_ttl_seconds (drop_lease rel k a) = lease_ttl_seconds a"
  "actor_draining (drop_lease rel k a) = actor_draining a"
  "active_io (drop_lease rel k a) = active_io a - 1"
  "idle_since (drop_lease rel k a) = (if active_io a = 1 then Some rel else idle_since a)"
  by (auto simp: drop_lease_def release_capacity_def Let_def)

lemma drop_lease_inv:
  assumes "admission_inv a" and "k \<in> fst ` set (leases a)"
  shows "admission_inv (drop_lease rel k a)"
proof -
  have "length (leases a) = Suc (length (AList.delete k (leases a)))"
    using assms by (simp add: admission_inv_def length_delete)
  moreover have "list_all lease_ok (AList.delete k (leases a))"
    using assms by (auto simp: admission_inv_def list_all_iff set_delete)
  ultimately show ?thesis
    using assms by (auto simp: admission_inv_def distinct_keys_delete)
qed

lemma fold_drop_inv:
  assumes "admission_inv a" and "distinct ks" and "set ks \<subseteq> fst ` set (leases a)"
  shows "admission_inv (fold (drop_lease rel) ks a)"
  using assms
proof (induction ks arbitrary: a)
  case (Cons k ks)
  have "set ks \<subseteq> fst ` set (leases (drop_lease rel k a))"
    using Cons.prems by (fastforce simp: set_delete image_iff)
  with Cons show ?case by (simp add: drop_lease_inv)
qed simp

lemma expire_inv: "admission_inv a \<Longrightarrow> admission_inv (expire now rel a)"
  unfolding expire_def
  by (rule fold_drop_inv) (auto simp: admission_inv_def distinct_map_filter)

lemma leases_fold_drop: "leases (fold (drop_lease rel) ks a) = filter (\<lambda>p. fst p \<notin> set ks) (leases a)"
proof (induction ks arbitrary: a)
  case (Cons k ks)
  have "AList.delete k d = filter (\<lambda>p. fst p \<noteq> k) d" for d :: "(string, lease) dict"
    by (induction d) auto
  then show ?case using Cons by (auto intro: filter_cong)
qed simp

lemma expire_leases:
  assumes "distinct (map fst (leases a))"
  shows "leases (expire now rel a) = filter (\<lambda>(k, l). \<not> expired now l) (leases a)"
proof -
  have "fst p \<notin> fst ` {q \<in> set (leases a). expired now (snd q)} \<longleftrightarrow> \<not> expired now (snd p)"
    if "p \<in> set (leases a)" for p
    using that assms by (auto simp: image_iff) (metis eq_key_imp_eq_value prod.collapse)
  then show ?thesis
    by (auto simp: expire_def leases_fold_drop case_prod_unfold intro!: filter_cong)
qed

lemma fold_drop_fields [simp]:
  "max_io (fold (drop_lease rel) ks a) = max_io a"
  "lease_ttl_seconds (fold (drop_lease rel) ks a) = lease_ttl_seconds a"
  "actor_draining (fold (drop_lease rel) ks a) = actor_draining a"
  by (induction ks arbitrary: a) auto

lemma expire_fields [simp]:
  "max_io (expire now rel a) = max_io a"
  "lease_ttl_seconds (expire now rel a) = lease_ttl_seconds a"
  "actor_draining (expire now rel a) = actor_draining a"
  by (simp_all add: expire_def)

lemma expire_idempotent:
  "admission_inv a \<Longrightarrow> expire now rel (expire now rel' a) = expire now rel' a"
proof -
  assume "admission_inv a"
  then have "distinct (map fst (leases a))" by (simp add: admission_inv_def)
  then have "filter (\<lambda>(k, l). expired now l) (leases (expire now rel' a)) = []"
    by (auto simp: expire_leases filter_empty_conv)
  then show ?thesis by (subst expire_def) simp
qed

lemma update_inv:
  assumes "admission_inv a" and "map_of (leases a) k = Some l" and "lease_ok (k, l')"
  shows "admission_inv (a\<lparr>leases := AList.update k l' (leases a)\<rparr>)"
proof -
  have k: "k \<in> fst ` set (leases a)" using assms(2) by (force dest: map_of_SomeD)
  then show ?thesis
    using assms(1,3)
    by (auto simp: admission_inv_def keys_update_old length_update_old list_all_iff set_update)
qed

lemma try_reserve_inv:
  assumes "admission_inv a" and "lid \<notin> fst ` set (leases a)"
  shows "admission_inv (snd (try_reserve lid now rel rq tt sv rv a))"
proof -
  have inv: "admission_inv (expire now rel a)" using assms(1) by (rule expire_inv)
  have "lid \<notin> fst ` set (leases (expire now rel a))"
    using assms by (auto simp: admission_inv_def expire_leases image_iff)
  with inv show ?thesis
    by (auto simp: try_reserve_def Let_def admission_inv_def length_update_new lease_ok_def)
qed

lemma start_lease_inv:
  assumes "admission_inv a" shows "admission_inv (snd (start_lease now rel lid a))"
proof -
  have inv: "admission_inv (expire now rel a)" using assms by (rule expire_inv)
  show ?thesis
  proof (cases "map_of (leases (expire now rel a)) lid")
    case (Some l)
    then have "lease_ok (lid, l)"
      using inv map_of_SomeD [OF Some] by (auto simp: admission_inv_def list_all_iff)
    then have "lease_ok (lid, l\<lparr>l_state := RUNNING, l_expires_at := None\<rparr>)"
      by (simp add: lease_ok_def)
    then show ?thesis using inv Some by (simp add: start_lease_def Let_def update_inv)
  qed (use inv in \<open>simp add: start_lease_def Let_def\<close>)
qed

lemma finish_lease_inv: "admission_inv a \<Longrightarrow> admission_inv (snd (finish_lease rel lid a))"
  by (auto simp: finish_lease_def split: option.splits intro!: drop_lease_inv)
     (force dest: map_of_SomeD)

lemma cancel_reservation_inv:
  "admission_inv a \<Longrightarrow> admission_inv (snd (cancel_reservation rel lid a))"
  by (auto simp: cancel_reservation_def split: option.splits intro!: drop_lease_inv)
     (force dest: map_of_SomeD)

lemma drain_actor_inv: "admission_inv a \<Longrightarrow> admission_inv (drain_actor a)"
  by (simp add: drain_actor_def admission_inv_def)

lemma status_inv: "admission_inv a \<Longrightarrow> admission_inv (snd (status now rel a))"
  by (simp add: status_def Let_def expire_inv)

lemmas operation_invs = try_reserve_inv start_lease_inv finish_lease_inv cancel_reservation_inv
  drain_actor_inv status_inv

section \<open>Runs of the controller\<close>

text \<open>
  One step is one operation, whatever the caller and the clock; a lease id that \<open>uuid4\<close> draws is
  not one of a live lease. \<open>except\<close> bars one id from being drawn again.
\<close>

inductive admission_step :: "string set \<Rightarrow> admission \<Rightarrow> admission \<Rightarrow> bool" for except where
  s_reserve: "lid \<notin> fst ` set (leases a) \<Longrightarrow> lid \<notin> except \<Longrightarrow>
    admission_step except a (snd (try_reserve lid now rel rq tt sv rv a))"
| s_start: "admission_step except a (snd (start_lease now rel lid a))"
| s_finish: "admission_step except a (snd (finish_lease rel lid a))"
| s_cancel: "admission_step except a (snd (cancel_reservation rel lid a))"
| s_drain: "admission_step except a (drain_actor a)"
| s_status: "admission_step except a (snd (status now rel a))"

inductive_cases admission_stepE: "admission_step except a b"

definition fresh_controller :: "admission \<Rightarrow> bool" where
  "fresh_controller a \<longleftrightarrow> (\<exists>mx ttl now. new_controller mx ttl now = Inr a)"

lemma fresh_controller_inv: "fresh_controller a \<Longrightarrow> admission_inv a"
  by (auto simp: fresh_controller_def new_controller_def admission_inv_def split: if_splits)

interpretation admission: inductive_invariant fresh_controller "admission_step {}" admission_inv
proof unfold_locales
  show "admission_inv b" if "admission_inv a" "admission_step {} a b" for a b
    using that(2,1) by cases (auto intro: operation_invs)
qed (rule fresh_controller_inv)

lemma steps_inv: "(admission_step X)\<^sup>*\<^sup>* a b \<Longrightarrow> admission_inv a \<Longrightarrow> admission_inv b"
proof (induction rule: rtranclp_induct)
  case (step b c)
  from step(2) have "admission_step {} b c"
    by cases (auto intro: admission_step.intros)
  with step show ?case using admission.inv_step by blast
qed simp

subsection \<open>What a step does to one lease\<close>

lemma expire_get:
  "admission_inv a \<Longrightarrow> map_of (leases (expire now rel a)) k =
     (case map_of (leases a) k of None \<Rightarrow> None | Some l \<Rightarrow> if expired now l then None else Some l)"
proof -
  assume "admission_inv a"
  then have d: "distinct (map fst (leases a))" by (simp add: admission_inv_def)
  have "map_of (filter (\<lambda>(k, l). \<not> expired now l) d) k =
     (case map_of d k of None \<Rightarrow> None | Some l \<Rightarrow> if expired now l then None else Some l)"
    if "distinct (map fst d)" for d :: "(string, lease) dict"
    using that by (induction d) (auto simp: map_of_None_iff split: option.splits)
  then show ?thesis using d by (simp add: expire_leases)
qed

text \<open>A lease that is not waiting to be started never becomes so again, unless its id is drawn.\<close>

definition not_startable :: "string \<Rightarrow> admission \<Rightarrow> bool" where
  "not_startable lid a \<longleftrightarrow>
     (case map_of (leases a) lid of None \<Rightarrow> True | Some l \<Rightarrow> l_state l = RUNNING)"

lemma not_startable_expire:
  "admission_inv a \<Longrightarrow> not_startable lid a \<Longrightarrow> not_startable lid (expire now rel a)"
  by (auto simp: not_startable_def expire_get split: option.splits)

lemma not_startable_step:
  assumes "admission_step {lid} a b" and "admission_inv a" and "not_startable lid a"
  shows "not_startable lid b"
  using assms(1)
proof cases
  case (s_reserve lid' now rel)
  then show ?thesis using not_startable_expire [OF assms(2,3), of now rel]
    by (auto simp: try_reserve_def Let_def not_startable_def dict_get_update)
next
  case (s_start now rel lid')
  then show ?thesis using not_startable_expire [OF assms(2,3), of now rel]
    by (auto simp: start_lease_def Let_def not_startable_def dict_get_update split: option.splits)
next
  case s_status
  then show ?thesis using not_startable_expire [OF assms(2,3)] by (simp add: status_def Let_def)
qed (use assms(3) in \<open>auto simp: finish_lease_def cancel_reservation_def drain_actor_def
       not_startable_def dict_get_delete split: option.splits\<close>)

lemma not_startable_steps:
  "(admission_step {lid})\<^sup>*\<^sup>* a b \<Longrightarrow> admission_inv a \<Longrightarrow> not_startable lid a \<Longrightarrow> not_startable lid b"
proof (induction rule: rtranclp_induct)
  case (step b c)
  then show ?case using not_startable_step steps_inv by blast
qed simp

lemma not_startable_start:
  "admission_inv a \<Longrightarrow> not_startable lid a \<Longrightarrow> \<exists>e. fst (start_lease now rel lid a) = Inl e"
  using not_startable_expire [of a lid now rel]
  by (auto simp: start_lease_def Let_def not_startable_def split: option.splits)

subsection \<open>Draining\<close>

lemma drained_step:
  assumes "admission_step X a b" and "admission_inv a" and "actor_draining a"
  shows "actor_draining b \<and> set (map fst (leases b)) \<subseteq> set (map fst (leases a))"
proof -
  have e: "fst ` set (leases (expire now rel a)) \<subseteq> fst ` set (leases a)" for now rel
    using assms(2) by (auto simp: admission_inv_def expire_leases)
  show ?thesis
    using assms(1)
  proof cases
    case (s_start now rel lid)
    then show ?thesis using e [of now rel] assms(3)
      by (auto simp: start_lease_def Let_def keys_update_present split: option.splits)
  next
    case (s_reserve lid now rel)
    then show ?thesis using e [of now rel] assms(3) by (auto simp: try_reserve_def Let_def)
  next
    case (s_status now rel)
    then show ?thesis using e [of now rel] assms(3) by (auto simp: status_def Let_def)
  qed (use assms(3) in \<open>auto simp: finish_lease_def cancel_reservation_def drain_actor_def
         set_delete split: option.splits\<close>)
qed

lemma drained_steps:
  "(admission_step X)\<^sup>*\<^sup>* a b \<Longrightarrow> admission_inv a \<Longrightarrow> actor_draining a \<Longrightarrow>
   actor_draining b \<and> set (map fst (leases b)) \<subseteq> set (map fst (leases a))"
proof (induction rule: rtranclp_induct)
  case (step b c)
  then show ?case using drained_step [of X b c] steps_inv [of X a b] by blast
qed simp

section \<open>What the controller promises\<close>

text \<open>
  The contract of an actor's capacity, without clocks, counters and dictionaries: a slot is free,
  reserved or running; a grant needs an open actor and a free slot; a reservation is consumed once
  or lapses; a slot is given back.
\<close>

record slots =
  sl_phase :: "string \<Rightarrow> lease_state option"
  sl_closed :: bool
  sl_capacity :: int

inductive slot_step :: "slots \<Rightarrow> slots \<Rightarrow> bool" where
  sl_grant: "sl_phase s lid = None \<Longrightarrow> \<not> sl_closed s \<Longrightarrow>
    int (card (dom (sl_phase s))) < sl_capacity s \<Longrightarrow>
    slot_step s (s\<lparr>sl_phase := (sl_phase s)(lid \<mapsto> RESERVED)\<rparr>)"
| sl_consume: "sl_phase s lid = Some RESERVED \<Longrightarrow>
    slot_step s (s\<lparr>sl_phase := (sl_phase s)(lid \<mapsto> RUNNING)\<rparr>)"
| sl_lapse: "sl_phase s lid = Some RESERVED \<Longrightarrow>
    slot_step s (s\<lparr>sl_phase := (sl_phase s)(lid := None)\<rparr>)"
| sl_release: "sl_phase s lid = Some RUNNING \<Longrightarrow>
    slot_step s (s\<lparr>sl_phase := (sl_phase s)(lid := None)\<rparr>)"
| sl_close: "slot_step s (s\<lparr>sl_closed := True\<rparr>)"

definition slots_of :: "admission \<Rightarrow> slots" where
  "slots_of a = \<lparr>sl_phase = (\<lambda>k. map_option l_state (map_of (leases a) k)),
                sl_closed = actor_draining a, sl_capacity = max_io a\<rparr>"

lemma slots_of_sel [simp]:
  "sl_phase (slots_of a) = (\<lambda>k. map_option l_state (map_of (leases a) k))"
  "sl_closed (slots_of a) = actor_draining a" "sl_capacity (slots_of a) = max_io a"
  by (simp_all add: slots_of_def)

lemma card_phase:
  "admission_inv a \<Longrightarrow> int (card (dom (sl_phase (slots_of a)))) = active_io a"
proof -
  assume inv: "admission_inv a"
  have "dom (sl_phase (slots_of a)) = fst ` set (leases a)"
    by (auto simp: dom_def map_of_None_iff)
  also have "card \<dots> = length (leases a)"
    using inv distinct_card [of "map fst (leases a)"] by (simp add: admission_inv_def)
  finally show ?thesis using inv by (simp add: admission_inv_def)
qed

lemma slots_drop_lease:
  "map_of (leases a) k = Some l \<Longrightarrow> slot_step (slots_of a) (slots_of (drop_lease rel k a))"
proof -
  assume k: "map_of (leases a) k = Some l"
  have "slots_of (drop_lease rel k a) = (slots_of a)\<lparr>sl_phase := (sl_phase (slots_of a))(k := None)\<rparr>"
    by (auto simp: slots_of_def dict_get_delete)
  moreover have "sl_phase (slots_of a) k = Some (l_state l)" using k by simp
  ultimately show ?thesis
    by (cases "l_state l") (simp_all add: sl_lapse sl_release del: slots_of_sel)
qed

lemma slots_fold_drop:
  assumes "distinct ks" and "\<And>k. k \<in> set ks \<Longrightarrow> map_of (leases a) k \<noteq> None"
  shows "slot_step\<^sup>*\<^sup>* (slots_of a) (slots_of (fold (drop_lease rel) ks a))"
  using assms
proof (induction ks arbitrary: a)
  case (Cons k ks)
  then obtain l where "map_of (leases a) k = Some l" by force
  then have one: "slot_step (slots_of a) (slots_of (drop_lease rel k a))"
    by (rule slots_drop_lease)
  have "slot_step\<^sup>*\<^sup>* (slots_of (drop_lease rel k a)) (slots_of (fold (drop_lease rel) ks (drop_lease rel k a)))"
    using Cons by (intro Cons.IH) (auto simp: dict_get_delete)
  with one show ?case by (auto intro: converse_rtranclp_into_rtranclp)
qed simp

lemma slots_expire:
  "admission_inv a \<Longrightarrow> slot_step\<^sup>*\<^sup>* (slots_of a) (slots_of (expire now rel a))"
  unfolding expire_def
  by (rule slots_fold_drop) (auto simp: admission_inv_def distinct_map_filter map_of_None_iff
      intro: rev_image_eqI)

lemma slots_try_reserve:
  assumes "admission_inv a" and "lid \<notin> fst ` set (leases a)"
  shows "slot_step\<^sup>*\<^sup>* (slots_of a) (slots_of (snd (try_reserve lid now rel rq tt sv rv a)))"
proof -
  let ?e = "expire now rel a"
  have inv: "admission_inv ?e" using assms(1) by (rule expire_inv)
  have fresh: "map_of (leases ?e) lid = None"
    using assms by (simp add: expire_get map_of_None_iff [THEN iffD2])
  show ?thesis
  proof (cases "actor_draining ?e \<or> tt \<noteq> ''io'' \<or> active_io ?e \<ge> max_io ?e")
    case True
    then show ?thesis using slots_expire [OF assms(1), of now rel]
      by (auto simp: try_reserve_def Let_def)
  next
    case False
    then have "slot_step (slots_of ?e) ((slots_of ?e)\<lparr>sl_phase := (sl_phase (slots_of ?e))(lid \<mapsto> RESERVED)\<rparr>)"
      using fresh card_phase [OF inv] by (intro sl_grant) auto
    moreover have "(slots_of ?e)\<lparr>sl_phase := (sl_phase (slots_of ?e))(lid \<mapsto> RESERVED)\<rparr> =
        slots_of (snd (try_reserve lid now rel rq tt sv rv a))"
      using False by (auto simp: try_reserve_def Let_def slots_of_def dict_get_update)
    ultimately show ?thesis using slots_expire [OF assms(1), of now rel] by auto
  qed
qed

lemma slots_start_lease:
  assumes "admission_inv a"
  shows "slot_step\<^sup>*\<^sup>* (slots_of a) (slots_of (snd (start_lease now rel lid a)))"
proof -
  let ?e = "expire now rel a"
  note e = slots_expire [OF assms, of now rel]
  show ?thesis
  proof (cases "\<exists>l. map_of (leases ?e) lid = Some l \<and> l_state l = RESERVED")
    case True
    then obtain l where l: "map_of (leases ?e) lid = Some l" "l_state l = RESERVED" by blast
    then have "slots_of (snd (start_lease now rel lid a)) =
        (slots_of ?e)\<lparr>sl_phase := (sl_phase (slots_of ?e))(lid \<mapsto> RUNNING)\<rparr>"
      by (auto simp: start_lease_def Let_def slots_of_def dict_get_update)
    moreover have "slot_step (slots_of ?e) ((slots_of ?e)\<lparr>sl_phase := (sl_phase (slots_of ?e))(lid \<mapsto> RUNNING)\<rparr>)"
      using l by (intro sl_consume) simp
    ultimately show ?thesis using e by (auto intro: rtranclp.rtrancl_into_rtrancl)
  qed (use e in \<open>auto simp: start_lease_def Let_def split: option.splits\<close>)
qed

lemma slots_step:
  assumes "admission_step X a b" and "admission_inv a"
  shows "slot_step\<^sup>*\<^sup>* (slots_of a) (slots_of b)"
  using assms(1)
proof cases
  case s_drain
  then have "slots_of b = (slots_of a)\<lparr>sl_closed := True\<rparr>" by (simp add: drain_actor_def slots_of_def)
  then show ?thesis by (auto intro: sl_close)
next
  case (s_finish rel lid)
  then show ?thesis
    by (auto simp: finish_lease_def split: option.splits intro: slots_drop_lease)
next
  case (s_cancel rel lid)
  then show ?thesis
    by (auto simp: cancel_reservation_def split: option.splits intro: slots_drop_lease)
qed (use assms(2) in \<open>auto simp: slots_try_reserve slots_start_lease status_def Let_def slots_expire\<close>)

section \<open>Properties\<close>

text \<open>C9. In every state an actor's controller can reach, the counter \<open>active_io\<close> is the number of
  its leases and never exceeds \<open>max_io\<close>; the actor is idle exactly when it has none, and no two
  leases share an id. So the shared actor is never over-admitted and no slot leaks.\<close>

theorem admission_capacity:
  assumes "reachable fresh_controller (admission_step {}) a"
  shows "active_io a = int (length (leases a)) \<and> active_io a \<le> max_io a
    \<and> (idle_since a = None \<longleftrightarrow> 0 < active_io a) \<and> distinct (map fst (leases a))"
  using admission.reach_inv [OF assms] by (auto simp: admission_inv_def)

definition demo_controller :: admission where
  "demo_controller = \<lparr>max_io = 1, lease_ttl_seconds = 15, active_io = 0, actor_draining = False,
     leases = [], idle_since = Some 0\<rparr>"

definition demo_reserved :: admission where
  "demo_reserved = snd (try_reserve ''L1'' 1 1 ''r1'' ''io'' ''svc'' ''rev'' demo_controller)"

lemma demo_reachable: "reachable fresh_controller (admission_step {}) demo_reserved"
proof -
  have "new_controller 1 15 0 = Inr demo_controller"
    by (simp add: new_controller_def demo_controller_def)
  then have "reachable fresh_controller (admission_step {}) demo_controller"
    by (intro reachable.start) (auto simp: fresh_controller_def)
  then show ?thesis
    unfolding demo_reserved_def
    by (rule reachable.move) (rule s_reserve, auto simp: demo_controller_def)
qed

lemma demo_reserved_eq:
  "demo_reserved = \<lparr>max_io = 1, lease_ttl_seconds = 15, active_io = 1, actor_draining = False,
     leases = [(''L1'', \<lparr>l_id = ''L1'', l_request_id = ''r1'', l_task_type = ''io'',
       l_service = ''svc'', l_revision = ''rev'', l_state = RESERVED, l_expires_at = Some 16\<rparr>)],
     idle_since = None\<rparr>"
  by (simp add: demo_reserved_def demo_controller_def try_reserve_def expire_def Let_def)

theorem admission_capacity_witness:
  "active_io demo_reserved = 1 \<and> active_io demo_reserved = int (length (leases demo_reserved))
   \<and> active_io demo_reserved \<le> max_io demo_reserved"
  using admission_capacity [OF demo_reachable] by (simp add: demo_reserved_eq)

text \<open>A reservation is granted exactly when the actor is not draining, the task is an IO task
  and, after the lapsed reservations are dropped, a slot is free; a grant adds that one lease,
  a refusal or an error leaves the leases that have not lapsed.\<close>

theorem try_reserve_grants:
  assumes "admission_inv a" and "lid \<notin> fst ` set (leases a)"
  shows "(fst (try_reserve lid now rel rq tt sv rv a) = Inr (Some lid) \<longleftrightarrow>
      \<not> actor_draining a \<and> tt = ''io''
      \<and> int (length (filter (\<lambda>(k, l). \<not> expired now l) (leases a))) < max_io a)
    \<and> (\<exists>l. leases (snd (try_reserve lid now rel rq tt sv rv a)) =
        filter (\<lambda>(k, l). \<not> expired now l) (leases a)
          @ (if fst (try_reserve lid now rel rq tt sv rv a) = Inr (Some lid) then [(lid, l)] else []))"
proof -
  let ?e = "expire now rel a"
  have e: "leases ?e = filter (\<lambda>(k, l). \<not> expired now l) (leases a)"
    using assms(1) by (simp add: admission_inv_def expire_leases)
  then have "lid \<notin> fst ` set (leases ?e)" using assms(2) by auto
  moreover have "active_io ?e = int (length (leases ?e))"
    using expire_inv [OF assms(1)] by (simp add: admission_inv_def)
  ultimately show ?thesis
    by (auto simp: try_reserve_def Let_def length_update_new e)
qed

theorem try_reserve_grants_witness:
  "fst (try_reserve ''L2'' 20 20 ''r2'' ''io'' ''svc'' ''rev'' demo_reserved) = Inr (Some ''L2'')"
proof -
  have "admission_inv demo_reserved" by (rule admission.reach_inv [OF demo_reachable])
  moreover have "''L2'' \<notin> fst ` set (leases demo_reserved)" by (simp add: demo_reserved_eq)
  ultimately show ?thesis
    using try_reserve_grants [of demo_reserved "''L2''" 20 20 "''r2''" "''io''" "''svc''" "''rev''"]
    by (simp add: demo_reserved_eq expired_def)
qed

text \<open>C29. A lease is consumed at most once: after a successful \<open>start\<close>, whatever operations
  follow, as long as \<open>uuid4\<close> does not draw the same id again, every later \<open>start\<close> of it raises.\<close>

theorem lease_consumed_once:
  assumes "reachable fresh_controller (admission_step {}) a"
    and "fst (start_lease now rel lid a) = Inr l"
    and "(admission_step {lid})\<^sup>*\<^sup>* (snd (start_lease now rel lid a)) b"
  shows "\<exists>e. fst (start_lease now' rel' lid b) = Inl e"
proof -
  have "admission_inv a" using assms(1) by (rule admission.reach_inv)
  then have inv: "admission_inv (snd (start_lease now rel lid a))" by (rule start_lease_inv)
  have "not_startable lid (snd (start_lease now rel lid a))"
    using assms(2)
    by (auto simp: start_lease_def Let_def not_startable_def dict_get_update
        split: option.splits if_splits)
  then have "not_startable lid b" using assms(3) inv not_startable_steps by blast
  then show ?thesis using steps_inv [OF assms(3) inv] by (intro not_startable_start)
qed

theorem lease_consumed_once_witness:
  "\<exists>e. fst (start_lease 3 3 ''L1'' (snd (start_lease 2 2 ''L1'' demo_reserved))) = Inl e"
proof (rule lease_consumed_once [OF demo_reachable])
  show "fst (start_lease 2 2 ''L1'' demo_reserved) =
      Inr \<lparr>l_id = ''L1'', l_request_id = ''r1'', l_task_type = ''io'', l_service = ''svc'',
        l_revision = ''rev'', l_state = RUNNING, l_expires_at = None\<rparr>"
    by (simp add: demo_reserved_eq start_lease_def expire_def expired_def Let_def)
qed simp

text \<open>What the reaper and the retirement of a profile rely on before they kill an actor: once
  a draining actor reports no reserved and no running lease, it has none whatever is called
  afterwards, and it grants none.\<close>

theorem drained_actor_stays_empty:
  assumes "reachable fresh_controller (admission_step {}) a" and "actor_draining a"
    and "st_reserved_leases (fst (status now rel a)) = 0"
    and "st_running_leases (fst (status now rel a)) = 0"
    and "(admission_step {})\<^sup>*\<^sup>* (snd (status now rel a)) b"
  shows "leases b = [] \<and> st_state (fst (status now' rel' b)) = DRAINING
    \<and> (\<forall>lid rq sv rv. fst (try_reserve lid now' rel' rq ''io'' sv rv b) = Inr None)"
proof -
  have inv: "admission_inv (snd (status now rel a))"
    using admission.reach_inv [OF assms(1)] by (rule status_inv)
  have "leases (snd (status now rel a)) = []"
    using assms(3,4) by (simp add: status_def Let_def)
  moreover have "actor_draining (snd (status now rel a))"
    using assms(2) by (simp add: status_def Let_def)
  ultimately have "actor_draining b \<and> leases b = []"
    using drained_steps [OF assms(5) inv] by simp
  then show ?thesis by (simp add: try_reserve_def status_def state_of_def Let_def)
qed

theorem drained_actor_stays_empty_witness:
  "fst (try_reserve ''L2'' 2 2 ''r2'' ''io'' ''svc'' ''rev'' (snd (status 1 1 (drain_actor demo_controller))))
     = Inr None"
proof -
  have "new_controller 1 15 0 = Inr demo_controller"
    by (simp add: new_controller_def demo_controller_def)
  then have "reachable fresh_controller (admission_step {}) demo_controller"
    by (intro reachable.start) (auto simp: fresh_controller_def)
  then have "reachable fresh_controller (admission_step {}) (drain_actor demo_controller)"
    by (rule reachable.move) (rule s_drain)
  then show ?thesis
    using drained_actor_stays_empty [of "drain_actor demo_controller" 1 1
        "snd (status 1 1 (drain_actor demo_controller))" 2 2]
    by (simp add: status_def drain_actor_def demo_controller_def expire_def reserved_count_def Let_def)
qed

text \<open>C10. Every operation of the controller, with its clock, its counter and its dictionary, is
  a sequence of moves of the abstract slots: nothing is granted beyond the capacity or after the
  actor is closed, a reservation is consumed once or lapses, a running slot is only released.\<close>

theorem admission_refines_slots:
  assumes "reachable fresh_controller (admission_step {}) a" and "admission_step {} a b"
  shows "slot_step\<^sup>*\<^sup>* (slots_of a) (slots_of b)"
  using slots_step [OF assms(2) admission.reach_inv [OF assms(1)]] .

theorem admission_refines_slots_witness:
  "slot_step\<^sup>*\<^sup>* (slots_of demo_reserved) (slots_of (snd (start_lease 2 2 ''L1'' demo_reserved)))"
  by (rule admission_refines_slots [OF demo_reachable s_start])

end
