(* ===== verification/Json.thy ===== *)
theory Json
  imports Prelude
begin

text \<open>
  JSON-shaped Python values, as request bodies, manifests and schemas hold them: \<open>None\<close>, booleans,
  unbounded integers, floats, strings, lists and string-keyed dictionaries in insertion order.
  A finite float is the rational it denotes.
\<close>

datatype pyfloat = FNan | FPosInf | FNegInf | Fin rat

datatype json =
    JNull
  | JBool bool
  | JInt int
  | JFloat pyfloat
  | JStr string
  | JArr "json list"
  | JObj "(string \<times> json) list"

type_synonym jdict = "(string, json) dict"

definition dget :: "jdict \<Rightarrow> string \<Rightarrow> json \<Rightarrow> json" where
  \<comment> \<open>\<open>d.get(k, default)\<close>\<close>
  "dget d k dflt = (case map_of d k of None \<Rightarrow> dflt | Some v \<Rightarrow> v)"

definition dfind :: "jdict \<Rightarrow> string \<Rightarrow> json" where
  \<comment> \<open>\<open>d.get(k)\<close>\<close>
  "dfind d k = dget d k JNull"

fun truthy :: "json \<Rightarrow> bool" where
  "truthy JNull = False"
| "truthy (JBool b) = b"
| "truthy (JInt i) = (i \<noteq> 0)"
| "truthy (JFloat (Fin q)) = (q \<noteq> 0)"
| "truthy (JFloat _) = True"
| "truthy (JStr s) = (s \<noteq> [])"
| "truthy (JArr xs) = (xs \<noteq> [])"
| "truthy (JObj d) = (d \<noteq> [])"

fun eq_int :: "json \<Rightarrow> int \<Rightarrow> bool" where
  \<comment> \<open>Python's \<open>v == n\<close>: booleans and floats compare with integers by value\<close>
  "eq_int (JInt i) n = (i = n)"
| "eq_int (JBool b) n = ((if b then 1 else 0) = n)"
| "eq_int (JFloat (Fin q)) n = (q = of_int n)"
| "eq_int _ n = False"

definition dict_merge :: "('k, 'v) dict \<Rightarrow> ('k, 'v) dict \<Rightarrow> ('k, 'v) dict" where
  \<comment> \<open>\<open>{**d, **e}\<close> and \<open>d.update(e)\<close>\<close>
  "dict_merge d e = fold (\<lambda>(k, v). AList.update k v) e d"

lemma dfind_update [dict_simps]:
  "dfind (AList.update k v d) k' = (if k' = k then v else dfind d k')"
  by (simp add: dfind_def dget_def dict_get_update)

lemma dget_update [dict_simps]:
  "dget (AList.update k v d) k' x = (if k' = k then v else dget d k' x)"
  by (simp add: dget_def dict_get_update)

lemma map_of_dict_merge [dict_simps]:
  "distinct (map fst e) \<Longrightarrow>
   map_of (dict_merge d e) k = (case map_of e k of None \<Rightarrow> map_of d k | Some v \<Rightarrow> Some v)"
proof (induction e arbitrary: d)
  case (Cons p e)
  obtain k0 v0 where p: "p = (k0, v0)" by force
  have "dict_merge d (p # e) = dict_merge (AList.update k0 v0 d) e"
    by (simp add: dict_merge_def p)
  moreover have "map_of e k0 = None"
    using Cons.prems by (simp add: p map_of_None_iff)
  ultimately show ?case
    using Cons by (simp add: p dict_get_update split: option.splits)
qed (simp add: dict_merge_def)

lemma distinct_dict_merge [dict_simps]:
  "distinct (map fst d) \<Longrightarrow> distinct (map fst (dict_merge d e))"
  by (induction e arbitrary: d) (auto simp: dict_merge_def distinct_update)

lemma dict_merge_fresh [dict_simps]:
  "distinct (map fst (d @ e)) \<Longrightarrow> dict_merge d e = d @ e"
proof (induction e arbitrary: d)
  case (Cons p e)
  obtain k0 v0 where p: "p = (k0, v0)" by force
  have "dict_merge d (p # e) = dict_merge (AList.update k0 v0 d) e"
    by (simp add: dict_merge_def p)
  also have "AList.update k0 v0 d = d @ [p]"
    using Cons.prems by (auto simp: p length_update_new)
  finally show ?case using Cons by simp
qed (simp add: dict_merge_def)

end
