(* ===== verification/Validation.thy ===== *)
theory Validation
  imports Json "HOL-Library.Word"
begin

text \<open>
  \<open>contracts/validation.py\<close>: validation of a JSON value against a Hook schema, and the schemas
  themselves, built by \<open>to_schema\<close> of \<open>sc_hook/datatype.py\<close> from a Hook type. The specification is
  \<open>inhabits\<close>, membership of a value in a Hook type, stated without schemas.
\<close>

section \<open>Hook types and their schemas\<close>

datatype base_type =
    BFloat | BDouble | BArrowTable | BInt32 | BInt64 | BUint32 | BUint64 | BSint32 | BSint64
  | BFixed32 | BFixed64 | BSfixed32 | BSfixed64 | BBool | BString | BBytes | BDate | BDatetime
  | BDatetimeTz | BInt | BBigint

fun base_name :: "base_type \<Rightarrow> string" where
  "base_name BFloat = ''Float''"
| "base_name BDouble = ''Double''"
| "base_name BArrowTable = ''ArrowTable''"
| "base_name BInt32 = ''Int32''"
| "base_name BInt64 = ''Int64''"
| "base_name BUint32 = ''Uint32''"
| "base_name BUint64 = ''Uint64''"
| "base_name BSint32 = ''Sint32''"
| "base_name BSint64 = ''Sint64''"
| "base_name BFixed32 = ''Fixed32''"
| "base_name BFixed64 = ''Fixed64''"
| "base_name BSfixed32 = ''Sfixed32''"
| "base_name BSfixed64 = ''Sfixed64''"
| "base_name BBool = ''Bool''"
| "base_name BString = ''String''"
| "base_name BBytes = ''Bytes''"
| "base_name BDate = ''Date''"
| "base_name BDatetime = ''Datetime''"
| "base_name BDatetimeTz = ''DatetimeTz''"
| "base_name BInt = ''Int''"
| "base_name BBigint = ''Bigint''"

datatype hook_type =
    HBase base_type
  | HList hook_type
  | HStruct "(string \<times> hook_type) list"

fun to_schema :: "hook_type \<Rightarrow> jdict" where
  "to_schema (HBase b) = [(''type'', JStr (base_name b))]"
| "to_schema (HList t) = [(''type'', JStr ''List''), (''items'', JObj (to_schema t))]"
| "to_schema (HStruct fs) =
     [(''type'', JStr ''Struct''),
      (''required'', JArr (map (\<lambda>(n, t). JStr n) fs)),
      (''additionalProperties'', JBool False),
      (''properties'', JObj (map (\<lambda>(n, t). (n, JObj (to_schema t))) fs))]"

section \<open>Validation\<close>

text \<open>
  \<open>Reject\<close> is a \<open>ContractValidationError\<close> with its location and its message. \<open>Malformed\<close> stands
  for what the code raises on a schema that is not one (\<open>properties\<close> that is no dictionary,
  \<open>required\<close> that is no list of names, a list schema without \<open>items\<close>): a \<open>TypeError\<close>, \<open>KeyError\<close> or
  \<open>AttributeError\<close>. No schema that \<open>to_schema\<close> builds is malformed.
\<close>

datatype reject_reason =
    ExpectedObject | FieldRequired | UnknownField | ExpectedArray
  | ExpectedInteger string | IntegerRange string
  | ExpectedNumber string | NumberRange string
  | ExpectedBoolean | ExpectedString | Unsupported json

datatype validation_error =
    Reject "json list" reject_reason
  | Malformed

definition signed32 :: "string set" where
  "signed32 = {''Int32'', ''Sint32'', ''Sfixed32'', ''Int''}"
definition signed64 :: "string set" where
  "signed64 = {''Int64'', ''Sint64'', ''Sfixed64'', ''Bigint''}"
definition unsigned32 :: "string set" where
  "unsigned32 = {''Uint32'', ''Fixed32''}"
definition unsigned64 :: "string set" where
  "unsigned64 = {''Uint64'', ''Fixed64''}"

definition int_bounds :: "string \<Rightarrow> int \<times> int" where
  "int_bounds kind =
     (let bits = (if kind \<in> signed32 \<union> unsigned32 then 32 else 64 :: nat);
          unsigned = (kind \<in> unsigned32 \<union> unsigned64)
      in (if unsigned then 0 else - (2 ^ (bits - 1)),
          2 ^ (if unsigned then bits else bits - 1) - 1))"

text \<open>
  \<open>math.isfinite\<close> converts an integer to a double first, which overflows from \<open>2^1024 - 2^970\<close> on
  (half an ulp above the largest double); the largest 32-bit float is \<open>(2^24 - 1) * 2^104\<close>.
\<close>

definition double_limit :: int where "double_limit = 2 ^ 1024 - 2 ^ 970"
definition float_max :: int where "float_max = (2 ^ 24 - 1) * 2 ^ 104"

fun number_in_range :: "string \<Rightarrow> json \<Rightarrow> bool" where
  "number_in_range kind (JInt i) =
     (\<bar>i\<bar> < double_limit \<and> \<not> (kind = ''Float'' \<and> \<bar>i\<bar> > float_max))"
| "number_in_range kind (JFloat (Fin q)) = (\<not> (kind = ''Float'' \<and> \<bar>q\<bar> > of_int float_max))"
| "number_in_range kind _ = False"

definition validate_scalar :: "json \<Rightarrow> string \<Rightarrow> json list \<Rightarrow> validation_error + unit" where
  "validate_scalar v kind loc =
     (if kind \<in> signed32 \<union> signed64 \<union> unsigned32 \<union> unsigned64 then
        (case v of
           JInt i \<Rightarrow> if fst (int_bounds kind) \<le> i \<and> i \<le> snd (int_bounds kind) then Inr ()
                     else Inl (Reject loc (IntegerRange kind))
         | _ \<Rightarrow> Inl (Reject loc (ExpectedInteger kind)))
      else if kind \<in> {''Float'', ''Double''} then
        (case v of
           JInt _ \<Rightarrow> if number_in_range kind v then Inr () else Inl (Reject loc (NumberRange kind))
         | JFloat _ \<Rightarrow> if number_in_range kind v then Inr () else Inl (Reject loc (NumberRange kind))
         | _ \<Rightarrow> Inl (Reject loc (ExpectedNumber kind)))
      else if kind = ''Bool'' then
        (case v of JBool _ \<Rightarrow> Inr () | _ \<Rightarrow> Inl (Reject loc ExpectedBoolean))
      else if kind = ''String'' then
        (case v of JStr _ \<Rightarrow> Inr () | _ \<Rightarrow> Inl (Reject loc ExpectedString))
      else Inl (Reject loc (Unsupported (JStr kind))))"

fun as_names :: "json list \<Rightarrow> string list option" where
  "as_names [] = Some []"
| "as_names (JStr s # xs) = map_option (Cons s) (as_names xs)"
| "as_names _ = None"

definition required_names :: "jdict \<Rightarrow> jdict \<Rightarrow> validation_error + string list" where
  \<comment> \<open>\<open>schema.get("required", list(properties))\<close>\<close>
  "required_names schema properties =
     (case map_of schema ''required'' of
        None \<Rightarrow> Inr (map fst properties)
      | Some (JArr xs) \<Rightarrow> of_opt Malformed (as_names xs)
      | Some _ \<Rightarrow> Inl Malformed)"

fun check_required :: "string list \<Rightarrow> jdict \<Rightarrow> json list \<Rightarrow> validation_error + unit" where
  "check_required [] d loc = Inr ()"
| "check_required (n # ns) d loc =
     (if n \<notin> fst ` set d then Inl (Reject (loc @ [JStr n]) FieldRequired)
      else check_required ns d loc)"

text \<open>The branch that \<open>schema.get("type")\<close> selects; an unhashable type raises in \<open>kind in ...\<close>.\<close>

datatype kind = KStruct | KList | KScalar string | KOther json | KUnhashable

definition kind_of :: "jdict \<Rightarrow> kind" where
  "kind_of schema =
     (case dfind schema ''type'' of
        JStr k \<Rightarrow> if k = ''Struct'' then KStruct else if k = ''List'' then KList else KScalar k
      | JArr _ \<Rightarrow> KUnhashable
      | JObj _ \<Rightarrow> KUnhashable
      | j \<Rightarrow> KOther j)"

definition properties_of :: "jdict \<Rightarrow> validation_error + jdict" where
  \<comment> \<open>\<open>schema.get("properties", {})\<close>\<close>
  "properties_of schema =
     (case dget schema ''properties'' (JObj []) of JObj p \<Rightarrow> Inr p | _ \<Rightarrow> Inl Malformed)"

definition extra_allowed :: "jdict \<Rightarrow> bool" where
  "extra_allowed schema = truthy (dget schema ''additionalProperties'' (JBool False))"

function (sequential) validate_value :: "json \<Rightarrow> jdict \<Rightarrow> json list \<Rightarrow> validation_error + unit"
and validate_fields :: "jdict \<Rightarrow> jdict \<Rightarrow> bool \<Rightarrow> json list \<Rightarrow> validation_error + unit"
and validate_items :: "json list \<Rightarrow> json option \<Rightarrow> nat \<Rightarrow> json list \<Rightarrow> validation_error + unit" where
  "validate_value v schema loc =
     (case kind_of schema of
        KStruct \<Rightarrow>
          (case v of
             JObj d \<Rightarrow>
               bindE (properties_of schema) (\<lambda>properties.
               bindE (required_names schema properties) (\<lambda>names.
               bindE (check_required names d loc) (\<lambda>_.
                 validate_fields d properties (extra_allowed schema) loc)))
           | _ \<Rightarrow> Inl (Reject loc ExpectedObject))
      | KList \<Rightarrow>
          (case v of
             JArr xs \<Rightarrow> validate_items xs (map_of schema ''items'') 0 loc
           | _ \<Rightarrow> Inl (Reject loc ExpectedArray))
      | KScalar k \<Rightarrow> validate_scalar v k loc
      | KOther j \<Rightarrow> Inl (Reject loc (Unsupported j))
      | KUnhashable \<Rightarrow> Inl Malformed)"
| "validate_fields [] properties extra loc = Inr ()"
| "validate_fields ((n, child) # d) properties extra loc =
     (case map_of properties n of
        None \<Rightarrow> if \<not> extra then Inl (Reject (loc @ [JStr n]) UnknownField)
                else validate_fields d properties extra loc
      | Some (JObj s) \<Rightarrow>
          bindE (validate_value child s (loc @ [JStr n])) (\<lambda>_. validate_fields d properties extra loc)
      | Some _ \<Rightarrow> Inl Malformed)"
| "validate_items [] items i loc = Inr ()"
| "validate_items (child # xs) items i loc =
     (case items of
        Some (JObj s) \<Rightarrow>
          bindE (validate_value child s (loc @ [JInt (int i)])) (\<lambda>_. validate_items xs items (Suc i) loc)
      | _ \<Rightarrow> Inl Malformed)"
  by pat_completeness auto
termination
  by (relation "measure (\<lambda>x. case x of Inl (v, _) \<Rightarrow> size v
      | Inr (Inl (d, _)) \<Rightarrow> size_list (size_prod (\<lambda>_. 0) size) d
      | Inr (Inr (xs, _)) \<Rightarrow> size_list size xs)") auto

declare validate_value.simps [simp del]

section \<open>The specification\<close>

definition base_inhabits :: "json \<Rightarrow> base_type \<Rightarrow> bool" where
  "base_inhabits v b =
     (case v of
        JInt i \<Rightarrow>
          (b \<in> {BInt32, BSint32, BSfixed32, BInt} \<and> - (2 ^ 31) \<le> i \<and> i < 2 ^ 31)
          \<or> (b \<in> {BInt64, BSint64, BSfixed64, BBigint} \<and> - (2 ^ 63) \<le> i \<and> i < 2 ^ 63)
          \<or> (b \<in> {BUint32, BFixed32} \<and> 0 \<le> i \<and> i < 2 ^ 32)
          \<or> (b \<in> {BUint64, BFixed64} \<and> 0 \<le> i \<and> i < 2 ^ 64)
          \<or> (b = BDouble \<and> \<bar>i\<bar> < double_limit)
          \<or> (b = BFloat \<and> \<bar>i\<bar> \<le> float_max)
      | JFloat (Fin q) \<Rightarrow> b = BDouble \<or> (b = BFloat \<and> \<bar>q\<bar> \<le> of_int float_max)
      | JBool _ \<Rightarrow> b = BBool
      | JStr _ \<Rightarrow> b = BString
      | _ \<Rightarrow> False)"

text \<open>A struct value has exactly the fields of its type; nothing is optional and nothing is extra.\<close>

inductive inhabits :: "json \<Rightarrow> hook_type \<Rightarrow> bool" where
  in_base: "base_inhabits v b \<Longrightarrow> inhabits v (HBase b)"
| in_list: "(\<And>x. x \<in> set xs \<Longrightarrow> inhabits x t) \<Longrightarrow> inhabits (JArr xs) (HList t)"
| in_struct: "fst ` set d = fst ` set fs \<Longrightarrow>
    (\<And>n v. (n, v) \<in> set d \<Longrightarrow> \<exists>t. map_of fs n = Some t \<and> inhabits v t) \<Longrightarrow>
    inhabits (JObj d) (HStruct fs)"

inductive_simps inhabits_base [simp]: "inhabits v (HBase b)"
inductive_simps inhabits_list: "inhabits v (HList t)"
inductive_simps inhabits_struct: "inhabits v (HStruct fs)"

lemma float_max_le: "float_max < double_limit"
  by (simp add: float_max_def double_limit_def)

lemma validate_scalar_base:
  "validate_scalar v (base_name b) loc = Inr () \<longleftrightarrow> base_inhabits v b"
proof -
  note defs = validate_scalar_def base_inhabits_def signed32_def signed64_def unsigned32_def
    unsigned64_def int_bounds_def Let_def
  show ?thesis
  proof (cases v)
    case (JInt i)
    then show ?thesis using float_max_le by (cases b) (auto simp: defs)
  next
    case (JFloat f)
    then show ?thesis by (cases f; cases b) (auto simp: defs)
  qed (cases b; simp add: defs)+
qed

lemma as_names_map [simp]: "as_names (map (\<lambda>(n, t). JStr n) fs) = Some (map fst fs)"
  by (induction fs) (auto simp: case_prod_unfold)

lemma check_required_iff:
  "check_required ns d loc = Inr () \<longleftrightarrow> set ns \<subseteq> fst ` set d"
  by (induction ns) auto

lemma map_of_props:
  "map_of (map (\<lambda>(n, t). (n, JObj (to_schema t))) fs) n = map_option (\<lambda>t. JObj (to_schema t)) (map_of fs n)"
  by (induction fs) auto

lemma unit_all [simp]: "(\<exists>x::unit. P x) \<longleftrightarrow> P ()" by auto

lemma base_name_not [simp]: "base_name b \<noteq> ''Struct''" "base_name b \<noteq> ''List''"
  by (cases b; simp)+

lemma kind_of_to_schema [simp]:
  "kind_of (to_schema (HBase b)) = KScalar (base_name b)"
  "kind_of (to_schema (HList t)) = KList" "kind_of (to_schema (HStruct fs)) = KStruct"
  by (simp_all add: kind_of_def dfind_def dget_def)

lemma struct_schema [simp]:
  "properties_of (to_schema (HStruct fs)) = Inr (map (\<lambda>(n, t). (n, JObj (to_schema t))) fs)"
  "required_names (to_schema (HStruct fs)) p = Inr (map fst fs)"
  "extra_allowed (to_schema (HStruct fs)) = False"
  "map_of (to_schema (HList t)) ''items'' = Some (JObj (to_schema t))"
  by (simp_all add: properties_of_def required_names_def extra_allowed_def dget_def)

declare to_schema.simps [simp del]

text \<open>Each of the three functions, over the schemas that \<open>to_schema\<close> builds.\<close>

definition fields_spec :: "jdict \<Rightarrow> (string \<times> hook_type) list \<Rightarrow> bool" where
  "fields_spec d fs \<longleftrightarrow> (\<forall>(n, v) \<in> set d. \<exists>t. map_of fs n = Some t \<and> inhabits v t)"

lemma fields_spec_Cons:
  "fields_spec ((n, v) # d) fs \<longleftrightarrow> (\<exists>t. map_of fs n = Some t \<and> inhabits v t) \<and> fields_spec d fs"
  by (auto simp: fields_spec_def)

lemma inhabits_struct_iff:
  "inhabits v (HStruct fs) \<longleftrightarrow> (\<exists>d. v = JObj d \<and> fst ` set fs \<subseteq> fst ` set d \<and> fields_spec d fs)"
proof -
  have "fst ` set d \<subseteq> fst ` set fs" if "fields_spec d fs" for d
    using that by (auto simp: fields_spec_def dest!: map_of_SomeD bspec) (metis fst_conv image_eqI)
  then have "fields_spec d fs \<and> fst ` set fs \<subseteq> fst ` set d \<longleftrightarrow>
      fst ` set d = fst ` set fs \<and> fields_spec d fs" for d by blast
  moreover have "fields_spec d fs \<longleftrightarrow>
      (\<forall>n v. (n, v) \<in> set d \<longrightarrow> (\<exists>t. map_of fs n = Some t \<and> inhabits v t))" for d
    by (auto simp: fields_spec_def)
  ultimately show ?thesis by (simp add: inhabits_struct) metis
qed

lemma validate_correct:
  "s = to_schema t \<Longrightarrow> validate_value v s loc = Inr () \<longleftrightarrow> inhabits v t"
  "properties = map (\<lambda>(n, t). (n, JObj (to_schema t))) fs \<Longrightarrow> \<not> extra \<Longrightarrow>
     validate_fields d properties extra loc = Inr () \<longleftrightarrow> fields_spec d fs"
  "items = Some (JObj (to_schema t)) \<Longrightarrow>
     validate_items xs items i loc = Inr () \<longleftrightarrow> (\<forall>x \<in> set xs. inhabits x t)"
proof (induction v s loc and d properties extra loc and xs items i loc arbitrary: t and fs and t
    rule: validate_value_validate_fields_validate_items.induct)
  case (1 v s loc)
  show ?case
  proof (cases t)
    case (HBase b)
    then show ?thesis by (simp add: 1 validate_value.simps validate_scalar_base)
  next
    case (HList u)
    then show ?thesis using 1 by (cases v) (auto simp: validate_value.simps inhabits_list)
  next
    case (HStruct fs)
    then show ?thesis using 1
      by (cases v) (auto simp: validate_value.simps inhabits_struct_iff bindE_eq_Inr check_required_iff)
  qed
next
  case (3 n child d properties extra loc)
  then show ?case
    by (cases "map_of fs n") (auto simp: map_of_props fields_spec_Cons bindE_eq_Inr)
next
  case (5 child xs items i loc)
  then show ?case by (auto simp: bindE_eq_Inr)
qed (auto simp: fields_spec_def)

section \<open>Errors\<close>

definition rejects_below :: "json list \<Rightarrow> validation_error + unit \<Rightarrow> bool" where
  \<comment> \<open>a result that is fine or a contract error at or below a location\<close>
  "rejects_below loc r = (case r of Inr _ \<Rightarrow> True | Inl (Reject l _) \<Rightarrow> (\<exists>p. l = loc @ p) | Inl Malformed \<Rightarrow> False)"

lemma rejects_below_simps [simp]:
  "rejects_below loc (Inr u)" "rejects_below loc (Inl (Reject l r)) \<longleftrightarrow> (\<exists>p. l = loc @ p)"
  "\<not> rejects_below loc (Inl Malformed)"
  by (simp_all add: rejects_below_def)

lemma rejects_below_bindE:
  "rejects_below loc m \<Longrightarrow> (m = Inr () \<Longrightarrow> rejects_below loc k) \<Longrightarrow> rejects_below loc (bindE m (\<lambda>_. k))"
  by (cases m) auto

lemma rejects_below_deeper: "rejects_below (loc @ l) m \<Longrightarrow> rejects_below loc m"
  by (auto simp: rejects_below_def split: sum.splits validation_error.splits)

lemma scalar_rejects_below: "rejects_below loc (validate_scalar v k loc)"
  by (auto simp: validate_scalar_def split: json.splits)

lemma required_rejects_below: "rejects_below loc (check_required ns d loc)"
  by (induction ns) auto

lemma validate_rejects_below:
  "s = to_schema t \<Longrightarrow> rejects_below loc (validate_value v s loc)"
  "properties = map (\<lambda>(n, t). (n, JObj (to_schema t))) fs \<Longrightarrow>
     rejects_below loc (validate_fields d properties extra loc)"
  "items = Some (JObj (to_schema t)) \<Longrightarrow> rejects_below loc (validate_items xs items i loc)"
proof (induction v s loc and d properties extra loc and xs items i loc arbitrary: t and fs and t
    rule: validate_value_validate_fields_validate_items.induct)
  case (1 v s loc)
  show ?case
  proof (cases t)
    case (HBase b)
    then show ?thesis by (simp add: 1 validate_value.simps scalar_rejects_below)
  next
    case (HList u)
    then show ?thesis using 1 by (cases v) (simp_all add: validate_value.simps)
  next
    case (HStruct fs)
    then show ?thesis using 1
      by (cases v) (simp_all add: validate_value.simps rejects_below_bindE required_rejects_below)
  qed
next
  case (3 n child d properties extra loc)
  show ?case
  proof (cases "map_of fs n")
    case None
    with 3 show ?thesis by (simp add: map_of_props)
  next
    case (Some u)
    then have m: "map_of properties n = Some (JObj (to_schema u))"
      by (simp add: 3(4) map_of_props)
    have "rejects_below loc (validate_value child (to_schema u) (loc @ [JStr n]))"
      by (rule rejects_below_deeper) (rule 3(2) [OF m refl refl])
    then show ?thesis
      using 3(3) [OF m refl _ 3(4)] by (simp add: m rejects_below_bindE)
  qed
next
  case (5 child xs items i loc)
  have "rejects_below loc (validate_value child (to_schema t) (loc @ [JInt (int i)]))"
    by (rule rejects_below_deeper) (rule 5(1) [OF 5(3) refl refl])
  then show ?case
    using 5(2) [OF 5(3) refl _ 5(3)] by (simp add: 5(3) rejects_below_bindE)
qed simp_all

section \<open>Properties\<close>

text \<open>C22. Validating a value against the schema of a Hook type accepts exactly the values of that
  type: a struct has all its fields and no other, a list only elements of its type, an integer
  is in the range of its width, a number is finite, and no value is coerced.\<close>

theorem validate_iff_inhabits:
  "validate_value v (to_schema t) loc = Inr () \<longleftrightarrow> inhabits v t"
  by (simp add: validate_correct(1))

text \<open>An integer is accepted for a fixed-width type exactly when it survives the conversion to
  a machine word of that width and signedness: what passes the JSON gateway never wraps around
  in the generated protobuf field.\<close>

theorem accepted_integers_fit:
  "(validate_value (JInt i) (to_schema (HBase BInt32)) loc = Inr ()
      \<longleftrightarrow> sint (word_of_int i :: 32 word) = i)
   \<and> (validate_value (JInt i) (to_schema (HBase BInt64)) loc = Inr ()
      \<longleftrightarrow> sint (word_of_int i :: 64 word) = i)
   \<and> (validate_value (JInt i) (to_schema (HBase BUint32)) loc = Inr ()
      \<longleftrightarrow> uint (word_of_int i :: 32 word) = i)
   \<and> (validate_value (JInt i) (to_schema (HBase BUint64)) loc = Inr ()
      \<longleftrightarrow> uint (word_of_int i :: 64 word) = i)"
  by (simp add: validate_correct(1) base_inhabits_def sint_sbintrunc' uint_word_of_int_eq
      take_bit_int_eq_self_iff signed_take_bit_int_eq_self_iff)

text \<open>Against a schema that \<open>to_schema\<close> built, validation either accepts or raises a contract
  error whose location starts with the location it was given: it never ends in a type or key error,
  whatever the value.\<close>

theorem validation_error_located:
  "validate_value v (to_schema t) loc = Inr ()
   \<or> (\<exists>p r. validate_value v (to_schema t) loc = Inl (Reject (loc @ p) r))"
  using validate_rejects_below(1) [OF refl, of loc v t]
  by (auto simp: rejects_below_def split: sum.splits validation_error.splits)

end
