(* ===== verification/Output.thy ===== *)
theory Output
  imports Prelude
begin

text \<open>
  \<open>runtime/output.py\<close>: the buffer that captures what a script prints, with Python's UTF-8 codec on
  code points. Text is a list of code points, bytes are numbers below 256; lone surrogates are code
  points a Python string can hold and UTF-8 cannot encode. Every method runs under the buffer's
  lock, so it is one step. \<open>datetime.now\<close> is the argument \<open>now\<close>.
\<close>

section \<open>UTF-8\<close>

type_synonym ustr = "nat list"
type_synonym bytes = "nat list"

definition surrogate :: "nat \<Rightarrow> bool" where
  "surrogate c = (55296 \<le> c \<and> c < 57344)"

definition scalar :: "nat \<Rightarrow> bool" where
  "scalar c = (c < 1114112 \<and> \<not> surrogate c)"

definition utf8 :: "nat \<Rightarrow> bytes" where
  "utf8 c =
     (if c < 128 then [c]
      else if c < 2048 then [192 + c div 64, 128 + c mod 64]
      else if c < 65536 then [224 + c div 4096, 128 + (c div 64) mod 64, 128 + c mod 64]
      else [240 + c div 262144, 128 + (c div 4096) mod 64, 128 + (c div 64) mod 64, 128 + c mod 64])"

definition encode_strict :: "ustr \<Rightarrow> bytes option" where
  \<comment> \<open>\<open>s.encode("utf-8")\<close>; \<open>None\<close> is a \<open>UnicodeEncodeError\<close>\<close>
  "encode_strict s = (if list_ex surrogate s then None else Some (concat (map utf8 s)))"

definition encode_replace :: "ustr \<Rightarrow> bytes" where
  \<comment> \<open>\<open>s.encode("utf-8", errors="replace")\<close>: a question mark for what cannot be encoded\<close>
  "encode_replace s = concat (map (\<lambda>c. if surrogate c then [63] else utf8 c) s)"

definition cont :: "nat \<Rightarrow> bool" where
  "cont b = (128 \<le> b \<and> b < 192)"

fun decode_ignore :: "bytes \<Rightarrow> ustr" where
  \<comment> \<open>\<open>b.decode("utf-8", errors="ignore")\<close>: bytes that start no well-formed sequence are dropped\<close>
  "decode_ignore [] = []"
| "decode_ignore (b # bs) =
     (if b < 128 then b # decode_ignore bs
      else if 194 \<le> b \<and> b \<le> 223 then
        (case bs of
           c1 # r \<Rightarrow> if cont c1 then ((b - 192) * 64 + (c1 - 128)) # decode_ignore r
                     else decode_ignore bs
         | [] \<Rightarrow> [])
      else if 224 \<le> b \<and> b \<le> 239 then
        (case bs of
           c1 # c2 # r \<Rightarrow>
             if cont c1 \<and> cont c2 \<and> (b = 224 \<longrightarrow> 160 \<le> c1) \<and> (b = 237 \<longrightarrow> c1 \<le> 159)
             then ((b - 224) * 4096 + (c1 - 128) * 64 + (c2 - 128)) # decode_ignore r
             else decode_ignore bs
         | _ \<Rightarrow> decode_ignore bs)
      else if 240 \<le> b \<and> b \<le> 244 then
        (case bs of
           c1 # c2 # c3 # r \<Rightarrow>
             if cont c1 \<and> cont c2 \<and> cont c3 \<and> (b = 240 \<longrightarrow> 144 \<le> c1) \<and> (b = 244 \<longrightarrow> c1 \<le> 143)
             then ((b - 240) * 262144 + (c1 - 128) * 4096 + (c2 - 128) * 64 + (c3 - 128)) # decode_ignore r
             else decode_ignore bs
         | _ \<Rightarrow> decode_ignore bs)
      else decode_ignore bs)"

declare decode_ignore.simps(2) [simp del]

text \<open>The longest prefix of a text whose encoding has at most \<open>n\<close> bytes.\<close>

fun fit :: "nat \<Rightarrow> ustr \<Rightarrow> ustr" where
  "fit n [] = []"
| "fit n (c # cs) = (if length (utf8 c) \<le> n then c # fit (n - length (utf8 c)) cs else [])"

lemma decode_cont: "cont b \<Longrightarrow> decode_ignore (b # bs) = decode_ignore bs"
  by (simp add: decode_ignore.simps(2) cont_def)

lemma three_bytes:
  "(c::nat) div 4096 * 4096 + c div 64 mod 64 * 64 + c mod 64 = c"
proof -
  have "c div 4096 = c div 64 div 64" by (simp add: div_mult2_eq [symmetric])
  then show ?thesis using div_mult_mod_eq [of c 64] div_mult_mod_eq [of "c div 64" 64] by linarith
qed

lemma four_bytes:
  "(c::nat) div 262144 * 262144 + c div 4096 mod 64 * 4096 + c div 64 mod 64 * 64 + c mod 64 = c"
proof -
  have "c div 262144 = c div 4096 div 64" by (simp add: div_mult2_eq [symmetric])
  then show ?thesis
    using three_bytes [of c] div_mult_mod_eq [of "c div 4096" 64] by linarith
qed

lemma three_ranges:
  fixes a b d c :: nat
  assumes "a * 4096 + b * 64 + d = c" "b < 64" "d < 64" "2048 \<le> c" "c < 65536" "\<not> surrogate c"
  shows "a < 16" "a = 0 \<Longrightarrow> 32 \<le> b" "a = 13 \<Longrightarrow> b \<le> 31"
  using assms unfolding surrogate_def by linarith+

lemma four_ranges:
  fixes a b d e c :: nat
  assumes "a * 262144 + b * 4096 + d * 64 + e = c" "b < 64" "d < 64" "e < 64"
    and "65536 \<le> c" "c < 1114112"
  shows "a < 5" "a = 0 \<Longrightarrow> 16 \<le> b" "a = 4 \<Longrightarrow> b \<le> 15"
  using assms by linarith+

lemma decode1: "b < 128 \<Longrightarrow> decode_ignore (b # bs) = b # decode_ignore bs"
  by (simp add: decode_ignore.simps(2))

lemma decode2:
  "2 \<le> a \<Longrightarrow> a < 32 \<Longrightarrow> d < 64 \<Longrightarrow> decode_ignore ((192 + a) # (128 + d) # bs) = (a * 64 + d) # decode_ignore bs"
  by (simp add: decode_ignore.simps(2) [of "192 + a"] cont_def)

lemma decode3:
  "a < 16 \<Longrightarrow> b < 64 \<Longrightarrow> d < 64 \<Longrightarrow> (a = 0 \<Longrightarrow> 32 \<le> b) \<Longrightarrow> (a = 13 \<Longrightarrow> b \<le> 31) \<Longrightarrow>
   decode_ignore ((224 + a) # (128 + b) # (128 + d) # bs) = (a * 4096 + b * 64 + d) # decode_ignore bs"
  by (simp add: decode_ignore.simps(2) [of "224 + a"] cont_def)

lemma decode4:
  "a < 5 \<Longrightarrow> b < 64 \<Longrightarrow> d < 64 \<Longrightarrow> e < 64 \<Longrightarrow> (a = 0 \<Longrightarrow> 16 \<le> b) \<Longrightarrow> (a = 4 \<Longrightarrow> b \<le> 15) \<Longrightarrow>
   decode_ignore ((240 + a) # (128 + b) # (128 + d) # (128 + e) # bs)
     = (a * 262144 + b * 4096 + d * 64 + e) # decode_ignore bs"
  by (simp add: decode_ignore.simps(2) [of "240 + a"] cont_def)

lemma mod_64: "(x::nat) mod 64 < 64" by simp

lemma decode_utf8:
  assumes "scalar c"
  shows "decode_ignore (utf8 c @ bs) = c # decode_ignore bs"
proof -
  have s: "\<not> surrogate c" and top: "c < 1114112" using assms by (simp_all add: scalar_def)
  consider "c < 128" | "128 \<le> c" "c < 2048" | "2048 \<le> c" "c < 65536" | "65536 \<le> c"
    by linarith
  then show ?thesis
  proof cases
    case 1
    then show ?thesis by (simp add: utf8_def decode1)
  next
    case 2
    have "2 \<le> c div 64" using div_le_mono [OF 2(1), of 64] by simp
    moreover have "c div 64 < 32" using 2(2) by (simp add: less_mult_imp_div_less)
    ultimately show ?thesis using 2 decode2 [of "c div 64" "c mod 64" bs] by (simp add: utf8_def)
  next
    case 3
    note r = three_ranges [OF three_bytes mod_64 mod_64 3 s]
    have "utf8 c = [224 + c div 4096, 128 + c div 64 mod 64, 128 + c mod 64]"
      using 3 by (simp add: utf8_def)
    then show ?thesis
      using decode3 [OF r(1) mod_64 mod_64 r(2,3)] by (simp only: append.simps three_bytes)
  next
    case 4
    note r = four_ranges [OF four_bytes mod_64 mod_64 mod_64 4 top]
    have "utf8 c = [240 + c div 262144, 128 + c div 4096 mod 64, 128 + c div 64 mod 64, 128 + c mod 64]"
      using 4 by (simp add: utf8_def)
    then show ?thesis
      using decode4 [OF r(1) mod_64 mod_64 mod_64 r(2,3)] by (simp only: append.simps four_bytes)
  qed
qed

lemma decode_lead:
  "192 \<le> b \<Longrightarrow> b < 245 \<Longrightarrow> decode_ignore [b] = []"
  "224 \<le> b \<Longrightarrow> b < 245 \<Longrightarrow> cont x \<Longrightarrow> decode_ignore [b, x] = []"
  "240 \<le> b \<Longrightarrow> b < 245 \<Longrightarrow> cont x \<Longrightarrow> cont y \<Longrightarrow> decode_ignore [b, x, y] = []"
  by (simp_all add: decode_ignore.simps(2) [of b] decode_cont)

lemma cont_mod: "cont (128 + x mod 64)"
  using mod_64 [of x] by (simp add: cont_def)

lemma decode_truncated:
  assumes "n < length (utf8 c)" and "scalar c"
  shows "decode_ignore (take n (utf8 c)) = []"
proof -
  have top: "c < 1114112" using assms by (simp add: scalar_def)
  consider "c < 128" | "128 \<le> c" "c < 2048" | "2048 \<le> c" "c < 65536" | "65536 \<le> c"
    by linarith
  then show ?thesis
  proof cases
    case 1
    then show ?thesis using assms by (simp add: utf8_def)
  next
    case 2
    have "n = 0 \<or> n = 1" using 2 assms(1) by (auto simp: utf8_def)
    moreover have "c div 64 < 32" using 2(2) by (simp add: less_mult_imp_div_less)
    ultimately show ?thesis using 2 by (auto simp: utf8_def decode_lead)
  next
    case 3
    have "n = 0 \<or> n = 1 \<or> n = 2" using 3 assms(1) by (auto simp: utf8_def)
    moreover have "c div 4096 < 16" using 3(2) by (simp add: less_mult_imp_div_less)
    ultimately show ?thesis using 3
      by (auto simp: utf8_def decode_lead cont_mod numeral_2_eq_2)
  next
    case 4
    have "n = 0 \<or> n = 1 \<or> n = 2 \<or> n = 3" using 4 assms(1) by (auto simp: utf8_def)
    moreover have "c div 262144 < 5" using top by (simp add: less_mult_imp_div_less)
    ultimately show ?thesis using 4
      by (auto simp: utf8_def decode_lead cont_mod numeral_2_eq_2 numeral_3_eq_3)
  qed
qed

lemma encode_replace_Nil [simp]: "encode_replace [] = []"
  by (simp add: encode_replace_def)

lemma encode_replace_Cons:
  "encode_replace (c # cs) = (if surrogate c then [63] else utf8 c) @ encode_replace cs"
  by (simp add: encode_replace_def)

lemma encode_replace_append [simp]: "encode_replace (s @ t) = encode_replace s @ encode_replace t"
  by (simp add: encode_replace_def)

lemma utf8_nonempty [simp]: "utf8 c \<noteq> []" "0 < length (utf8 c)" "1 \<le> length (utf8 c)"
  by (simp_all add: utf8_def)

lemma utf8_question [simp]: "utf8 63 = [63]" by (simp add: utf8_def)

definition sanitize :: "ustr \<Rightarrow> ustr" where
  "sanitize s = map (\<lambda>c. if surrogate c then 63 else c) s"

lemma sanitize_scalar: "list_all (\<lambda>c. c < 1114112) s \<Longrightarrow> list_all scalar (sanitize s)"
  by (induction s) (auto simp: sanitize_def scalar_def surrogate_def)

lemma encode_replace_sanitize: "encode_replace s = concat (map utf8 (sanitize s))"
  by (induction s) (auto simp: encode_replace_Cons sanitize_def)

lemma decode_take:
  "list_all scalar s \<Longrightarrow> decode_ignore (take n (concat (map utf8 s))) = fit n s"
proof (induction s arbitrary: n)
  case (Cons c cs)
  then show ?case
    by (cases "length (utf8 c) \<le> n") (simp_all add: decode_utf8 decode_truncated)
qed simp

lemma fit_bytes: "length (concat (map utf8 (fit n s))) \<le> n"
  by (induction n s rule: fit.induct) auto

lemma fit_prefix: "\<exists>t. s = fit n s @ t"
  by (induction n s rule: fit.induct) auto

lemma fit_all: "length (concat (map utf8 s)) \<le> n \<Longrightarrow> fit n s = s"
  by (induction n s rule: fit.induct) auto

lemma fit_scalar: "list_all scalar s \<Longrightarrow> list_all scalar (fit n s)"
  by (induction n s rule: fit.induct) auto

lemma scalar_clean: "list_all scalar s \<Longrightarrow> \<not> list_ex surrogate s"
  by (induction s) (auto simp: scalar_def)

lemma sanitize_clean: "\<not> list_ex surrogate s \<Longrightarrow> sanitize s = s"
  by (induction s) (auto simp: sanitize_def)

section \<open>The capture buffer\<close>

datatype log_stream = STDOUT | STDERR

record capture =
  max_bytes :: int
  chunk_bytes :: int
  capture_stderr :: bool
  cap_chunks :: "(log_stream \<times> ustr \<times> time) list"
  pending_stream :: "log_stream option"
  pending_content :: ustr
  pending_at :: "time option"
  cap_bytes :: int
  truncated :: bool
  closed :: bool

record log_chunk =
  chunk_sequence :: nat
  chunk_stream :: log_stream
  chunk_content :: ustr
  chunk_emitted :: time

datatype encode_error = UnicodeEncodeError

definition new_capture :: "int \<Rightarrow> int \<Rightarrow> bool \<Rightarrow> capture" where
  "new_capture mx ch err =
     \<lparr>max_bytes = mx, chunk_bytes = ch, capture_stderr = err, cap_chunks = [], pending_stream = None,
      pending_content = [], pending_at = None, cap_bytes = 0, truncated = False, closed = False\<rparr>"

definition flush_pending :: "time \<Rightarrow> capture \<Rightarrow> capture" where
  "flush_pending now c =
     (case pending_stream c of
        Some st \<Rightarrow>
          if pending_content c = []
          then c\<lparr>pending_stream := None, pending_content := [], pending_at := None\<rparr>
          else c\<lparr>cap_chunks := cap_chunks c @
                   [(st, pending_content c, case pending_at c of Some t \<Rightarrow> t | None \<Rightarrow> now)],
                 pending_stream := None, pending_content := [], pending_at := None\<rparr>
      | None \<Rightarrow> c\<lparr>pending_stream := None, pending_content := [], pending_at := None\<rparr>)"

definition emit :: "log_stream \<Rightarrow> time \<Rightarrow> time \<Rightarrow> ustr \<Rightarrow> ustr \<Rightarrow> capture \<Rightarrow> capture" where
  \<comment> \<open>the body both loops of \<open>_append\<close> share: flush \<open>part\<close>, keep \<open>remainder\<close> pending\<close>
  "emit st ts now part remainder c =
     (flush_pending now (c\<lparr>pending_content := part\<rparr>))
       \<lparr>pending_stream := Some st, pending_content := remainder,
        pending_at := (if remainder = [] then None else Some ts)\<rparr>"

definition split_utf8 :: "ustr \<Rightarrow> int \<Rightarrow> encode_error + (ustr \<times> ustr)" where
  "split_utf8 s n =
     (if n \<le> 0 then Inr ([], s)
      else
        bindE (of_opt UnicodeEncodeError (encode_strict s)) (\<lambda>encoded.
          if int (length encoded) \<le> n then Inr (s, [])
          else
            let part = decode_ignore (take (nat n) encoded) in
            if part = [] then Inr (take 1 s, drop 1 s) else Inr (part, drop (length part) s)))"

function line_loop :: "log_stream \<Rightarrow> time \<Rightarrow> time \<Rightarrow> capture \<Rightarrow> capture" where
  "line_loop st ts now c =
     (if 10 \<in> set (pending_content c)
      then let line = takeWhile (\<lambda>x. x \<noteq> 10) (pending_content c) in
           line_loop st ts now (emit st ts now (line @ [10]) (drop (Suc (length line)) (pending_content c)) c)
      else c)"
  by pat_completeness auto

lemma emit_content [simp]: "pending_content (emit st ts now p r c) = r"
  by (simp add: emit_def)

termination line_loop
  by (relation "measure (\<lambda>(st, ts, now, c). length (pending_content c))")
    (auto intro: diff_less simp: length_pos_if_in_set)

declare line_loop.simps [simp del]

partial_function (option) size_loop ::
  "log_stream \<Rightarrow> time \<Rightarrow> time \<Rightarrow> capture \<Rightarrow> ((encode_error + unit) \<times> capture) option" where
  \<comment> \<open>\<open>None\<close>: the loop does not end; \<open>Inl\<close>: the encoder raised and the buffer stays as it is\<close>
  "size_loop st ts now c =
     (case encode_strict (pending_content c) of
        None \<Rightarrow> Some (Inl UnicodeEncodeError, c)
      | Some encoded \<Rightarrow>
          if chunk_bytes c \<le> int (length encoded)
          then (case split_utf8 (pending_content c) (chunk_bytes c) of
                  Inl e \<Rightarrow> Some (Inl e, c)
                | Inr pr \<Rightarrow> size_loop st ts now (emit st ts now (fst pr) (snd pr) c))
          else Some (Inr (), c))"

definition append_text ::
  "log_stream \<Rightarrow> ustr \<Rightarrow> time \<Rightarrow> time \<Rightarrow> capture \<Rightarrow> ((encode_error + unit) \<times> capture) option" where
  "append_text st s ts now c =
     (let c1 = (if pending_stream c \<noteq> None \<and> pending_stream c \<noteq> Some st then flush_pending now c else c);
          c2 = (if pending_stream c1 = None then c1\<lparr>pending_stream := Some st\<rparr> else c1);
          c3 = c2\<lparr>pending_content := pending_content c2 @ s, pending_at := Some ts\<rparr>
      in size_loop st ts now (line_loop st ts now c3))"

definition write_at ::
  "log_stream \<Rightarrow> ustr \<Rightarrow> time \<Rightarrow> time \<Rightarrow> capture \<Rightarrow> ((encode_error + nat) \<times> capture) option" where
  "write_at st s ts now c =
     (if s = [] then Some (Inr 0, c)
      else if st = STDERR \<and> \<not> capture_stderr c then Some (Inr (length s), c)
      else if closed c then Some (Inr (length s), c)
      else
        let encoded = encode_replace s; remaining = max_bytes c - cap_bytes c in
        if remaining \<le> 0 then Some (Inr (length s), c\<lparr>truncated := True\<rparr>)
        else
          let over = (remaining < int (length encoded));
              s' = (if over then decode_ignore (take (nat remaining) encoded) else s) in
          case (if over then encode_strict s' else Some encoded) of
            None \<Rightarrow> Some (Inl UnicodeEncodeError, c)
          | Some encoded' \<Rightarrow>
              (case append_text st s' ts now (if over then c\<lparr>truncated := True\<rparr> else c) of
                 None \<Rightarrow> None
               | Some (Inl e, c') \<Rightarrow> Some (Inl e, c')
               | Some (Inr _, c') \<Rightarrow>
                   Some (Inr (length s), c'\<lparr>cap_bytes := cap_bytes c' + int (length encoded')\<rparr>)))"

definition close_capture :: "time \<Rightarrow> capture \<Rightarrow> capture" where
  "close_capture now c = (flush_pending now c)\<lparr>closed := True\<rparr>"

definition snapshot :: "time \<Rightarrow> capture \<Rightarrow> (log_chunk list \<times> int \<times> bool) \<times> capture" where
  "snapshot now c =
     (let c1 = flush_pending now c in
      ((map (\<lambda>(i, st, s, t). \<lparr>chunk_sequence = i, chunk_stream = st, chunk_content = s, chunk_emitted = t\<rparr>)
          (enumerate 0 (cap_chunks c1)), cap_bytes c1, truncated c1), c1))"

section \<open>What is retained\<close>

abbreviation encode :: "ustr \<Rightarrow> bytes" where
  "encode s \<equiv> concat (map utf8 s)"

text \<open>The retained text: every code point with the stream it was printed to, in order.\<close>

lemma snd_comp_Pair [simp]: "snd \<circ> Pair x = id"
  by auto

definition chunks_log :: "(log_stream \<times> ustr \<times> time) list \<Rightarrow> (log_stream \<times> nat) list" where
  "chunks_log cs = concat (map (\<lambda>(st, s, t). map (Pair st) s) cs)"

definition cap_log :: "capture \<Rightarrow> (log_stream \<times> nat) list" where
  "cap_log c = chunks_log (cap_chunks c) @
     (case pending_stream c of None \<Rightarrow> [] | Some st \<Rightarrow> map (Pair st) (pending_content c))"

abbreviation cap_text :: "capture \<Rightarrow> ustr" where
  "cap_text c \<equiv> map snd (cap_log c)"

lemma cap_log_frame [simp]:
  "cap_log (c\<lparr>truncated := b\<rparr>) = cap_log c" "cap_log (c\<lparr>cap_bytes := n\<rparr>) = cap_log c"
  "cap_log (c\<lparr>closed := b\<rparr>) = cap_log c"
  by (simp_all add: cap_log_def split: option.split)

text \<open>A stored chunk is a line with its newline, one code point, or at most \<open>chunk_bytes\<close> long.\<close>

definition chunk_shape :: "int \<Rightarrow> ustr \<Rightarrow> bool" where
  "chunk_shape n s = (s \<noteq> [] \<and>
     (last s = 10 \<and> 10 \<notin> set (butlast s) \<or> length s = 1 \<or> int (length (encode s)) \<le> n))"

definition same_settings :: "capture \<Rightarrow> capture \<Rightarrow> bool" where
  "same_settings c c' = (max_bytes c' = max_bytes c \<and> chunk_bytes c' = chunk_bytes c \<and>
     capture_stderr c' = capture_stderr c \<and> cap_bytes c' = cap_bytes c \<and> truncated c' = truncated c \<and>
     closed c' = closed c)"

definition reshaped :: "log_stream \<Rightarrow> capture \<Rightarrow> capture \<Rightarrow> bool" where
  \<comment> \<open>what a loop of \<open>_append\<close> may do: move pending text into well-shaped chunks\<close>
  "reshaped st c c' = (pending_stream c' = Some st \<and> cap_log c' = cap_log c \<and> same_settings c c' \<and>
     (\<exists>new. cap_chunks c' = cap_chunks c @ new \<and> (\<forall>x \<in> set new. chunk_shape (chunk_bytes c) (fst (snd x)))))"

lemma reshaped_refl: "pending_stream c = Some st \<Longrightarrow> reshaped st c c"
  by (simp add: reshaped_def same_settings_def)

lemma reshaped_trans: "reshaped st a b \<Longrightarrow> reshaped st b c \<Longrightarrow> reshaped st a c"
  unfolding reshaped_def same_settings_def by (clarsimp simp: ball_Un)

lemma chunks_log_append [simp]: "chunks_log (a @ b) = chunks_log a @ chunks_log b"
  by (simp add: chunks_log_def)

lemma emit_reshapes:
  assumes "pending_stream c = Some st" and "pending_content c = p @ r"
    and "chunk_shape (chunk_bytes c) p"
  shows "reshaped st c (emit st ts now p r c)"
  using assms
  by (auto simp: reshaped_def emit_def flush_pending_def cap_log_def chunks_log_def chunk_shape_def
    same_settings_def)

lemma first_line:
  assumes "10 \<in> set (s :: ustr)"
  shows "(takeWhile (\<lambda>x. x \<noteq> 10) s @ [10]) @ drop (Suc (length (takeWhile (\<lambda>x. x \<noteq> 10) s))) s = s"
    and "chunk_shape n (takeWhile (\<lambda>x. x \<noteq> 10) s @ [10])"
proof -
  show "(takeWhile (\<lambda>x. x \<noteq> 10) s @ [10]) @ drop (Suc (length (takeWhile (\<lambda>x. x \<noteq> 10) s))) s = s"
    using assms by (induction s) auto
  have "10 \<notin> set (takeWhile (\<lambda>x. x \<noteq> 10) s)" by (auto dest: set_takeWhileD)
  then show "chunk_shape n (takeWhile (\<lambda>x. x \<noteq> 10) s @ [10])" by (simp add: chunk_shape_def)
qed

lemma line_loop_reshapes:
  "pending_stream c = Some st \<Longrightarrow>
   reshaped st c (line_loop st ts now c) \<and> 10 \<notin> set (pending_content (line_loop st ts now c))"
proof (induction st ts now c rule: line_loop.induct)
  case (1 st ts now c)
  show ?case
  proof (cases "10 \<in> set (pending_content c)")
    case True
    let ?l = "takeWhile (\<lambda>x. x \<noteq> 10) (pending_content c)"
    let ?c = "emit st ts now (?l @ [10]) (drop (Suc (length ?l)) (pending_content c)) c"
    have r: "reshaped st c ?c"
      using 1(2) first_line [OF True] by (intro emit_reshapes) simp_all
    then have "pending_stream ?c = Some st" by (simp add: reshaped_def)
    from 1(1) [OF True refl this] r show ?thesis
      unfolding line_loop.simps [of st ts now c] Let_def by (simp add: True) (blast intro: reshaped_trans)
  next
    case False
    then show ?thesis using 1(2) by (simp add: line_loop.simps [of st ts now c] reshaped_refl)
  qed
qed

lemma split_utf8_clean:
  assumes "list_all scalar s" and "1 \<le> n" and "n \<le> int (length (encode s))"
  obtains p r where "split_utf8 s n = Inr (p, r)" and "s = p @ r" and "chunk_shape n p"
proof -
  have e: "encode_strict s = Some (encode s)"
    using scalar_clean [OF assms(1)] by (simp add: encode_strict_def)
  have s: "s \<noteq> []" using assms(2,3) by auto
  obtain r where r: "s = fit (nat n) s @ r" using fit_prefix by blast
  consider "int (length (encode s)) \<le> n" | "n < int (length (encode s))" "fit (nat n) s = []"
    | "n < int (length (encode s))" "fit (nat n) s \<noteq> []" by linarith
  then show thesis
  proof cases
    case 1
    with s e assms(2) that [of s "[]"] show thesis by (simp add: split_utf8_def chunk_shape_def)
  next
    case 2
    have "split_utf8 s n = Inr (take 1 s, drop 1 s)"
      using 2 assms(1,2) e by (simp add: split_utf8_def decode_take)
    then show thesis using that [of "take 1 s" "drop 1 s"] s by (cases s) (simp_all add: chunk_shape_def)
  next
    case 3
    have "split_utf8 s n = Inr (fit (nat n) s, drop (length (fit (nat n) s)) s)"
      using 3 assms(1,2) e by (simp add: split_utf8_def decode_take Let_def)
    moreover have "drop (length (fit (nat n) s)) s = r" by (subst (2) r) simp
    moreover have "int (length (encode (fit (nat n) s))) \<le> n"
      using fit_bytes [of "nat n" s] assms(2) by linarith
    ultimately show thesis using that [OF _ r] 3 by (simp add: chunk_shape_def)
  qed
qed

lemma size_loop_ends:
  assumes "pending_stream c = Some st" and "list_all scalar (pending_content c)" and "1 \<le> chunk_bytes c"
    and "10 \<notin> set (pending_content c)"
  shows "\<exists>c'. size_loop st ts now c = Some (Inr (), c') \<and> reshaped st c c' \<and>
     10 \<notin> set (pending_content c') \<and> int (length (encode (pending_content c'))) < chunk_bytes c"
  using assms
proof (induction "length (pending_content c)" arbitrary: c rule: less_induct)
  case less
  have e: "encode_strict (pending_content c) = Some (encode (pending_content c))"
    using scalar_clean [OF less(3)] by (simp add: encode_strict_def)
  show ?case
  proof (cases "chunk_bytes c \<le> int (length (encode (pending_content c)))")
    case False
    then show ?thesis
      using e less by (simp add: size_loop.simps [of st ts now c] reshaped_refl)
  next
    case True
    obtain p r where pr: "split_utf8 (pending_content c) (chunk_bytes c) = Inr (p, r)"
      "pending_content c = p @ r" "chunk_shape (chunk_bytes c) p"
      using split_utf8_clean [OF less(3,4) True] by blast
    let ?c = "emit st ts now p r c"
    have sh: "reshaped st c ?c" using less(2) pr(2,3) by (rule emit_reshapes)
    then have st: "pending_stream ?c = Some st" "chunk_bytes ?c = chunk_bytes c"
      by (simp_all add: reshaped_def same_settings_def)
    have "length r < length (pending_content c)" using pr(2,3) by (simp add: chunk_shape_def)
    then obtain c' where "size_loop st ts now ?c = Some (Inr (), c')" "reshaped st ?c c'"
      "10 \<notin> set (pending_content c')" "int (length (encode (pending_content c'))) < chunk_bytes c"
      using less(1) [of ?c] st less(3-5) pr(2) by auto
    then show ?thesis
      using e True pr(1) reshaped_trans [OF sh] by (auto simp: size_loop.simps [of st ts now c])
  qed
qed

text \<open>The invariant of a buffer that was only given encodable text, with a positive chunk size.\<close>

definition cap_inv :: "capture \<Rightarrow> bool" where
  "cap_inv c = ((pending_content c \<noteq> [] \<longrightarrow> pending_stream c \<noteq> None) \<and>
     list_all scalar (cap_text c) \<and> cap_bytes c = int (length (encode (cap_text c))) \<and>
     cap_bytes c \<le> max 0 (max_bytes c) \<and> 1 \<le> chunk_bytes c \<and> 10 \<notin> set (pending_content c) \<and>
     int (length (encode (pending_content c))) < chunk_bytes c \<and>
     (\<forall>x \<in> set (cap_chunks c). chunk_shape (chunk_bytes c) (fst (snd x))))"

lemma flush_log: "pending_content c \<noteq> [] \<longrightarrow> pending_stream c \<noteq> None \<Longrightarrow> cap_log (flush_pending now c) = cap_log c"
  by (auto simp: flush_pending_def cap_log_def chunks_log_def split: option.splits)

lemma flush_settings [simp]: "same_settings c (flush_pending now c)"
  by (simp add: flush_pending_def same_settings_def split: option.splits)

lemma flush_pending_empty [simp]:
  "pending_content (flush_pending now c) = []" "pending_stream (flush_pending now c) = None"
  by (simp_all add: flush_pending_def split: option.splits)

lemma flush_chunks:
  "cap_chunks (flush_pending now c) = cap_chunks c \<or>
   (\<exists>st t. cap_chunks (flush_pending now c) = cap_chunks c @ [(st, pending_content c, t)] \<and> pending_content c \<noteq> [])"
  by (auto simp: flush_pending_def split: option.splits)

lemma flush_inv:
  assumes "cap_inv c"
  shows "cap_inv (flush_pending now c)"
proof -
  have "\<forall>x \<in> set (cap_chunks (flush_pending now c)). chunk_shape (chunk_bytes c) (fst (snd x))"
    using flush_chunks [of now c] assms by (auto simp: cap_inv_def chunk_shape_def)
  then show ?thesis
    using assms flush_log [of c now] flush_settings [of c now]
    unfolding cap_inv_def same_settings_def by simp
qed

lemma append_text_ends:
  assumes inv: "cap_inv c" and s: "list_all scalar s"
  shows "\<exists>c'. append_text st s ts now c = Some (Inr (), c') \<and>
     cap_log c' = cap_log c @ map (Pair st) s \<and> same_settings c c' \<and> pending_stream c' = Some st \<and>
     10 \<notin> set (pending_content c') \<and> int (length (encode (pending_content c'))) < chunk_bytes c \<and>
     (\<forall>x \<in> set (cap_chunks c'). chunk_shape (chunk_bytes c) (fst (snd x)))"
proof -
  define c1 where "c1 = (if pending_stream c \<noteq> None \<and> pending_stream c \<noteq> Some st then flush_pending now c else c)"
  define c2 where "c2 = (if pending_stream c1 = None then c1\<lparr>pending_stream := Some st\<rparr> else c1)"
  define c3 where "c3 = c2\<lparr>pending_content := pending_content c2 @ s, pending_at := Some ts\<rparr>"
  define c4 where "c4 = line_loop st ts now c3"
  have p: "pending_content c \<noteq> [] \<longrightarrow> pending_stream c \<noteq> None" using inv by (simp add: cap_inv_def)
  have i1: "cap_inv c1" "cap_log c1 = cap_log c" "same_settings c c1"
    using inv flush_inv [OF inv] flush_log [OF p]
    by (simp_all add: c1_def) (simp add: same_settings_def)
  have i1': "pending_stream c1 = None \<or> pending_stream c1 = Some st"
    by (auto simp: c1_def)
  have i3: "pending_stream c3 = Some st" "cap_log c3 = cap_log c @ map (Pair st) s" "same_settings c c3"
    "cap_chunks c3 = cap_chunks c1"
    using i1 i1' by (auto simp: c3_def c2_def cap_log_def cap_inv_def same_settings_def)
  have r4: "reshaped st c3 c4" "10 \<notin> set (pending_content c4)"
    using line_loop_reshapes [OF i3(1)] by (simp_all add: c4_def)
  then have i4: "pending_stream c4 = Some st" "cap_log c4 = cap_log c @ map (Pair st) s"
    "chunk_bytes c4 = chunk_bytes c" using i3 by (simp_all add: reshaped_def same_settings_def)
  have "set (pending_content c4) \<subseteq> snd ` set (cap_log c4)" using i4(1) by (force simp: cap_log_def)
  then have "list_all scalar (pending_content c4)"
    using i4(2) s inv by (auto simp: list_all_iff cap_inv_def)
  moreover have "1 \<le> chunk_bytes c4" using inv i4(3) by (simp add: cap_inv_def)
  ultimately obtain c5 where c5: "size_loop st ts now c4 = Some (Inr (), c5)" "reshaped st c4 c5"
    "10 \<notin> set (pending_content c5)" "int (length (encode (pending_content c5))) < chunk_bytes c"
    using size_loop_ends [OF i4(1) _ _ r4(2)] i4(3) by metis
  have r5: "reshaped st c3 c5" using r4(1) c5(2) by (rule reshaped_trans)
  then obtain new where new: "cap_chunks c5 = cap_chunks c1 @ new"
    "\<forall>x \<in> set new. chunk_shape (chunk_bytes c3) (fst (snd x))"
    using i3(4) by (auto simp: reshaped_def)
  have "chunk_bytes c3 = chunk_bytes c" "chunk_bytes c1 = chunk_bytes c"
    using i1(3) i3(3) by (simp_all add: same_settings_def)
  then have "\<forall>x \<in> set (cap_chunks c5). chunk_shape (chunk_bytes c) (fst (snd x))"
    using new i1(1) by (auto simp: cap_inv_def)
  moreover have "cap_log c5 = cap_log c @ map (Pair st) s" "pending_stream c5 = Some st"
    using r5 i3(2) by (simp_all add: reshaped_def)
  moreover have "same_settings c c5" using r5 i3(3) by (simp add: reshaped_def same_settings_def)
  moreover have "append_text st s ts now c = Some (Inr (), c5)"
    unfolding append_text_def Let_def c1_def [symmetric] c2_def [symmetric]
      c3_def [symmetric] c4_def [symmetric] by (rule c5(1))
  ultimately show ?thesis using c5(3,4) by blast
qed

text \<open>What a write keeps of the text it is given.\<close>

definition accepted :: "log_stream \<Rightarrow> ustr \<Rightarrow> capture \<Rightarrow> ustr" where
  "accepted st s c =
     (if st = STDERR \<and> \<not> capture_stderr c \<or> closed c then []
      else fit (nat (max_bytes c - cap_bytes c)) s)"

lemma fit_0 [simp]: "fit 0 s = []"
  by (cases s) simp_all

lemma accepted_scalar: "list_all scalar s \<Longrightarrow> list_all scalar (accepted st s c)"
  by (simp add: accepted_def fit_scalar)

lemma write_ends:
  assumes inv: "cap_inv c" and s: "list_all scalar s"
  shows "\<exists>c'. write_at st s ts now c = Some (Inr (length s), c') \<and> cap_inv c' \<and>
     cap_log c' = cap_log c @ map (Pair st) (accepted st s c) \<and>
     max_bytes c' = max_bytes c \<and> chunk_bytes c' = chunk_bytes c \<and>
     truncated c' = (truncated c \<or>
       accepted st s c \<noteq> s \<and> \<not> (st = STDERR \<and> \<not> capture_stderr c) \<and> \<not> closed c)"
proof (cases "s = [] \<or> st = STDERR \<and> \<not> capture_stderr c \<or> closed c \<or> max_bytes c \<le> cap_bytes c")
  case True
  define c' where "c' = (if s = [] \<or> st = STDERR \<and> \<not> capture_stderr c \<or> closed c then c
    else c\<lparr>truncated := True\<rparr>)"
  have "write_at st s ts now c = Some (Inr (length s), c')"
    using True by (elim disjE) (simp_all add: write_at_def c'_def Let_def)
  moreover have "cap_inv c'" "cap_log c' = cap_log c" "max_bytes c' = max_bytes c"
    "chunk_bytes c' = chunk_bytes c"
    using inv by (simp_all add: c'_def cap_inv_def)
  moreover have a: "accepted st s c = []" using True by (auto simp: accepted_def)
  moreover have "truncated c' = (truncated c \<or> [] \<noteq> s \<and> \<not> (st = STDERR \<and> \<not> capture_stderr c) \<and> \<not> closed c)"
    by (auto simp: c'_def)
  ultimately show ?thesis unfolding a by simp
next
  case False
  let ?r = "max_bytes c - cap_bytes c" and ?a = "accepted st s c"
  have a: "?a = fit (nat ?r) s" using False by (auto simp: accepted_def)
  have clean: "\<not> list_ex surrogate s" "encode_replace s = encode s"
    using scalar_clean [OF s] sanitize_clean encode_replace_sanitize by metis+
  define over where "over = (?r < int (length (encode s)))"
  have short: "int (length (encode ?a)) \<le> ?r"
    using False fit_bytes [of "nat ?r" s] unfolding a by linarith
  have same: "(?a = s) = (\<not> over)"
    using short fit_all [of s "nat ?r"] a False by (auto simp: over_def)
  let ?c = "if over then c\<lparr>truncated := True\<rparr> else c"
  have inv': "cap_inv ?c" "cap_log ?c = cap_log c" using inv by (simp_all add: cap_inv_def)
  obtain c' where c': "append_text st ?a ts now ?c = Some (Inr (), c')"
      "cap_log c' = cap_log c @ map (Pair st) ?a" "same_settings ?c c'" "pending_stream c' = Some st"
      "10 \<notin> set (pending_content c')" "int (length (encode (pending_content c'))) < chunk_bytes c"
      "\<forall>x \<in> set (cap_chunks c'). chunk_shape (chunk_bytes c) (fst (snd x))"
    using append_text_ends [OF inv'(1) accepted_scalar [OF s, of st c], of st ts now] inv'(2) by (auto split: if_splits)
  have e: "encode_strict ?a = Some (encode ?a)"
    using scalar_clean [OF accepted_scalar [OF s]] by (simp add: encode_strict_def)
  have "write_at st s ts now c = Some (Inr (length s), c'\<lparr>cap_bytes := cap_bytes c' + int (length (encode ?a))\<rparr>)"
    using False c'(1) e same a clean decode_take [OF s]
    by (cases over; cases st) (simp_all add: write_at_def over_def Let_def)
  moreover have set: "max_bytes c' = max_bytes c" "chunk_bytes c' = chunk_bytes c"
    "cap_bytes c' = cap_bytes c" "truncated c' = (over \<or> truncated c)"
    using c'(3) by (cases over; simp add: same_settings_def)+
  moreover have "cap_inv (c'\<lparr>cap_bytes := cap_bytes c' + int (length (encode ?a))\<rparr>)"
    using inv c' short accepted_scalar [OF s, of st c] set c'(2) by (simp add: cap_inv_def)
  ultimately show ?thesis using c'(2) same False by auto
qed

section \<open>The buffer as a state machine\<close>

text \<open>The calls of the runtime: writes of encodable text, closing, and taking a snapshot.\<close>

inductive capture_step :: "capture \<Rightarrow> capture \<Rightarrow> bool" where
  "list_all scalar s \<Longrightarrow> write_at st s ts now c = Some (r, c') \<Longrightarrow> capture_step c c'"
| "capture_step c (close_capture now c)"
| "capture_step c (snd (snapshot now c))"

inductive_cases capture_stepE: "capture_step c c'"

definition capture_init :: "int \<Rightarrow> int \<Rightarrow> capture \<Rightarrow> bool" where
  "capture_init mx ch c = (1 \<le> ch \<and> (\<exists>err. c = new_capture mx ch err))"

lemma capture_step_inv:
  assumes "cap_inv c" and "capture_step c c'"
  shows "cap_inv c' \<and> max_bytes c' = max_bytes c \<and> chunk_bytes c' = chunk_bytes c"
  using assms(2)
proof cases
  case (1 s st ts now r)
  then show ?thesis using write_ends [OF assms(1) 1(1), of st ts now] by auto
next
  case (2 now)
  then show ?thesis using flush_inv [OF assms(1), of now] flush_settings [of c now]
    by (simp add: close_capture_def cap_inv_def same_settings_def)
next
  case (3 now)
  then show ?thesis using flush_inv [OF assms(1), of now] flush_settings [of c now]
    by (simp add: snapshot_def Let_def same_settings_def)
qed

interpretation capture: inductive_invariant "capture_init mx ch" capture_step
  "\<lambda>c. cap_inv c \<and> max_bytes c = mx \<and> chunk_bytes c = ch"
proof unfold_locales
  show "cap_inv c \<and> max_bytes c = mx \<and> chunk_bytes c = ch" if "capture_init mx ch c" for c
    using that by (auto simp: capture_init_def new_capture_def cap_inv_def cap_log_def chunks_log_def)
qed (use capture_step_inv in blast)

lemma chunks_log_text: "map snd (chunks_log cs) = concat (map (\<lambda>x. fst (snd x)) cs)"
  by (induction cs) (auto simp: chunks_log_def comp_def)

lemma enumerate_sequence:
  "map chunk_sequence (map (\<lambda>(i, st, s, t). \<lparr>chunk_sequence = i, chunk_stream = st, chunk_content = s,
     chunk_emitted = t\<rparr>) (enumerate n cs)) = [n..<n + length cs]"
  by (induction cs arbitrary: n) (auto simp: upt_rec)

lemma enumerate_content:
  "map chunk_content (map (\<lambda>(i, st, s, t). \<lparr>chunk_sequence = i, chunk_stream = st, chunk_content = s,
     chunk_emitted = t\<rparr>) (enumerate n cs)) = map (\<lambda>x. fst (snd x)) cs"
  by (induction cs arbitrary: n) auto

lemma snapshot_chunks:
  assumes "snapshot now c = ((chunks, n, tr), c')"
  shows "map chunk_sequence chunks = [0..<length chunks]"
    and "map chunk_content chunks = map (\<lambda>x. fst (snd x)) (cap_chunks (flush_pending now c))"
    and "n = cap_bytes c" and "c' = flush_pending now c"
  using assms enumerate_sequence [of 0 "cap_chunks (flush_pending now c)"]
    enumerate_content [of 0 "cap_chunks (flush_pending now c)"] flush_settings [of c now]
  by (auto simp: snapshot_def Let_def same_settings_def simp del: list.map_comp map_map)

section \<open>Properties\<close>

text \<open>C20. A write of encodable text on a buffer with a positive chunk size always returns, with the
  length of the text it was given: the buffer then holds, in order and under the right stream, what it
  held before followed by the longest prefix of the text that still fits into \<open>max_bytes\<close> (nothing
  after closing, or for a stream that is not captured), and is marked truncated exactly when something
  was cut off.\<close>

theorem write_retains_prefix:
  assumes "cap_inv c" and "list_all scalar s"
  shows "\<exists>c'. write_at st s ts now c = Some (Inr (length s), c') \<and>
     cap_log c' = cap_log c @ map (Pair st) (accepted st s c) \<and>
     truncated c' = (truncated c \<or>
       accepted st s c \<noteq> s \<and> \<not> (st = STDERR \<and> \<not> capture_stderr c) \<and> \<not> closed c)"
  using write_ends [OF assms, of st ts now] by blast

lemma new_capture_inv: "1 \<le> ch \<Longrightarrow> cap_inv (new_capture mx ch err)"
  by (simp add: cap_inv_def new_capture_def cap_log_def chunks_log_def)

lemma new_capture_settings [simp]:
  "cap_log (new_capture mx ch err) = []" "max_bytes (new_capture mx ch err) = mx"
  "chunk_bytes (new_capture mx ch err) = ch" "capture_stderr (new_capture mx ch err) = err"
  "cap_bytes (new_capture mx ch err) = 0" "closed (new_capture mx ch err) = False"
  "pending_content (new_capture mx ch err) = []" "pending_stream (new_capture mx ch err) = None"
  by (simp_all add: cap_log_def new_capture_def chunks_log_def)

lemma euro_scalar: "list_all scalar [97, 8364, 10, 98]"
  by (simp add: scalar_def surrogate_def)

theorem write_retains_prefix_witness:
  "\<exists>c'. write_at STDOUT [97, 8364, 10, 98] 1 1 (new_capture 4 2 True) = Some (Inr 4, c') \<and>
     map snd (cap_log c') = [97, 8364] \<and> truncated c'"
  using write_retains_prefix [OF new_capture_inv [of 2 4 True] euro_scalar, of STDOUT 1 1]
  by (auto simp: accepted_def utf8_def new_capture_settings)


text \<open>A buffer whose snapshot is computed: "hi", a newline and "!" written with three bytes to spare.\<close>

lemma demo_capture_reachable:
  assumes "write_at STDOUT [104, 105, 10, 33] 1 1 (new_capture 3 2 True) = Some (r, c)"
  shows "reachable (capture_init 3 2) capture_step c"
proof (rule reachable.move)
  show "reachable (capture_init 3 2) capture_step (new_capture 3 2 True)"
    by (rule reachable.start) (auto simp: capture_init_def)
  have "list_all scalar [104, 105, 10, 33]" by (simp add: scalar_def surrogate_def)
  then show "capture_step (new_capture 3 2 True) c" using assms by (rule capture_step.intros)
qed


section \<open>Where the buffer misbehaves\<close>

lemma size_loop_diverges_aux:
  "size_loop st ts now c = Some r \<Longrightarrow>
   list_all scalar (pending_content c) \<Longrightarrow> chunk_bytes c \<le> 0 \<Longrightarrow> pending_stream c = Some st \<Longrightarrow> False"
proof (induction rule: size_loop.raw_induct [rotated, consumes 1, case_names 1])
  case (1 rec st ts now c r)
  have "encode_strict (pending_content c) = Some (encode (pending_content c))"
    using scalar_clean [OF 1(3)] by (simp add: encode_strict_def)
  then have *: "rec st ts now (emit st ts now [] (pending_content c) c) = Some r"
    using 1(2,4) by (simp add: split_utf8_def)
  moreover have "chunk_bytes (emit st ts now [] (pending_content c) c) \<le> 0"
    "pending_stream (emit st ts now [] (pending_content c) c) = Some st"
    using 1(4,5) by (simp_all add: emit_def flush_pending_def)
  ultimately show False using 1(1) [OF *] 1(3) by simp
qed

text \<open>With \<open>chunk_bytes\<close> zero or negative the first write of encodable text that reaches the buffer
  never returns: the loop of \<open>_append\<close> keeps splitting off empty parts, holding the lock.\<close>

theorem nonpositive_chunk_size_diverges:
  assumes "ch \<le> 0" and "0 < mx" and "list_all scalar s" and "s \<noteq> []"
    and "10 \<notin> set s" and "int (length (encode s)) \<le> mx"
  shows "write_at STDOUT s ts now (new_capture mx ch err) = None"
proof -
  have clean: "encode_replace s = encode s"
    using sanitize_clean [OF scalar_clean [OF assms(3)]] by (simp add: encode_replace_sanitize)
  let ?c = "new_capture mx ch err\<lparr>pending_stream := Some STDOUT, pending_content := s, pending_at := Some ts\<rparr>"
  have "size_loop STDOUT ts now ?c = None"
    using size_loop_diverges_aux [of STDOUT ts now ?c] assms by (cases "size_loop STDOUT ts now ?c") auto
  then show ?thesis using assms clean
    by (simp add: write_at_def append_text_def Let_def line_loop.simps)
qed

theorem nonpositive_chunk_size_diverges_witness:
  "write_at STDOUT [120] 1 1 (new_capture 10 0 True) = None"
  by (rule nonpositive_chunk_size_diverges) (simp_all add: scalar_def surrogate_def utf8_def)

lemma append_poison:
  assumes "10 \<notin> set (pending_content c)" and "10 \<notin> set s"
    and "list_ex surrogate s \<or> pending_stream c = Some st \<and> list_ex surrogate (pending_content c)"
  shows "\<exists>c'. append_text st s ts now c = Some (Inl UnicodeEncodeError, c') \<and> pending_stream c' = Some st \<and>
    list_ex surrogate (pending_content c') \<and> 10 \<notin> set (pending_content c') \<and> same_settings c c'"
proof -
  define c1 where "c1 = (if pending_stream c \<noteq> None \<and> pending_stream c \<noteq> Some st then flush_pending now c else c)"
  define c2 where "c2 = (if pending_stream c1 = None then c1\<lparr>pending_stream := Some st\<rparr> else c1)"
  define c3 where "c3 = c2\<lparr>pending_content := pending_content c2 @ s, pending_at := Some ts\<rparr>"
  have "10 \<notin> set (pending_content c3)" "list_ex surrogate (pending_content c3)"
    using assms by (auto simp: c3_def c2_def c1_def)
  moreover have "pending_stream c3 = Some st" by (auto simp: c3_def c2_def c1_def)
  moreover have "same_settings c c1" by (simp add: c1_def) (simp add: same_settings_def)
  then have "same_settings c c3" by (simp add: c3_def c2_def same_settings_def)
  moreover have "append_text st s ts now c = Some (Inl UnicodeEncodeError, c3)"
    unfolding append_text_def Let_def c1_def [symmetric] c2_def [symmetric] c3_def [symmetric]
    using calculation(1,2)
    by (simp add: line_loop.simps size_loop.simps [of st ts now c3] encode_strict_def)
  ultimately show ?thesis by blast
qed

lemma write_poison:
  assumes "10 \<notin> set (pending_content c)" and "10 \<notin> set s" and "s \<noteq> []"
    and "list_ex surrogate s \<or> pending_stream c = Some st \<and> list_ex surrogate (pending_content c)"
    and "capture_stderr c" and "\<not> closed c"
    and "cap_bytes c + int (length (encode_replace s)) \<le> max_bytes c"
  shows "\<exists>c'. write_at st s ts now c = Some (Inl UnicodeEncodeError, c') \<and> pending_stream c' = Some st \<and>
    list_ex surrogate (pending_content c') \<and> 10 \<notin> set (pending_content c') \<and> same_settings c c'"
proof -
  have "0 < length (encode_replace s)" using assms(3) by (cases s) (simp_all add: encode_replace_Cons)
  then have "0 < max_bytes c - cap_bytes c" using assms(7) by linarith
  then show ?thesis using append_poison [OF assms(1,2,4), of ts now] assms(3,5,6,7)
    by (auto simp: write_at_def Let_def)
qed

text \<open>C30. Although \<open>write\<close> encodes with \<open>errors="replace"\<close>, printing a lone surrogate raises
  \<open>UnicodeEncodeError\<close> into the script, and leaves the surrogate pending: every later print to the same
  stream without a newline raises as well, however harmless its text.\<close>

theorem surrogate_poisons_stream:
  assumes "list_ex surrogate s" and "10 \<notin> set s" and "t \<noteq> []" and "10 \<notin> set t"
    and "int (length (encode_replace s)) \<le> mx" and "int (length (encode_replace t)) \<le> mx"
  shows "\<exists>c c'. write_at st s ts now (new_capture mx ch True) = Some (Inl UnicodeEncodeError, c) \<and>
     write_at st t ts now c = Some (Inl UnicodeEncodeError, c') \<and> cap_bytes c' = 0"
proof -
  have "s \<noteq> []" using assms(1) by auto
  then obtain c where c: "write_at st s ts now (new_capture mx ch True) = Some (Inl UnicodeEncodeError, c)"
    "pending_stream c = Some st" "list_ex surrogate (pending_content c)" "10 \<notin> set (pending_content c)"
    "same_settings (new_capture mx ch True) c"
    using write_poison [of "new_capture mx ch True" s st ts now] assms(1,2,5) by auto
  then show ?thesis
    using write_poison [of c t st ts now] assms(3,4,6) by (auto simp: same_settings_def)
qed

theorem surrogate_poisons_stream_witness:
  "\<exists>c c'. write_at STDOUT [97, 55296] 1 1 (new_capture 100 8 True) = Some (Inl UnicodeEncodeError, c) \<and>
     write_at STDOUT [98] 1 1 c = Some (Inl UnicodeEncodeError, c') \<and> cap_bytes c' = 0"
  by (rule surrogate_poisons_stream) (simp_all add: surrogate_def encode_replace_def utf8_def)

end
