(* ===== verification/Database.thy ===== *)
theory Database
  imports Json Output
begin

text \<open>
  The tables of \<open>models.py\<close> as the repository sees them. A table is the list of its rows, in insertion
  order; a primary key or unique constraint that an insert violates, and a foreign key without its
  parent row, is \<open>IntegrityError\<close>. A method of the repository is a function from the database to an
  exception or a value and the new database: \<open>session_scope\<close> commits on return and rolls back on an
  exception, so an exception leaves the database as it was. \<open>uuid4\<close> and the clock are the \<open>call\<close>
  argument: one reading of the clock per call, and the identifiers drawn in it, in order.
\<close>

section \<open>Enumerations\<close>

datatype service_status = SvcRegistered | SvcActive | SvcStopped

datatype revision_status =
  RevBuilding | RevReady | RevActive | RevDraining | RevRetired | RevFailed

datatype invocation_status =
  InvAccepted | InvRunning | InvSucceeded | InvFailed | InvCancelled | InvTimedOut

datatype execution_kind = IoActor | ComputeTask

datatype contract_status = ContractReady | ContractFailed

datatype profile_status =
  ProfValidating | ProfReady | ProfActive | ProfFailed | ProfRetiring | ProfRetired

datatype tracking = Pinned | TrackActive

fun tracking_value :: "tracking \<Rightarrow> string" where
  "tracking_value Pinned = ''PINNED''"
| "tracking_value TrackActive = ''TRACK_ACTIVE''"

section \<open>Rows\<close>

type_synonym uuid = nat

record service =
  svc_id :: uuid
  svc_name :: string
  svc_git_url :: string
  svc_git_branch :: "string option"
  svc_tracking :: string
  svc_interval :: "int option"
  svc_token_hash :: "string option"
  svc_webhook_at :: "time option"
  svc_profile :: "string option"
  svc_profile_mode :: "tracking option"
  svc_status :: service_status
  svc_active_rev :: "uuid option"
  svc_created :: time
  svc_updated :: time

definition webhook_enabled :: "service \<Rightarrow> bool" where
  "webhook_enabled s = (svc_token_hash s \<noteq> None)"

record api_token =
  tok_id :: uuid
  tok_name :: string
  tok_hash :: string
  tok_prefix :: string
  tok_created :: time
  tok_revoked :: "time option"

record admin =
  adm_user :: string
  adm_hash :: string
  adm_version :: int
  adm_created :: time
  adm_updated :: time

record revision =
  rev_id :: uuid
  rev_service :: uuid
  rev_name :: string
  rev_uri :: string
  rev_digest :: string
  rev_profile :: string
  rev_status :: revision_status
  rev_manifest :: jdict
  rev_created :: time
  rev_activated :: "time option"

record runtime_label =
  lbl_id :: uuid
  lbl_name :: string
  lbl_active :: "uuid option"
  lbl_created :: time
  lbl_updated :: time

record profile_version =
  pv_id :: uuid
  pv_label :: uuid
  pv_version :: int
  pv_ref :: string
  pv_python :: string
  pv_pool :: string
  pv_pip_source :: string
  pv_pip_index :: "string option"
  pv_requested :: "string list"
  pv_resolved :: "(string, string) dict"
  pv_imports :: "string list"
  pv_digest :: "string option"
  pv_env :: jdict
  pv_result :: jdict
  pv_status :: profile_status
  pv_error :: "string option"
  pv_created :: time
  pv_validated :: "time option"
  pv_retired :: "time option"

record binding =
  bnd_rev :: uuid
  bnd_label :: uuid
  bnd_version :: uuid
  bnd_mode :: tracking
  bnd_digest :: string
  bnd_result :: jdict
  bnd_created :: time

record endpoint =
  ep_id :: uuid
  ep_rev :: uuid
  ep_name :: string
  ep_task :: string
  ep_entry :: string
  ep_request :: jdict
  ep_response :: jdict

record policy =
  pol_service :: uuid
  pol_endpoint :: string
  pol_count :: int
  pol_updated :: time

record contract =
  ct_id :: uuid
  ct_service :: uuid
  ct_schema :: string
  ct_source :: string
  ct_version :: string
  ct_descriptor :: string
  ct_bundle :: string
  ct_bundle_digest :: "string option"
  ct_methods :: "string list"
  ct_status :: contract_status
  ct_created :: time

record rev_contract =
  rc_rev :: uuid
  rc_contract :: uuid

record invocation =
  inv_id :: uuid
  inv_service :: uuid
  inv_rev :: uuid
  inv_endpoint :: string
  inv_transport :: "string option"
  inv_status :: invocation_status
  inv_error :: "string option"
  inv_created :: time
  inv_started :: "time option"
  inv_finished :: "time option"

record execution =
  exe_inv :: uuid
  exe_version :: "uuid option"
  exe_ref :: string
  exe_digest :: "string option"
  exe_artifact :: string
  exe_kind :: execution_kind
  exe_log_bytes :: int
  exe_truncated :: bool
  exe_created :: time

record inv_log =
  il_id :: uuid
  il_inv :: uuid
  il_sequence :: nat
  il_stream :: log_stream
  il_content :: ustr
  il_emitted :: time
  il_created :: time

record outbox =
  ob_id :: uuid
  ob_topic :: string
  ob_aggregate :: string
  ob_payload :: jdict
  ob_created :: time
  ob_published :: "time option"

record db =
  services :: "service list"
  tokens :: "api_token list"
  admins :: "admin list"
  revisions :: "revision list"
  labels :: "runtime_label list"
  versions :: "profile_version list"
  bindings :: "binding list"
  endpoints :: "endpoint list"
  policies :: "policy list"
  contracts :: "contract list"
  rev_contracts :: "rev_contract list"
  invocations :: "invocation list"
  executions :: "execution list"
  inv_logs :: "inv_log list"
  outboxes :: "outbox list"

definition empty_db :: db where
  "empty_db = \<lparr>services = [], tokens = [], admins = [], revisions = [], labels = [], versions = [],
     bindings = [], endpoints = [], policies = [], contracts = [], rev_contracts = [], invocations = [],
     executions = [], inv_logs = [], outboxes = []\<rparr>"

section \<open>Exceptions\<close>

datatype missing =
    MissingToken | MissingService | MissingActiveEndpoints | MissingActiveEndpoint
  | MissingLabel | MissingProfile | MissingVersion | MissingInvocation | MissingRevision
  | MissingActiveContract | MissingContract

datatype bad_transition =
    UnsupportedInterface | ServiceActive | ActiveInvocations | IntervalRequired | IntervalForbidden
  | LabelExists | ProfileNotUsable profile_status | NotValidating
  | CannotActivateProfile profile_status | NoCompatibilityMetadata | Incompatible uuid string
  | ActiveProfile | ProfileReferenced nat | ActiveExecutions nat | NotRetiring | AlreadyRetired
  | SameDigestOtherVersion string | VersionNotNewer string | ContractMissing
  | CannotActivateRevision revision_status | ContractNotReady | NotActiveService
  | NotStoppedService | NoActiveRevision | ActiveRevisionUnavailable
  | GrpcServiceTaken string string | GrpcMethodTaken string string

text \<open>
  \<open>PyError\<close> is what malformed data in a JSON column makes Python raise (\<open>AttributeError\<close>,
  \<open>TypeError\<close>, \<open>KeyError\<close>, \<open>StopIteration\<close>), \<open>InvalidVersion\<close> an unparsable version.
\<close>

datatype repo_error =
    NotFound missing | InvalidTransition bad_transition | IntegrityError | MultipleResults
  | AssertionError | PyError | InvalidVersion | DataError

type_synonym 'a result = "repo_error + 'a \<times> db"

section \<open>Calls\<close>

record call =
  call_now :: time
  call_ids :: "nat \<Rightarrow> uuid"

fun hex_digit :: "nat \<Rightarrow> char" where
  "hex_digit n = ''0123456789abcdef'' ! n"

fun hex_digits :: "nat \<Rightarrow> nat \<Rightarrow> string" where
  "hex_digits 0 n = []"
| "hex_digits (Suc k) n = hex_digits k (n div 16) @ [hex_digit (n mod 16)]"

definition uuid_str :: "uuid \<Rightarrow> string" where
  \<comment> \<open>\<open>str(uuid)\<close>: 32 hexadecimal digits in groups of 8, 4, 4, 4 and 12\<close>
  "uuid_str u = (let h = hex_digits 32 u in
     take 8 h @ ''-'' @ take 4 (drop 8 h) @ ''-'' @ take 4 (drop 12 h) @ ''-'' @ take 4 (drop 16 h)
       @ ''-'' @ drop 20 h)"

definition jopt :: "string option \<Rightarrow> json" where
  "jopt x = (case x of None \<Rightarrow> JNull | Some s \<Rightarrow> JStr s)"

section \<open>Inserts\<close>

definition guard_insert :: "bool \<Rightarrow> db \<Rightarrow> repo_error + db" where
  "guard_insert ok d = (if ok then Inr d else Inl IntegrityError)"

definition insert_service :: "service \<Rightarrow> db \<Rightarrow> repo_error + db" where
  "insert_service s d = guard_insert
     (row_get svc_id (svc_id s) (services d) = None \<and> row_get svc_name (svc_name s) (services d) = None)
     (d\<lparr>services := services d @ [s]\<rparr>)"

definition insert_token :: "api_token \<Rightarrow> db \<Rightarrow> repo_error + db" where
  "insert_token t d = guard_insert
     (row_get tok_id (tok_id t) (tokens d) = None \<and> row_get tok_hash (tok_hash t) (tokens d) = None)
     (d\<lparr>tokens := tokens d @ [t]\<rparr>)"

definition insert_admin :: "admin \<Rightarrow> db \<Rightarrow> repo_error + db" where
  "insert_admin a d = guard_insert (row_get adm_user (adm_user a) (admins d) = None)
     (d\<lparr>admins := admins d @ [a]\<rparr>)"

definition insert_revision :: "revision \<Rightarrow> db \<Rightarrow> repo_error + db" where
  "insert_revision r d = guard_insert
     (row_get rev_id (rev_id r) (revisions d) = None \<and>
      row_get (\<lambda>x. (rev_service x, rev_name x)) (rev_service r, rev_name r) (revisions d) = None \<and>
      row_get svc_id (rev_service r) (services d) \<noteq> None)
     (d\<lparr>revisions := revisions d @ [r]\<rparr>)"

definition insert_label :: "runtime_label \<Rightarrow> db \<Rightarrow> repo_error + db" where
  "insert_label l d = guard_insert
     (row_get lbl_id (lbl_id l) (labels d) = None \<and> row_get lbl_name (lbl_name l) (labels d) = None)
     (d\<lparr>labels := labels d @ [l]\<rparr>)"

definition insert_version :: "profile_version \<Rightarrow> db \<Rightarrow> repo_error + db" where
  "insert_version v d = guard_insert
     (row_get pv_id (pv_id v) (versions d) = None \<and> row_get pv_ref (pv_ref v) (versions d) = None \<and>
      row_get (\<lambda>x. (pv_label x, pv_version x)) (pv_label v, pv_version v) (versions d) = None \<and>
      (pv_digest v = None \<or> row_get pv_digest (pv_digest v) (versions d) = None) \<and>
      row_get lbl_id (pv_label v) (labels d) \<noteq> None)
     (d\<lparr>versions := versions d @ [v]\<rparr>)"

definition insert_binding :: "binding \<Rightarrow> db \<Rightarrow> repo_error + db" where
  "insert_binding b d = guard_insert
     (row_get bnd_rev (bnd_rev b) (bindings d) = None \<and>
      row_get rev_id (bnd_rev b) (revisions d) \<noteq> None \<and>
      row_get lbl_id (bnd_label b) (labels d) \<noteq> None \<and>
      row_get pv_id (bnd_version b) (versions d) \<noteq> None)
     (d\<lparr>bindings := bindings d @ [b]\<rparr>)"

definition insert_endpoint :: "endpoint \<Rightarrow> db \<Rightarrow> repo_error + db" where
  "insert_endpoint x d = guard_insert
     (row_get ep_id (ep_id x) (endpoints d) = None \<and>
      row_get (\<lambda>y. (ep_rev y, ep_name y)) (ep_rev x, ep_name x) (endpoints d) = None \<and>
      row_get rev_id (ep_rev x) (revisions d) \<noteq> None)
     (d\<lparr>endpoints := endpoints d @ [x]\<rparr>)"

definition insert_policy :: "policy \<Rightarrow> db \<Rightarrow> repo_error + db" where
  "insert_policy p d = guard_insert
     (row_get (\<lambda>x. (pol_service x, pol_endpoint x)) (pol_service p, pol_endpoint p) (policies d) = None \<and>
      row_get svc_id (pol_service p) (services d) \<noteq> None)
     (d\<lparr>policies := policies d @ [p]\<rparr>)"

definition insert_contract :: "contract \<Rightarrow> db \<Rightarrow> repo_error + db" where
  "insert_contract c d = guard_insert
     (row_get ct_id (ct_id c) (contracts d) = None \<and>
      row_get (\<lambda>x. (ct_service x, ct_schema x)) (ct_service c, ct_schema c) (contracts d) = None \<and>
      row_get (\<lambda>x. (ct_service x, ct_version x)) (ct_service c, ct_version c) (contracts d) = None \<and>
      row_get svc_id (ct_service c) (services d) \<noteq> None)
     (d\<lparr>contracts := contracts d @ [c]\<rparr>)"

definition insert_rev_contract :: "rev_contract \<Rightarrow> db \<Rightarrow> repo_error + db" where
  "insert_rev_contract r d = guard_insert
     (row_get rc_rev (rc_rev r) (rev_contracts d) = None \<and>
      row_get rev_id (rc_rev r) (revisions d) \<noteq> None \<and>
      row_get ct_id (rc_contract r) (contracts d) \<noteq> None)
     (d\<lparr>rev_contracts := rev_contracts d @ [r]\<rparr>)"

definition insert_invocation :: "invocation \<Rightarrow> db \<Rightarrow> repo_error + db" where
  "insert_invocation i d = guard_insert
     (row_get inv_id (inv_id i) (invocations d) = None \<and>
      row_get svc_id (inv_service i) (services d) \<noteq> None \<and>
      row_get rev_id (inv_rev i) (revisions d) \<noteq> None)
     (d\<lparr>invocations := invocations d @ [i]\<rparr>)"

definition insert_execution :: "execution \<Rightarrow> db \<Rightarrow> repo_error + db" where
  "insert_execution x d = guard_insert
     (row_get exe_inv (exe_inv x) (executions d) = None \<and>
      row_get inv_id (exe_inv x) (invocations d) \<noteq> None \<and>
      (case exe_version x of None \<Rightarrow> True | Some v \<Rightarrow> row_get pv_id v (versions d) \<noteq> None))
     (d\<lparr>executions := executions d @ [x]\<rparr>)"

definition pg_text :: "ustr \<Rightarrow> bool" where
  \<comment> \<open>what a \<open>text\<close> column of PostgreSQL takes: encodable as UTF-8, and no code point zero\<close>
  "pg_text s = list_all (\<lambda>c. c \<noteq> 0 \<and> \<not> surrogate c) s"

definition pg_string :: "string \<Rightarrow> bool" where
  "pg_string s = (CHR 0x00 \<notin> set s)"

definition insert_log :: "inv_log \<Rightarrow> db \<Rightarrow> repo_error + db" where
  "insert_log l d = (if \<not> pg_text (il_content l) then Inl DataError else guard_insert
     (row_get il_id (il_id l) (inv_logs d) = None \<and>
      row_get (\<lambda>x. (il_inv x, il_sequence x)) (il_inv l, il_sequence l) (inv_logs d) = None \<and>
      row_get inv_id (il_inv l) (invocations d) \<noteq> None)
     (d\<lparr>inv_logs := inv_logs d @ [l]\<rparr>))"

definition insert_outbox :: "outbox \<Rightarrow> db \<Rightarrow> repo_error + db" where
  "insert_outbox x d = guard_insert (row_get ob_id (ob_id x) (outboxes d) = None)
     (d\<lparr>outboxes := outboxes d @ [x]\<rparr>)"

definition emit_event :: "uuid \<Rightarrow> time \<Rightarrow> string \<Rightarrow> string \<Rightarrow> jdict \<Rightarrow> db \<Rightarrow> repo_error + db" where
  "emit_event oid now topic aggregate payload d = insert_outbox
     \<lparr>ob_id = oid, ob_topic = topic, ob_aggregate = aggregate, ob_payload = payload, ob_created = now,
      ob_published = None\<rparr> d"

lemmas insert_defs =
  insert_service_def insert_token_def insert_admin_def insert_revision_def insert_label_def
  insert_version_def insert_binding_def insert_endpoint_def insert_policy_def insert_contract_def
  insert_rev_contract_def insert_invocation_def insert_execution_def insert_log_def insert_outbox_def
  emit_event_def

section \<open>Queries\<close>

definition get_service :: "uuid \<Rightarrow> db \<Rightarrow> repo_error + service" where
  \<comment> \<open>also the locked \<open>select ... with_for_update\<close> of one service\<close>
  "get_service sid d = of_opt (NotFound MissingService) (row_get svc_id sid (services d))"

definition one_or_none :: "'a list \<Rightarrow> repo_error + 'a option" where
  "one_or_none xs = (case xs of [] \<Rightarrow> Inr None | [x] \<Rightarrow> Inr (Some x) | _ \<Rightarrow> Inl MultipleResults)"

definition upd_service :: "time \<Rightarrow> uuid \<Rightarrow> (service \<Rightarrow> service) \<Rightarrow> db \<Rightarrow> db" where
  \<comment> \<open>attribute assignments flushed as an \<open>UPDATE\<close>; \<open>onupdate\<close> stamps a row that changed\<close>
  "upd_service now sid f d = d\<lparr>services := row_upd svc_id sid
     (\<lambda>s. if f s = s then s else (f s)\<lparr>svc_updated := now\<rparr>) (services d)\<rparr>"

definition upd_revision :: "uuid \<Rightarrow> (revision \<Rightarrow> revision) \<Rightarrow> db \<Rightarrow> db" where
  "upd_revision rid f d = d\<lparr>revisions := row_upd rev_id rid f (revisions d)\<rparr>"

definition upd_version :: "uuid \<Rightarrow> (profile_version \<Rightarrow> profile_version) \<Rightarrow> db \<Rightarrow> db" where
  "upd_version vid f d = d\<lparr>versions := row_upd pv_id vid f (versions d)\<rparr>"

definition upd_label :: "time \<Rightarrow> uuid \<Rightarrow> (runtime_label \<Rightarrow> runtime_label) \<Rightarrow> db \<Rightarrow> db" where
  "upd_label now lid f d = d\<lparr>labels := row_upd lbl_id lid
     (\<lambda>l. if f l = l then l else (f l)\<lparr>lbl_updated := now\<rparr>) (labels d)\<rparr>"

lemma guard_insert_eq [result_simps]:
  "guard_insert ok d = Inr d' \<longleftrightarrow> ok \<and> d' = d"
  "guard_insert ok d = Inl e \<longleftrightarrow> \<not> ok \<and> e = IntegrityError"
  by (auto simp: guard_insert_def)

lemma get_service_Inr [result_simps]:
  "get_service sid d = Inr s \<longleftrightarrow> row_get svc_id sid (services d) = Some s"
  "get_service sid d = Inl e \<longleftrightarrow> row_get svc_id sid (services d) = None \<and> e = NotFound MissingService"
  by (auto simp: get_service_def of_opt_eq)

lemma one_or_none_eq [result_simps]:
  "one_or_none xs = Inr (Some x) \<longleftrightarrow> xs = [x]"
  "one_or_none xs = Inr None \<longleftrightarrow> xs = []"
  "one_or_none xs = Inl e \<longleftrightarrow> 2 \<le> length xs \<and> e = MultipleResults"
  by (auto simp: one_or_none_def split: list.splits)

end
