(* ===== verification/Schemas.thy ===== *)
theory Schemas
  imports Json "HOL-Library.Multiset"
begin

text \<open>
  The request models of \<open>schemas.py\<close>: the field and model validators, \<open>EndpointSpec\<close> with its manifest
  form, and the interface of a revision. A model that pydantic rejects is \<open>None\<close>. Regular expressions
  are written out on the characters of the string. \<open>packaging\<close> (versions, specifiers, requirements) and
  pydantic's lax conversion of a number are arguments.
\<close>

section \<open>Names\<close>

definition word_char :: "char \<Rightarrow> bool" where
  "word_char c = (is_alpha c \<or> is_digit c \<or> c = CHR ''_'')"

definition start_char :: "char \<Rightarrow> bool" where
  "start_char c = (is_alpha c \<or> c = CHR ''_'')"

fun proto_identifier :: "string \<Rightarrow> bool" where
  \<comment> \<open>\<open>[A-Za-z_][A-Za-z0-9_]*\<close>\<close>
  "proto_identifier [] = False"
| "proto_identifier (c # cs) = (start_char c \<and> list_all word_char cs)"

definition proto_full_name :: "string \<Rightarrow> bool" where
  "proto_full_name s = (2 \<le> length (split_on (CHR ''.'') s) \<and> list_all proto_identifier (split_on (CHR ''.'') s))"

fun service_name_ok :: "string \<Rightarrow> bool" where
  \<comment> \<open>\<open>[a-z][a-z0-9_-]{1,63}\<close>, also the pattern of runtime labels\<close>
  "service_name_ok [] = False"
| "service_name_ok (c # cs) = (is_lower c \<and> 1 \<le> length cs \<and> length cs \<le> 63 \<and>
     list_all (\<lambda>x. is_lower x \<or> is_digit x \<or> x = CHR ''_'' \<or> x = CHR ''-'') cs)"

fun endpoint_id_ok :: "string \<Rightarrow> bool" where
  "endpoint_id_ok [] = False"
| "endpoint_id_ok (c # cs) = (start_char c \<and> length cs \<le> 127 \<and>
     list_all (\<lambda>x. word_char x \<or> x = CHR ''-'') cs)"

definition entrypoint_ok :: "string \<Rightarrow> bool" where
  "entrypoint_ok s = (case split_on (CHR '':'') s of
     [m, f] \<Rightarrow> list_all proto_identifier (split_on (CHR ''.'') m) \<and> proto_identifier f
   | _ \<Rightarrow> False)"

fun import_name_ok :: "string \<Rightarrow> bool" where
  "import_name_ok [] = False"
| "import_name_ok (c # cs) = (start_char c \<and> list_all (\<lambda>x. word_char x \<or> x = CHR ''.'') cs)"

fun profile_tag_ok :: "string \<Rightarrow> bool" where
  \<comment> \<open>\<open>latest|v[1-9][0-9]*\<close>\<close>
  "profile_tag_ok (CHR ''v'' # c # cs) = (is_digit c \<and> c \<noteq> CHR ''0'' \<and> list_all is_digit cs)"
| "profile_tag_ok s = (s = ''latest'')"

definition profile_ref_ok :: "string \<Rightarrow> bool" where
  "profile_ref_ok s = (case split_on (CHR ''@'') s of
     [b] \<Rightarrow> service_name_ok b
   | [b, t] \<Rightarrow> service_name_ok b \<and> profile_tag_ok t
   | _ \<Rightarrow> False)"

definition python_version_ok :: "string \<Rightarrow> bool" where
  \<comment> \<open>\<open>\d+\.\d+\<close>\<close>
  "python_version_ok s = (case split_on (CHR ''.'') s of
     [a, b] \<Rightarrow> a \<noteq> [] \<and> b \<noteq> [] \<and> list_all is_digit a \<and> list_all is_digit b
   | _ \<Rightarrow> False)"

fun package_name_ok :: "string \<Rightarrow> bool" where
  "package_name_ok [] = False"
| "package_name_ok (c # cs) = ((is_alpha c \<or> is_digit c) \<and>
     list_all (\<lambda>x. word_char x \<or> x = CHR ''.'' \<or> x = CHR ''-'') cs)"

section \<open>Paths and branches\<close>

definition is_space :: "char \<Rightarrow> bool" where
  \<comment> \<open>\<open>str.isspace\<close> on the characters of a byte\<close>
  "is_space c = (of_char c \<in> {9, 10, 11, 12, 13, 28, 29, 30, 31, 32, 133, 160 :: nat})"

definition strip_by :: "(char \<Rightarrow> bool) \<Rightarrow> string \<Rightarrow> string" where
  "strip_by p s = rev (dropWhile p (rev (dropWhile p s)))"

definition strip :: "string \<Rightarrow> string" where
  "strip s = strip_by is_space s"

definition slashes :: "string \<Rightarrow> string" where
  \<comment> \<open>\<open>value.replace("\\", "/")\<close>\<close>
  "slashes s = map (\<lambda>c. if c = CHR 0x5C then CHR ''/'' else c) s"

definition validate_descriptor_path :: "string \<Rightarrow> string option" where
  "validate_descriptor_path s = (let n = slashes s in
     if n = [] \<or> starts_with ''/'' n \<or> ''..'' \<in> set (split_on (CHR ''/'') n) then None else Some n)"

definition validate_proto_root :: "string \<Rightarrow> string option" where
  "validate_proto_root s = (let n = strip_by (\<lambda>c. c = CHR ''/'') (slashes s) in
     if n = [] \<or> ''..'' \<in> set (split_on (CHR ''/'') n) then None else Some n)"

fun contains :: "string \<Rightarrow> string \<Rightarrow> bool" where
  \<comment> \<open>\<open>p in s\<close>\<close>
  "contains p [] = (p = [])"
| "contains p (x # xs) = (starts_with p (x # xs) \<or> contains p xs)"

definition validate_git_branch_name :: "string \<Rightarrow> string option" where
  "validate_git_branch_name value =
     (let branch = strip value;
          bad_char = list_ex (\<lambda>c. is_space c \<or> of_char c < (32 :: nat) \<or> c \<in> set ''~^:?*['' \<or> c = CHR 0x5C) branch;
          bad_part = list_ex (\<lambda>p. p = [] \<or> starts_with ''.'' p \<or> ends_with ''.lock'' p)
            (split_on (CHR ''/'') branch)
      in if branch = [] \<or> branch = ''@'' \<or> length branch > 255 \<or> starts_with ''-'' branch
            \<or> ends_with ''/'' branch \<or> ends_with ''.'' branch \<or> contains ''..'' branch
            \<or> contains [CHR ''@'', CHR 0x7B] branch \<or> bad_char \<or> bad_part
         then None else Some branch)"

section \<open>Service requests\<close>

record create_service_request =
  csr_name :: string
  csr_git_url :: string
  csr_branch :: "string option"
  csr_tracking :: string
  csr_interval :: "int option"

definition opt_valid :: "('a \<Rightarrow> 'a option) \<Rightarrow> 'a option \<Rightarrow> 'a option option" where
  \<comment> \<open>\<open>None if value is None else validate(value)\<close>\<close>
  "opt_valid f v = (case v of None \<Rightarrow> Some None | Some x \<Rightarrow> map_option Some (f x))"

definition tracking_modes :: "string list" where
  "tracking_modes = [''manual'', ''poll'', ''webhook'']"

definition validate_create_service ::
  "(string \<Rightarrow> string option) \<Rightarrow> create_service_request \<Rightarrow> create_service_request option" where
  \<comment> \<open>\<open>git_url_ok\<close> is \<open>validate_git_http_url\<close>\<close>
  "validate_create_service git_url_ok r =
     (case (git_url_ok (csr_git_url r), opt_valid validate_git_branch_name (csr_branch r)) of
        (Some url, Some branch) \<Rightarrow>
          if \<not> service_name_ok (csr_name r) \<or> csr_tracking r \<notin> set tracking_modes
             \<or> (case csr_interval r of None \<Rightarrow> False | Some n \<Rightarrow> n < 10)
             \<or> (csr_tracking r = ''poll'' \<and> csr_interval r = None)
             \<or> (csr_tracking r \<noteq> ''poll'' \<and> csr_interval r \<noteq> None)
          then None
          else Some (r\<lparr>csr_git_url := url, csr_branch := branch\<rparr>)
      | _ \<Rightarrow> None)"

text \<open>\<open>usr_set\<close> is \<open>model_fields_set\<close>: the fields the client sent.\<close>

record update_service_request =
  usr_set :: "string list"
  usr_git_url :: "string option"
  usr_branch :: "string option"
  usr_tracking :: "string option"
  usr_interval :: "int option"

definition validate_update_service ::
  "(string \<Rightarrow> string option) \<Rightarrow> update_service_request \<Rightarrow> update_service_request option" where
  "validate_update_service git_url_ok r =
     (if usr_set r = [] then None
      else
        case (if ''git_url'' \<in> set (usr_set r)
              then (case usr_git_url r of None \<Rightarrow> None | Some u \<Rightarrow> if u = [] then None else map_option Some (git_url_ok u))
              else Some (usr_git_url r),
              opt_valid validate_git_branch_name (usr_branch r)) of
          (Some url, Some branch) \<Rightarrow>
            if (case usr_tracking r of None \<Rightarrow> False | Some t \<Rightarrow> t \<notin> set tracking_modes)
               \<or> (case usr_interval r of None \<Rightarrow> False | Some n \<Rightarrow> n < 10)
            then None
            else Some (r\<lparr>usr_git_url := url, usr_branch := branch\<rparr>)
        | _ \<Rightarrow> None)"

definition validate_retention_count :: "int \<Rightarrow> int option" where
  "validate_retention_count n = (if 1 \<le> n \<and> n \<le> 10000 then Some n else None)"

definition validate_token_name :: "string \<Rightarrow> string option" where
  "validate_token_name s = (let n = strip s in if 1 \<le> length n \<and> length n \<le> 128 then Some n else None)"

definition validate_password_change :: "string \<Rightarrow> string \<Rightarrow> bool" where
  "validate_password_change current new =
     (1 \<le> length current \<and> length current \<le> 1024 \<and> 12 \<le> length new \<and> length new \<le> 1024 \<and> current \<noteq> new)"

section \<open>Endpoints\<close>

record grpc_spec =
  gs_service :: string
  gs_method :: string
  gs_descriptor :: string
  gs_generated :: bool
  gs_wrapped :: bool

definition validate_grpc :: "grpc_spec \<Rightarrow> grpc_spec option" where
  "validate_grpc g =
     (case validate_descriptor_path (gs_descriptor g) of
        None \<Rightarrow> None
      | Some p \<Rightarrow> if proto_full_name (gs_service g) \<and> proto_identifier (gs_method g)
                 then Some (g\<lparr>gs_descriptor := p\<rparr>) else None)"

definition method_path :: "grpc_spec \<Rightarrow> string" where
  "method_path g = ''/'' @ gs_service g @ ''/'' @ gs_method g"

record endpoint_spec =
  es_id :: string
  es_task :: string
  es_entry :: string
  es_io :: "string list"
  es_params :: "(string, jdict) dict"
  es_response :: jdict
  es_grpc :: "grpc_spec option"
  es_cpus :: "pyfloat option"
  es_gpus :: "pyfloat option"

fun float_gt0 :: "pyfloat \<Rightarrow> bool" where
  "float_gt0 (Fin q) = (q > 0)" | "float_gt0 FPosInf = True" | "float_gt0 _ = False"
fun float_ge0 :: "pyfloat \<Rightarrow> bool" where
  "float_ge0 (Fin q) = (q \<ge> 0)" | "float_ge0 FPosInf = True" | "float_ge0 _ = False"

definition endpoint_fields_ok :: "endpoint_spec \<Rightarrow> bool" where
  "endpoint_fields_ok e =
     (endpoint_id_ok (es_id e) \<and> es_task e \<in> {''io'', ''compute''} \<and> entrypoint_ok (es_entry e) \<and>
      es_io e \<noteq> [] \<and> set (es_io e) \<subseteq> {''rest'', ''grpc'', ''inner''} \<and> distinct (es_io e) \<and>
      (case es_cpus e of None \<Rightarrow> True | Some q \<Rightarrow> float_gt0 q) \<and>
      (case es_gpus e of None \<Rightarrow> True | Some q \<Rightarrow> float_ge0 q) \<and>
      (es_task e \<noteq> ''compute'' \<longrightarrow> es_cpus e = None \<and> es_gpus e = None))"

definition validate_endpoint :: "bool \<Rightarrow> endpoint_spec \<Rightarrow> endpoint_spec option" where
  \<comment> \<open>\<open>io_set\<close>: the client sent \<open>io_type\<close>; otherwise the field holds its default \<open>["rest"]\<close>\<close>
  "validate_endpoint io_set e0 =
     (let e = (if io_set then e0 else e0\<lparr>es_io := [''rest'']\<rparr>) in
      case (case es_grpc e of None \<Rightarrow> Some None | Some g \<Rightarrow> map_option Some (validate_grpc g)) of
        None \<Rightarrow> None
      | Some g \<Rightarrow>
          let e' = e\<lparr>es_grpc := g, es_io := (if g \<noteq> None \<and> \<not> io_set then [''grpc''] else es_io e)\<rparr> in
          if endpoint_fields_ok e' then Some e' else None)"

definition es_request :: "endpoint_spec \<Rightarrow> jdict" where
  \<comment> \<open>the property \<open>request_schema\<close>\<close>
  "es_request e = [(''type'', JStr ''Struct''), (''required'', JArr (map (JStr \<circ> fst) (es_params e))),
     (''additionalProperties'', JBool False), (''properties'', JObj (map (\<lambda>(n, s). (n, JObj s)) (es_params e)))]"

definition metadata_fields :: "string list" where
  "metadata_fields = [''id'', ''task_type'', ''entrypoint'', ''io_type'', ''response_schema'', ''grpc'',
     ''num_cpus'', ''num_gpus'']"

definition dump_grpc :: "grpc_spec \<Rightarrow> jdict" where
  "dump_grpc g = [(''service'', JStr (gs_service g)), (''method'', JStr (gs_method g)),
     (''descriptor_path'', JStr (gs_descriptor g)), (''generated'', JBool (gs_generated g)),
     (''response_wrapped'', JBool (gs_wrapped g))]"

definition dump_endpoint :: "endpoint_spec \<Rightarrow> jdict" where
  \<comment> \<open>\<open>model_dump(mode="json", exclude={"parameters"}, exclude_none=True)\<close>\<close>
  "dump_endpoint e =
     [(''id'', JStr (es_id e)), (''task_type'', JStr (es_task e)), (''entrypoint'', JStr (es_entry e)),
      (''io_type'', JArr (map JStr (es_io e))), (''response_schema'', JObj (es_response e))]
     @ (case es_grpc e of None \<Rightarrow> [] | Some g \<Rightarrow> [(''grpc'', JObj (dump_grpc g))])
     @ (case es_cpus e of None \<Rightarrow> [] | Some q \<Rightarrow> [(''num_cpus'', JFloat q)])
     @ (case es_gpus e of None \<Rightarrow> [] | Some q \<Rightarrow> [(''num_gpus'', JFloat q)])"

definition to_manifest :: "endpoint_spec \<Rightarrow> jdict" where
  "to_manifest e = dict_merge (dump_endpoint e) (map (\<lambda>(n, s). (n, JObj s)) (es_params e))"

section \<open>Reading an endpoint back from its manifest\<close>

text \<open>\<open>pf\<close> and \<open>pb\<close> are pydantic's lax conversions to \<open>float\<close> and \<open>bool\<close>.\<close>

definition field :: "(json \<Rightarrow> 'a option) \<Rightarrow> 'a option \<Rightarrow> jdict \<Rightarrow> string \<Rightarrow> 'a option" where
  \<comment> \<open>a field of a model: its parsed value, or its default where it is absent (\<open>None\<close>: required)\<close>
  "field p dflt d k = (case map_of d k of None \<Rightarrow> dflt | Some v \<Rightarrow> p v)"

fun p_str :: "json \<Rightarrow> string option" where
  "p_str (JStr s) = Some s" | "p_str _ = None"

fun p_obj :: "json \<Rightarrow> jdict option" where
  "p_obj (JObj d) = Some d" | "p_obj _ = None"

definition p_opt :: "(json \<Rightarrow> 'a option) \<Rightarrow> json \<Rightarrow> 'a option option" where
  "p_opt p v = (if v = JNull then Some None else map_option Some (p v))"

fun p_all :: "('a \<Rightarrow> 'b option) \<Rightarrow> 'a list \<Rightarrow> 'b list option" where
  "p_all p [] = Some []"
| "p_all p (x # xs) = (case (p x, p_all p xs) of (Some y, Some ys) \<Rightarrow> Some (y # ys) | _ \<Rightarrow> None)"

fun p_strs :: "json \<Rightarrow> string list option" where
  "p_strs (JArr xs) = p_all p_str xs" | "p_strs _ = None"

definition parse_grpc :: "(json \<Rightarrow> bool option) \<Rightarrow> json \<Rightarrow> grpc_spec option" where
  "parse_grpc pb v =
     (case v of
        JObj g \<Rightarrow>
          if \<not> fst ` set g \<subseteq> {''service'', ''method'', ''descriptor_path'', ''generated'', ''response_wrapped''}
          then None
          else
            (case (field p_str None g ''service'', field p_str None g ''method'',
                   field p_str (Some ''descriptor.pb'') g ''descriptor_path'',
                   field pb (Some False) g ''generated'', field pb (Some False) g ''response_wrapped'') of
               (Some s, Some m, Some dp, Some gen, Some w) \<Rightarrow>
                 Some \<lparr>gs_service = s, gs_method = m, gs_descriptor = dp, gs_generated = gen, gs_wrapped = w\<rparr>
             | _ \<Rightarrow> None)
      | _ \<Rightarrow> None)"

definition from_manifest ::
  "(json \<Rightarrow> pyfloat option) \<Rightarrow> (json \<Rightarrow> bool option) \<Rightarrow> jdict \<Rightarrow> endpoint_spec option" where
  "from_manifest pf pb value =
     (let meta = filter (\<lambda>(k, v). k \<in> set metadata_fields) value;
          params = filter (\<lambda>(k, v). k \<notin> set metadata_fields) value
      in case (field p_str None meta ''id'', field p_str None meta ''task_type'',
               field p_str None meta ''entrypoint'', field p_strs (Some []) meta ''io_type'',
               field p_obj (Some []) meta ''response_schema'') of
           (Some i, Some t, Some ep, Some io, Some resp) \<Rightarrow>
             (case (p_all (\<lambda>(n, v). map_option (Pair n) (p_obj v)) params,
                    field (p_opt (parse_grpc pb)) (Some None) meta ''grpc'',
                    field (p_opt pf) (Some None) meta ''num_cpus'',
                    field (p_opt pf) (Some None) meta ''num_gpus'') of
                (Some ps, Some g, Some nc, Some ng) \<Rightarrow>
                  validate_endpoint (''io_type'' \<in> fst ` set meta)
                    \<lparr>es_id = i, es_task = t, es_entry = ep, es_io = io, es_params = ps, es_response = resp,
                     es_grpc = g, es_cpus = nc, es_gpus = ng\<rparr>
              | _ \<Rightarrow> None)
         | _ \<Rightarrow> None)"

lemma p_all_map: "(\<And>x. x \<in> set xs \<Longrightarrow> p (f x) = Some (g x)) \<Longrightarrow> p_all p (map f xs) = Some (map g xs)"
  by (induction xs) auto

lemma parse_dump_grpc:
  "(\<And>b. pb (JBool b) = Some b) \<Longrightarrow> parse_grpc pb (JObj (dump_grpc g)) = Some g"
  by (simp add: parse_grpc_def dump_grpc_def field_def)

lemma slashes_idem [simp]: "slashes (slashes s) = slashes s"
  by (simp add: slashes_def)

lemma descriptor_idem: "validate_descriptor_path s = Some n \<Longrightarrow> validate_descriptor_path n = Some n"
  by (auto simp: validate_descriptor_path_def Let_def split: if_splits)

lemma grpc_idem: "validate_grpc g0 = Some g \<Longrightarrow> validate_grpc g = Some g"
  by (auto simp: validate_grpc_def descriptor_idem split: option.splits if_splits)

lemma validated_grpc: "validate_endpoint io e0 = Some e \<Longrightarrow> es_grpc e = Some g \<Longrightarrow> validate_grpc g = Some g"
  by (auto simp: validate_endpoint_def Let_def grpc_idem split: option.splits if_splits)

lemma endpoint_idem:
  assumes "validate_endpoint io e0 = Some e"
  shows "validate_endpoint True e = Some e"
proof -
  have "endpoint_fields_ok e"
    using assms by (auto simp: validate_endpoint_def Let_def split: option.splits if_splits)
  moreover have "(case es_grpc e of None \<Rightarrow> Some None | Some g \<Rightarrow> map_option Some (validate_grpc g)) = Some (es_grpc e)"
    using validated_grpc [OF assms] by (cases "es_grpc e") auto
  ultimately show ?thesis by (simp add: validate_endpoint_def)
qed

lemma dump_keys: "fst ` set (dump_endpoint e) \<subseteq> set metadata_fields" "distinct (map fst (dump_endpoint e))"
  by (auto simp: dump_endpoint_def metadata_fields_def split: option.splits)

lemma to_manifest_fresh:
  assumes "distinct (map fst (es_params e))" and "fst ` set (es_params e) \<inter> set metadata_fields = {}"
  shows "to_manifest e = dump_endpoint e @ map (\<lambda>(n, s). (n, JObj s)) (es_params e)"
proof -
  have "map fst (map (\<lambda>(n, s). (n, JObj s)) (es_params e)) = map fst (es_params e)" by auto
  moreover have "fst ` set (dump_endpoint e) \<inter> fst ` set (es_params e) = {}"
    using assms(2) dump_keys(1) [of e] by blast
  ultimately have "distinct (map fst (dump_endpoint e @ map (\<lambda>(n, s). (n, JObj s)) (es_params e)))"
    using assms(1) dump_keys(2) [of e] by (simp del: map_map)
  then show ?thesis unfolding to_manifest_def by (rule dict_merge_fresh)
qed

lemma filter_meta:
  assumes "fst ` set ps \<inter> set metadata_fields = {}"
  shows "filter (\<lambda>(k, v). k \<in> set metadata_fields) (dump_endpoint e @ map (\<lambda>(n, s). (n, JObj s)) ps) = dump_endpoint e"
    and "filter (\<lambda>(k, v). k \<notin> set metadata_fields) (dump_endpoint e @ map (\<lambda>(n, s). (n, JObj s)) ps)
      = map (\<lambda>(n, s). (n, JObj s)) ps"
proof -
  have d: "\<And>p. p \<in> set (dump_endpoint e) \<Longrightarrow> fst p \<in> set metadata_fields" using dump_keys(1) by force
  have q: "\<And>p. p \<in> set ps \<Longrightarrow> fst p \<notin> set metadata_fields" using assms by force
  have "filter (\<lambda>(k, v). k \<in> set metadata_fields) (dump_endpoint e) = dump_endpoint e"
    "filter (\<lambda>(k, v). k \<notin> set metadata_fields) (dump_endpoint e) = []"
    using d by (auto simp: filter_id_conv filter_empty_conv)
  moreover have "filter (\<lambda>(k, v). k \<in> set metadata_fields) (map (\<lambda>(n, s). (n, JObj s)) ps) = []"
    "filter (\<lambda>(k, v). k \<notin> set metadata_fields) (map (\<lambda>(n, s). (n, JObj s)) ps) = map (\<lambda>(n, s). (n, JObj s)) ps"
    using q by (auto simp: filter_id_conv filter_empty_conv)
  ultimately show "filter (\<lambda>(k, v). k \<in> set metadata_fields) (dump_endpoint e @ map (\<lambda>(n, s). (n, JObj s)) ps) = dump_endpoint e"
    and "filter (\<lambda>(k, v). k \<notin> set metadata_fields) (dump_endpoint e @ map (\<lambda>(n, s). (n, JObj s)) ps)
      = map (\<lambda>(n, s). (n, JObj s)) ps"
    by simp_all
qed

lemma dump_fields:
  "field p_str None (dump_endpoint e) ''id'' = Some (es_id e)"
  "field p_str None (dump_endpoint e) ''task_type'' = Some (es_task e)"
  "field p_str None (dump_endpoint e) ''entrypoint'' = Some (es_entry e)"
  "field p_strs (Some []) (dump_endpoint e) ''io_type'' = Some (es_io e)"
  "field p_obj (Some []) (dump_endpoint e) ''response_schema'' = Some (es_response e)"
  "''io_type'' \<in> fst ` set (dump_endpoint e)"
  by (auto simp: field_def dump_endpoint_def p_all_map [where g = id, simplified])

lemma dump_options:
  assumes "\<And>q. pf (JFloat q) = Some q" and "\<And>b. pb (JBool b) = Some b"
  shows "field (p_opt (parse_grpc pb)) (Some None) (dump_endpoint e) ''grpc'' = Some (es_grpc e)"
    and "field (p_opt pf) (Some None) (dump_endpoint e) ''num_cpus'' = Some (es_cpus e)"
    and "field (p_opt pf) (Some None) (dump_endpoint e) ''num_gpus'' = Some (es_gpus e)"
  using assms parse_dump_grpc [OF assms(2)]
  by (simp_all add: field_def dump_endpoint_def p_opt_def map_add_def split: option.split)

lemma es_params_kept: "validate_endpoint io e0 = Some e \<Longrightarrow> es_params e = es_params e0"
  by (auto simp: validate_endpoint_def Let_def split: option.splits if_splits)

lemma p_all_keys:
  "p_all (\<lambda>(n, v). map_option (Pair n) (p_obj v)) kvs = Some ps \<Longrightarrow> map fst ps = map fst kvs"
  by (induction kvs arbitrary: ps) (auto split: option.splits prod.splits)

lemma from_manifest_params:
  assumes "from_manifest pf pb value = Some e"
  shows "fst ` set (es_params e) \<inter> set metadata_fields = {}"
proof -
  obtain ps where "p_all (\<lambda>(n, v). map_option (Pair n) (p_obj v))
      (filter (\<lambda>(k, v). k \<notin> set metadata_fields) value) = Some ps" "es_params e = ps"
    using assms by (auto simp: from_manifest_def Let_def dest: es_params_kept split: option.splits)
  then have "map fst (es_params e) = map fst (filter (\<lambda>(k, v). k \<notin> set metadata_fields) value)"
    using p_all_keys by blast
  then have "fst ` set (es_params e) = fst ` set (filter (\<lambda>(k, v). k \<notin> set metadata_fields) value)"
    by (metis list.set_map)
  then show ?thesis by auto
qed

section \<open>The interface of a revision\<close>

record grpc_contract_spec =
  gc_version :: string
  gc_root :: string
  gc_package :: "string option"

definition validate_grpc_contract ::
  "(string \<Rightarrow> string option) \<Rightarrow> grpc_contract_spec \<Rightarrow> grpc_contract_spec option" where
  \<comment> \<open>\<open>canon\<close> is \<open>str(Version(value))\<close>, \<open>None\<close> for \<open>InvalidVersion\<close>\<close>
  "validate_grpc_contract canon g =
     (case (canon (gc_version g), validate_proto_root (gc_root g)) of
        (Some v, Some r) \<Rightarrow>
          if (case gc_package g of None \<Rightarrow> True | Some n \<Rightarrow> package_name_ok n)
          then Some (g\<lparr>gc_version := v, gc_root := r\<rparr>) else None
      | _ \<Rightarrow> None)"

record interface_spec =
  if_endpoints :: "endpoint_spec list"
  if_contract :: "grpc_contract_spec option"
  if_profile :: string
  if_requires :: string
  if_dependencies :: "string list"

definition legacy_grpc :: "interface_spec \<Rightarrow> endpoint_spec list" where
  "legacy_grpc i = filter (\<lambda>e. es_grpc e \<noteq> None) (if_endpoints i)"

definition generated_grpc :: "interface_spec \<Rightarrow> endpoint_spec list" where
  "generated_grpc i = filter (\<lambda>e. ''grpc'' \<in> set (es_io e) \<and> es_grpc e = None) (if_endpoints i)"

definition unique_endpoint_ids :: "endpoint_spec list \<Rightarrow> bool" where
  "unique_endpoint_ids es =
     (distinct (map es_id es) \<and> distinct (map method_path (List.map_filter es_grpc es)))"

definition require_contract_for_grpc :: "interface_spec \<Rightarrow> bool" where
  "require_contract_for_grpc i =
     (let legacy = legacy_grpc i; generated = generated_grpc i in
      \<not> (legacy \<noteq> [] \<and> generated \<noteq> [])
      \<and> \<not> (legacy \<noteq> [] \<and> if_contract i = None)
      \<and> \<not> (generated \<noteq> [] \<and> if_contract i \<noteq> None)
      \<and> list_all (\<lambda>e. es_response e \<noteq> []) generated
      \<and> length (remdups (map gs_descriptor (List.map_filter es_grpc legacy))) \<le> 1)"

definition interface_ok :: "(string \<Rightarrow> bool) \<Rightarrow> (string \<Rightarrow> bool) \<Rightarrow> interface_spec \<Rightarrow> bool" where
  \<comment> \<open>\<open>specifier_ok\<close>, \<open>requirement_ok\<close>: the string parses as a \<open>SpecifierSet\<close>, a \<open>Requirement\<close>\<close>
  "interface_ok specifier_ok requirement_ok i =
     (if_endpoints i \<noteq> [] \<and> profile_ref_ok (if_profile i) \<and> specifier_ok (if_requires i) \<and>
      list_all requirement_ok (if_dependencies i) \<and> unique_endpoint_ids (if_endpoints i) \<and>
      require_contract_for_grpc i)"

record revision_request =
  rr_revision :: string
  rr_uri :: string
  rr_digest :: string
  rr_interface :: interface_spec

definition revision_request_ok :: "(string \<Rightarrow> bool) \<Rightarrow> (string \<Rightarrow> bool) \<Rightarrow> revision_request \<Rightarrow> bool" where
  "revision_request_ok specifier_ok requirement_ok r =
     (1 \<le> length (rr_revision r) \<and> length (rr_revision r) \<le> 128 \<and>
      16 \<le> length (rr_digest r) \<and> length (rr_digest r) \<le> 128 \<and>
      interface_ok specifier_ok requirement_ok (rr_interface r))"

section \<open>Runtime profiles\<close>

text \<open>A parsed requirement of \<open>packaging\<close>: what the validator reads of it, and its string form.\<close>

record requirement =
  rq_name :: string
  rq_url :: "string option"
  rq_specs :: "(string \<times> string) list"
  rq_str :: string

definition lower_char :: "char \<Rightarrow> char" where
  \<comment> \<open>\<open>str.lower\<close> on the characters of a byte\<close>
  "lower_char c = (let n = of_char c :: nat in
     if 65 \<le> n \<and> n \<le> 90 \<or> 192 \<le> n \<and> n \<le> 222 \<and> n \<noteq> 215 then char_of (n + 32) else c)"

definition lower :: "string \<Rightarrow> string" where
  "lower s = map lower_char s"

definition pinned :: "requirement \<Rightarrow> bool" where
  "pinned q = (case rq_url q of
       Some u \<Rightarrow> if u \<noteq> [] then contains ''#sha256='' u
                else list_ex (\<lambda>(op, v). op \<in> {''=='', ''===''} \<and> CHR ''*'' \<notin> set v) (rq_specs q)
     | None \<Rightarrow> list_ex (\<lambda>(op, v). op \<in> {''=='', ''===''} \<and> CHR ''*'' \<notin> set v) (rq_specs q))"

fun collect_dependencies ::
  "(string \<Rightarrow> requirement option) \<Rightarrow> string list \<Rightarrow> string list \<Rightarrow> string list option" where
  "collect_dependencies parse names [] = Some []"
| "collect_dependencies parse names (v # vs) =
     (case parse (strip v) of
        None \<Rightarrow> None
      | Some q \<Rightarrow>
          if lower (rq_name q) \<in> set names \<or> \<not> pinned q then None
          else map_option (Cons (rq_str q)) (collect_dependencies parse (lower (rq_name q) # names) vs))"

definition validate_dependencies ::
  "(string \<Rightarrow> requirement option) \<Rightarrow> string list \<Rightarrow> string list option" where
  "validate_dependencies parse vs =
     (if length vs \<le> 256 then map_option (sort_key lower) (collect_dependencies parse [] vs) else None)"

definition validate_import_checks :: "string list \<Rightarrow> string list option" where
  "validate_import_checks vs =
     (if length vs \<le> 128 \<and> list_all import_name_ok vs then Some (sort (remdups vs)) else None)"

record profile_request =
  pr_python :: string
  pr_pool :: string
  pr_dependencies :: "string list"
  pr_imports :: "string list"
  pr_pip_source :: string
  pr_pip_index :: "string option"

definition validate_profile_request ::
  "(string \<Rightarrow> requirement option) \<Rightarrow> (string \<Rightarrow> string option) \<Rightarrow> profile_request \<Rightarrow> profile_request option" where
  \<comment> \<open>\<open>index_url\<close> normalises the URL of a custom index, or rejects it\<close>
  "validate_profile_request parse index_url r =
     (case (validate_dependencies parse (pr_dependencies r), validate_import_checks (pr_imports r)) of
        (Some deps, Some imports) \<Rightarrow>
          if \<not> python_version_ok (pr_python r) \<or> \<not> (1 \<le> length (pr_pool r) \<and> length (pr_pool r) \<le> 64)
             \<or> pr_pip_source r \<notin> {''default'', ''private'', ''custom''}
             \<or> (case pr_pip_index r of None \<Rightarrow> False | Some u \<Rightarrow> length u > 2048)
          then None
          else
            let r' = r\<lparr>pr_dependencies := deps, pr_imports := imports\<rparr> in
            if pr_pip_source r \<noteq> ''custom''
            then (if pr_pip_index r \<noteq> None then None else Some r')
            else (case pr_pip_index r of
                    None \<Rightarrow> None
                  | Some u \<Rightarrow> if u = [] then None
                             else map_option (\<lambda>v. r'\<lparr>pr_pip_index := Some v\<rparr>) (index_url u))
      | _ \<Rightarrow> None)"

section \<open>Properties\<close>

lemma manifest_reads_back:
  assumes "\<And>q. pf (JFloat q) = Some q" and "\<And>b. pb (JBool b) = Some b"
    and "validate_endpoint io e0 = Some e" and "distinct (map fst (es_params e))"
  shows "from_manifest pf pb (to_manifest e) = Some e \<longleftrightarrow> fst ` set (es_params e) \<inter> set metadata_fields = {}"
proof
  assume "from_manifest pf pb (to_manifest e) = Some e"
  then show "fst ` set (es_params e) \<inter> set metadata_fields = {}" by (rule from_manifest_params)
next
  assume d: "fst ` set (es_params e) \<inter> set metadata_fields = {}"
  have ps: "p_all (\<lambda>(n, v). map_option (Pair n) (p_obj v)) (map (\<lambda>(n, s). (n, JObj s)) (es_params e)) = Some (es_params e)"
    using p_all_map [of "es_params e" "\<lambda>(n, v). map_option (Pair n) (p_obj v)" "\<lambda>(n, s). (n, JObj s)" id] by auto
  have ve: "validate_endpoint True \<lparr>es_id = es_id e, es_task = es_task e, es_entry = es_entry e, es_io = es_io e,
      es_params = es_params e, es_response = es_response e, es_grpc = es_grpc e, es_cpus = es_cpus e,
      es_gpus = es_gpus e\<rparr> = Some e"
    using endpoint_idem [OF assms(3)] by (cases e) simp
  show "from_manifest pf pb (to_manifest e) = Some e"
    unfolding from_manifest_def to_manifest_fresh [OF assms(4) d] filter_meta [OF d]
    using dump_options [OF assms(1,2), of e] dump_fields [of e] ps ve
    by (simp add: Let_def)
qed

text \<open>C25. The manifest of a validated endpoint reads back as the same endpoint exactly when none of its
  parameters has the name of a metadata field. A parameter called \<open>id\<close>, \<open>grpc\<close> or \<open>num_cpus\<close>, which the
  models accept, overwrites the metadata in the flat manifest and is lost as a parameter.\<close>

theorem manifest_roundtrip:
  assumes "\<And>q. pf (JFloat q) = Some q" and "\<And>b. pb (JBool b) = Some b"
    and "validate_endpoint io e0 = Some e" and "distinct (map fst (es_params e))"
  shows "from_manifest pf pb (to_manifest e) = Some e \<longleftrightarrow> fst ` set (es_params e) \<inter> set metadata_fields = {}"
  by (rule manifest_reads_back [OF assms])

definition lax_float :: "json \<Rightarrow> pyfloat option" where
  "lax_float v = (case v of JFloat q \<Rightarrow> Some q | JInt i \<Rightarrow> Some (Fin (of_int i)) | _ \<Rightarrow> None)"
definition lax_bool :: "json \<Rightarrow> bool option" where
  "lax_bool v = (case v of JBool b \<Rightarrow> Some b | _ \<Rightarrow> None)"

definition demo_endpoint :: "string \<Rightarrow> endpoint_spec" where
  "demo_endpoint p = \<lparr>es_id = ''run'', es_task = ''compute'', es_entry = ''app.main:run'', es_io = [''rest''],
     es_params = [(p, [(''type'', JStr ''Int32'')])], es_response = [(''type'', JStr ''Bool'')], es_grpc = None,
     es_cpus = Some (Fin 2), es_gpus = None\<rparr>"

lemma demo_endpoint_valid: "validate_endpoint True (demo_endpoint p) = Some (demo_endpoint p)"
  by (simp add: validate_endpoint_def endpoint_fields_ok_def demo_endpoint_def entrypoint_ok_def
    start_char_def word_char_def is_alpha_def is_lower_def is_upper_def is_digit_def less_eq_char_def)

lemma demo_endpoint_reads: "from_manifest lax_float lax_bool (to_manifest (demo_endpoint ''days'')) = Some (demo_endpoint ''days'')"
  using manifest_reads_back [OF _ _ demo_endpoint_valid, of lax_float lax_bool "''days''"]
  by (simp add: lax_float_def lax_bool_def) (simp add: demo_endpoint_def metadata_fields_def)

theorem manifest_roundtrip_witness:
  "from_manifest lax_float lax_bool (to_manifest (demo_endpoint ''days'')) = Some (demo_endpoint ''days'') \<and>
   from_manifest lax_float lax_bool (to_manifest (demo_endpoint ''id'')) \<noteq> Some (demo_endpoint ''id'')"
proof -
  have p: "map fst (es_params (demo_endpoint p)) = [p]" "fst ` set (es_params (demo_endpoint p)) = {p}" for p
    by (simp_all add: demo_endpoint_def)
  show ?thesis
    using manifest_roundtrip [OF _ _ demo_endpoint_valid, of lax_float lax_bool "''days''"]
      manifest_roundtrip [OF _ _ demo_endpoint_valid, of lax_float lax_bool "''id''"]
    by (simp add: p lax_float_def lax_bool_def metadata_fields_def)
qed

text \<open>A branch name that a service request carries after validation is never taken for an option by
  \<open>git\<close>, names no revision range, has no whitespace, and no path component that is empty, hidden or a
  lock file; validating it again changes nothing.\<close>

theorem git_branch_safe:
  assumes "validate_git_branch_name s = Some b"
  shows "b \<noteq> [] \<and> length b \<le> 255 \<and> hd b \<noteq> CHR ''-'' \<and> \<not> contains ''..'' b \<and> \<not> list_ex is_space b \<and>
    (\<forall>p \<in> set (split_on (CHR ''/'') b). p \<noteq> [] \<and> hd p \<noteq> CHR ''.'' \<and> \<not> ends_with ''.lock'' p) \<and>
    validate_git_branch_name b = Some b"
proof -
  have b: "b = strip s" using assms by (simp add: validate_git_branch_name_def Let_def split: if_splits)
  have ns: "\<not> list_ex is_space b"
    using assms b by (auto simp: validate_git_branch_name_def Let_def list_ex_iff split: if_splits)
  have "dropWhile is_space x = x" if "\<not> list_ex is_space x" for x
    using that by (cases x) auto
  from this [of b] this [of "rev b"] have "strip b = b"
    using ns by (simp add: strip_def strip_by_def list_ex_iff)
  then have v: "validate_git_branch_name b = Some b"
    using assms b by (simp add: validate_git_branch_name_def)
  have h: "\<not> starts_with [c] x \<Longrightarrow> x \<noteq> [] \<Longrightarrow> hd x \<noteq> c" for c x
    by (cases x) (auto simp: starts_with_def)
  have n: "b \<noteq> []" "length b \<le> 255" "\<not> starts_with ''-'' b" "\<not> contains ''..'' b"
    "\<not> list_ex (\<lambda>p. p = [] \<or> starts_with ''.'' p \<or> ends_with ''.lock'' p) (split_on (CHR ''/'') b)"
    using assms b by (simp_all add: validate_git_branch_name_def Let_def split: if_splits)
  show ?thesis using n ns v h by (auto simp: list_ex_iff)
qed

theorem git_branch_safe_witness:
  "validate_git_branch_name '' main '' = Some ''main'' \<and> validate_git_branch_name ''main'' = Some ''main''"
proof -
  have v: "validate_git_branch_name '' main '' = Some ''main''"
    by (simp add: validate_git_branch_name_def Let_def strip_def strip_by_def is_space_def starts_with_def
      ends_with_def)
  with git_branch_safe [OF v] show ?thesis by simp
qed

lemma collect_names:
  "collect_dependencies parse names vs = Some out \<Longrightarrow>
   \<exists>qs. list_all2 (\<lambda>v q. parse (strip v) = Some q) vs qs \<and> out = map rq_str qs \<and>
     distinct (map (\<lambda>q. lower (rq_name q)) qs) \<and> list_all pinned qs \<and>
     set (map (\<lambda>q. lower (rq_name q)) qs) \<inter> set names = {}"
proof (induction parse names vs arbitrary: out rule: collect_dependencies.induct)
  case (2 parse names v vs)
  then obtain q out' where q: "parse (strip v) = Some q" "lower (rq_name q) \<notin> set names" "pinned q"
    "collect_dependencies parse (lower (rq_name q) # names) vs = Some out'" "out = rq_str q # out'"
    by (auto split: option.splits if_splits)
  then obtain qs where "list_all2 (\<lambda>v q. parse (strip v) = Some q) vs qs" "out' = map rq_str qs"
    "distinct (map (\<lambda>q. lower (rq_name q)) qs)" "list_all pinned qs"
    "set (map (\<lambda>q. lower (rq_name q)) qs) \<inter> set (lower (rq_name q) # names) = {}"
    using 2(1) [OF q(1) _ q(4)] q(2,3) by blast
  with q show ?case by (intro exI [of _ "q # qs"]) auto
qed auto

text \<open>The dependencies of an accepted runtime profile are the requirements of the request, no two of
  them for one package name ignoring case, each pinned to an exact version or a hashed URL, and stored
  sorted ignoring case: the digest of the environment does not depend on the order they were sent in.\<close>

theorem profile_dependencies_pinned:
  assumes "validate_dependencies parse vs = Some out"
  shows "\<exists>qs. list_all2 (\<lambda>v q. parse (strip v) = Some q) vs qs \<and> mset out = mset (map rq_str qs) \<and>
    distinct (map (\<lambda>q. lower (rq_name q)) qs) \<and> list_all pinned qs \<and> sorted (map lower out)"
proof -
  obtain ds where "collect_dependencies parse [] vs = Some ds" "out = sort_key lower ds"
    using assms by (auto simp: validate_dependencies_def split: if_splits)
  with collect_names [of parse "[]" vs ds] show ?thesis by auto
qed

definition demo_parse :: "string \<Rightarrow> requirement option" where
  "demo_parse s = (if s = ''b==1'' then Some \<lparr>rq_name = ''b'', rq_url = None, rq_specs = [(''=='', ''1'')], rq_str = s\<rparr>
     else if s = ''a==2'' then Some \<lparr>rq_name = ''a'', rq_url = None, rq_specs = [(''=='', ''2'')], rq_str = s\<rparr>
     else None)"

theorem profile_dependencies_pinned_witness:
  "\<exists>out. validate_dependencies demo_parse [''b==1'', ''a==2''] = Some out \<and> sorted (map lower out)"
proof -
  have "strip ''b==1'' = ''b==1''" "strip ''a==2'' = ''a==2''"
    by (simp_all add: strip_def strip_by_def is_space_def)
  then have "\<exists>out. validate_dependencies demo_parse [''b==1'', ''a==2''] = Some out"
    by (simp add: validate_dependencies_def demo_parse_def pinned_def lower_def lower_char_def Let_def)
  then show ?thesis using profile_dependencies_pinned by blast
qed

end
