(* ===== verification/Services.thy ===== *)
theory Services
  imports Database Schemas
begin

text \<open>
  \<open>repository.py\<close>, the services: their life cycle (create, update, stop, start, delete), the activation
  of a revision, and the check that keeps the gRPC route namespace of the process unambiguous.
\<close>

section \<open>The interface a revision declares\<close>

definition supports_current_interface :: "revision \<Rightarrow> bool" where
  "supports_current_interface r = eq_int (dfind (rev_manifest r) ''spec_version'') 2"

definition require_current_interface :: "revision \<Rightarrow> repo_error + unit" where
  "require_current_interface r =
     (if supports_current_interface r then Inr () else Inl (InvalidTransition UnsupportedInterface))"

definition endpoint_items :: "jdict \<Rightarrow> repo_error + jdict list" where
  \<comment> \<open>\<open>for endpoint in manifest.get("endpoints", []): endpoint.get(...)\<close>\<close>
  "endpoint_items m =
     (case dget m ''endpoints'' (JArr []) of
        JArr xs \<Rightarrow> mapE (\<lambda>x. case x of JObj o1 \<Rightarrow> Inr o1 | _ \<Rightarrow> Inl PyError) xs
      | JStr s \<Rightarrow> if s = [] then Inr [] else Inl PyError
      | JObj d \<Rightarrow> if d = [] then Inr [] else Inl PyError
      | _ \<Rightarrow> Inl PyError)"

definition grpc_path_of :: "jdict \<Rightarrow> string option" where
  "grpc_path_of item =
     (case dfind item ''grpc'' of
        JObj g \<Rightarrow>
          (case (dfind g ''service'', dfind g ''method'') of
             (JStr s, JStr m) \<Rightarrow> Some (''/'' @ s @ ''/'' @ m)
           | _ \<Rightarrow> None)
      | _ \<Rightarrow> None)"

definition grpc_service_of :: "jdict \<Rightarrow> string option" where
  "grpc_service_of item =
     (case dfind item ''grpc'' of
        JObj g \<Rightarrow> (case dfind g ''service'' of JStr s \<Rightarrow> Some s | _ \<Rightarrow> None)
      | _ \<Rightarrow> None)"

definition grpc_method_paths :: "jdict \<Rightarrow> repo_error + string list" where
  "grpc_method_paths m = bindE (endpoint_items m) (\<lambda>items. Inr (List.map_filter grpc_path_of items))"

definition grpc_service_names :: "jdict \<Rightarrow> repo_error + string list" where
  "grpc_service_names m = bindE (endpoint_items m) (\<lambda>items. Inr (List.map_filter grpc_service_of items))"

section \<open>Routes\<close>

definition active_rows :: "db \<Rightarrow> (service \<times> revision) list" where
  \<comment> \<open>active services joined with their active revision\<close>
  "active_rows d = [(s, r). s \<leftarrow> services d, r \<leftarrow> revisions d,
     svc_active_rev s = Some (rev_id r) \<and> svc_status s = SvcActive \<and> rev_status r = RevActive]"

fun check_routes :: "string list \<Rightarrow> string list \<Rightarrow> (service \<times> revision) list \<Rightarrow> repo_error + unit" where
  "check_routes paths names [] = Inr ()"
| "check_routes paths names ((s, r) # rows) =
     bindE (grpc_service_names (rev_manifest r)) (\<lambda>taken.
       if set names \<inter> set taken \<noteq> {}
       then Inl (InvalidTransition (GrpcServiceTaken (Min (set names \<inter> set taken)) (svc_name s)))
       else
         bindE (grpc_method_paths (rev_manifest r)) (\<lambda>used.
           if set paths \<inter> set used \<noteq> {}
           then Inl (InvalidTransition (GrpcMethodTaken (Min (set paths \<inter> set used)) (svc_name s)))
           else check_routes paths names rows))"

definition assert_grpc_routes_available ::
  "service \<Rightarrow> string list \<Rightarrow> string list \<Rightarrow> db \<Rightarrow> repo_error + unit" where
  "assert_grpc_routes_available cand paths names d =
     (if paths = [] then Inr ()
      else check_routes paths names
        (sort_key (\<lambda>(s, r). svc_name s) (filter (\<lambda>(s, r). svc_id s \<noteq> svc_id cand) (active_rows d))))"

section \<open>Operations\<close>

definition stop_unsupported_row ::
  "call \<Rightarrow> nat \<times> service \<times> revision \<Rightarrow> string list \<times> db \<Rightarrow> repo_error + string list \<times> db" where
  "stop_unsupported_row e = (\<lambda>(i, s, r) (stopped, d).
     if supports_current_interface r then Inr (stopped, d)
     else
       bindE (emit_event (call_ids e i) (call_now e) ''service.stopped'' (uuid_str (svc_id s))
           [(''service_id'', JStr (uuid_str (svc_id s))),
            (''reason'', JStr ''unsupported_interface_specification'')]
           (upd_service (call_now e) (svc_id s)
             (\<lambda>x. x\<lparr>svc_status := SvcStopped, svc_updated := call_now e\<rparr>) d))
         (\<lambda>d'. Inr (stopped @ [svc_name s], d')))"

definition stop_services_with_unsupported_interfaces :: "call \<Rightarrow> db \<Rightarrow> string list result" where
  "stop_services_with_unsupported_interfaces e d =
     foldE (stop_unsupported_row e) (enumerate 0 (active_rows d)) ([], d)"

definition create_service :: "call \<Rightarrow> create_service_request \<Rightarrow> db \<Rightarrow> service result" where
  "create_service e q d =
     (let s = \<lparr>svc_id = call_ids e 0, svc_name = csr_name q, svc_git_url = csr_git_url q,
               svc_git_branch = csr_branch q, svc_tracking = csr_tracking q, svc_interval = csr_interval q,
               svc_token_hash = None, svc_webhook_at = None, svc_profile = None, svc_profile_mode = None,
               svc_status = SvcRegistered, svc_active_rev = None, svc_created = call_now e,
               svc_updated = call_now e\<rparr>
      in bindE (insert_service s d) (\<lambda>d'. Inr (s, d')))"

definition list_services :: "db \<Rightarrow> service list" where
  "list_services d = sort_key svc_name (services d)"

definition delete_cascade :: "uuid \<Rightarrow> db \<Rightarrow> db" where
  \<comment> \<open>the \<open>DELETE\<close> statements of \<open>delete_service\<close>, in their order, before the service itself\<close>
  "delete_cascade sid d =
     (let invs = set (map inv_id (filter (\<lambda>i. inv_service i = sid) (invocations d)));
          revs = set (map rev_id (filter (\<lambda>r. rev_service r = sid) (revisions d)))
      in d\<lparr>inv_logs := filter (\<lambda>l. il_inv l \<notin> invs) (inv_logs d),
           executions := filter (\<lambda>x. exe_inv x \<notin> invs) (executions d),
           invocations := filter (\<lambda>i. inv_service i \<noteq> sid) (invocations d),
           rev_contracts := filter (\<lambda>r. rc_rev r \<notin> revs) (rev_contracts d),
           endpoints := filter (\<lambda>x. ep_rev x \<notin> revs) (endpoints d),
           bindings := filter (\<lambda>b. bnd_rev b \<notin> revs) (bindings d),
           policies := filter (\<lambda>p. pol_service p \<noteq> sid) (policies d),
           revisions := filter (\<lambda>r. rev_service r \<noteq> sid) (revisions d),
           contracts := filter (\<lambda>c. ct_service c \<noteq> sid) (contracts d),
           services := filter (\<lambda>s. svc_id s \<noteq> sid) (services d)\<rparr>)"

definition delete_refused :: "uuid \<Rightarrow> db \<Rightarrow> bool" where
  \<comment> \<open>a row that is kept refers to one that is deleted, by a key declared \<open>ondelete="RESTRICT"\<close>\<close>
  "delete_refused sid d =
     (list_ex (\<lambda>i. inv_service i \<noteq> sid \<and>
         list_ex (\<lambda>r. rev_id r = inv_rev i \<and> rev_service r = sid) (revisions d)) (invocations d)
      \<or> list_ex (\<lambda>c. list_ex (\<lambda>k. ct_id k = rc_contract c \<and> ct_service k = sid) (contracts d)
          \<and> \<not> list_ex (\<lambda>r. rev_id r = rc_rev c \<and> rev_service r = sid) (revisions d)) (rev_contracts d))"

definition delete_service :: "uuid \<Rightarrow> db \<Rightarrow> string result" where
  "delete_service sid d =
     bindE (get_service sid d) (\<lambda>s.
       if svc_status s = SvcActive then Inl (InvalidTransition ServiceActive)
       else if list_ex (\<lambda>i. inv_service i = sid \<and> inv_status i \<in> {InvAccepted, InvRunning}) (invocations d)
       then Inl (InvalidTransition ActiveInvocations)
       else if delete_refused sid d then Inl IntegrityError
       else Inr (svc_name s, delete_cascade sid d))"

definition update_service :: "call \<Rightarrow> uuid \<Rightarrow> update_service_request \<Rightarrow> db \<Rightarrow> service result" where
  "update_service e sid q d =
     bindE (get_service sid d) (\<lambda>s.
       if ''git_url'' \<in> set (usr_set q) \<and> usr_git_url q = None then Inl AssertionError
       else
         let s1 = (if ''git_url'' \<in> set (usr_set q)
                   then s\<lparr>svc_git_url := strip (the (usr_git_url q))\<rparr> else s);
             s2 = (if ''git_branch'' \<in> set (usr_set q) then s1\<lparr>svc_git_branch := usr_branch q\<rparr> else s1);
             next_mode = (case usr_tracking q of
                 Some t \<Rightarrow> if t = [] then svc_tracking s2 else t | None \<Rightarrow> svc_tracking s2);
             next_interval = (if ''check_interval_seconds'' \<in> set (usr_set q) then usr_interval q
                              else svc_interval s2)
         in if next_mode = ''poll'' \<and> next_interval = None
            then Inl (InvalidTransition IntervalRequired)
            else if next_mode \<noteq> ''poll'' \<and> ''check_interval_seconds'' \<in> set (usr_set q) \<and> usr_interval q \<noteq> None
            then Inl (InvalidTransition IntervalForbidden)
            else
              let s3 = s2\<lparr>svc_tracking := next_mode,
                          svc_interval := (if next_mode \<noteq> ''poll'' then None else next_interval),
                          svc_updated := call_now e\<rparr>
              in Inr (s3, upd_service (call_now e) sid
                   (\<lambda>x. x\<lparr>svc_git_url := svc_git_url s3, svc_git_branch := svc_git_branch s3,
                          svc_tracking := svc_tracking s3, svc_interval := svc_interval s3,
                          svc_updated := call_now e\<rparr>) d))"

definition configure_service_webhook :: "call \<Rightarrow> uuid \<Rightarrow> string option \<Rightarrow> db \<Rightarrow> service result" where
  "configure_service_webhook e sid h d =
     bindE (get_service sid d) (\<lambda>s.
       let f = (\<lambda>x. x\<lparr>svc_token_hash := h,
                  svc_webhook_at := (if h \<noteq> None then Some (call_now e) else None),
                  svc_updated := call_now e\<rparr>)
       in Inr (f s, upd_service (call_now e) sid f d))"

definition contract_of_revision :: "uuid \<Rightarrow> db \<Rightarrow> (rev_contract \<times> contract) list" where
  "contract_of_revision rid d = [(rc, c). rc \<leftarrow> rev_contracts d, c \<leftarrow> contracts d,
     ct_id c = rc_contract rc \<and> rc_rev rc = rid]"

definition revision_of :: "uuid \<Rightarrow> uuid \<Rightarrow> db \<Rightarrow> revision option" where
  "revision_of sid rid d = find (\<lambda>r. rev_id r = rid \<and> rev_service r = sid) (revisions d)"

definition activation_checks :: "service \<Rightarrow> revision \<Rightarrow> db \<Rightarrow> repo_error + unit" where
  \<comment> \<open>the guards of \<open>activate_revision\<close> on a revision of the service\<close>
  "activation_checks s r d =
     (if rev_status r \<notin> {RevReady, RevActive} then Inl (InvalidTransition (CannotActivateRevision (rev_status r)))
      else
        bindE (require_current_interface r) (\<lambda>_.
        bindE (grpc_method_paths (rev_manifest r)) (\<lambda>paths.
          if paths = [] then Inr ()
          else
            bindE (one_or_none (contract_of_revision (rev_id r) d)) (\<lambda>row.
              case row of
                None \<Rightarrow> Inl (InvalidTransition ContractNotReady)
              | Some (rc, c) \<Rightarrow>
                  if ct_status c \<noteq> ContractReady then Inl (InvalidTransition ContractNotReady)
                  else if svc_status s \<noteq> SvcStopped
                  then bindE (grpc_service_names (rev_manifest r)) (\<lambda>names.
                         assert_grpc_routes_available s paths names d)
                  else Inr ()))))"

definition drain_old_revision :: "service \<Rightarrow> revision \<Rightarrow> db \<Rightarrow> db" where
  "drain_old_revision s r d =
     (case svc_active_rev s of
        None \<Rightarrow> d
      | Some old \<Rightarrow> if old = rev_id r then d else upd_revision old (\<lambda>x. x\<lparr>rev_status := RevDraining\<rparr>) d)"

definition publish_revision :: "call \<Rightarrow> service \<Rightarrow> revision \<Rightarrow> db \<Rightarrow> db" where
  "publish_revision e s r d =
     upd_service (call_now e) (svc_id s)
       (\<lambda>x. x\<lparr>svc_active_rev := Some (rev_id r),
              svc_status := (if svc_status s = SvcStopped then svc_status x else SvcActive)\<rparr>)
       (upd_revision (rev_id r) (\<lambda>x. x\<lparr>rev_status := RevActive, rev_activated := Some (call_now e)\<rparr>) d)"

definition activate_revision :: "call \<Rightarrow> uuid \<Rightarrow> uuid \<Rightarrow> db \<Rightarrow> revision result" where
  "activate_revision e sid rid d =
     bindE (get_service sid d) (\<lambda>s.
     bindE (of_opt (NotFound MissingRevision) (revision_of sid rid d)) (\<lambda>r.
     bindE (activation_checks s r d) (\<lambda>_.
     bindE (emit_event (call_ids e 0) (call_now e) ''revision.activated'' (uuid_str sid)
        [(''service_id'', JStr (uuid_str sid)), (''revision_id'', JStr (uuid_str rid)),
         (''revision'', JStr (rev_name r))]
        (publish_revision e s r (drain_old_revision s r d))) (\<lambda>d'.
       Inr (r\<lparr>rev_status := RevActive, rev_activated := Some (call_now e)\<rparr>, d')))))"

definition stop_service :: "call \<Rightarrow> uuid \<Rightarrow> db \<Rightarrow> service result" where
  "stop_service e sid d =
     bindE (get_service sid d) (\<lambda>s.
       if svc_status s \<noteq> SvcActive then Inl (InvalidTransition NotActiveService)
       else
         bindE (emit_event (call_ids e 0) (call_now e) ''service.stopped'' (uuid_str sid)
             [(''service_id'', JStr (uuid_str sid))]
             (upd_service (call_now e) sid (\<lambda>x. x\<lparr>svc_status := SvcStopped, svc_updated := call_now e\<rparr>) d))
           (\<lambda>d'. Inr (s\<lparr>svc_status := SvcStopped, svc_updated := call_now e\<rparr>, d')))"

definition start_service :: "call \<Rightarrow> uuid \<Rightarrow> db \<Rightarrow> service result" where
  "start_service e sid d =
     bindE (get_service sid d) (\<lambda>s.
       if svc_status s \<noteq> SvcStopped then Inl (InvalidTransition NotStoppedService)
       else
         case svc_active_rev s of
           None \<Rightarrow> Inl (InvalidTransition NoActiveRevision)
         | Some rid \<Rightarrow>
             (case row_get rev_id rid (revisions d) of
                None \<Rightarrow> Inl (InvalidTransition ActiveRevisionUnavailable)
              | Some r \<Rightarrow>
                  if rev_status r \<noteq> RevActive then Inl (InvalidTransition ActiveRevisionUnavailable)
                  else
                    bindE (require_current_interface r) (\<lambda>_.
                    bindE (grpc_method_paths (rev_manifest r)) (\<lambda>paths.
                    bindE (if paths = [] then Inr ()
                           else bindE (grpc_service_names (rev_manifest r)) (\<lambda>names.
                                  assert_grpc_routes_available s paths names d)) (\<lambda>_.
                    bindE (emit_event (call_ids e 0) (call_now e) ''service.started'' (uuid_str sid)
                        [(''service_id'', JStr (uuid_str sid)), (''revision_id'', JStr (uuid_str rid)),
                         (''revision'', JStr (rev_name r))]
                        (upd_service (call_now e) sid
                           (\<lambda>x. x\<lparr>svc_status := SvcActive, svc_updated := call_now e\<rparr>) d)) (\<lambda>d'.
                      Inr (s\<lparr>svc_status := SvcActive, svc_updated := call_now e\<rparr>, d')))))))"

definition list_revisions :: "uuid \<Rightarrow> db \<Rightarrow> repo_error + revision list" where
  "list_revisions sid d =
     bindE (get_service sid d) (\<lambda>_.
       Inr (sort_desc rev_created (filter (\<lambda>r. rev_service r = sid) (revisions d))))"

definition find_revision :: "uuid \<Rightarrow> string \<Rightarrow> db \<Rightarrow> revision option" where
  "find_revision sid name d = find (\<lambda>r. rev_service r = sid \<and> rev_name r = name) (revisions d)"

section \<open>The tables as keyed tables\<close>

interpretation svc: keyed_table "row_get svc_id" "row_upd svc_id" "\<lambda>r rows. rows @ [r]" svc_id
  "\<lambda>rows. distinct (map svc_id rows)"
  by (rule keyed_table_rows)

interpretation rev: keyed_table "row_get rev_id" "row_upd rev_id" "\<lambda>r rows. rows @ [r]" rev_id
  "\<lambda>rows. distinct (map rev_id rows)"
  by (rule keyed_table_rows)

definition touch :: "time \<Rightarrow> (service \<Rightarrow> service) \<Rightarrow> service \<Rightarrow> service" where
  "touch now f s = (if f s = s then s else (f s)\<lparr>svc_updated := now\<rparr>)"

lemma touch_simps [simp]:
  "svc_id (touch now f s) = svc_id (f s)" "svc_status (touch now f s) = svc_status (f s)"
  "svc_active_rev (touch now f s) = svc_active_rev (f s)" "svc_name (touch now f s) = svc_name (f s)"
  by (simp_all add: touch_def)

named_theorems table_simps \<open>tables after an operation\<close>

lemma upd_service_tables [table_simps]:
  "revisions (upd_service now sid f d) = revisions d"
  "outboxes (upd_service now sid f d) = outboxes d"
  by (simp_all add: upd_service_def)

lemma upd_service_services:
  "services (upd_service now sid f d) = row_upd svc_id sid (touch now f) (services d)"
  by (simp add: upd_service_def touch_def [abs_def])

lemma upd_revision_tables [table_simps]:
  "services (upd_revision rid f d) = services d"
  "outboxes (upd_revision rid f d) = outboxes d"
  by (simp_all add: upd_revision_def)

lemma upd_revision_revisions:
  "revisions (upd_revision rid f d) = row_upd rev_id rid f (revisions d)"
  by (simp add: upd_revision_def)

lemma emit_event_tables:
  assumes "emit_event oid now t a p d = Inr d'"
  shows "services d' = services d" "revisions d' = revisions d"
  using assms by (simp_all add: insert_defs guard_insert_eq)

section \<open>The life-cycle invariant\<close>

abbreviation svc_at :: "uuid \<Rightarrow> db \<Rightarrow> service option" where
  "svc_at k d \<equiv> row_get svc_id k (services d)"
abbreviation rev_at :: "uuid \<Rightarrow> db \<Rightarrow> revision option" where
  "rev_at k d \<equiv> row_get rev_id k (revisions d)"

text \<open>The method paths a service answers to: those of its active revision while it is active.\<close>

definition published :: "db \<Rightarrow> uuid \<Rightarrow> string set" where
  "published d k =
     (case svc_at k d of
        None \<Rightarrow> {}
      | Some s \<Rightarrow>
          (case svc_active_rev s of
             None \<Rightarrow> {}
           | Some rid \<Rightarrow>
               (case rev_at rid d of
                  None \<Rightarrow> {}
                | Some r \<Rightarrow>
                    if svc_status s = SvcActive \<and> rev_status r = RevActive
                    then (case grpc_method_paths (rev_manifest r) of Inl _ \<Rightarrow> {} | Inr ps \<Rightarrow> set ps)
                    else {})))"

definition lifecycle_inv :: "db \<Rightarrow> bool" where
  "lifecycle_inv d =
     (distinct (map svc_id (services d)) \<and> distinct (map rev_id (revisions d)) \<and>
      (\<forall>k s. svc_at k d = Some s \<longrightarrow>
         (svc_status s = SvcActive \<longrightarrow> svc_active_rev s \<noteq> None) \<and>
         (\<forall>rid. svc_active_rev s = Some rid \<longrightarrow>
            (\<exists>r. rev_at rid d = Some r \<and> rev_service r = k \<and> rev_status r = RevActive))) \<and>
      (\<forall>rid r. rev_at rid d = Some r \<longrightarrow>
         (\<exists>s. svc_at (rev_service r) d = Some s \<and> (rev_status r = RevActive \<longrightarrow> svc_active_rev s = Some rid))) \<and>
      (\<forall>k k'. k \<noteq> k' \<longrightarrow> published d k \<inter> published d k' = {}))"

lemma lifecycle_active_rev:
  "lifecycle_inv d \<Longrightarrow> svc_at k d = Some s \<Longrightarrow> svc_active_rev s = Some rid \<Longrightarrow>
   \<exists>r. rev_at rid d = Some r \<and> rev_service r = k \<and> rev_status r = RevActive"
  unfolding lifecycle_inv_def by meson

lemma lifecycle_active:
  "lifecycle_inv d \<Longrightarrow> svc_at k d = Some s \<Longrightarrow> svc_status s = SvcActive \<Longrightarrow> svc_active_rev s \<noteq> None"
  unfolding lifecycle_inv_def by meson

lemma lifecycle_owner:
  "lifecycle_inv d \<Longrightarrow> rev_at rid d = Some r \<Longrightarrow>
   \<exists>s. svc_at (rev_service r) d = Some s \<and> (rev_status r = RevActive \<longrightarrow> svc_active_rev s = Some rid)"
  unfolding lifecycle_inv_def by meson

lemma lifecycle_routes:
  "lifecycle_inv d \<Longrightarrow> k \<noteq> k' \<Longrightarrow> published d k \<inter> published d k' = {}"
  unfolding lifecycle_inv_def by meson

text \<open>
  What an operation must keep for the invariant to carry over: the identifier, status and active
  revision of every service, and the identifier, service, status and method paths of every revision.
\<close>

definition svc_view :: "service \<Rightarrow> uuid \<times> service_status \<times> uuid option" where
  "svc_view s = (svc_id s, svc_status s, svc_active_rev s)"

definition rev_view :: "revision \<Rightarrow> uuid \<times> uuid \<times> revision_status \<times> (repo_error + string list)" where
  "rev_view r = (rev_id r, rev_service r, rev_status r, grpc_method_paths (rev_manifest r))"

definition same_view :: "db \<Rightarrow> db \<Rightarrow> bool" where
  "same_view d d' = (map svc_view (services d') = map svc_view (services d) \<and>
     map rev_view (revisions d') = map rev_view (revisions d))"

lemma same_view_refl [simp]: "same_view d d"
  by (simp add: same_view_def)

lemma same_view_trans: "same_view a b \<Longrightarrow> same_view b c \<Longrightarrow> same_view a c"
  by (simp add: same_view_def)

lemma row_get_view:
  assumes "map v rows' = map v rows" and "\<And>r. pk r = f (v r)"
  shows "map_option v (row_get pk k rows') = map_option v (row_get pk k rows)"
  using assms(1)
proof (induction rows arbitrary: rows')
  case (Cons r rows)
  then obtain r' rest where "rows' = r' # rest" "v r' = v r" "map v rest = map v rows" by auto
  with Cons.IH [of rest] show ?case using assms(2) [of r] assms(2) [of r']
    by (simp add: row_get_Cons)
qed simp

lemma same_view_pks:
  assumes "same_view d d'"
  shows "map svc_id (services d') = map svc_id (services d)" "map rev_id (revisions d') = map rev_id (revisions d)"
proof -
  have "map fst (map svc_view (services d')) = map fst (map svc_view (services d))"
    "map fst (map rev_view (revisions d')) = map fst (map rev_view (revisions d))"
    using assms by (simp_all only: same_view_def)
  then show "map svc_id (services d') = map svc_id (services d)" "map rev_id (revisions d') = map rev_id (revisions d)"
    by (simp_all add: svc_view_def rev_view_def comp_def)
qed

lemma same_view_svc:
  "same_view d d' \<Longrightarrow> map_option svc_view (svc_at k d') = map_option svc_view (svc_at k d)"
  by (rule row_get_view [where f = fst]) (simp_all add: same_view_def svc_view_def)

lemma same_view_rev:
  "same_view d d' \<Longrightarrow> map_option rev_view (rev_at k d') = map_option rev_view (rev_at k d)"
  by (rule row_get_view [where f = fst]) (simp_all add: same_view_def rev_view_def)

lemma same_view_svcD:
  "same_view d d' \<Longrightarrow> svc_at k d' = Some s \<Longrightarrow>
   \<exists>s0. svc_at k d = Some s0 \<and> svc_status s = svc_status s0 \<and> svc_active_rev s = svc_active_rev s0"
  using same_view_svc [of d d' k] by (cases "svc_at k d") (auto simp: svc_view_def)

lemma same_view_revD:
  "same_view d d' \<Longrightarrow> rev_at k d' = Some r \<Longrightarrow>
   \<exists>r0. rev_at k d = Some r0 \<and> rev_service r = rev_service r0 \<and> rev_status r = rev_status r0"
  using same_view_rev [of d d' k] by (cases "rev_at k d") (auto simp: rev_view_def)

lemma same_view_sym: "same_view d d' \<Longrightarrow> same_view d' d"
  by (simp add: same_view_def)

lemma same_view_published:
  assumes "same_view d d'"
  shows "published d' k = published d k"
proof (cases "svc_at k d")
  case None
  then show ?thesis using same_view_svc [OF assms, of k] by (simp add: published_def)
next
  case (Some s)
  then obtain s' where s': "svc_at k d' = Some s'" "svc_status s' = svc_status s" "svc_active_rev s' = svc_active_rev s"
    using same_view_svcD [OF same_view_sym [OF assms] Some] by metis
  show ?thesis
  proof (cases "svc_active_rev s")
    case None
    then show ?thesis using Some s' by (simp add: published_def)
  next
    case (Some rid)
    then show ?thesis using \<open>svc_at k d = Some s\<close> s' same_view_rev [OF assms, of rid]
      by (cases "rev_at rid d"; cases "rev_at rid d'") (simp_all add: published_def rev_view_def)
  qed
qed

lemma lifecycle_same_view:
  assumes "same_view d d'" and inv: "lifecycle_inv d"
  shows "lifecycle_inv d'"
  unfolding lifecycle_inv_def
proof (intro conjI allI impI)
  show "distinct (map svc_id (services d'))" "distinct (map rev_id (revisions d'))"
    using inv same_view_pks [OF assms(1)] by (simp_all add: lifecycle_inv_def)
next
  fix k s assume s: "svc_at k d' = Some s"
  then obtain s0 where s0: "svc_at k d = Some s0" "svc_status s = svc_status s0" "svc_active_rev s = svc_active_rev s0"
    using same_view_svcD [OF assms(1)] by blast
  show "svc_active_rev s \<noteq> None" if "svc_status s = SvcActive"
    using that s0 lifecycle_active [OF inv s0(1)] by simp
  fix rid assume "svc_active_rev s = Some rid"
  then obtain r where "rev_at rid d = Some r" "rev_service r = k" "rev_status r = RevActive"
    using s0 lifecycle_active_rev [OF inv s0(1)] by auto
  then show "\<exists>r. rev_at rid d' = Some r \<and> rev_service r = k \<and> rev_status r = RevActive"
    using same_view_revD [OF same_view_sym [OF assms(1)]] by metis
next
  fix rid r assume "rev_at rid d' = Some r"
  then obtain r0 where r0: "rev_at rid d = Some r0" "rev_service r = rev_service r0" "rev_status r = rev_status r0"
    using same_view_revD [OF assms(1)] by blast
  then obtain s where "svc_at (rev_service r0) d = Some s" "rev_status r0 = RevActive \<longrightarrow> svc_active_rev s = Some rid"
    using lifecycle_owner [OF inv r0(1)] by blast
  then show "\<exists>s. svc_at (rev_service r) d' = Some s \<and> (rev_status r = RevActive \<longrightarrow> svc_active_rev s = Some rid)"
    using same_view_svcD [OF same_view_sym [OF assms(1)]] r0 by metis
next
  fix k k' :: uuid assume "k \<noteq> k'"
  then show "published d' k \<inter> published d' k' = {}"
    using inv same_view_published [OF assms(1)] by (simp add: lifecycle_inv_def)
qed

section \<open>The route check\<close>

lemma check_routes_free:
  "check_routes paths names rows = Inr () \<Longrightarrow> (s, r) \<in> set rows \<Longrightarrow>
   \<exists>used. grpc_method_paths (rev_manifest r) = Inr used \<and> set paths \<inter> set used = {}"
  by (induction paths names rows rule: check_routes.induct)
    (auto simp: result_simps split: if_splits)

lemma published_row:
  assumes "p \<in> published d k"
  obtains s r ps where "(s, r) \<in> set (active_rows d)" and "svc_id s = k"
    and "grpc_method_paths (rev_manifest r) = Inr ps" and "p \<in> set ps"
proof -
  obtain s rid r ps where *: "svc_at k d = Some s" "svc_active_rev s = Some rid" "rev_at rid d = Some r"
    "svc_status s = SvcActive" "rev_status r = RevActive" "grpc_method_paths (rev_manifest r) = Inr ps" "p \<in> set ps"
    using assms unfolding published_def by (simp split: option.splits if_splits sum.splits)
  have "s \<in> set (services d)" "svc_id s = k" "r \<in> set (revisions d)" "rev_id r = rid"
    using *(1,3) by (auto dest: row_get_SomeD)
  with * show thesis by (intro that [of s r ps]) (auto simp: active_rows_def)
qed

lemma routes_available_free:
  assumes "assert_grpc_routes_available s paths names d = Inr ()" and "k \<noteq> svc_id s"
  shows "set paths \<inter> published d k = {}"
proof (cases "paths = []")
  case False
  then have c: "check_routes paths names (sort_key (\<lambda>(s, r). svc_name s)
      (filter (\<lambda>(x, r). svc_id x \<noteq> svc_id s) (active_rows d))) = Inr ()"
    using assms(1) by (simp add: assert_grpc_routes_available_def)
  have False if p: "p \<in> set paths" "p \<in> published d k" for p
  proof -
    obtain s' r ps where r: "(s', r) \<in> set (active_rows d)" "svc_id s' = k"
      "grpc_method_paths (rev_manifest r) = Inr ps" "p \<in> set ps"
      using published_row [OF p(2)] by metis
    then show False using check_routes_free [OF c, of s' r] assms(2) p(1) by auto
  qed
  then show ?thesis by blast
qed simp

section \<open>The operations keep the invariant\<close>

lemma svc_at_upd:
  "(\<And>s. svc_id (f s) = svc_id s) \<Longrightarrow> svc_at k (upd_service now sid f d) =
     (if k = sid then map_option (touch now f) (svc_at k d) else svc_at k d)"
  by (simp add: upd_service_services svc.get_upd)

lemma rev_at_upd:
  "(\<And>r. rev_id (f r) = rev_id r) \<Longrightarrow> rev_at k (upd_revision rid f d) =
     (if k = rid then map_option f (rev_at k d) else rev_at k d)"
  by (simp add: upd_revision_revisions rev.get_upd)

lemma published_other:
  "(\<And>s. svc_id (f s) = svc_id s) \<Longrightarrow> k \<noteq> sid \<Longrightarrow> published (upd_service now sid f d) k = published d k"
  by (simp add: published_def svc_at_upd table_simps split: option.split)

lemma lifecycle_set_status:
  assumes inv: "lifecycle_inv d"
    and f: "\<And>s. svc_id (f s) = svc_id s" "\<And>s. svc_active_rev (f s) = svc_active_rev s" "\<And>s. svc_status (f s) = st"
    and act: "\<And>s. svc_at sid d = Some s \<Longrightarrow> st = SvcActive \<Longrightarrow> svc_active_rev s \<noteq> None"
    and free: "\<And>k. k \<noteq> sid \<Longrightarrow> published (upd_service now sid f d) sid \<inter> published d k = {}"
  shows "lifecycle_inv (upd_service now sid f d)"
  unfolding lifecycle_inv_def
proof (intro conjI allI impI)
  show "distinct (map svc_id (services (upd_service now sid f d)))"
    using inv svc.ok_upd [of "touch now f" sid "services d"] f by (simp add: upd_service_services lifecycle_inv_def)
  show "distinct (map rev_id (revisions (upd_service now sid f d)))"
    using inv by (simp add: table_simps lifecycle_inv_def)
next
  fix k s assume "svc_at k (upd_service now sid f d) = Some s"
  then obtain s0 where s0: "svc_at k d = Some s0" "svc_active_rev s = svc_active_rev s0"
    "k \<noteq> sid \<longrightarrow> s = s0" "k = sid \<longrightarrow> svc_status s = st"
    using f by (auto simp: svc_at_upd split: if_splits)
  show "svc_active_rev s \<noteq> None" if "svc_status s = SvcActive"
    using that s0 act lifecycle_active [OF inv s0(1)] by (cases "k = sid") auto
  show "\<exists>r. rev_at rid (upd_service now sid f d) = Some r \<and> rev_service r = k \<and> rev_status r = RevActive"
    if "svc_active_rev s = Some rid" for rid
    using that s0(2) lifecycle_active_rev [OF inv s0(1)] by (simp add: table_simps)
next
  fix rid r assume "rev_at rid (upd_service now sid f d) = Some r"
  then obtain s where "svc_at (rev_service r) d = Some s" "rev_status r = RevActive \<longrightarrow> svc_active_rev s = Some rid"
    using lifecycle_owner [OF inv] by (auto simp: table_simps)
  then show "\<exists>s. svc_at (rev_service r) (upd_service now sid f d) = Some s \<and>
      (rev_status r = RevActive \<longrightarrow> svc_active_rev s = Some rid)"
    using f by (cases "rev_service r = sid") (auto simp: svc_at_upd)
next
  fix k k' :: uuid assume kk: "k \<noteq> k'"
  have eq: "\<And>x. x \<noteq> sid \<Longrightarrow> published (upd_service now sid f d) x = published d x"
    using f(1) by (rule published_other)
  consider "k = sid" "k' \<noteq> sid" | "k \<noteq> sid" "k' = sid" | "k \<noteq> sid" "k' \<noteq> sid" using kk by blast
  then show "published (upd_service now sid f d) k \<inter> published (upd_service now sid f d) k' = {}"
  proof cases
    case 1
    then show ?thesis using free [of k'] eq [of k'] by simp
  next
    case 2
    then show ?thesis using free [of k] eq [of k] by (simp add: Int_commute)
  next
    case 3
    then show ?thesis using eq [of k] eq [of k'] lifecycle_routes [OF inv kk] by simp
  qed
qed

lemma lifecycle_event: "lifecycle_inv d \<Longrightarrow> emit_event oid now t a p d = Inr d' \<Longrightarrow> lifecycle_inv d'"
  by (rule lifecycle_same_view) (simp_all add: same_view_def emit_event_tables)

lemma published_stopped:
  "(\<And>s. svc_id (f s) = svc_id s) \<Longrightarrow> (\<And>s. svc_status (f s) = SvcStopped) \<Longrightarrow>
   published (upd_service now sid f d) sid = {}"
  by (auto simp: published_def svc_at_upd split: option.splits)

lemma stop_service_inv:
  assumes "lifecycle_inv d" and "stop_service e sid d = Inr (s, d')"
  shows "lifecycle_inv d'"
proof -
  let ?f = "\<lambda>x. x\<lparr>svc_status := SvcStopped, svc_updated := call_now e\<rparr>"
  have "lifecycle_inv (upd_service (call_now e) sid ?f d)"
    by (rule lifecycle_set_status [where st = SvcStopped]) (simp_all add: assms(1) published_stopped)
  then show ?thesis using assms(2) by (auto simp: stop_service_def result_simps intro: lifecycle_event)
qed

lemma start_service_inv:
  assumes inv: "lifecycle_inv d" and "start_service e sid d = Inr (s', d')"
  shows "lifecycle_inv d'"
proof -
  let ?f = "\<lambda>x. x\<lparr>svc_status := SvcActive, svc_updated := call_now e\<rparr>"
  obtain s where s: "svc_at sid d = Some s"
    using assms(2) by (auto simp: start_service_def result_simps)
  obtain rid where rid: "svc_active_rev s = Some rid"
    using assms(2) s by (cases "svc_active_rev s") (auto simp: start_service_def get_service_def split: if_splits)
  obtain r where r: "rev_at rid d = Some r"
    using assms(2) s rid by (cases "rev_at rid d") (auto simp: start_service_def get_service_def split: if_splits)
  obtain paths where paths: "grpc_method_paths (rev_manifest r) = Inr paths"
    "paths = [] \<or> (\<exists>names. assert_grpc_routes_available s paths names d = Inr ())"
    and ev: "emit_event (call_ids e 0) (call_now e) ''service.started'' (uuid_str sid)
       [(''service_id'', JStr (uuid_str sid)), (''revision_id'', JStr (uuid_str rid)),
        (''revision'', JStr (rev_name r))] (upd_service (call_now e) sid ?f d) = Inr d'"
    using assms(2) s rid r
    by (auto simp: start_service_def get_service_def result_simps split: if_splits)
  have sid: "svc_id s = sid" using s by (auto dest: row_get_SomeD)
  have "set paths \<inter> published d k = {}" if "k \<noteq> sid" for k
    using paths(2) routes_available_free [of s paths _ d k] that sid by (cases "paths = []") auto
  moreover have "published (upd_service (call_now e) sid ?f d) sid \<subseteq> set paths"
    using s rid r paths(1) by (simp add: published_def svc_at_upd table_simps)
  ultimately have "lifecycle_inv (upd_service (call_now e) sid ?f d)"
    using s rid by (intro lifecycle_set_status [where st = SvcActive] inv) auto
  then show ?thesis using ev by (rule lifecycle_event)
qed

lemma drain_old_tables:
  "services (drain_old_revision s r d) = services d"
  "rev_at k (drain_old_revision s r d) =
     (if svc_active_rev s = Some k \<and> k \<noteq> rev_id r
      then map_option (\<lambda>x. x\<lparr>rev_status := RevDraining\<rparr>) (rev_at k d) else rev_at k d)"
  "map rev_id (revisions (drain_old_revision s r d)) = map rev_id (revisions d)"
  by (auto simp: drain_old_revision_def table_simps rev_at_upd split: option.split)
    (auto simp: upd_revision_revisions row_upd_pk)

lemma activate_tables:
  fixes e s r d defines "d' \<equiv> publish_revision e s r (drain_old_revision s r d)"
  assumes "rev_at (rev_id r) d = Some r"
  shows "rev_at k d' =
      (if k = rev_id r then Some (r\<lparr>rev_status := RevActive, rev_activated := Some (call_now e)\<rparr>)
       else if svc_active_rev s = Some k then map_option (\<lambda>x. x\<lparr>rev_status := RevDraining\<rparr>) (rev_at k d)
       else rev_at k d)"
    and "k \<noteq> svc_id s \<Longrightarrow> svc_at k d' = svc_at k d"
    and "svc_at (svc_id s) d = Some s \<Longrightarrow> \<exists>s'. svc_at (svc_id s) d' = Some s' \<and> svc_active_rev s' = Some (rev_id r) \<and>
      svc_status s' = (if svc_status s = SvcStopped then SvcStopped else SvcActive)"
    and "map svc_id (services d') = map svc_id (services d)"
    and "map rev_id (revisions d') = map rev_id (revisions d)"
proof -
  show "rev_at k d' = (if k = rev_id r then Some (r\<lparr>rev_status := RevActive, rev_activated := Some (call_now e)\<rparr>)
       else if svc_active_rev s = Some k then map_option (\<lambda>x. x\<lparr>rev_status := RevDraining\<rparr>) (rev_at k d)
       else rev_at k d)"
    unfolding d'_def publish_revision_def
    by (simp only: table_simps) (simp add: rev_at_upd drain_old_tables assms(2))
  show "k \<noteq> svc_id s \<Longrightarrow> svc_at k d' = svc_at k d"
    by (simp add: d'_def publish_revision_def svc_at_upd table_simps drain_old_tables)
  show "svc_at (svc_id s) d = Some s \<Longrightarrow> \<exists>s'. svc_at (svc_id s) d' = Some s' \<and> svc_active_rev s' = Some (rev_id r) \<and>
      svc_status s' = (if svc_status s = SvcStopped then SvcStopped else SvcActive)"
    by (simp add: d'_def publish_revision_def svc_at_upd table_simps drain_old_tables)
  show "map svc_id (services d') = map svc_id (services d)"
    by (simp add: d'_def publish_revision_def upd_service_services row_upd_pk table_simps drain_old_tables)
  show "map rev_id (revisions d') = map rev_id (revisions d)"
    by (simp add: d'_def publish_revision_def upd_revision_revisions row_upd_pk table_simps drain_old_tables)
qed

lemma activation_checks_free:
  assumes "activation_checks s r d = Inr ()" and "svc_status s \<noteq> SvcStopped" and "k \<noteq> svc_id s"
  shows "\<exists>ps. grpc_method_paths (rev_manifest r) = Inr ps \<and> set ps \<inter> published d k = {}"
proof -
  obtain ps where ps: "grpc_method_paths (rev_manifest r) = Inr ps"
    using assms(1) by (auto simp: activation_checks_def result_simps split: if_splits)
  show ?thesis
  proof (cases "ps = []")
    case False
    then obtain row where row: "one_or_none (contract_of_revision (rev_id r) d) = Inr row"
      using assms(1) ps by (auto simp: activation_checks_def bindE_eq_Inr split: if_splits)
    then obtain rc c where "row = Some (rc, c)"
      using assms(1) ps False by (cases row) (auto simp: activation_checks_def bindE_eq_Inr split: if_splits)
    then obtain names where "assert_grpc_routes_available s ps names d = Inr ()"
      using assms(1,2) ps False row by (auto simp: activation_checks_def bindE_eq_Inr split: if_splits)
    then show ?thesis using routes_available_free assms(3) ps by blast
  qed (simp add: ps)
qed

lemma activate_publishes:
  assumes inv: "lifecycle_inv d" and s: "svc_at sid d = Some s" and r: "revision_of sid rid d = Some r"
    and ok: "activation_checks s r d = Inr ()"
  shows "lifecycle_inv (publish_revision e s r (drain_old_revision s r d))"
proof -
  define d' where "d' = publish_revision e s r (drain_old_revision s r d)"
  have sid: "svc_id s = sid" using s by (auto dest: row_get_SomeD)
  have rr: "r \<in> set (revisions d)" "rev_id r = rid" "rev_service r = sid"
    using r by (auto simp: revision_of_def find_Some_iff)
  then have rid: "rev_at (rev_id r) d = Some r"
    using inv by (simp add: row_get_unique lifecycle_inv_def)
  note T = activate_tables [OF rid, where e = e and s = s, folded d'_def, unfolded sid rr(2)]
  obtain s' where s': "svc_at sid d' = Some s'" "svc_active_rev s' = Some rid"
    "svc_status s' = (if svc_status s = SvcStopped then SvcStopped else SvcActive)"
    using T(3) s by auto
  have other: "rev_at x d' = rev_at x d" if o: "svc_at k d = Some sk" "svc_active_rev sk = Some x" "k \<noteq> sid" for k sk x
  proof -
    obtain rx where rx: "rev_at x d = Some rx" "rev_service rx = k"
      using lifecycle_active_rev [OF inv o(1,2)] by blast
    have "x \<noteq> rid" using rx o(3) rid rr(2,3) by auto
    moreover have "svc_active_rev s \<noteq> Some x" using lifecycle_active_rev [OF inv s] rx o(3) by auto
    ultimately show ?thesis using T(1) [of x] by simp
  qed
  have pub: "published d' k = published d k" if "k \<noteq> sid" for k
    using other [OF _ _ that] T(2) [OF that] by (auto simp: published_def split: option.splits)
  have free: "published d' sid \<inter> published d k = {}" if o: "k \<noteq> sid" for k
  proof (cases "svc_status s = SvcStopped")
    case True
    then have "published d' sid = {}" using s' by (simp add: published_def split: option.split)
    then show ?thesis by simp
  next
    case False
    then obtain ps where "grpc_method_paths (rev_manifest r) = Inr ps" "set ps \<inter> published d k = {}"
      using activation_checks_free [OF ok False, of k] o sid by auto
    moreover from this(1) have "published d' sid = set ps"
      using s' T(1) [of rid] False by (simp add: published_def)
    ultimately show ?thesis by simp
  qed
  have "lifecycle_inv d'"
    unfolding lifecycle_inv_def
  proof (intro conjI allI impI)
    show "distinct (map svc_id (services d'))" "distinct (map rev_id (revisions d'))"
      using inv T(4,5) by (simp_all add: lifecycle_inv_def)
  next
    fix k sk assume sk: "svc_at k d' = Some sk"
    show "svc_active_rev sk \<noteq> None" if "svc_status sk = SvcActive"
      using sk that s' T(2) lifecycle_active [OF inv, of k] by (cases "k = sid") auto
    fix x assume x: "svc_active_rev sk = Some x"
    show "\<exists>r. rev_at x d' = Some r \<and> rev_service r = k \<and> rev_status r = RevActive"
    proof (cases "k = sid")
      case True
      then show ?thesis using x sk s' T(1) [of rid] rr by simp
    next
      case False
      then have "svc_at k d = Some sk" using sk T(2) by simp
      then show ?thesis using other [OF _ x False] lifecycle_active_rev [OF inv _ x] by auto
    qed
  next
    fix x rx assume rx: "rev_at x d' = Some rx"
    show "\<exists>s. svc_at (rev_service rx) d' = Some s \<and> (rev_status rx = RevActive \<longrightarrow> svc_active_rev s = Some x)"
    proof (cases "x = rid")
      case True
      then show ?thesis using rx T(1) [of rid] rr s' by auto
    next
      case False
      then obtain r0 where r0: "rev_at x d = Some r0" "rev_service rx = rev_service r0"
        "rev_status rx = RevActive \<longrightarrow> rx = r0 \<and> svc_active_rev s \<noteq> Some x"
        using rx T(1) [of x] by (auto split: if_splits)
      obtain s0 where s0: "svc_at (rev_service r0) d = Some s0" "rev_status r0 = RevActive \<longrightarrow> svc_active_rev s0 = Some x"
        using lifecycle_owner [OF inv r0(1)] by blast
      show ?thesis
      proof (cases "rev_service r0 = sid")
        case True
        then show ?thesis using r0 s0 s s' by auto
      next
        case False
        then show ?thesis using r0 s0 T(2) [OF False] by auto
      qed
    qed
  next
    fix k k' :: uuid assume kk: "k \<noteq> k'"
    consider "k = sid" "k' \<noteq> sid" | "k \<noteq> sid" "k' = sid" | "k \<noteq> sid" "k' \<noteq> sid" using kk by blast
    then show "published d' k \<inter> published d' k' = {}"
    proof cases
      case 1
      then show ?thesis using free [of k'] pub [of k'] by simp
    next
      case 2
      then show ?thesis using free [of k] pub [of k] by (simp add: Int_commute)
    next
      case 3
      then show ?thesis using pub [of k] pub [of k'] lifecycle_routes [OF inv kk] by simp
    qed
  qed
  then show ?thesis by (simp add: d'_def)
qed

lemma activate_revision_inv:
  assumes "lifecycle_inv d" and "activate_revision e sid rid d = Inr (r', d')"
  shows "lifecycle_inv d'"
proof -
  obtain s r where "svc_at sid d = Some s" "revision_of sid rid d = Some r" "activation_checks s r d = Inr ()"
    and ev: "emit_event (call_ids e 0) (call_now e) ''revision.activated'' (uuid_str sid)
        [(''service_id'', JStr (uuid_str sid)), (''revision_id'', JStr (uuid_str rid)),
         (''revision'', JStr (rev_name r))]
        (publish_revision e s r (drain_old_revision s r d)) = Inr d'"
    using assms(2) by (auto simp: activate_revision_def result_simps)
  then have "lifecycle_inv (publish_revision e s r (drain_old_revision s r d))"
    using activate_publishes [OF assms(1)] by blast
  then show ?thesis using ev by (rule lifecycle_event)
qed

lemma stop_unsupported_inv:
  assumes "lifecycle_inv d" and "stop_services_with_unsupported_interfaces e d = Inr (names, d')"
  shows "lifecycle_inv d'"
proof -
  have "lifecycle_inv (snd (names, d'))"
  proof (rule foldE_invariant [where P = "\<lambda>p. lifecycle_inv (snd p)", OF assms(2) [unfolded stop_services_with_unsupported_interfaces_def]])
    show "lifecycle_inv (snd ([] :: string list, d))" using assms(1) by simp
    fix x p p' assume "lifecycle_inv (snd p)" and st: "stop_unsupported_row e x p = Inr p'"
    obtain i s r where x: "x = (i, s, r)" by (cases x)
    obtain st0 d0 where p: "p = (st0, d0)" by (cases p)
    let ?f = "\<lambda>y. y\<lparr>svc_status := SvcStopped, svc_updated := call_now e\<rparr>"
    have i: "lifecycle_inv (upd_service (call_now e) (svc_id s) ?f d0)"
      by (rule lifecycle_set_status [where st = SvcStopped])
        (use \<open>lifecycle_inv (snd p)\<close> p in \<open>simp_all add: published_stopped\<close>)
    show "lifecycle_inv (snd p')"
      using st p x i \<open>lifecycle_inv (snd p)\<close>
      by (auto simp: stop_unsupported_row_def result_simps split: if_splits intro: lifecycle_event)
  qed
  then show ?thesis by simp
qed

lemma upd_service_same_view:
  assumes "\<And>s. svc_view (f s) = svc_view s"
  shows "same_view d (upd_service now sid f d)"
proof -
  have "svc_view (touch now f s) = svc_view s" for s
    using assms [of s] by (simp add: svc_view_def touch_def)
  then show ?thesis by (simp add: same_view_def table_simps upd_service_services row_upd_def)
qed

lemma update_service_inv:
  "lifecycle_inv d \<Longrightarrow> update_service e sid q d = Inr (s, d') \<Longrightarrow> lifecycle_inv d'"
  by (erule lifecycle_same_view [rotated])
    (auto simp: update_service_def result_simps Let_def svc_view_def
      intro!: upd_service_same_view split: if_splits)

lemma configure_webhook_inv:
  "lifecycle_inv d \<Longrightarrow> configure_service_webhook e sid h d = Inr (s, d') \<Longrightarrow> lifecycle_inv d'"
  by (erule lifecycle_same_view [rotated])
    (auto simp: configure_service_webhook_def result_simps Let_def svc_view_def intro!: upd_service_same_view)

text \<open>A row that is added to one of the two tables.\<close>

lemma create_service_inv:
  assumes inv: "lifecycle_inv d" and "create_service e q d = Inr (s, d')"
  shows "lifecycle_inv d'"
proof -
  have s: "svc_active_rev s = None" "svc_status s = SvcRegistered" "svc_at (svc_id s) d = None"
    and d': "services d' = services d @ [s]" "revisions d' = revisions d"
    using assms(2) by (auto simp: create_service_def Let_def result_simps insert_defs)
  have at: "svc_at k d' = (if k = svc_id s then Some s else svc_at k d)" for k
    using svc.get_add [of s "services d" k] s(3) d'(1) by simp
  have pub: "published d' k = (if k = svc_id s then {} else published d k)" for k
    using s(1) by (simp add: published_def at d'(2) split: option.split)
  show ?thesis
    unfolding lifecycle_inv_def
  proof (intro conjI allI impI)
    show "distinct (map svc_id (services d'))" "distinct (map rev_id (revisions d'))"
      using inv d' svc.ok_add [of "services d" s] s(3) by (simp_all add: lifecycle_inv_def)
  next
    fix k x assume x: "svc_at k d' = Some x"
    show "svc_active_rev x \<noteq> None" if "svc_status x = SvcActive"
      using that x s at lifecycle_active [OF inv, of k x] by (auto split: if_splits)
    show "\<exists>r. rev_at rid d' = Some r \<and> rev_service r = k \<and> rev_status r = RevActive"
      if "svc_active_rev x = Some rid" for rid
      using that x s at lifecycle_active_rev [OF inv, of k x rid] d'(2) by (auto split: if_splits)
  next
    fix rid r assume "rev_at rid d' = Some r"
    then obtain x where "svc_at (rev_service r) d = Some x" "rev_status r = RevActive \<longrightarrow> svc_active_rev x = Some rid"
      using lifecycle_owner [OF inv] d'(2) by auto
    then show "\<exists>x. svc_at (rev_service r) d' = Some x \<and> (rev_status r = RevActive \<longrightarrow> svc_active_rev x = Some rid)"
      using s(3) by (auto simp: at)
  next
    fix k k' :: uuid assume "k \<noteq> k'"
    then show "published d' k \<inter> published d' k' = {}"
      using lifecycle_routes [OF inv] by (auto simp: pub)
  qed
qed

lemma insert_revision_inv:
  assumes inv: "lifecycle_inv d" and "insert_revision r d = Inr d'" and "rev_status r \<noteq> RevActive"
  shows "lifecycle_inv d'"
proof -
  have r: "rev_at (rev_id r) d = None" "svc_at (rev_service r) d \<noteq> None"
    and d': "services d' = services d" "revisions d' = revisions d @ [r]"
    using assms(2) by (auto simp: insert_defs guard_insert_eq)
  have at: "rev_at k d' = (if k = rev_id r then Some r else rev_at k d)" for k
    using rev.get_add [of r "revisions d" k] r(1) d'(2) by simp
  have old: "rev_at rid d' = rev_at rid d" if "svc_at k d = Some s" "svc_active_rev s = Some rid" for k s rid
    using lifecycle_active_rev [OF inv that] r(1) by (auto simp: at)
  have pub: "published d' k = published d k" for k
    using old [of k] by (simp add: published_def d'(1) split: option.split)
  show ?thesis
    unfolding lifecycle_inv_def
  proof (intro conjI allI impI)
    show "distinct (map svc_id (services d'))" "distinct (map rev_id (revisions d'))"
      using inv d' rev.ok_add [of "revisions d" r] r(1) by (simp_all add: lifecycle_inv_def)
  next
    fix k x assume "svc_at k d' = Some x"
    then have x: "svc_at k d = Some x" by (simp add: d'(1))
    show "svc_active_rev x \<noteq> None" if "svc_status x = SvcActive"
      using that x lifecycle_active [OF inv x] by simp
    show "\<exists>r. rev_at rid d' = Some r \<and> rev_service r = k \<and> rev_status r = RevActive"
      if "svc_active_rev x = Some rid" for rid
      using old [OF x that] lifecycle_active_rev [OF inv x that] by simp
  next
    fix rid x assume x: "rev_at rid d' = Some x"
    show "\<exists>s. svc_at (rev_service x) d' = Some s \<and> (rev_status x = RevActive \<longrightarrow> svc_active_rev s = Some rid)"
      using x r(2) assms(3) lifecycle_owner [OF inv, of rid x] by (auto simp: at d'(1) split: if_splits)
  next
    fix k k' :: uuid assume "k \<noteq> k'"
    then show "published d' k \<inter> published d' k' = {}"
      using lifecycle_routes [OF inv] by (simp add: pub)
  qed
qed

lemma delete_service_inv:
  assumes inv: "lifecycle_inv d" and "delete_service sid d = Inr (name, d')"
  shows "lifecycle_inv d'"
proof -
  have d': "services d' = filter (\<lambda>s. svc_id s \<noteq> sid) (services d)"
    "revisions d' = filter (\<lambda>r. rev_service r \<noteq> sid) (revisions d)"
    using assms(2) by (auto simp: delete_service_def result_simps delete_cascade_def Let_def split: if_splits)
  have di: "distinct (map svc_id (services d))" "distinct (map rev_id (revisions d))"
    using inv by (simp_all add: lifecycle_inv_def)
  have sv: "svc_at k d' = (if k = sid then None else svc_at k d)" for k
    using row_get_filter [OF di(1)] by (auto simp: d' dest: row_get_SomeD split: option.splits)
  have rv: "rev_at k d' = (case rev_at k d of None \<Rightarrow> None | Some r \<Rightarrow> if rev_service r \<noteq> sid then Some r else None)" for k
    using row_get_filter [OF di(2)] by (simp add: d')
  have keep: "rev_at rid d' = rev_at rid d" if "svc_at k d = Some s" "svc_active_rev s = Some rid" "k \<noteq> sid" for k s rid
    using lifecycle_active_rev [OF inv that(1,2)] that(3) by (auto simp: rv)
  have pub: "published d' k = (if k = sid then {} else published d k)" for k
    using keep [of k] by (simp add: published_def sv split: option.split)
  show ?thesis
    unfolding lifecycle_inv_def
  proof (intro conjI allI impI)
    show "distinct (map svc_id (services d'))" "distinct (map rev_id (revisions d'))"
      using di by (simp_all add: d' distinct_map_filter)
  next
    fix k x assume "svc_at k d' = Some x"
    then have x: "k \<noteq> sid" "svc_at k d = Some x" by (simp_all add: sv split: if_splits)
    show "svc_active_rev x \<noteq> None" if "svc_status x = SvcActive"
      using that lifecycle_active [OF inv x(2)] by simp
    show "\<exists>r. rev_at rid d' = Some r \<and> rev_service r = k \<and> rev_status r = RevActive"
      if "svc_active_rev x = Some rid" for rid
      using keep [OF x(2) that x(1)] lifecycle_active_rev [OF inv x(2) that] by simp
  next
    fix rid x assume "rev_at rid d' = Some x"
    then have x: "rev_at rid d = Some x" "rev_service x \<noteq> sid" by (auto simp: rv split: option.splits if_splits)
    then show "\<exists>s. svc_at (rev_service x) d' = Some s \<and> (rev_status x = RevActive \<longrightarrow> svc_active_rev s = Some rid)"
      using lifecycle_owner [OF inv x(1)] by (simp add: sv)
  next
    fix k k' :: uuid assume "k \<noteq> k'"
    then show "published d' k \<inter> published d' k' = {}"
      using lifecycle_routes [OF inv] by (simp add: pub)
  qed
qed

section \<open>Properties\<close>


definition demo_call :: call where
  "demo_call = \<lparr>call_now = 5, call_ids = (\<lambda>n. 100 + n)\<rparr>"

definition demo_service :: "uuid \<Rightarrow> service_status \<Rightarrow> uuid option \<Rightarrow> service" where
  "demo_service k st act = \<lparr>svc_id = k, svc_name = hex_digits 2 k, svc_git_url = ''https://g/x'', svc_git_branch = None,
     svc_tracking = ''manual'', svc_interval = None, svc_token_hash = None, svc_webhook_at = None,
     svc_profile = None, svc_profile_mode = None, svc_status = st, svc_active_rev = act, svc_created = 0,
     svc_updated = 0\<rparr>"

definition demo_manifest :: "string \<Rightarrow> jdict" where
  "demo_manifest m = [(''spec_version'', JInt 2), (''endpoints'', JArr [JObj [(''id'', JStr ''run''),
     (''grpc'', JObj [(''service'', JStr ''p.S''), (''method'', JStr m)])]])]"

definition demo_revision :: "uuid \<Rightarrow> uuid \<Rightarrow> revision_status \<Rightarrow> string \<Rightarrow> revision" where
  "demo_revision k sid st m = \<lparr>rev_id = k, rev_service = sid, rev_name = hex_digits 2 k, rev_uri = [], rev_digest = [],
     rev_profile = [], rev_status = st, rev_manifest = demo_manifest m, rev_created = 0, rev_activated = None\<rparr>"

definition demo_db :: "service_status \<Rightarrow> db" where
  \<comment> \<open>service 7 in the given status with revisions 2 (active) and 3 (ready), both with a contract\<close>
  "demo_db st = empty_db\<lparr>services := [demo_service 7 st (Some 2)],
     revisions := [demo_revision 2 7 RevActive ''Old'', demo_revision 3 7 RevReady ''New''],
     contracts := [\<lparr>ct_id = 4, ct_service = 7, ct_schema = [], ct_source = [], ct_version = ''1.0'',
       ct_descriptor = [], ct_bundle = [], ct_bundle_digest = None, ct_methods = [], ct_status = ContractReady,
       ct_created = 0\<rparr>],
     rev_contracts := [\<lparr>rc_rev = 2, rc_contract = 4\<rparr>, \<lparr>rc_rev = 3, rc_contract = 4\<rparr>]\<rparr>"

lemma demo_db_inv: "lifecycle_inv (demo_db st)"
  by (auto simp: lifecycle_inv_def demo_db_def empty_db_def demo_service_def demo_revision_def row_get_Cons
      published_def split: if_splits)

lemma demo_paths: "grpc_method_paths (demo_manifest m) = Inr [''/p.S/'' @ m]" "grpc_service_names (demo_manifest m) = Inr [''p.S'']"
  by (simp_all add: grpc_method_paths_def grpc_service_names_def endpoint_items_def demo_manifest_def dget_def dfind_def
      grpc_path_of_def grpc_service_of_def List.map_filter_def)

lemma demo_supported: "supports_current_interface (demo_revision k sid st m)"
  by (simp add: supports_current_interface_def demo_revision_def demo_manifest_def dfind_def dget_def)

lemma publish_outboxes: "outboxes (publish_revision e s r (drain_old_revision s' r' d)) = outboxes d"
  by (simp add: publish_revision_def drain_old_revision_def table_simps split: option.split)

lemma demo_activation: "\<exists>r d'. activate_revision demo_call 7 3 (demo_db SvcActive) = Inr (r, d')"
proof -
  let ?d = "demo_db SvcActive" and ?s = "demo_service 7 SvcActive (Some 2)" and ?r = "demo_revision 3 7 RevReady ''New''"
  have s: "get_service 7 ?d = Inr ?s"
    by (simp add: get_service_def demo_db_def empty_db_def demo_service_def row_get_Cons)
  have r: "revision_of 7 3 ?d = Some ?r"
    by (simp add: revision_of_def demo_db_def empty_db_def demo_revision_def)
  have "contract_of_revision 3 ?d = [(\<lparr>rc_rev = 3, rc_contract = 4\<rparr>, hd (contracts ?d))]"
    by (simp add: contract_of_revision_def demo_db_def empty_db_def)
  moreover have "assert_grpc_routes_available ?s [''/p.S/New''] [''p.S''] ?d = Inr ()"
    by (simp add: assert_grpc_routes_available_def active_rows_def demo_db_def empty_db_def demo_service_def)
  moreover have "ct_status (hd (contracts ?d)) = ContractReady" by (simp add: demo_db_def)
  ultimately have c: "activation_checks ?s ?r ?d = Inr ()"
    by (simp add: activation_checks_def require_current_interface_def demo_supported)
      (simp add: demo_revision_def demo_paths one_or_none_def)
  show ?thesis
    by (simp add: activate_revision_def s r c emit_event_def insert_outbox_def guard_insert_def publish_outboxes)
      (simp add: demo_db_def empty_db_def)
qed


lemma stop_rows_effect:
  "foldE (stop_unsupported_row e) (enumerate n rows) (st, d) = Inr (st', d') \<Longrightarrow>
   st' = st @ map (\<lambda>(s, r). svc_name s) (filter (\<lambda>(s, r). \<not> supports_current_interface r) rows) \<and>
   revisions d' = revisions d \<and>
   (\<forall>k. map_option svc_view (svc_at k d') = map_option (\<lambda>s. (svc_id s,
      if k \<in> svc_id ` fst ` set (filter (\<lambda>(s, r). \<not> supports_current_interface r) rows) then SvcStopped
      else svc_status s, svc_active_rev s)) (svc_at k d))"
proof (induction rows arbitrary: n st d)
  case Nil
  then show ?case by (auto simp: svc_view_def)
next
  case (Cons row rows)
  obtain s r where row: "row = (s, r)" by (cases row)
  obtain st1 d1 where one: "stop_unsupported_row e (n, row) (st, d) = Inr (st1, d1)"
    and rest: "foldE (stop_unsupported_row e) (enumerate (Suc n) rows) (st1, d1) = Inr (st', d')"
    using Cons.prems by (auto simp: bindE_eq_Inr)
  note IH = Cons.IH [OF rest]
  show ?case
  proof (cases "supports_current_interface r")
    case True
    then have "st1 = st" "d1 = d" using one by (simp_all add: stop_unsupported_row_def row)
    then show ?thesis using IH True by (simp add: row)
  next
    case False
    let ?f = "\<lambda>x. x\<lparr>svc_status := SvcStopped, svc_updated := call_now e\<rparr>"
    have "st1 = st @ [svc_name s]" and sv: "services d1 = services (upd_service (call_now e) (svc_id s) ?f d)"
      and "revisions d1 = revisions d"
      using one False by (auto simp: stop_unsupported_row_def row result_simps emit_event_tables table_simps)
    moreover have "svc_at k d1 = (if k = svc_id s then map_option (touch (call_now e) ?f) (svc_at k d) else svc_at k d)" for k
      using svc_at_upd [of ?f k "call_now e" "svc_id s" d] by (simp add: sv)
    moreover have "map_option svc_view (svc_at k d') = map_option (\<lambda>s. (svc_id s,
      if k \<in> svc_id ` fst ` set (filter (\<lambda>(s, r). \<not> supports_current_interface r) (row # rows)) then SvcStopped
      else svc_status s, svc_active_rev s)) (svc_at k d)" for k
      using IH calculation(4) [of k] False
      by (cases "svc_at k d"; cases "k = svc_id s") (simp_all add: row)
    ultimately show ?thesis using IH False by (simp add: row)
  qed
qed

text \<open>Before the routes are rebuilt at start-up: afterwards every active service runs a revision with
  the current interface; the services reported are exactly the active ones whose revision did not have
  it, in order, and no other service and no revision changes its state.\<close>

theorem stop_unsupported_effect:
  assumes "lifecycle_inv d" and "stop_services_with_unsupported_interfaces e d = Inr (names, d')"
  shows "(\<forall>(s, r) \<in> set (active_rows d'). supports_current_interface r) \<and>
    names = map (\<lambda>(s, r). svc_name s) (filter (\<lambda>(s, r). \<not> supports_current_interface r) (active_rows d)) \<and>
    revisions d' = revisions d \<and>
    (\<forall>k. \<not> (\<exists>s r. (s, r) \<in> set (active_rows d) \<and> svc_id s = k \<and> \<not> supports_current_interface r) \<longrightarrow>
       map_option svc_view (svc_at k d') = map_option svc_view (svc_at k d))"
proof -
  let ?bad = "svc_id ` fst ` set (filter (\<lambda>(s, r). \<not> supports_current_interface r) (active_rows d))"
  have eff: "names = map (\<lambda>(s, r). svc_name s) (filter (\<lambda>(s, r). \<not> supports_current_interface r) (active_rows d))"
    "revisions d' = revisions d"
    "\<And>k. map_option svc_view (svc_at k d') = map_option (\<lambda>s. (svc_id s,
      if k \<in> ?bad then SvcStopped else svc_status s, svc_active_rev s)) (svc_at k d)"
    using stop_rows_effect [of e 0 "active_rows d" "[]" d names d'] assms(2)
    by (simp_all add: stop_services_with_unsupported_interfaces_def)
  have inv': "lifecycle_inv d'" using stop_unsupported_inv [OF assms] .
  have "supports_current_interface r" if "(s, r) \<in> set (active_rows d')" for s r
  proof -
    have row: "s \<in> set (services d')" "r \<in> set (revisions d)" "svc_active_rev s = Some (rev_id r)"
      "svc_status s = SvcActive" "rev_status r = RevActive"
      using that eff(2) by (auto simp: active_rows_def)
    have "svc_at (svc_id s) d' = Some s" using row(1) inv' by (simp add: row_get_unique lifecycle_inv_def)
    then obtain s0 where s0: "svc_at (svc_id s) d = Some s0" "svc_id s \<notin> ?bad" "svc_status s0 = SvcActive"
      "svc_active_rev s0 = Some (rev_id r)"
      using eff(3) [of "svc_id s"] row by (cases "svc_at (svc_id s) d") (auto simp: svc_view_def split: if_splits)
    then have "s0 \<in> set (services d)" "svc_id s0 = svc_id s" by (auto dest: row_get_SomeD)
    then have "(s0, r) \<in> set (active_rows d)" using row s0 by (auto simp: active_rows_def)
    then show ?thesis
    proof (cases "supports_current_interface r")
      case False
      with \<open>(s0, r) \<in> set (active_rows d)\<close> have "svc_id (fst (s0, r)) \<in> ?bad" by (intro imageI) simp
      then show ?thesis using s0(2) \<open>svc_id s0 = svc_id s\<close> by simp
    qed simp
  qed
  moreover have "map_option svc_view (svc_at k d') = map_option svc_view (svc_at k d)"
    if "\<not> (\<exists>s r. (s, r) \<in> set (active_rows d) \<and> svc_id s = k \<and> \<not> supports_current_interface r)" for k
  proof -
    have "k \<notin> ?bad" using that by auto
    then show ?thesis using eff(3) [of k] by (cases "svc_at k d") (auto simp: svc_view_def)
  qed
  ultimately show ?thesis using eff(1,2) by auto
qed

definition legacy_db :: db where
  "legacy_db = (demo_db SvcActive)\<lparr>revisions :=
     [(demo_revision 2 7 RevActive ''Old'')\<lparr>rev_manifest := [(''spec_version'', JInt 1)]\<rparr>]\<rparr>"

theorem stop_unsupported_effect_witness:
  "\<exists>d'. stop_services_with_unsupported_interfaces demo_call legacy_db = Inr ([''07''], d') \<and> active_rows d' = []"
proof -
  have inv: "lifecycle_inv legacy_db"
    by (auto simp: lifecycle_inv_def legacy_db_def demo_db_def empty_db_def demo_service_def demo_revision_def
      row_get_Cons published_def split: if_splits)
  have rows: "active_rows legacy_db = [(demo_service 7 SvcActive (Some 2),
      (demo_revision 2 7 RevActive ''Old'')\<lparr>rev_manifest := [(''spec_version'', JInt 1)]\<rparr>)]"
    by (simp add: active_rows_def legacy_db_def demo_db_def empty_db_def demo_service_def demo_revision_def)
  have sup: "\<not> supports_current_interface ((demo_revision 2 7 RevActive ''Old'')\<lparr>rev_manifest := [(''spec_version'', JInt 1)]\<rparr>)"
    by (simp add: supports_current_interface_def dfind_def dget_def)
  have out: "outboxes legacy_db = []" by (simp add: legacy_db_def demo_db_def empty_db_def)
  have ev: "\<exists>d'. emit_event oid now t a p (upd_service now sid f legacy_db) = Inr d'" for oid now t a p sid f
    by (simp add: emit_event_def insert_outbox_def guard_insert_def table_simps out)
  let ?s = "demo_service 7 SvcActive (Some 2)"
  obtain d1 where d1: "emit_event (call_ids demo_call 0) (call_now demo_call) ''service.stopped'' (uuid_str (svc_id ?s))
      [(''service_id'', JStr (uuid_str (svc_id ?s))), (''reason'', JStr ''unsupported_interface_specification'')]
      (upd_service (call_now demo_call) (svc_id ?s)
        (\<lambda>x. x\<lparr>svc_status := SvcStopped, svc_updated := call_now demo_call\<rparr>) legacy_db) = Inr d1"
    using ev by blast
  have "stop_unsupported_row demo_call (0, ?s,
      (demo_revision 2 7 RevActive ''Old'')\<lparr>rev_manifest := [(''spec_version'', JInt 1)]\<rparr>) ([], legacy_db)
      = Inr ([svc_name ?s], d1)"
    by (simp only: stop_unsupported_row_def prod.case sup d1 if_False bindE_simps append_Nil)
  then have run: "stop_services_with_unsupported_interfaces demo_call legacy_db = Inr ([svc_name ?s], d1)"
    by (simp only: stop_services_with_unsupported_interfaces_def rows enumerate_simps foldE.simps bindE_simps)
  have "svc_name (demo_service 7 SvcActive (Some 2)) = ''07''" by (simp add: demo_service_def numeral_2_eq_2)
  moreover have "\<forall>(s, r) \<in> set (active_rows d1). supports_current_interface r" "revisions d1 = revisions legacy_db"
    using stop_unsupported_effect [OF inv run] by simp_all
  then have "active_rows d1 = []"
    using sup by (auto simp: active_rows_def legacy_db_def)
  ultimately show ?thesis using run by simp
qed

end
