(* ===== verification/Profiles.thy ===== *)
theory Profiles
  imports Services
begin

text \<open>
  Runtime labels and their immutable profile versions: the compatibility check of
  \<open>runtime/profiles.py\<close> and the methods of \<open>repository.py\<close> that create, validate, activate and retire
  versions. \<open>packaging\<close> is third-party code and an argument: what the program reads of a version, a
  specifier set and a requirement.
\<close>

section \<open>Compatibility of a project with an environment\<close>

record project_requirement =
  prq_name :: string
  prq_marker :: "(string \<Rightarrow> bool) option"
  prq_specifier :: string

record packaging =
  pk_version :: "string \<Rightarrow> string option"
    \<comment> \<open>\<open>str(Version(v))\<close>; \<open>None\<close> is \<open>InvalidVersion\<close>\<close>
  pk_version_le :: "string \<Rightarrow> string \<Rightarrow> bool"
    \<comment> \<open>\<open>Version(a) <= Version(b)\<close> of two valid versions\<close>
  pk_contains :: "string \<Rightarrow> string \<Rightarrow> bool option"
    \<comment> \<open>\<open>Version(v) in SpecifierSet(spec)\<close>; \<open>None\<close> is \<open>InvalidSpecifier\<close>\<close>
  pk_requirement :: "string \<Rightarrow> project_requirement option"
    \<comment> \<open>\<open>Requirement(r)\<close>; the marker takes the Python version of the environment\<close>
  pk_canonical :: "string \<Rightarrow> string"
    \<comment> \<open>\<open>canonicalize_name\<close>\<close>

fun installed_versions :: "packaging \<Rightarrow> (string, string) dict \<Rightarrow> repo_error + (string, string) dict" where
  "installed_versions pk [] = Inr []"
| "installed_versions pk ((n, v) # rest) =
     bindE (of_opt InvalidVersion (pk_version pk v)) (\<lambda>v'.
     bindE (installed_versions pk rest) (\<lambda>m.
       Inr (if pk_canonical pk n \<in> fst ` set m then m else (pk_canonical pk n, v') # m)))"

fun requirement_errors ::
  "packaging \<Rightarrow> string \<Rightarrow> (string, string) dict \<Rightarrow> string list \<Rightarrow> repo_error + string list" where
  "requirement_errors pk python installed [] = Inr []"
| "requirement_errors pk python installed (raw # raws) =
     bindE (of_opt PyError (pk_requirement pk raw)) (\<lambda>q.
     bindE (if (case prq_marker q of None \<Rightarrow> False | Some ev \<Rightarrow> \<not> ev python) then Inr []
            else if pk_canonical pk (prq_name q) = ''pyscripts-hook'' then Inr []
            else
              (case map_of installed (pk_canonical pk (prq_name q)) of
                 None \<Rightarrow> Inr [prq_name q @ '' is not installed'']
               | Some v \<Rightarrow>
                   if prq_specifier q = [] then Inr []
                   else bindE (of_opt PyError (pk_contains pk (prq_specifier q) v)) (\<lambda>ok.
                     Inr (if ok then []
                          else [prq_name q @ '' '' @ v @ '' does not satisfy '' @ prq_specifier q])))) (\<lambda>here.
     bindE (requirement_errors pk python installed raws) (\<lambda>rest. Inr (here @ rest))))"

definition validate_project_compatibility ::
  "packaging \<Rightarrow> profile_version \<Rightarrow> string \<Rightarrow> string list \<Rightarrow> repo_error + string option" where
  \<comment> \<open>\<open>Some msg\<close> is a \<open>RuntimeProfileCompatibilityError\<close>\<close>
  "validate_project_compatibility pk v requires_python dependencies =
     bindE (of_opt InvalidVersion (pk_version pk (pv_python v))) (\<lambda>python.
     bindE (of_opt PyError (pk_contains pk requires_python python)) (\<lambda>ok.
       if \<not> ok
       then Inr (Some (''runtime '' @ pv_ref v @ '' uses Python '' @ python @ '', which does not satisfy '' @ requires_python))
       else
         bindE (installed_versions pk (pv_resolved v)) (\<lambda>installed.
         bindE (requirement_errors pk (pv_python v) installed dependencies) (\<lambda>errors.
           Inr (if errors = [] then None else Some (join ''; '' errors))))))"

section \<open>Labels and versions\<close>

record profile_record =
  prc_label :: runtime_label
  prc_version :: profile_version
  prc_references :: nat

definition ver_at :: "uuid \<Rightarrow> db \<Rightarrow> profile_version option" where
  "ver_at k d = row_get pv_id k (versions d)"
definition lbl_at :: "uuid \<Rightarrow> db \<Rightarrow> runtime_label option" where
  "lbl_at k d = row_get lbl_id k (labels d)"

definition profile_ref :: "string \<Rightarrow> int \<Rightarrow> string" where
  "profile_ref name v = name @ ''@v'' @ dec (nat v)"

definition new_runtime_version :: "uuid \<Rightarrow> time \<Rightarrow> runtime_label \<Rightarrow> int \<Rightarrow> profile_request \<Rightarrow> profile_version" where
  "new_runtime_version vid now l version q =
     \<lparr>pv_id = vid, pv_label = lbl_id l, pv_version = version, pv_ref = profile_ref (lbl_name l) version,
      pv_python = pr_python q, pv_pool = pr_pool q, pv_pip_source = pr_pip_source q,
      pv_pip_index = pr_pip_index q, pv_requested = pr_dependencies q, pv_resolved = [],
      pv_imports = pr_imports q, pv_digest = None,
      pv_env = (if pr_dependencies q = [] then []
                else [(''pip'', JObj [(''packages'', JArr (map JStr (pr_dependencies q))), (''pip_check'', JBool True)])]),
      pv_result = [], pv_status = ProfValidating, pv_error = None, pv_created = now, pv_validated = None,
      pv_retired = None\<rparr>"

definition create_runtime_label :: "call \<Rightarrow> string \<Rightarrow> profile_request \<Rightarrow> db \<Rightarrow> profile_record result" where
  "create_runtime_label e name q d =
     (if row_get lbl_name name (labels d) \<noteq> None then Inl (InvalidTransition LabelExists)
      else
        let l = \<lparr>lbl_id = call_ids e 0, lbl_name = name, lbl_active = None, lbl_created = call_now e,
                 lbl_updated = call_now e\<rparr>;
            v = new_runtime_version (call_ids e 1) (call_now e) l 1 q
        in bindE (insert_label l d) (\<lambda>d1. bindE (insert_version v d1) (\<lambda>d2.
             Inr (\<lparr>prc_label = l, prc_version = v, prc_references = 0\<rparr>, d2))))"

definition latest_version :: "uuid \<Rightarrow> db \<Rightarrow> int" where
  \<comment> \<open>\<open>int(select max(version) ... or 0)\<close>\<close>
  "latest_version lid d =
     (let vs = map pv_version (filter (\<lambda>v. pv_label v = lid) (versions d)) in
      if vs = [] then 0 else Max (set vs))"

definition create_runtime_version :: "call \<Rightarrow> uuid \<Rightarrow> profile_request \<Rightarrow> db \<Rightarrow> profile_record result" where
  "create_runtime_version e lid q d =
     bindE (of_opt (NotFound MissingLabel) (lbl_at lid d)) (\<lambda>l.
       let v = new_runtime_version (call_ids e 0) (call_now e) l (latest_version lid d + 1) q in
       bindE (insert_version v d) (\<lambda>d'.
         Inr (\<lparr>prc_label = l, prc_version = v, prc_references = 0\<rparr>, d')))"

definition reference_services :: "uuid \<Rightarrow> db \<Rightarrow> uuid list" where
  "reference_services vid d = remdups [rev_service r. b \<leftarrow> bindings d, r \<leftarrow> revisions d,
     rev_id r = bnd_rev b \<and> bnd_version b = vid]"

definition runtime_profile_reference_count :: "uuid \<Rightarrow> db \<Rightarrow> nat" where
  "runtime_profile_reference_count vid d = length (reference_services vid d)"

definition list_runtime_profiles :: "db \<Rightarrow> profile_record list" where
  "list_runtime_profiles d =
     sort_key (\<lambda>p. (lbl_name (prc_label p), - pv_version (prc_version p)))
       [\<lparr>prc_label = l, prc_version = v, prc_references = runtime_profile_reference_count (pv_id v) d\<rparr>.
          l \<leftarrow> labels d, v \<leftarrow> versions d, pv_label v = lbl_id l]"

datatype profile_key = ById uuid | ByName string

definition removesuffix :: "string \<Rightarrow> string \<Rightarrow> string" where
  "removesuffix p s = (if ends_with p s then take (length s - length p) s else s)"

definition profile_matches :: "profile_key \<Rightarrow> runtime_label \<Rightarrow> profile_version \<Rightarrow> bool" where
  "profile_matches key l v =
     (case key of
        ById u \<Rightarrow> pv_id v = u
      | ByName s \<Rightarrow>
          if contains ''@v'' s then pv_ref v = s
          else lbl_name l = removesuffix ''@latest'' s \<and> lbl_active l = Some (pv_id v))"

definition get_runtime_profile :: "profile_key \<Rightarrow> bool \<Rightarrow> db \<Rightarrow> repo_error + profile_record" where
  "get_runtime_profile key require_usable d =
     bindE (one_or_none [(l, v). l \<leftarrow> labels d, v \<leftarrow> versions d, pv_label v = lbl_id l \<and> profile_matches key l v])
       (\<lambda>row. case row of
          None \<Rightarrow> Inl (NotFound MissingProfile)
        | Some (l, v) \<Rightarrow>
            if require_usable \<and> pv_status v \<notin> {ProfReady, ProfActive}
            then Inl (InvalidTransition (ProfileNotUsable (pv_status v)))
            else Inr \<lparr>prc_label = l, prc_version = v,
                      prc_references = runtime_profile_reference_count (pv_id v) d\<rparr>)"

section \<open>Validation of a version\<close>

definition complete_runtime_profile_validation ::
  "call \<Rightarrow> uuid \<Rightarrow> (string, string) dict \<Rightarrow> jdict \<Rightarrow> jdict \<Rightarrow> string \<Rightarrow> db \<Rightarrow> profile_record result" where
  "complete_runtime_profile_validation e vid resolved result env digest d =
     bindE (of_opt (NotFound MissingVersion) (ver_at vid d)) (\<lambda>v.
       if pv_status v \<noteq> ProfValidating then Inl (InvalidTransition NotValidating)
       else
         let f = (\<lambda>x. x\<lparr>pv_resolved := resolved, pv_result := result, pv_env := env, pv_digest := Some digest,
                       pv_status := ProfReady, pv_validated := Some (call_now e), pv_error := None\<rparr>) in
         bindE (of_opt AssertionError (lbl_at (pv_label v) d)) (\<lambda>l.
           if list_ex (\<lambda>x. pv_id x \<noteq> vid \<and> pv_digest x = Some digest) (versions d) then Inl IntegrityError
           else Inr (\<lparr>prc_label = l, prc_version = f v, prc_references = 0\<rparr>, upd_version vid f d)))"

definition fail_runtime_profile_validation :: "call \<Rightarrow> uuid \<Rightarrow> string \<Rightarrow> db \<Rightarrow> unit result" where
  "fail_runtime_profile_validation e vid error d =
     bindE (of_opt (NotFound MissingVersion) (ver_at vid d)) (\<lambda>v.
       Inr ((), upd_version vid (\<lambda>x. x\<lparr>pv_status := ProfFailed, pv_error := Some (take 4000 error),
                                       pv_validated := Some (call_now e)\<rparr>) d))"

section \<open>Activation\<close>

definition binding_requirements :: "binding \<Rightarrow> (string \<times> json list) option" where
  "binding_requirements b =
     (case (dfind (bnd_result b) ''requires_python'', dfind (bnd_result b) ''dependencies'') of
        (JStr rp, JArr deps) \<Rightarrow> Some (rp, deps)
      | _ \<Rightarrow> None)"

fun check_bindings ::
  "packaging \<Rightarrow> (json \<Rightarrow> string) \<Rightarrow> profile_version \<Rightarrow> binding list \<Rightarrow> repo_error + unit" where
  \<comment> \<open>\<open>py_str\<close> is Python's \<open>str\<close>\<close>
  "check_bindings pk py_str v [] = Inr ()"
| "check_bindings pk py_str v (b # bs) =
     (case binding_requirements b of
        None \<Rightarrow> Inl (InvalidTransition NoCompatibilityMetadata)
      | Some (rp, deps) \<Rightarrow>
          bindE (validate_project_compatibility pk v rp (map py_str deps)) (\<lambda>err.
            case err of
              Some msg \<Rightarrow> Inl (InvalidTransition (Incompatible (bnd_rev b) msg))
            | None \<Rightarrow> check_bindings pk py_str v bs))"

definition runtime_entry :: "runtime_label \<Rightarrow> profile_version \<Rightarrow> jdict" where
  "runtime_entry l v = [(''label'', JStr (lbl_name l)), (''profile_ref'', JStr (pv_ref v)),
     (''environment_digest'', jopt (pv_digest v)), (''tracking_mode'', JStr (tracking_value TrackActive))]"

definition as_dict :: "json \<Rightarrow> repo_error + jdict" where
  \<comment> \<open>\<open>dict(x)\<close> of a mapping or an empty sequence\<close>
  "as_dict j = (case j of JObj o1 \<Rightarrow> Inr o1 | JArr [] \<Rightarrow> Inr [] | JStr [] \<Rightarrow> Inr [] | _ \<Rightarrow> Inl PyError)"

definition retarget_manifest :: "runtime_label \<Rightarrow> profile_version \<Rightarrow> jdict \<Rightarrow> repo_error + jdict" where
  "retarget_manifest l v m =
     bindE (as_dict (dget m ''runtime'' (JObj []))) (\<lambda>old.
       Inr (AList.update ''runtime'' (JObj (dict_merge old (runtime_entry l v))) m))"

definition retarget_binding :: "runtime_label \<Rightarrow> profile_version \<Rightarrow> binding \<Rightarrow> db \<Rightarrow> repo_error + db" where
  \<comment> \<open>one round of the second loop of \<open>activate_runtime_profile\<close>\<close>
  "retarget_binding l v b d =
     (let d1 = d\<lparr>bindings := row_upd bnd_rev (bnd_rev b)
            (\<lambda>x. x\<lparr>bnd_version := pv_id v,
                   bnd_result := AList.update ''resolved_profile_ref'' (JStr (pv_ref v)) (bnd_result x)\<rparr>) (bindings d)\<rparr>
      in case rev_at (bnd_rev b) d of
           None \<Rightarrow> Inr d1
         | Some r \<Rightarrow>
             bindE (retarget_manifest l v (rev_manifest r)) (\<lambda>m.
               Inr (upd_revision (rev_id r) (\<lambda>x. x\<lparr>rev_profile := pv_ref v, rev_manifest := m\<rparr>) d1)))"

definition tracked_bindings :: "uuid \<Rightarrow> db \<Rightarrow> binding list" where
  "tracked_bindings lid d = filter (\<lambda>b. bnd_label b = lid \<and> bnd_mode b = TrackActive) (bindings d)"

definition release_old :: "profile_version option \<Rightarrow> uuid \<Rightarrow> db \<Rightarrow> nat \<times> db" where
  \<comment> \<open>the previous version, once nothing tracks it any more\<close>
  "release_old old vid d =
     (case old of
        None \<Rightarrow> (0, d)
      | Some x \<Rightarrow>
          let refs = runtime_profile_reference_count (pv_id x) d in
          (refs, if pv_id x \<noteq> vid
                 then upd_version (pv_id x) (\<lambda>y. y\<lparr>pv_status := (if refs = 0 then ProfRetiring else ProfReady)\<rparr>) d
                 else d))"

definition activate_runtime_profile ::
  "packaging \<Rightarrow> (json \<Rightarrow> string) \<Rightarrow> call \<Rightarrow> uuid \<Rightarrow> db
     \<Rightarrow> (profile_record \<times> profile_version option \<times> nat) result" where
  "activate_runtime_profile pk py_str e vid d =
     bindE (of_opt (NotFound MissingVersion) (ver_at vid d)) (\<lambda>v.
       if pv_status v \<notin> {ProfReady, ProfActive} then Inl (InvalidTransition (CannotActivateProfile (pv_status v)))
       else
         bindE (of_opt AssertionError (lbl_at (pv_label v) d)) (\<lambda>l.
         let old = Option.bind (lbl_active l) (\<lambda>k. ver_at k d); bs = tracked_bindings (lbl_id l) d in
         bindE (check_bindings pk py_str v bs) (\<lambda>_.
         bindE (foldE (retarget_binding l v) bs d) (\<lambda>d1.
         let d2 = upd_version vid (\<lambda>x. x\<lparr>pv_status := ProfActive\<rparr>)
                    (upd_label (call_now e) (lbl_id l) (\<lambda>x. x\<lparr>lbl_active := Some vid\<rparr>) d1) in
         bindE (emit_event (call_ids e 0) (call_now e) ''runtime-profile.activated'' (uuid_str (lbl_id l))
             [(''label'', JStr (lbl_name l)), (''version_id'', JStr (uuid_str vid)),
              (''profile_ref'', JStr (pv_ref v)), (''environment_digest'', jopt (pv_digest v))] d2) (\<lambda>d3.
         let released = release_old old vid d3 in
         Inr ((\<lparr>prc_label = l\<lparr>lbl_active := Some vid\<rparr>, prc_version = v\<lparr>pv_status := ProfActive\<rparr>,
                prc_references = runtime_profile_reference_count vid (snd released)\<rparr>, old, fst released),
              snd released))))))"

section \<open>Retirement\<close>

definition active_runtime_execution_count :: "string \<Rightarrow> db \<Rightarrow> nat" where
  "active_runtime_execution_count digest d =
     length [x. x \<leftarrow> executions d, i \<leftarrow> invocations d,
       inv_id i = exe_inv x \<and> exe_digest x = Some digest \<and> inv_status i \<in> {InvAccepted, InvRunning}]"

definition retire_runtime_profile :: "call \<Rightarrow> uuid \<Rightarrow> bool \<Rightarrow> db \<Rightarrow> profile_record result" where
  "retire_runtime_profile e vid finalize d =
     bindE (of_opt (NotFound MissingVersion) (ver_at vid d)) (\<lambda>v.
     bindE (of_opt AssertionError (lbl_at (pv_label v) d)) (\<lambda>l.
       if lbl_active l = Some vid then Inl (InvalidTransition ActiveProfile)
       else
         let refs = runtime_profile_reference_count vid d;
             running = (case pv_digest v of
                None \<Rightarrow> 0 | Some g \<Rightarrow> if g = [] then 0 else active_runtime_execution_count g d)
         in if refs \<noteq> 0 then Inl (InvalidTransition (ProfileReferenced refs))
            else if running \<noteq> 0 then Inl (InvalidTransition (ActiveExecutions running))
            else if finalize \<and> pv_status v \<noteq> ProfRetiring then Inl (InvalidTransition NotRetiring)
            else if \<not> finalize \<and> pv_status v = ProfRetired then Inl (InvalidTransition AlreadyRetired)
            else
              let f = (if finalize
                       then (\<lambda>x. x\<lparr>pv_status := ProfRetired, pv_retired := Some (call_now e)\<rparr>)
                       else (\<lambda>x. x\<lparr>pv_status := ProfRetiring\<rparr>))
              in Inr (\<lparr>prc_label = l, prc_version = f v, prc_references = refs\<rparr>, upd_version vid f d)))"

definition list_retiring_runtime_profiles :: "db \<Rightarrow> profile_version list" where
  "list_retiring_runtime_profiles d =
     sort_key pv_created (filter (\<lambda>v. pv_status v = ProfRetiring) (versions d))"

section \<open>What activation changes\<close>

interpretation ver: keyed_table "row_get pv_id" "row_upd pv_id" "\<lambda>r rows. rows @ [r]" pv_id
  "\<lambda>rows. distinct (map pv_id rows)"
  by (rule keyed_table_rows)

interpretation lbl: keyed_table "row_get lbl_id" "row_upd lbl_id" "\<lambda>r rows. rows @ [r]" lbl_id
  "\<lambda>rows. distinct (map lbl_id rows)"
  by (rule keyed_table_rows)

interpretation bnd: keyed_table "row_get bnd_rev" "row_upd bnd_rev" "\<lambda>r rows. rows @ [r]" bnd_rev
  "\<lambda>rows. distinct (map bnd_rev rows)"
  by (rule keyed_table_rows)

lemma row_upd_map:
  "distinct (map pk rows) \<Longrightarrow> row_get pk k rows = Some r \<Longrightarrow> g (f r) = g r \<Longrightarrow>
   map g (row_upd pk k f rows) = map g rows"
  by (auto simp: row_upd_def row_get_unique inj_on_def distinct_map)

text \<open>Setting one field of the label or of a version leaves the other tables alone.\<close>

lemma upd_version_frame [simp]:
  "services (upd_version vid f d) = services d" "revisions (upd_version vid f d) = revisions d"
  "labels (upd_version vid f d) = labels d" "bindings (upd_version vid f d) = bindings d"
  "versions (upd_version vid f d) = row_upd pv_id vid f (versions d)"
  by (simp_all add: upd_version_def)

lemma upd_label_frame [simp]:
  "services (upd_label now lid f d) = services d" "revisions (upd_label now lid f d) = revisions d"
  "versions (upd_label now lid f d) = versions d" "bindings (upd_label now lid f d) = bindings d"
  by (simp_all add: upd_label_def)

lemma emit_event_frame:
  assumes "emit_event oid now t a p d = Inr d'"
  shows "labels d' = labels d" "versions d' = versions d" "bindings d' = bindings d"
    "services d' = services d" "revisions d' = revisions d"
  using assms by (simp_all add: insert_defs guard_insert_eq)

lemma lbl_at_upd:
  "(\<And>l. lbl_id (f l) = lbl_id l) \<Longrightarrow> (\<And>l. lbl_active (f l) = a) \<Longrightarrow>
   map_option lbl_active (lbl_at k (upd_label now lid f d)) =
     (if k = lid then map_option (\<lambda>_. a) (lbl_at k d) else map_option lbl_active (lbl_at k d))"
proof -
  assume f: "\<And>l. lbl_id (f l) = lbl_id l" "\<And>l. lbl_active (f l) = a"
  let ?g = "\<lambda>l. if f l = l then l else (f l)\<lparr>lbl_updated := now\<rparr>"
  have "lbl_id (?g l) = lbl_id l" "lbl_active (?g l) = a" for l
    using f(1,2) [of l] by (auto split: if_splits)
  then show ?thesis
    using lbl.get_upd [of ?g k lid "labels d"]
    by (cases "lbl_at k d") (auto simp: lbl_at_def upd_label_def option.map_comp comp_def)
qed

lemma ver_at_upd:
  "(\<And>v. pv_id (f v) = pv_id v) \<Longrightarrow>
   ver_at k (upd_version vid f d) = (if k = vid then map_option f (ver_at k d) else ver_at k d)"
  by (simp add: ver_at_def ver.get_upd)

lemma labels_upd:
  assumes "\<And>l. lbl_id (f l) = lbl_id l"
  shows "map lbl_id (labels (upd_label now lid f d)) = map lbl_id (labels d)"
proof -
  have "lbl_id (if f l = l then l else (f l)\<lparr>lbl_updated := now\<rparr>) = lbl_id l" for l
    using assms [of l] by simp
  then show ?thesis unfolding upd_label_def by (simp add: row_upd_pk)
qed

lemma ver_at_label [simp]: "ver_at k (upd_label now lid f d) = ver_at k d"
  by (simp add: ver_at_def)

lemma lbl_at_version [simp]: "lbl_at k (upd_version vid f d) = lbl_at k d"
  by (simp add: lbl_at_def)

lemma retarget_paths:
  "retarget_manifest l v m = Inr m' \<Longrightarrow> grpc_method_paths m' = grpc_method_paths m \<and> dfind m' ''spec_version'' = dfind m ''spec_version''"
  by (auto simp: retarget_manifest_def bindE_eq_Inr grpc_method_paths_def endpoint_items_def dict_simps)

text \<open>One round of the loop: the binding moves, the manifest of its revision changes only its
  \<open>runtime\<close> entry, and no other table changes.\<close>

definition retargeted :: "db \<Rightarrow> db \<Rightarrow> bool" where
  "retargeted d d' = (labels d' = labels d \<and> versions d' = versions d \<and> services d' = services d \<and>
     map rev_view (revisions d') = map rev_view (revisions d) \<and> map bnd_rev (bindings d') = map bnd_rev (bindings d) \<and>
     executions d' = executions d \<and> invocations d' = invocations d)"

lemma retarget_binding_round:
  assumes "retarget_binding l v b d = Inr d'" and "distinct (map rev_id (revisions d))"
  shows "retargeted d d'" and "row_get bnd_rev k (bindings d') =
      (if k = bnd_rev b then map_option (\<lambda>x. x\<lparr>bnd_version := pv_id v,
         bnd_result := AList.update ''resolved_profile_ref'' (JStr (pv_ref v)) (bnd_result x)\<rparr>) (row_get bnd_rev k (bindings d))
       else row_get bnd_rev k (bindings d))"
proof -
  let ?f = "\<lambda>x. x\<lparr>bnd_version := pv_id v, bnd_result := AList.update ''resolved_profile_ref'' (JStr (pv_ref v)) (bnd_result x)\<rparr>"
  have b: "bindings d' = row_upd bnd_rev (bnd_rev b) ?f (bindings d)"
    using assms(1) by (auto simp: retarget_binding_def Let_def upd_revision_def bindE_eq_Inr split: option.splits)
  then show "row_get bnd_rev k (bindings d') =
      (if k = bnd_rev b then map_option ?f (row_get bnd_rev k (bindings d)) else row_get bnd_rev k (bindings d))"
    by (simp add: bnd.get_upd)
  have t: "labels d' = labels d" "versions d' = versions d" "services d' = services d" "executions d' = executions d"
    "invocations d' = invocations d"
    using assms(1) by (auto simp: retarget_binding_def Let_def upd_revision_def bindE_eq_Inr split: option.splits)
  have "map rev_view (revisions d') = map rev_view (revisions d)"
  proof (cases "rev_at (bnd_rev b) d")
    case None
    then show ?thesis using assms(1) by (auto simp: retarget_binding_def Let_def)
  next
    case (Some r)
    then obtain m where m: "retarget_manifest l v (rev_manifest r) = Inr m"
      "revisions d' = row_upd rev_id (rev_id r) (\<lambda>x. x\<lparr>rev_profile := pv_ref v, rev_manifest := m\<rparr>) (revisions d)"
      using assms(1) by (auto simp: retarget_binding_def Let_def upd_revision_def bindE_eq_Inr)
    have "rev_id r = bnd_rev b" using Some by (auto dest: row_get_SomeD)
    with Some have "rev_at (rev_id r) d = Some r" by simp
    then show ?thesis unfolding m(2)
      by (rule row_upd_map [OF assms(2)]) (simp add: rev_view_def retarget_paths [OF m(1)])
  qed
  moreover have "map bnd_rev (bindings d') = map bnd_rev (bindings d)"
    unfolding b by (rule row_upd_pk) simp
  ultimately show "retargeted d d'" using t by (simp add: retargeted_def)
qed

lemma retargeted_trans: "retargeted a b \<Longrightarrow> retargeted b c \<Longrightarrow> retargeted a c"
  by (simp add: retargeted_def)

lemma retargeted_ids: "retargeted d d' \<Longrightarrow> map rev_id (revisions d') = map rev_id (revisions d)"
  by (rule same_view_pks(2)) (simp add: same_view_def retargeted_def)

lemma retarget_loop:
  "foldE (retarget_binding l v) bs d = Inr d' \<Longrightarrow> distinct (map rev_id (revisions d)) \<Longrightarrow>
   retargeted d d' \<and> (\<forall>k. map_option (\<lambda>x. (bnd_version x, bnd_label x, bnd_mode x)) (row_get bnd_rev k (bindings d')) =
     map_option (\<lambda>x. (if k \<in> bnd_rev ` set bs then pv_id v else bnd_version x, bnd_label x, bnd_mode x))
       (row_get bnd_rev k (bindings d)))"
proof (induction bs arbitrary: d)
  case Nil
  then show ?case by (simp add: retargeted_def)
next
  case (Cons b bs)
  then obtain d1 where d1: "retarget_binding l v b d = Inr d1" "foldE (retarget_binding l v) bs d1 = Inr d'"
    by (auto simp: bindE_eq_Inr)
  note R = retarget_binding_round [OF d1(1) Cons.prems(2)]
  have IH: "retargeted d1 d'" "\<And>k. map_option (\<lambda>x. (bnd_version x, bnd_label x, bnd_mode x)) (row_get bnd_rev k (bindings d')) =
     map_option (\<lambda>x. (if k \<in> bnd_rev ` set bs then pv_id v else bnd_version x, bnd_label x, bnd_mode x))
       (row_get bnd_rev k (bindings d1))"
    using Cons.IH [OF d1(2)] Cons.prems(2) retargeted_ids [OF R(1)] by simp_all
  have "map_option (\<lambda>x. (bnd_version x, bnd_label x, bnd_mode x)) (row_get bnd_rev k (bindings d')) =
     map_option (\<lambda>x. (if k \<in> bnd_rev ` set (b # bs) then pv_id v else bnd_version x, bnd_label x, bnd_mode x))
       (row_get bnd_rev k (bindings d))" for k
    unfolding IH(2) [of k] R(2) [of k]
    by (cases "row_get bnd_rev k (bindings d)"; cases "k = bnd_rev b") simp_all
  then show ?case using retargeted_trans [OF R(1) IH(1)] by blast
qed

definition profile_inv :: "db \<Rightarrow> bool" where
  "profile_inv d =
     (distinct (map lbl_id (labels d)) \<and> distinct (map pv_id (versions d)) \<and>
      (\<forall>k l vid. lbl_at k d = Some l \<longrightarrow> lbl_active l = Some vid \<longrightarrow>
         (\<exists>v. ver_at vid d = Some v \<and> pv_label v = k \<and> pv_status v = ProfActive)) \<and>
      (\<forall>vid v. ver_at vid d = Some v \<longrightarrow>
         (\<exists>l. lbl_at (pv_label v) d = Some l \<and> (pv_status v = ProfActive \<longrightarrow> lbl_active l = Some vid))))"

lemma profile_active:
  "profile_inv d \<Longrightarrow> lbl_at k d = Some l \<Longrightarrow> lbl_active l = Some vid \<Longrightarrow>
   \<exists>v. ver_at vid d = Some v \<and> pv_label v = k \<and> pv_status v = ProfActive"
  unfolding profile_inv_def by meson

lemma profile_label:
  "profile_inv d \<Longrightarrow> ver_at vid d = Some v \<Longrightarrow>
   \<exists>l. lbl_at (pv_label v) d = Some l \<and> (pv_status v = ProfActive \<longrightarrow> lbl_active l = Some vid)"
  unfolding profile_inv_def by meson

text \<open>A step keeps the invariant when the identifiers, the active version of every label, and the label of
  every version stay, and no version becomes or ceases to be active.\<close>

lemma profile_inv_same:
  assumes inv: "profile_inv d"
    and "map lbl_id (labels d') = map lbl_id (labels d)" "map pv_id (versions d') = map pv_id (versions d)"
    and l: "\<And>k. map_option lbl_active (lbl_at k d') = map_option lbl_active (lbl_at k d)"
    and v: "\<And>k. map_option (\<lambda>x. (pv_label x, pv_status x = ProfActive)) (ver_at k d') =
       map_option (\<lambda>x. (pv_label x, pv_status x = ProfActive)) (ver_at k d)"
  shows "profile_inv d'"
  unfolding profile_inv_def
proof (intro conjI allI impI)
  show "distinct (map lbl_id (labels d'))" "distinct (map pv_id (versions d'))"
    using assms(1-3) by (simp_all add: profile_inv_def)
  fix k vid
  {
    fix x assume "lbl_at k d' = Some x" "lbl_active x = Some vid"
    then obtain x0 where "lbl_at k d = Some x0" "lbl_active x0 = Some vid"
      using l [of k] by (cases "lbl_at k d") auto
    then obtain y where "ver_at vid d = Some y" "pv_label y = k" "pv_status y = ProfActive"
      using profile_active [OF inv] by blast
    then show "\<exists>y. ver_at vid d' = Some y \<and> pv_label y = k \<and> pv_status y = ProfActive"
      using v [of vid] by (cases "ver_at vid d'") auto
  next
    fix y assume "ver_at vid d' = Some y"
    then obtain y0 where y0: "ver_at vid d = Some y0" "pv_label y0 = pv_label y"
      "(pv_status y0 = ProfActive) = (pv_status y = ProfActive)"
      using v [of vid] by (cases "ver_at vid d") auto
    then obtain x where "lbl_at (pv_label y) d = Some x" "pv_status y = ProfActive \<longrightarrow> lbl_active x = Some vid"
      using profile_label [OF inv y0(1)] by auto
    then show "\<exists>x. lbl_at (pv_label y) d' = Some x \<and> (pv_status y = ProfActive \<longrightarrow> lbl_active x = Some vid)"
      using l [of "pv_label y"] by (cases "lbl_at (pv_label y) d'") auto
  }
qed

text \<open>The labels and versions after an activation.\<close>

lemma release_old_frame:
  assumes "release_old old vid d = (n, d')"
  shows "labels d' = labels d" "services d' = services d" "revisions d' = revisions d" "bindings d' = bindings d"
    "map pv_id (versions d') = map pv_id (versions d)"
    "ver_at k d' = (case old of Some x \<Rightarrow> if k = pv_id x \<and> k \<noteq> vid
        then map_option (\<lambda>y. y\<lparr>pv_status := (if n = 0 then ProfRetiring else ProfReady)\<rparr>) (ver_at k d)
        else ver_at k d | None \<Rightarrow> ver_at k d)"
    "old = Some x \<Longrightarrow> n = runtime_profile_reference_count (pv_id x) d"
  using assms by (auto simp: release_old_def Let_def ver_at_upd row_upd_pk split: option.splits if_splits)

lemma activation_parts:
  assumes act: "activate_runtime_profile pk py_str e vid d = Inr ((rec, old, n), d')"
  obtains v l d1 d3 where "ver_at vid d = Some v" and "pv_status v \<in> {ProfReady, ProfActive}"
    and "lbl_at (pv_label v) d = Some l" and "old = Option.bind (lbl_active l) (\<lambda>k. ver_at k d)"
    and "check_bindings pk py_str v (tracked_bindings (lbl_id l) d) = Inr ()"
    and "foldE (retarget_binding l v) (tracked_bindings (lbl_id l) d) d = Inr d1"
    and "emit_event (call_ids e 0) (call_now e) ''runtime-profile.activated'' (uuid_str (lbl_id l))
             [(''label'', JStr (lbl_name l)), (''version_id'', JStr (uuid_str vid)),
              (''profile_ref'', JStr (pv_ref v)), (''environment_digest'', jopt (pv_digest v))]
           (upd_version vid (\<lambda>x. x\<lparr>pv_status := ProfActive\<rparr>)
              (upd_label (call_now e) (lbl_id l) (\<lambda>x. x\<lparr>lbl_active := Some vid\<rparr>) d1)) = Inr d3"
    and "fst (release_old old vid d3) = n" and "snd (release_old old vid d3) = d'"
proof -
  obtain v where v: "ver_at vid d = Some v"
    using act by (cases "ver_at vid d") (simp_all add: activate_runtime_profile_def)
  have st: "pv_status v \<in> {ProfReady, ProfActive}"
    using act v by (simp add: activate_runtime_profile_def split: if_splits)
  obtain l where l: "lbl_at (pv_label v) d = Some l"
    using act v st by (cases "lbl_at (pv_label v) d") (simp_all add: activate_runtime_profile_def split: if_splits)
  note A = act [unfolded activate_runtime_profile_def v of_opt_simps bindE_simps l Let_def]
  have c: "check_bindings pk py_str v (tracked_bindings (lbl_id l) d) = Inr ()"
    using A st by (cases "check_bindings pk py_str v (tracked_bindings (lbl_id l) d)") auto
  obtain d1 where f: "foldE (retarget_binding l v) (tracked_bindings (lbl_id l) d) d = Inr d1"
    using A st c by (cases "foldE (retarget_binding l v) (tracked_bindings (lbl_id l) d) d") auto
  let ?ev = "emit_event (call_ids e 0) (call_now e) ''runtime-profile.activated'' (uuid_str (lbl_id l))
             [(''label'', JStr (lbl_name l)), (''version_id'', JStr (uuid_str vid)),
              (''profile_ref'', JStr (pv_ref v)), (''environment_digest'', jopt (pv_digest v))]
           (upd_version vid (\<lambda>x. x\<lparr>pv_status := ProfActive\<rparr>)
              (upd_label (call_now e) (lbl_id l) (\<lambda>x. x\<lparr>lbl_active := Some vid\<rparr>) d1))"
  obtain d3 where ev: "?ev = Inr d3"
    using A st c f by (cases ?ev) auto
  have "old = Option.bind (lbl_active l) (\<lambda>k. ver_at k d)" using A st c f ev by auto
  moreover from this have "fst (release_old old vid d3) = n" "snd (release_old old vid d3) = d'"
    using A st c f ev by auto
  ultimately show thesis by (intro that [OF v st l _ c f ev])
qed

lemma activation_tables:
  assumes inv: "profile_inv d" and di: "distinct (map rev_id (revisions d))"
    and act: "activate_runtime_profile pk py_str e vid d = Inr ((rec, old, n), d')"
  obtains v l where "ver_at vid d = Some v" and "pv_status v \<in> {ProfReady, ProfActive}"
    and "lbl_at (pv_label v) d = Some l" and "lbl_id l = pv_label v"
    and "check_bindings pk py_str v (tracked_bindings (lbl_id l) d) = Inr ()"
    and "\<And>k. map_option lbl_active (lbl_at k d') =
       (if k = lbl_id l then Some (Some vid) else map_option lbl_active (lbl_at k d))"
    and "\<And>k. ver_at k d' = (if k = vid then Some (v\<lparr>pv_status := ProfActive\<rparr>)
       else if lbl_active l = Some k
       then map_option (\<lambda>y. y\<lparr>pv_status := (if n = 0 then ProfRetiring else ProfReady)\<rparr>) (ver_at k d)
       else ver_at k d)"
    and "\<And>k. map_option (\<lambda>x. (bnd_version x, bnd_label x, bnd_mode x)) (row_get bnd_rev k (bindings d')) =
       map_option (\<lambda>x. (if k \<in> bnd_rev ` set (tracked_bindings (lbl_id l) d) then vid else bnd_version x, bnd_label x, bnd_mode x))
         (row_get bnd_rev k (bindings d))"
    and "same_view d d'" and "map pv_id (versions d') = map pv_id (versions d)"
    and "map lbl_id (labels d') = map lbl_id (labels d)"
    and "map bnd_rev (bindings d') = map bnd_rev (bindings d)"
proof -
  obtain v l d1 d3 where p: "ver_at vid d = Some v" "pv_status v \<in> {ProfReady, ProfActive}"
    "lbl_at (pv_label v) d = Some l" "old = Option.bind (lbl_active l) (\<lambda>k. ver_at k d)"
    "check_bindings pk py_str v (tracked_bindings (lbl_id l) d) = Inr ()"
    "foldE (retarget_binding l v) (tracked_bindings (lbl_id l) d) d = Inr d1"
    "emit_event (call_ids e 0) (call_now e) ''runtime-profile.activated'' (uuid_str (lbl_id l))
             [(''label'', JStr (lbl_name l)), (''version_id'', JStr (uuid_str vid)),
              (''profile_ref'', JStr (pv_ref v)), (''environment_digest'', jopt (pv_digest v))]
           (upd_version vid (\<lambda>x. x\<lparr>pv_status := ProfActive\<rparr>)
              (upd_label (call_now e) (lbl_id l) (\<lambda>x. x\<lparr>lbl_active := Some vid\<rparr>) d1)) = Inr d3"
    "fst (release_old old vid d3) = n" "snd (release_old old vid d3) = d'"
    by (rule activation_parts [OF act])
  have vid: "pv_id v = vid" and lid: "lbl_id l = pv_label v"
    using p(1,3) by (auto simp: ver_at_def lbl_at_def dest: row_get_SomeD)
  have R: "retargeted d d1" and B: "\<And>k. map_option (\<lambda>x. (bnd_version x, bnd_label x, bnd_mode x)) (row_get bnd_rev k (bindings d1)) =
     map_option (\<lambda>x. (if k \<in> bnd_rev ` set (tracked_bindings (lbl_id l) d) then vid else bnd_version x, bnd_label x, bnd_mode x))
       (row_get bnd_rev k (bindings d))"
    using retarget_loop [OF p(6) di] unfolding vid by blast+
  note E = emit_event_frame [OF p(7)] and O = release_old_frame [of old vid d3 n d', unfolded p(8,9) [symmetric] prod.collapse, OF refl, unfolded p(8,9)]
  have ver3: "ver_at k d3 = (if k = vid then map_option (\<lambda>x. x\<lparr>pv_status := ProfActive\<rparr>) (ver_at k d) else ver_at k d)" for k
    using ver_at_upd [of "\<lambda>x. x\<lparr>pv_status := ProfActive\<rparr>" k vid d] R E(2) by (simp add: ver_at_def retargeted_def)
  have lb: "map_option lbl_active (lbl_at k d') = (if k = lbl_id l then Some (Some vid) else map_option lbl_active (lbl_at k d))" for k
    using lbl_at_upd [of "\<lambda>x. x\<lparr>lbl_active := Some vid\<rparr>" "Some vid" k "call_now e" "lbl_id l" d1] R E(1) O(1) p(3) lid
    by (simp add: lbl_at_def retargeted_def)
  have ve: "ver_at k d' = (if k = vid then Some (v\<lparr>pv_status := ProfActive\<rparr>)
       else if lbl_active l = Some k
       then map_option (\<lambda>y. y\<lparr>pv_status := (if n = 0 then ProfRetiring else ProfReady)\<rparr>) (ver_at k d)
       else ver_at k d)" for k
  proof (cases "lbl_active l")
    case None
    then show ?thesis using O(6) [of k] ver3 p(1,4) by simp
  next
    case (Some o1)
    then obtain x where "ver_at o1 d = Some x" using profile_active [OF inv p(3)] by blast
    moreover from this have "pv_id x = o1" by (auto simp: ver_at_def dest: row_get_SomeD)
    ultimately show ?thesis using O(6) [of k] ver3 p(1,4) Some
      by (cases "k = o1"; cases "k = vid") auto
  qed
  have sv: "same_view d d'" using R E(4,5) O(2,3) by (simp add: same_view_def retargeted_def)
  have pv: "map pv_id (versions d') = map pv_id (versions d)"
    using O(5) E(2) R by (simp add: row_upd_pk retargeted_def)
  have lv: "map lbl_id (labels d') = map lbl_id (labels d)"
    using labels_upd [of "\<lambda>x. x\<lparr>lbl_active := Some vid\<rparr>" "call_now e" "lbl_id l" d1] O(1) E(1) R
    by (simp add: retargeted_def)
  have bv: "map bnd_rev (bindings d') = map bnd_rev (bindings d)" using O(4) E(3) R by (simp add: retargeted_def)
  have bb: "bindings d' = bindings d1" using O(4) E(3) by simp
  show thesis
    by (rule that [OF p(1,2,3) lid p(5) lb ve _ sv pv lv bv]) (simp add: bb B)
qed

lemma check_bindings_all:
  "check_bindings pk py_str v bs = Inr () \<longleftrightarrow>
   (\<forall>b \<in> set bs. \<exists>rp deps. binding_requirements b = Some (rp, deps) \<and>
      validate_project_compatibility pk v rp (map py_str deps) = Inr None)"
  by (induction bs) (auto simp: bindE_eq_Inr split: option.split)

lemma activate_profile_inv:
  assumes inv: "profile_inv d" and di: "distinct (map rev_id (revisions d))"
    and act: "activate_runtime_profile pk py_str e vid d = Inr ((rec, old, n), d')"
  shows "profile_inv d'"
proof -
  obtain v l where v: "ver_at vid d = Some v" "pv_status v \<in> {ProfReady, ProfActive}"
    and l: "lbl_at (pv_label v) d = Some l" "lbl_id l = pv_label v"
    and L: "\<And>k. map_option lbl_active (lbl_at k d') =
       (if k = lbl_id l then Some (Some vid) else map_option lbl_active (lbl_at k d))"
    and V: "\<And>k. ver_at k d' = (if k = vid then Some (v\<lparr>pv_status := ProfActive\<rparr>)
       else if lbl_active l = Some k
       then map_option (\<lambda>y. y\<lparr>pv_status := (if n = 0 then ProfRetiring else ProfReady)\<rparr>) (ver_at k d)
       else ver_at k d)"
    and ids: "map pv_id (versions d') = map pv_id (versions d)" "map lbl_id (labels d') = map lbl_id (labels d)"
    by (rule activation_tables [OF inv di act]) (rule that)
  show ?thesis
    unfolding profile_inv_def
  proof (intro conjI allI impI)
    show "distinct (map lbl_id (labels d'))" "distinct (map pv_id (versions d'))"
      using inv ids by (simp_all add: profile_inv_def)
  next
    fix k x y assume x: "lbl_at k d' = Some x" "lbl_active x = Some y"
    show "\<exists>z. ver_at y d' = Some z \<and> pv_label z = k \<and> pv_status z = ProfActive"
    proof (cases "k = lbl_id l")
      case True
      then show ?thesis using x L [of k] V [of y] l by simp
    next
      case False
      then obtain x0 where "lbl_at k d = Some x0" "lbl_active x0 = Some y"
        using x L [of k] by (cases "lbl_at k d") auto
      then obtain z where z: "ver_at y d = Some z" "pv_label z = k" "pv_status z = ProfActive"
        using profile_active [OF inv] by blast
      have "y \<noteq> vid" using z v False l by auto
      moreover have "lbl_active l \<noteq> Some y" using profile_active [OF inv l(1)] z False l by auto
      ultimately show ?thesis using z V [of y] by simp
    qed
  next
    fix y z assume z: "ver_at y d' = Some z"
    then obtain z0 where z0: "ver_at y d = Some z0" "pv_label z = pv_label z0"
      "pv_status z = ProfActive \<longrightarrow> y = vid \<or> lbl_active l \<noteq> Some y \<and> pv_status z0 = ProfActive"
      using V [of y] v by (cases "y = vid"; cases "lbl_active l = Some y") (auto split: if_splits)
    obtain x where x: "lbl_at (pv_label z0) d = Some x" "pv_status z0 = ProfActive \<longrightarrow> lbl_active x = Some y"
      using profile_label [OF inv z0(1)] by blast
    show "\<exists>x. lbl_at (pv_label z) d' = Some x \<and> (pv_status z = ProfActive \<longrightarrow> lbl_active x = Some y)"
      using L [of "pv_label z"] x z0 l v by (cases "lbl_at (pv_label z) d'"; cases "pv_label z0 = lbl_id l") auto
  qed
qed

lemma upd_version_inv:
  assumes "profile_inv d" and "ver_at vid d = Some v"
    and "\<And>x. pv_id (f x) = pv_id x" "\<And>x. pv_label (f x) = pv_label x"
    and "pv_status v \<noteq> ProfActive" "\<And>x. pv_status (f x) \<noteq> ProfActive"
  shows "profile_inv (upd_version vid f d)"
proof (rule profile_inv_same [OF assms(1)])
  show "map pv_id (versions (upd_version vid f d)) = map pv_id (versions d)"
    using assms(3) by (simp add: row_upd_pk)
  show "map_option (\<lambda>x. (pv_label x, pv_status x = ProfActive)) (ver_at k (upd_version vid f d)) =
      map_option (\<lambda>x. (pv_label x, pv_status x = ProfActive)) (ver_at k d)" for k
    using assms(2-6) by (simp add: ver_at_upd)
qed simp_all

lemma complete_validation_inv:
  assumes "profile_inv d" and "complete_runtime_profile_validation e vid res r env g d = Inr (rec, d')"
  shows "profile_inv d'"
proof -
  obtain v where v: "ver_at vid d = Some v" "pv_status v = ProfValidating"
    and d': "d' = upd_version vid (\<lambda>x. x\<lparr>pv_resolved := res, pv_result := r, pv_env := env, pv_digest := Some g,
       pv_status := ProfReady, pv_validated := Some (call_now e), pv_error := None\<rparr>) d"
    using assms(2) by (auto simp: complete_runtime_profile_validation_def result_simps Let_def split: if_splits)
  show ?thesis unfolding d' using v by (intro upd_version_inv [OF assms(1) v(1)]) simp_all
qed

lemma fail_validation_inv:
  assumes "profile_inv d" and "fail_runtime_profile_validation e vid msg d = Inr (u, d')"
    and "\<And>v. ver_at vid d = Some v \<Longrightarrow> pv_status v \<noteq> ProfActive"
  shows "profile_inv d'"
proof -
  obtain v where v: "ver_at vid d = Some v"
    and d': "d' = upd_version vid (\<lambda>x. x\<lparr>pv_status := ProfFailed, pv_error := Some (take 4000 msg),
                                       pv_validated := Some (call_now e)\<rparr>) d"
    using assms(2) by (auto simp: fail_runtime_profile_validation_def result_simps)
  show ?thesis unfolding d' using assms(3) [OF v] by (intro upd_version_inv [OF assms(1) v]) simp_all
qed

lemma retire_profile_parts:
  assumes "retire_runtime_profile e vid fin d = Inr (rec, d')"
  obtains v l where "ver_at vid d = Some v" and "lbl_at (pv_label v) d = Some l" and "lbl_active l \<noteq> Some vid"
    and "runtime_profile_reference_count vid d = 0"
    and "\<And>g. pv_digest v = Some g \<Longrightarrow> g \<noteq> [] \<Longrightarrow> active_runtime_execution_count g d = 0"
    and "d' = upd_version vid (if fin then (\<lambda>x. x\<lparr>pv_status := ProfRetired, pv_retired := Some (call_now e)\<rparr>)
                       else (\<lambda>x. x\<lparr>pv_status := ProfRetiring\<rparr>)) d"
    and "fin \<longrightarrow> pv_status v = ProfRetiring" and "\<not> fin \<longrightarrow> pv_status v \<noteq> ProfRetired"
proof -
  obtain v where v: "ver_at vid d = Some v"
    using assms by (cases "ver_at vid d") (simp_all add: retire_runtime_profile_def)
  obtain l where l: "lbl_at (pv_label v) d = Some l"
    using assms v by (cases "lbl_at (pv_label v) d") (simp_all add: retire_runtime_profile_def)
  note A = assms [unfolded retire_runtime_profile_def v of_opt_simps bindE_simps l Let_def]
  show thesis using A by (intro that [OF v l]) (auto split: if_splits)
qed

lemma retire_profile_inv:
  assumes inv: "profile_inv d" and "retire_runtime_profile e vid fin d = Inr (rec, d')"
  shows "profile_inv d'"
proof -
  obtain v l where v: "ver_at vid d = Some v" "lbl_at (pv_label v) d = Some l" "lbl_active l \<noteq> Some vid"
    and d': "d' = upd_version vid (if fin then (\<lambda>x. x\<lparr>pv_status := ProfRetired, pv_retired := Some (call_now e)\<rparr>)
                       else (\<lambda>x. x\<lparr>pv_status := ProfRetiring\<rparr>)) d"
    by (rule retire_profile_parts [OF assms(2)]) (rule that)
  have "pv_status v \<noteq> ProfActive" using profile_label [OF inv v(1)] v(2,3) by auto
  then show ?thesis unfolding d' by (intro upd_version_inv [OF inv v(1)]) simp_all
qed

lemma insert_label_inv:
  assumes inv: "profile_inv d" and ins: "insert_label l d = Inr d'" and "lbl_active l = None"
  shows "profile_inv d'"
proof -
  have d': "labels d' = labels d @ [l]" "versions d' = versions d" "lbl_at (lbl_id l) d = None"
    using ins by (auto simp: insert_defs guard_insert_eq lbl_at_def)
  have at: "lbl_at k d' = (if k = lbl_id l then Some l else lbl_at k d)" for k
    using lbl.get_add [of l "labels d" k] d' by (simp add: lbl_at_def)
  show ?thesis
    unfolding profile_inv_def
  proof (intro conjI allI impI)
    show "distinct (map lbl_id (labels d'))" "distinct (map pv_id (versions d'))"
      using inv d' lbl.ok_add [of "labels d" l] by (simp_all add: profile_inv_def lbl_at_def)
    show "\<exists>v. ver_at y d' = Some v \<and> pv_label v = k \<and> pv_status v = ProfActive"
      if "lbl_at k d' = Some x" "lbl_active x = Some y" for k x y
      using that assms(3) profile_active [OF inv, of k x y] d'(2) by (auto simp: at ver_at_def split: if_splits)
    show "\<exists>x. lbl_at (pv_label v) d' = Some x \<and> (pv_status v = ProfActive \<longrightarrow> lbl_active x = Some y)"
      if "ver_at y d' = Some v" for y v
      using that profile_label [OF inv, of y v] d'(2,3) by (auto simp: at ver_at_def)
  qed
qed

lemma insert_version_inv:
  assumes inv: "profile_inv d" and ins: "insert_version v d = Inr d'" and "pv_status v \<noteq> ProfActive"
  shows "profile_inv d'"
proof -
  have d': "versions d' = versions d @ [v]" "labels d' = labels d" "ver_at (pv_id v) d = None"
    "\<exists>l. lbl_at (pv_label v) d = Some l"
    using ins by (auto simp: insert_defs guard_insert_eq lbl_at_def ver_at_def)
  have at: "ver_at k d' = (if k = pv_id v then Some v else ver_at k d)" for k
    using ver.get_add [of v "versions d" k] d' by (simp add: ver_at_def)
  show ?thesis
    unfolding profile_inv_def
  proof (intro conjI allI impI)
    show "distinct (map lbl_id (labels d'))" "distinct (map pv_id (versions d'))"
      using inv d' ver.ok_add [of "versions d" v] by (simp_all add: profile_inv_def ver_at_def)
    show "\<exists>w. ver_at y d' = Some w \<and> pv_label w = k \<and> pv_status w = ProfActive"
      if "lbl_at k d' = Some x" "lbl_active x = Some y" for k x y
      using that profile_active [OF inv, of k x y] d'(2,3) by (auto simp: at lbl_at_def)
    show "\<exists>x. lbl_at (pv_label w) d' = Some x \<and> (pv_status w = ProfActive \<longrightarrow> lbl_active x = Some y)"
      if "ver_at y d' = Some w" for y w
      using that profile_label [OF inv, of y w] d'(2,4) assms(3) by (auto simp: at lbl_at_def split: if_splits)
  qed
qed

lemma create_label_inv:
  "profile_inv d \<Longrightarrow> create_runtime_label e name q d = Inr (rec, d') \<Longrightarrow> profile_inv d'"
  by (auto simp: create_runtime_label_def Let_def bindE_eq_Inr new_runtime_version_def split: if_splits
      dest!: insert_version_inv [rotated] insert_label_inv [rotated])

lemma create_version_inv:
  "profile_inv d \<Longrightarrow> create_runtime_version e lid q d = Inr (rec, d') \<Longrightarrow> profile_inv d'"
  by (auto simp: create_runtime_version_def Let_def bindE_eq_Inr of_opt_eq new_runtime_version_def
      dest!: insert_version_inv [rotated])

lemma activation_same_view:
  assumes "profile_inv d" and "distinct (map rev_id (revisions d))"
    and "activate_runtime_profile pk py_str e vid d = Inr ((rec, old, n), d')"
  shows "same_view d d'"
  by (rule activation_tables [OF assms])

section \<open>Properties\<close>

text \<open>C23. A successful activation of a profile version: it was \<open>READY\<close> or already \<open>ACTIVE\<close>; it satisfies the
  Python and dependency constraints of every revision that tracks the label; afterwards it is the one
  active version of its label, every tracking revision is bound to it and every other binding is as it
  was; no other label changes its active version; and no published gRPC route changes.\<close>

theorem activate_profile_effect:
  assumes "profile_inv d" and "distinct (map rev_id (revisions d))"
    and "activate_runtime_profile pk py_str e vid d = Inr ((rec, old, n), d')"
  shows "\<exists>v lid. ver_at vid d = Some v \<and> pv_status v \<in> {ProfReady, ProfActive} \<and> pv_label v = lid \<and>
    (\<forall>b \<in> set (tracked_bindings lid d). \<exists>rp deps. binding_requirements b = Some (rp, deps) \<and>
       validate_project_compatibility pk v rp (map py_str deps) = Inr None) \<and>
    (\<forall>k. map_option lbl_active (lbl_at k d') =
       (if k = lid then Some (Some vid) else map_option lbl_active (lbl_at k d))) \<and>
    {x. \<exists>w. ver_at x d' = Some w \<and> pv_label w = lid \<and> pv_status w = ProfActive} = {vid} \<and>
    (\<forall>k. map_option bnd_version (row_get bnd_rev k (bindings d')) =
       (if k \<in> bnd_rev ` set (tracked_bindings lid d) then map_option (\<lambda>_. vid) (row_get bnd_rev k (bindings d))
        else map_option bnd_version (row_get bnd_rev k (bindings d)))) \<and>
    (\<forall>k. published d' k = published d k)"
proof -
  obtain v l where v: "ver_at vid d = Some v" "pv_status v \<in> {ProfReady, ProfActive}"
    and l: "lbl_at (pv_label v) d = Some l" "lbl_id l = pv_label v"
    and c: "check_bindings pk py_str v (tracked_bindings (lbl_id l) d) = Inr ()"
    and L: "\<And>k. map_option lbl_active (lbl_at k d') =
       (if k = lbl_id l then Some (Some vid) else map_option lbl_active (lbl_at k d))"
    and V: "\<And>k. ver_at k d' = (if k = vid then Some (v\<lparr>pv_status := ProfActive\<rparr>)
       else if lbl_active l = Some k
       then map_option (\<lambda>y. y\<lparr>pv_status := (if n = 0 then ProfRetiring else ProfReady)\<rparr>) (ver_at k d)
       else ver_at k d)"
    and B: "\<And>k. map_option (\<lambda>x. (bnd_version x, bnd_label x, bnd_mode x)) (row_get bnd_rev k (bindings d')) =
       map_option (\<lambda>x. (if k \<in> bnd_rev ` set (tracked_bindings (lbl_id l) d) then vid else bnd_version x, bnd_label x, bnd_mode x))
         (row_get bnd_rev k (bindings d))"
    by (rule activation_tables [OF assms]) (rule that)
  have Bv: "map_option bnd_version (row_get bnd_rev k (bindings d')) =
       (if k \<in> bnd_rev ` set (tracked_bindings (pv_label v) d) then map_option (\<lambda>_. vid) (row_get bnd_rev k (bindings d))
        else map_option bnd_version (row_get bnd_rev k (bindings d)))" for k
    using B [of k] l(2) by (cases "row_get bnd_rev k (bindings d)"; cases "row_get bnd_rev k (bindings d')") auto
  have A: "{x. \<exists>w. ver_at x d' = Some w \<and> pv_label w = pv_label v \<and> pv_status w = ProfActive} = {vid}"
  proof -
    have inv': "profile_inv d'" by (rule activate_profile_inv [OF assms])
    have u: "x = vid" if "ver_at x d' = Some w" "pv_label w = pv_label v" "pv_status w = ProfActive" for x w
      using profile_label [OF inv' that(1)] that(2,3) L [of "pv_label v"] l(2) by auto
    have w: "ver_at vid d' = Some (v\<lparr>pv_status := ProfActive\<rparr>)" using V [of vid] by simp
    show ?thesis
    proof (intro equalityI subsetI)
      fix x assume "x \<in> {x. \<exists>w. ver_at x d' = Some w \<and> pv_label w = pv_label v \<and> pv_status w = ProfActive}"
      then show "x \<in> {vid}" using u by blast
    next
      fix x assume "x \<in> {vid}"
      then show "x \<in> {x. \<exists>w. ver_at x d' = Some w \<and> pv_label w = pv_label v \<and> pv_status w = ProfActive}"
        using w by simp
    qed
  qed
  have P: "published d' k = published d k" for k
    by (rule same_view_published [OF activation_same_view [OF assms]])
  have C: "\<forall>b \<in> set (tracked_bindings (pv_label v) d). \<exists>rp deps. binding_requirements b = Some (rp, deps) \<and>
       validate_project_compatibility pk v rp (map py_str deps) = Inr None"
    using c by (simp only: check_bindings_all l(2))
  show ?thesis
    by (rule exI [of _ v], rule exI [of _ "pv_label v"])
      (rule conjI [OF v(1) conjI [OF v(2) conjI [OF refl conjI [OF C conjI [OF allI [OF L [unfolded l(2)]]
        conjI [OF A conjI [OF allI [OF Bv] allI [OF P]]]]]]]])
qed

definition demo_label :: runtime_label where
  "demo_label = \<lparr>lbl_id = 11, lbl_name = ''py'', lbl_active = Some 12, lbl_created = 0, lbl_updated = 0\<rparr>"

definition demo_version :: "uuid \<Rightarrow> int \<Rightarrow> profile_status \<Rightarrow> profile_version" where
  "demo_version k n st = \<lparr>pv_id = k, pv_label = 11, pv_version = n, pv_ref = profile_ref ''py'' n, pv_python = ''3.12'',
     pv_pool = ''default'', pv_pip_source = ''default'', pv_pip_index = None, pv_requested = [], pv_resolved = [],
     pv_imports = [], pv_digest = Some (dec k), pv_env = [], pv_result = [], pv_status = st, pv_error = None,
     pv_created = 0, pv_validated = Some 0, pv_retired = None\<rparr>"

definition demo_binding :: "uuid \<Rightarrow> tracking \<Rightarrow> binding" where
  "demo_binding r m = \<lparr>bnd_rev = r, bnd_label = 11, bnd_version = 12, bnd_mode = m, bnd_digest = [],
     bnd_result = [(''requires_python'', JStr ''>=3''), (''dependencies'', JArr [])], bnd_created = 0\<rparr>"

definition prof_db :: db where
  \<comment> \<open>label 11 with versions 12 (active) and 13 (ready); revision 2 tracks it, revision 3 pins version 12\<close>
  "prof_db = (demo_db SvcActive)\<lparr>labels := [demo_label],
     versions := [demo_version 12 1 ProfActive, demo_version 13 2 ProfReady],
     bindings := [demo_binding 2 TrackActive, demo_binding 3 Pinned]\<rparr>"

definition demo_packaging :: packaging where
  "demo_packaging = \<lparr>pk_version = Some, pk_version_le = (\<lambda>a b. a \<le> b), pk_contains = (\<lambda>spec v. Some True),
     pk_requirement = (\<lambda>r. None), pk_canonical = lower\<rparr>"

lemma prof_db_tables:
  "labels prof_db = [demo_label]" "versions prof_db = [demo_version 12 1 ProfActive, demo_version 13 2 ProfReady]"
  "bindings prof_db = [demo_binding 2 TrackActive, demo_binding 3 Pinned]" "outboxes prof_db = []"
  "revisions prof_db = [demo_revision 2 7 RevActive ''Old'', demo_revision 3 7 RevReady ''New'']"
  by (simp_all add: prof_db_def demo_db_def empty_db_def)

lemma demo_profile_fields:
  "pv_id (demo_version k n st) = k" "pv_status (demo_version k n st) = st" "pv_label (demo_version k n st) = 11"
  "lbl_id demo_label = 11" "lbl_active demo_label = Some 12" "bnd_rev (demo_binding r m) = r"
  "bnd_label (demo_binding r m) = 11" "bnd_mode (demo_binding r m) = m" "rev_id (demo_revision k sid rs x) = k"
  by (simp_all add: demo_version_def demo_label_def demo_binding_def demo_revision_def)

lemma prof_db_inv: "profile_inv prof_db" "distinct (map rev_id (revisions prof_db))"
  by (auto simp: profile_inv_def lbl_at_def ver_at_def prof_db_tables row_get_Cons demo_profile_fields split: if_splits)

lemma prof_db_activation:
  "\<exists>rec old n d'. activate_runtime_profile demo_packaging (\<lambda>_. []) demo_call 13 prof_db = Inr ((rec, old, n), d')"
proof -
  have t: "tracked_bindings 11 prof_db = [demo_binding 2 TrackActive]"
    by (simp add: tracked_bindings_def prof_db_tables demo_profile_fields)
  have c: "check_bindings demo_packaging (\<lambda>_. []) (demo_version 13 2 ProfReady) [demo_binding 2 TrackActive] = Inr ()"
    by (simp add: binding_requirements_def demo_binding_def dfind_def dget_def validate_project_compatibility_def
      demo_packaging_def demo_version_def)
  have m: "\<exists>d1. retarget_binding demo_label (demo_version 13 2 ProfReady) (demo_binding 2 TrackActive) prof_db = Inr d1
      \<and> outboxes d1 = []"
    by (simp add: retarget_binding_def prof_db_tables demo_profile_fields row_get_Cons retarget_manifest_def
      demo_revision_def demo_manifest_def dget_def as_dict_def Let_def upd_revision_def)
  then obtain d1 where d1: "retarget_binding demo_label (demo_version 13 2 ProfReady) (demo_binding 2 TrackActive) prof_db = Inr d1"
    "outboxes d1 = []" by blast
  have o: "outboxes (upd_version vid f d) = outboxes d" "outboxes (upd_label now lid g d) = outboxes d" for vid f d now lid g
    by (simp_all add: upd_version_def upd_label_def)
  show ?thesis
    by (simp add: activate_runtime_profile_def ver_at_def lbl_at_def prof_db_tables row_get_Cons demo_profile_fields
      Let_def t c d1 emit_event_def insert_outbox_def guard_insert_def o del: check_bindings.simps)
qed

theorem activate_profile_effect_witness:
  "\<exists>rec old n d'. activate_runtime_profile demo_packaging (\<lambda>_. []) demo_call 13 prof_db = Inr ((rec, old, n), d') \<and>
     map_option bnd_version (row_get bnd_rev 2 (bindings d')) = Some 13 \<and>
     map_option bnd_version (row_get bnd_rev 3 (bindings d')) = Some 12"
proof -
  obtain rec old n d' where a: "activate_runtime_profile demo_packaging (\<lambda>_. []) demo_call 13 prof_db = Inr ((rec, old, n), d')"
    using prof_db_activation by blast
  have t: "tracked_bindings 11 prof_db = [demo_binding 2 TrackActive]"
    by (simp add: tracked_bindings_def prof_db_tables demo_profile_fields)
  have g: "row_get bnd_rev 2 (bindings prof_db) = Some (demo_binding 2 TrackActive)"
    "row_get bnd_rev 3 (bindings prof_db) = Some (demo_binding 3 Pinned)"
    by (simp_all add: prof_db_tables row_get_Cons demo_profile_fields)
  have v: "ver_at 13 prof_db = Some (demo_version 13 2 ProfReady)"
    by (simp add: ver_at_def prof_db_tables row_get_Cons demo_profile_fields)
  have "\<forall>k. map_option bnd_version (row_get bnd_rev k (bindings d')) =
       (if k \<in> bnd_rev ` set (tracked_bindings 11 prof_db) then map_option (\<lambda>_. 13) (row_get bnd_rev k (bindings prof_db))
        else map_option bnd_version (row_get bnd_rev k (bindings prof_db)))"
    using activate_profile_effect [OF prof_db_inv a] v by (auto simp only: option.inject demo_profile_fields)
  from this [rule_format, of 2] this [rule_format, of 3] show ?thesis using a
    by (simp add: t g demo_profile_fields) (simp add: demo_binding_def)
qed

text \<open>C31. A version that is sent into retirement, or retired, is not the active version of its label, is
  bound to no revision of any service, and no accepted or running execution uses its environment; only
  its own status changes, and finalizing requires that it was retiring.\<close>

theorem retire_profile_safe:
  assumes "profile_inv d" and "retire_runtime_profile e vid fin d = Inr (rec, d')"
  shows "\<exists>v. ver_at vid d = Some v \<and> pv_status v \<noteq> ProfActive \<and>
    (\<forall>k x. lbl_at k d = Some x \<longrightarrow> lbl_active x \<noteq> Some vid) \<and>
    reference_services vid d = [] \<and>
    (\<forall>x \<in> set (executions d). \<forall>i \<in> set (invocations d). inv_id i = exe_inv x \<and> exe_digest x = pv_digest v \<and>
       pv_digest v \<noteq> None \<and> pv_digest v \<noteq> Some [] \<longrightarrow> inv_status i \<notin> {InvAccepted, InvRunning}) \<and>
    (fin \<longrightarrow> pv_status v = ProfRetiring) \<and>
    map_option pv_status (ver_at vid d') = Some (if fin then ProfRetired else ProfRetiring) \<and>
    (\<forall>k. k \<noteq> vid \<longrightarrow> ver_at k d' = ver_at k d)"
proof -
  obtain v l where v: "ver_at vid d = Some v" "lbl_at (pv_label v) d = Some l" "lbl_active l \<noteq> Some vid"
    and r: "runtime_profile_reference_count vid d = 0"
    and x: "\<And>g. pv_digest v = Some g \<Longrightarrow> g \<noteq> [] \<Longrightarrow> active_runtime_execution_count g d = 0"
    and d': "d' = upd_version vid (if fin then (\<lambda>x. x\<lparr>pv_status := ProfRetired, pv_retired := Some (call_now e)\<rparr>)
                       else (\<lambda>x. x\<lparr>pv_status := ProfRetiring\<rparr>)) d"
    and f: "fin \<longrightarrow> pv_status v = ProfRetiring"
    by (rule retire_profile_parts [OF assms(2)]) (rule that)
  have "lbl_active z \<noteq> Some vid" if "lbl_at k d = Some z" for k z
    using profile_active [OF assms(1) that, of vid] v that by auto
  moreover have "inv_status i \<notin> {InvAccepted, InvRunning}"
    if "y \<in> set (executions d)" "i \<in> set (invocations d)" "inv_id i = exe_inv y" "exe_digest y = pv_digest v"
      "pv_digest v = Some g" "g \<noteq> []" for y i g
    using x [OF that(5,6)] that unfolding active_runtime_execution_count_def by fastforce
  moreover have "pv_status v \<noteq> ProfActive" using profile_label [OF assms(1) v(1)] v(2,3) by auto
  moreover have "ver_at k d' = (if k = vid then map_option (if fin then (\<lambda>x. x\<lparr>pv_status := ProfRetired, pv_retired := Some (call_now e)\<rparr>)
                       else (\<lambda>x. x\<lparr>pv_status := ProfRetiring\<rparr>)) (ver_at k d) else ver_at k d)" for k
    unfolding d' by (rule ver_at_upd) simp
  ultimately show ?thesis
    using v r f by (intro exI [of _ v]) (auto simp: runtime_profile_reference_count_def)
qed

theorem retire_profile_safe_witness:
  "\<exists>rec d'. retire_runtime_profile demo_call 13 False prof_db = Inr (rec, d') \<and>
     map_option pv_status (ver_at 13 d') = Some ProfRetiring"
proof -
  have "runtime_profile_reference_count 13 prof_db = 0" "active_runtime_execution_count g prof_db = 0" for g
    by (simp_all add: runtime_profile_reference_count_def reference_services_def active_runtime_execution_count_def
      prof_db_tables demo_binding_def) (simp add: prof_db_def demo_db_def empty_db_def)
  then have "\<exists>rec d'. retire_runtime_profile demo_call 13 False prof_db = Inr (rec, d')"
    by (simp add: retire_runtime_profile_def ver_at_def lbl_at_def prof_db_tables row_get_Cons demo_profile_fields
      Let_def split: option.split)
  then show ?thesis using retire_profile_safe [OF prof_db_inv(1)] by fastforce
qed

end
