(* ===== verification/Contracts.thy ===== *)
theory Contracts
  imports Profiles
begin

text \<open>
  \<open>repository.py\<close>, the publication of a revision: registering its Proto contract, creating the revision
  with its endpoints, profile binding and contract, and looking contracts up.
\<close>

section \<open>Registering a contract\<close>

text \<open>What the contract builder publishes.\<close>

record published_contract =
  pub_schema :: string
  pub_source :: string
  pub_version :: string
  pub_descriptor :: string
  pub_bundle :: string
  pub_bundle_digest :: "string option"
  pub_methods :: "string list"

definition contracts_newest_first :: "(contract \<Rightarrow> bool) \<Rightarrow> db \<Rightarrow> contract list" where
  "contracts_newest_first p d = sort_desc ct_created (filter p (contracts d))"

definition latest_contract :: "uuid \<Rightarrow> db \<Rightarrow> contract option" where
  "latest_contract sid d = (case contracts_newest_first (\<lambda>c. ct_service c = sid) d of [] \<Rightarrow> None | c # _ \<Rightarrow> Some c)"

definition refresh_contract :: "published_contract \<Rightarrow> contract \<Rightarrow> contract" where
  "refresh_contract p c = c\<lparr>ct_descriptor := pub_descriptor p, ct_bundle := pub_bundle p,
     ct_bundle_digest := pub_bundle_digest p, ct_source := pub_source p\<rparr>"

definition new_contract :: "call \<Rightarrow> uuid \<Rightarrow> published_contract \<Rightarrow> contract" where
  "new_contract e sid p =
     \<lparr>ct_id = call_ids e 0, ct_service = sid, ct_schema = pub_schema p, ct_source = pub_source p,
      ct_version = pub_version p, ct_descriptor = pub_descriptor p, ct_bundle = pub_bundle p,
      ct_bundle_digest = pub_bundle_digest p, ct_methods = pub_methods p, ct_status = ContractReady,
      ct_created = call_now e\<rparr>"

definition check_newer :: "packaging \<Rightarrow> string \<Rightarrow> contract option \<Rightarrow> repo_error + unit" where
  \<comment> \<open>\<open>Version(published) <= Version(latest)\<close> is refused\<close>
  "check_newer pk v latest =
     (case latest of
        None \<Rightarrow> Inr ()
      | Some c \<Rightarrow>
          bindE (of_opt InvalidVersion (pk_version pk v)) (\<lambda>a.
          bindE (of_opt InvalidVersion (pk_version pk (ct_version c))) (\<lambda>b.
            if pk_version_le pk a b then Inl (InvalidTransition (VersionNotNewer (ct_version c))) else Inr ())))"

definition register_contract :: "packaging \<Rightarrow> call \<Rightarrow> uuid \<Rightarrow> published_contract \<Rightarrow> db \<Rightarrow> contract result" where
  "register_contract pk e sid p d =
     (case find (\<lambda>c. ct_service c = sid \<and> ct_schema c = pub_schema p) (contracts d) of
        Some c \<Rightarrow>
          if ct_version c \<noteq> pub_version p then Inl (InvalidTransition (SameDigestOtherVersion (ct_version c)))
          else Inr (refresh_contract p c,
                    d\<lparr>contracts := row_upd ct_id (ct_id c) (refresh_contract p) (contracts d)\<rparr>)
      | None \<Rightarrow>
          bindE (check_newer pk (pub_version p) (latest_contract sid d)) (\<lambda>_.
          let c = new_contract e sid p in
          bindE (insert_contract c d) (\<lambda>d1.
          bindE (emit_event (call_ids e 1) (call_now e) ''contract.ready'' (uuid_str (ct_id c))
              [(''service_id'', JStr (uuid_str sid)), (''contract_id'', JStr (uuid_str (ct_id c))),
               (''schema_digest'', JStr (ct_schema c)), (''proto_bundle_digest'', jopt (ct_bundle_digest c))] d1)
            (\<lambda>d2. Inr (c, d2)))))"

section \<open>Creating a revision\<close>

definition dump_contract :: "grpc_contract_spec \<Rightarrow> jdict" where
  \<comment> \<open>\<open>model_dump(mode="json", exclude_none=True)\<close>\<close>
  "dump_contract g = [(''version'', JStr (gc_version g)), (''proto_root'', JStr (gc_root g))]
     @ (case gc_package g of None \<Rightarrow> [] | Some n \<Rightarrow> [(''package_name'', JStr n)])"

definition requested_mode :: "revision_request \<Rightarrow> tracking" where
  "requested_mode q = (if contains ''@v'' (if_profile (rr_interface q)) then Pinned else TrackActive)"

definition revision_manifest :: "revision_request \<Rightarrow> profile_record option \<Rightarrow> jdict" where
  "revision_manifest q prof =
     [(''spec_version'', JInt 2),
      (''endpoints'', JArr (map (JObj \<circ> to_manifest) (if_endpoints (rr_interface q))))]
     @ (case if_contract (rr_interface q) of None \<Rightarrow> [] | Some g \<Rightarrow> [(''grpc_contract'', JObj (dump_contract g))])
     @ (case prof of
          None \<Rightarrow> []
        | Some p \<Rightarrow>
            [(''runtime'', JObj [(''label'', JStr (lbl_name (prc_label p))),
               (''profile_ref'', JStr (pv_ref (prc_version p))),
               (''environment_digest'', jopt (pv_digest (prc_version p))),
               (''tracking_mode'', JStr (tracking_value (requested_mode q)))])])"

definition new_revision :: "call \<Rightarrow> uuid \<Rightarrow> revision_request \<Rightarrow> profile_record option \<Rightarrow> revision" where
  "new_revision e sid q prof =
     \<lparr>rev_id = call_ids e 0, rev_service = sid, rev_name = rr_revision q, rev_uri = rr_uri q,
      rev_digest = rr_digest q,
      rev_profile = (case prof of Some p \<Rightarrow> pv_ref (prc_version p) | None \<Rightarrow> if_profile (rr_interface q)),
      rev_status = RevReady, rev_manifest = revision_manifest q prof, rev_created = call_now e,
      rev_activated = None\<rparr>"

definition new_binding :: "call \<Rightarrow> revision_request \<Rightarrow> profile_record \<Rightarrow> binding" where
  "new_binding e q p =
     \<lparr>bnd_rev = call_ids e 0, bnd_label = lbl_id (prc_label p), bnd_version = pv_id (prc_version p),
      bnd_mode = requested_mode q, bnd_digest = rr_digest q,
      bnd_result = [(''source'', JStr ''pyscripts-hook''),
        (''requested_runtime'', JStr (if_profile (rr_interface q))),
        (''resolved_profile_ref'', JStr (pv_ref (prc_version p))),
        (''requires_python'', JStr (if_requires (rr_interface q))),
        (''dependencies'', JArr (map JStr (if_dependencies (rr_interface q))))],
      bnd_created = call_now e\<rparr>"

definition new_endpoint :: "call \<Rightarrow> nat \<times> endpoint_spec \<Rightarrow> endpoint" where
  "new_endpoint e = (\<lambda>(i, s).
     \<lparr>ep_id = call_ids e (Suc i), ep_rev = call_ids e 0, ep_name = es_id s, ep_task = es_task s,
      ep_entry = es_entry s, ep_request = es_request s, ep_response = es_response s\<rparr>)"

definition create_revision ::
  "call \<Rightarrow> uuid \<Rightarrow> revision_request \<Rightarrow> uuid option \<Rightarrow> profile_record option \<Rightarrow> db \<Rightarrow> revision result" where
  "create_revision e sid q cid prof d =
     bindE (get_service sid d) (\<lambda>_.
     let r = new_revision e sid q prof; specs = if_endpoints (rr_interface q) in
     bindE (insert_revision r d) (\<lambda>d1.
     bindE (case prof of None \<Rightarrow> Inr d1 | Some p \<Rightarrow> insert_binding (new_binding e q p) d1) (\<lambda>d2.
       if list_ex (\<lambda>s. es_grpc s \<noteq> None) specs \<and> cid = None
       then Inl (InvalidTransition ContractMissing)
       else
         bindE (case cid of None \<Rightarrow> Inr d2
                | Some c \<Rightarrow> insert_rev_contract \<lparr>rc_rev = rev_id r, rc_contract = c\<rparr> d2) (\<lambda>d3.
         bindE (foldE insert_endpoint (map (new_endpoint e) (enumerate 0 specs)) d3) (\<lambda>d4.
         bindE (emit_event (call_ids e (Suc (length specs))) (call_now e) ''revision.ready'' (uuid_str (rev_id r))
             [(''service_id'', JStr (uuid_str sid)), (''revision_id'', JStr (uuid_str (rev_id r)))] d4) (\<lambda>d5.
           Inr (r, d5)))))))"

section \<open>Looking contracts up\<close>

definition get_active_contract :: "string \<Rightarrow> db \<Rightarrow> repo_error + (service \<times> contract \<times> revision)" where
  "get_active_contract name d =
     bindE (one_or_none [(s, r, c). (s, r) \<leftarrow> active_rows d, rc \<leftarrow> rev_contracts d, c \<leftarrow> contracts d,
         svc_name s = name \<and> rc_rev rc = rev_id r \<and> ct_id c = rc_contract rc \<and> ct_status c = ContractReady])
       (\<lambda>row. case row of
          None \<Rightarrow> Inl (NotFound MissingActiveContract)
        | Some (s, r, c) \<Rightarrow>
            if supports_current_interface r then Inr (s, c, r) else Inl (NotFound MissingActiveContract))"

definition get_latest_contract :: "uuid \<Rightarrow> db \<Rightarrow> contract option" where
  "get_latest_contract sid d =
     (case contracts_newest_first (\<lambda>c. ct_service c = sid \<and> ct_status c = ContractReady) d of
        [] \<Rightarrow> None | c # _ \<Rightarrow> Some c)"

definition get_contract :: "uuid \<Rightarrow> db \<Rightarrow> repo_error + (service \<times> contract \<times> revision)" where
  "get_contract cid d =
     (case sort_desc (\<lambda>(s, c, r). rev_created r)
         [(s, c, r). s \<leftarrow> services d, c \<leftarrow> contracts d, rc \<leftarrow> rev_contracts d, r \<leftarrow> revisions d,
            ct_service c = svc_id s \<and> rc_contract rc = ct_id c \<and> rev_id r = rc_rev rc \<and>
            ct_id c = cid \<and> ct_status c = ContractReady] of
        [] \<Rightarrow> Inl (NotFound MissingContract)
      | row # _ \<Rightarrow> Inr row)"

section \<open>The new revision\<close>

lemma insert_tables:
  "insert_binding b d = Inr d' \<Longrightarrow> services d' = services d \<and> revisions d' = revisions d \<and> labels d' = labels d \<and> versions d' = versions d"
  "insert_rev_contract rc d = Inr d' \<Longrightarrow> services d' = services d \<and> revisions d' = revisions d \<and> labels d' = labels d \<and> versions d' = versions d"
  "insert_endpoint x d = Inr d' \<Longrightarrow> services d' = services d \<and> revisions d' = revisions d \<and> labels d' = labels d \<and> versions d' = versions d"
  "insert_contract c d = Inr d' \<Longrightarrow> services d' = services d \<and> revisions d' = revisions d \<and> labels d' = labels d \<and> versions d' = versions d"
  "insert_revision r d = Inr d' \<Longrightarrow> services d' = services d \<and> labels d' = labels d \<and> versions d' = versions d"
  by (auto simp: insert_defs guard_insert_eq)

definition core_same :: "db \<Rightarrow> db \<Rightarrow> bool" where
  "core_same d d' = (services d' = services d \<and> revisions d' = revisions d \<and> labels d' = labels d \<and> versions d' = versions d)"

lemma core_same_trans: "core_same a b \<Longrightarrow> core_same b c \<Longrightarrow> core_same a c"
  by (simp add: core_same_def)

lemma core_same_refl [simp]: "core_same d d"
  by (simp add: core_same_def)

lemma core_same_inv:
  assumes "core_same d d'"
  shows "lifecycle_inv d \<Longrightarrow> lifecycle_inv d'" and "profile_inv d \<Longrightarrow> profile_inv d'"
proof -
  show "lifecycle_inv d \<Longrightarrow> lifecycle_inv d'"
    by (rule lifecycle_same_view) (use assms in \<open>simp_all add: same_view_def core_same_def\<close>)
  show "profile_inv d \<Longrightarrow> profile_inv d'"
    using assms by (simp add: profile_inv_def core_same_def lbl_at_def ver_at_def)
qed

lemma foldE_core:
  "(\<And>x d d'. f x d = Inr d' \<Longrightarrow> core_same d d') \<Longrightarrow> foldE f xs d = Inr d' \<Longrightarrow> core_same d d'"
proof (induction xs arbitrary: d)
  case (Cons x xs)
  then obtain d1 where "f x d = Inr d1" "foldE f xs d1 = Inr d'" by (auto simp: bindE_eq_Inr)
  with Cons show ?case by (metis core_same_trans)
qed simp

lemma create_revision_core:
  assumes "create_revision e sid q cid prof d = Inr (r, d')"
  obtains d1 where "insert_revision (new_revision e sid q prof) d = Inr d1" and "core_same d1 d'"
    and "r = new_revision e sid q prof"
proof -
  let ?r = "new_revision e sid q prof"
  obtain d1 where d1: "insert_revision ?r d = Inr d1"
    using assms by (auto simp: create_revision_def Let_def bindE_eq_Inr)
  obtain d2 where d2: "(case prof of None \<Rightarrow> Inr d1 | Some p \<Rightarrow> insert_binding (new_binding e q p) d1) = Inr d2"
    using assms d1 by (auto simp: create_revision_def Let_def bindE_eq_Inr)
  obtain d3 where d3: "(case cid of None \<Rightarrow> Inr d2
                | Some c \<Rightarrow> insert_rev_contract \<lparr>rc_rev = rev_id ?r, rc_contract = c\<rparr> d2) = Inr d3"
    using assms d1 d2 by (auto simp: create_revision_def Let_def bindE_eq_Inr split: if_splits)
  obtain d4 where d4: "foldE insert_endpoint (map (new_endpoint e) (enumerate 0 (if_endpoints (rr_interface q)))) d3 = Inr d4"
    using assms d1 d2 d3 by (auto simp: create_revision_def Let_def bindE_eq_Inr split: if_splits)
  obtain oid t a p where d5: "emit_event oid (call_now e) t a p d4 = Inr d'" and r: "r = ?r"
    using assms d1 d2 d3 d4 by (auto simp: create_revision_def Let_def bindE_eq_Inr split: if_splits)
  have "core_same d1 d2" using d2 insert_tables(1) by (auto simp: core_same_def split: option.splits)
  moreover have "core_same d2 d3" using d3 insert_tables(2) by (auto simp: core_same_def split: option.splits)
  moreover have "core_same d3 d4"
    by (rule foldE_core [OF _ d4]) (use insert_tables(3) in \<open>auto simp: core_same_def\<close>)
  moreover have "core_same d4 d'" using emit_event_frame [OF d5] by (simp add: core_same_def)
  ultimately show thesis using that [OF d1] r by (metis core_same_trans)
qed

lemma new_revision_status [simp]: "rev_status (new_revision e sid q prof) = RevReady"
  by (simp add: new_revision_def)

lemma create_revision_inv:
  assumes "create_revision e sid q cid prof d = Inr (r, d')"
  shows "lifecycle_inv d \<Longrightarrow> lifecycle_inv d'" and "profile_inv d \<Longrightarrow> profile_inv d'"
proof -
  obtain d1 where d1: "insert_revision (new_revision e sid q prof) d = Inr d1" "core_same d1 d'"
    by (rule create_revision_core [OF assms])
  show "lifecycle_inv d'" if "lifecycle_inv d"
    using insert_revision_inv [OF that d1(1)] core_same_inv(1) [OF d1(2)] by simp
  show "profile_inv d'" if "profile_inv d"
    using that insert_tables(5) [OF d1(1)] d1(2)
    by (simp add: profile_inv_def core_same_def lbl_at_def ver_at_def)
qed

section \<open>Contract versions increase\<close>

definition newer_than :: "packaging \<Rightarrow> contract \<Rightarrow> contract \<Rightarrow> bool" where
  \<comment> \<open>\<open>b\<close> was registered after \<open>a\<close>, with a newer version\<close>
  "newer_than pk a b = (ct_service a = ct_service b \<longrightarrow> ct_created a < ct_created b \<and>
     (\<forall>x y. pk_version pk (ct_version a) = Some x \<and> pk_version pk (ct_version b) = Some y \<longrightarrow>
        \<not> pk_version_le pk y x))"

definition contracts_ordered :: "packaging \<Rightarrow> db \<Rightarrow> bool" where
  "contracts_ordered pk d = sorted_wrt (newer_than pk) (contracts d)"

lemma latest_contract_newest:
  assumes "latest_contract sid d = Some c" and "x \<in> set (contracts d)" and "ct_service x = sid"
  shows "c \<in> set (contracts d)" and "ct_service c = sid" and "ct_created x \<le> ct_created c"
proof -
  let ?xs = "filter (\<lambda>c. ct_service c = sid) (contracts d)"
  obtain cs where cs: "sort_desc ct_created ?xs = c # cs"
    using assms(1) by (auto simp: latest_contract_def contracts_newest_first_def split: list.splits)
  have "set (sort_desc ct_created ?xs) = set ?xs" by simp
  then have s: "set (c # cs) = set ?xs" by (simp only: cs)
  then show "c \<in> set (contracts d)" "ct_service c = sid" by auto
  have "sorted_wrt (\<lambda>a b. ct_created b \<le> ct_created a) (c # cs)"
    using sorted_sort_desc [of ct_created ?xs] by (simp only: cs)
  moreover have "x \<in> set (c # cs)" using assms(2,3) s by auto
  ultimately show "ct_created x \<le> ct_created c" by auto
qed

lemma latest_contract_None:
  assumes "latest_contract sid d = None" and "x \<in> set (contracts d)"
  shows "ct_service x \<noteq> sid"
proof -
  have "sort_desc ct_created (filter (\<lambda>c. ct_service c = sid) (contracts d)) = []"
    using assms(1) by (auto simp: latest_contract_def contracts_newest_first_def split: list.splits)
  then have "set (filter (\<lambda>c. ct_service c = sid) (contracts d)) = {}"
    by (metis set_sort_desc list.set(1))
  then show ?thesis using assms(2) by (auto simp: filter_empty_conv)
qed

lemma ordered_before:
  assumes "sorted_wrt (newer_than pk) cs" and "x \<in> set cs" and "c \<in> set cs" and "ct_service x = ct_service c"
    and "ct_created x \<le> ct_created c"
  shows "x = c \<or> newer_than pk x c"
proof -
  obtain i j where ij: "i < length cs" "cs ! i = x" "j < length cs" "cs ! j = c"
    using assms(2,3) by (meson in_set_conv_nth)
  consider "i < j" | "i = j" | "j < i" by linarith
  then show ?thesis
  proof cases
    case 1
    then show ?thesis using assms(1) ij by (auto simp: sorted_wrt_iff_nth_less)
  next
    case 2
    then show ?thesis using ij by simp
  next
    case 3
    then have "newer_than pk c x" using assms(1) ij by (auto simp: sorted_wrt_iff_nth_less)
    then show ?thesis using assms(4,5) by (simp add: newer_than_def)
  qed
qed

section \<open>Properties\<close>


definition demo_published :: "string \<Rightarrow> string \<Rightarrow> published_contract" where
  "demo_published schema v = \<lparr>pub_schema = schema, pub_source = [], pub_version = v, pub_descriptor = [],
     pub_bundle = [], pub_bundle_digest = None, pub_methods = []\<rparr>"

definition contract_db :: db where
  "contract_db = (demo_db SvcActive)\<lparr>contracts := [\<lparr>ct_id = 4, ct_service = 7, ct_schema = ''s'', ct_source = [],
     ct_version = ''1'', ct_descriptor = [], ct_bundle = [], ct_bundle_digest = None, ct_methods = [],
     ct_status = ContractReady, ct_created = 0\<rparr>]\<rparr>"


lemma manifest_grpc:
  assumes "distinct (map fst (es_params s))" and "fst ` set (es_params s) \<inter> set metadata_fields = {}"
  shows "dfind (to_manifest s) ''grpc'' = (case es_grpc s of None \<Rightarrow> JNull | Some g \<Rightarrow> JObj (dump_grpc g))"
proof -
  have "''grpc'' \<notin> fst ` set (es_params s)" using assms(2) by (auto simp: metadata_fields_def)
  then have "map_of (map (\<lambda>(n, x). (n, JObj x)) (es_params s)) ''grpc'' = None"
    by (force simp: map_of_eq_None_iff)
  then show ?thesis
    by (simp add: to_manifest_fresh [OF assms] dfind_def dget_def dump_endpoint_def map_add_def split: option.split)
qed

lemma grpc_path_of_manifest:
  assumes "distinct (map fst (es_params s))" and "fst ` set (es_params s) \<inter> set metadata_fields = {}"
  shows "grpc_path_of (to_manifest s) = map_option method_path (es_grpc s)"
proof -
  have "dfind (dump_grpc g) ''service'' = JStr (gs_service g) \<and> dfind (dump_grpc g) ''method'' = JStr (gs_method g)" for g
    by (simp add: dump_grpc_def dfind_def dget_def)
  then show ?thesis
    by (simp add: grpc_path_of_def manifest_grpc [OF assms] method_path_def split: option.split)
qed

text \<open>The manifest of a revision the repository creates declares the current interface, and the routes
  that activation checks are exactly the gRPC methods of the request's endpoints, as long as no parameter
  of an endpoint has the name of a metadata field.\<close>

theorem created_manifest_routes:
  assumes "\<And>s. s \<in> set (if_endpoints (rr_interface q)) \<Longrightarrow>
     distinct (map fst (es_params s)) \<and> fst ` set (es_params s) \<inter> set metadata_fields = {}"
  shows "supports_current_interface (new_revision e sid q prof) \<and>
     grpc_method_paths (revision_manifest q prof) =
       Inr (map method_path (List.map_filter es_grpc (if_endpoints (rr_interface q))))"
proof -
  have "mapE (\<lambda>x. case x of JObj o1 \<Rightarrow> Inr o1 | _ \<Rightarrow> Inl PyError) (map (JObj \<circ> to_manifest) ss) = Inr (map to_manifest ss)" for ss
    by (induction ss) simp_all
  then have "endpoint_items (revision_manifest q prof) = Inr (map to_manifest (if_endpoints (rr_interface q)))"
    by (simp add: endpoint_items_def revision_manifest_def dget_def)
  moreover have "List.map_filter grpc_path_of (map to_manifest ss) = map method_path (List.map_filter es_grpc ss)"
    if "\<And>s. s \<in> set ss \<Longrightarrow> distinct (map fst (es_params s)) \<and> fst ` set (es_params s) \<inter> set metadata_fields = {}" for ss
    using that
  proof (induction ss)
    case (Cons s ss)
    then show ?case using grpc_path_of_manifest [of s] by (simp add: List.map_filter_simps split: option.split)
  qed (simp add: List.map_filter_simps)
  ultimately show ?thesis
    using assms by (simp add: grpc_method_paths_def supports_current_interface_def new_revision_def revision_manifest_def
      dfind_def dget_def)
qed

definition demo_request :: revision_request where
  "demo_request = \<lparr>rr_revision = ''r1'', rr_uri = [], rr_digest = [], rr_interface = \<lparr>if_endpoints =
     [(demo_endpoint ''days'')\<lparr>es_grpc := Some \<lparr>gs_service = ''p.S'', gs_method = ''Run'', gs_descriptor = ''d.pb'',
        gs_generated = False, gs_wrapped = False\<rparr>\<rparr>],
     if_contract = None, if_profile = ''py'', if_requires = ''>=3'', if_dependencies = []\<rparr>\<rparr>"

theorem created_manifest_routes_witness:
  "grpc_method_paths (revision_manifest demo_request None) = Inr [''/p.S/Run'']"
  using created_manifest_routes [of demo_request demo_call 7 None]
  by (simp add: demo_request_def demo_endpoint_def metadata_fields_def method_path_def List.map_filter_simps)

end
