(* ===== verification/Invocations.thy ===== *)
theory Invocations
  imports Contracts
begin

text \<open>
  \<open>repository.py\<close>, the calls: resolving a public endpoint to the revision that serves it, recording an
  invocation and its execution, finishing it with its captured output, and keeping only the newest
  finished invocations of an endpoint.
\<close>

section \<open>Resolving an endpoint\<close>

record resolved_endpoint =
  re_service :: uuid
  re_service_name :: string
  re_revision :: uuid
  re_revision_name :: string
  re_uri :: string
  re_digest :: string
  re_profile :: string
  re_manifest :: "jdict list"
  re_endpoint :: string
  re_task :: string
  re_entry :: string
  re_grpc :: json
  re_env_digest :: "string option"
  re_env :: "jdict option"
  re_pool :: "string option"
  re_version :: "uuid option"
  re_cpus :: json
  re_gpus :: json
  re_io :: "json list"
  re_pip_source :: string
  re_pip_index :: "string option"

fun as_tuple :: "json \<Rightarrow> repo_error + json list" where
  \<comment> \<open>\<open>tuple(value)\<close>\<close>
  "as_tuple (JArr xs) = Inr xs"
| "as_tuple (JStr s) = Inr (map (\<lambda>c. JStr [c]) s)"
| "as_tuple (JObj o1) = Inr (map (JStr \<circ> fst) o1)"
| "as_tuple v = Inl PyError"

definition manifest_items :: "jdict \<Rightarrow> repo_error + jdict list" where
  \<comment> \<open>\<open>[dict(item) for item in manifest["endpoints"]]\<close>, for the lists of objects that a manifest holds\<close>
  "manifest_items m =
     (case map_of m ''endpoints'' of
        Some (JArr xs) \<Rightarrow> mapE (\<lambda>x. case x of JObj o1 \<Rightarrow> Inr o1 | _ \<Rightarrow> Inl PyError) xs
      | _ \<Rightarrow> Inl PyError)"

fun item_of :: "string \<Rightarrow> jdict list \<Rightarrow> repo_error + jdict" where
  \<comment> \<open>\<open>next(item for item in items if item["id"] == name)\<close>\<close>
  "item_of name [] = Inl PyError"
| "item_of name (x # xs) =
     (case map_of x ''id'' of
        None \<Rightarrow> Inl PyError
      | Some v \<Rightarrow> if v = JStr name then Inr x else item_of name xs)"

definition resolved_endpoint ::
  "service \<Rightarrow> revision \<Rightarrow> endpoint \<Rightarrow> profile_version option \<Rightarrow> repo_error + resolved_endpoint" where
  "resolved_endpoint s r x prof =
     bindE (manifest_items (rev_manifest r)) (\<lambda>items.
     bindE (item_of (ep_name x) items) (\<lambda>spec.
     bindE (as_tuple (dget spec ''io_type'' (JArr [JStr ''rest'']))) (\<lambda>io.
       Inr \<lparr>re_service = svc_id s, re_service_name = svc_name s, re_revision = rev_id r,
            re_revision_name = rev_name r, re_uri = rev_uri r, re_digest = rev_digest r,
            re_profile = (case prof of Some p \<Rightarrow> pv_ref p | None \<Rightarrow> rev_profile r),
            re_manifest = items, re_endpoint = ep_name x, re_task = ep_task x, re_entry = ep_entry x,
            re_grpc = dfind spec ''grpc'',
            re_env_digest = (case prof of Some p \<Rightarrow> pv_digest p | None \<Rightarrow> None),
            re_env = map_option pv_env prof, re_pool = map_option pv_pool prof,
            re_version = map_option pv_id prof,
            re_cpus = dfind spec ''num_cpus'', re_gpus = dfind spec ''num_gpus'', re_io = io,
            re_pip_source = (case prof of Some p \<Rightarrow> pv_pip_source p | None \<Rightarrow> ''default''),
            re_pip_index = (case prof of Some p \<Rightarrow> pv_pip_index p | None \<Rightarrow> None)\<rparr>)))"

definition or_null :: "'a list \<Rightarrow> 'a option list" where
  \<comment> \<open>the matches of an outer join\<close>
  "or_null xs = (if xs = [] then [None] else map Some xs)"

definition profiles_of :: "uuid \<Rightarrow> db \<Rightarrow> profile_version option list" where
  \<comment> \<open>\<open>revision LEFT JOIN revision_runtime_profiles LEFT JOIN runtime_profile_versions\<close>\<close>
  "profiles_of rid d = concat (map (\<lambda>b. case b of
       None \<Rightarrow> [None]
     | Some b \<Rightarrow> or_null (filter (\<lambda>v. pv_id v = bnd_version b) (versions d)))
     (or_null (filter (\<lambda>b. bnd_rev b = rid) (bindings d))))"

definition endpoint_rows :: "db \<Rightarrow> (service \<times> revision \<times> endpoint \<times> profile_version option) list" where
  "endpoint_rows d = [(s, r, x, p). (s, r) \<leftarrow> active_rows d, x \<leftarrow> endpoints d, p \<leftarrow> profiles_of (rev_id r) d,
     ep_rev x = rev_id r]"

definition resolve_endpoint :: "string \<Rightarrow> string \<Rightarrow> db \<Rightarrow> repo_error + resolved_endpoint" where
  "resolve_endpoint name eid d =
     bindE (one_or_none (filter (\<lambda>(s, r, x, p). svc_name s = name \<and> ep_name x = eid) (endpoint_rows d))) (\<lambda>row.
       case row of
         None \<Rightarrow> Inl (NotFound MissingActiveEndpoint)
       | Some (s, r, x, p) \<Rightarrow>
           if supports_current_interface r then resolved_endpoint s r x p
           else Inl (NotFound MissingActiveEndpoint))"

definition list_active_endpoints :: "db \<Rightarrow> repo_error + resolved_endpoint list" where
  "list_active_endpoints d =
     mapE (\<lambda>(s, r, x, p). resolved_endpoint s r x p)
       (filter (\<lambda>(s, r, x, p). supports_current_interface r)
         (sort_key (\<lambda>(s, r, x, p). (svc_name s, ep_name x)) (endpoint_rows d)))"

section \<open>Retention\<close>

definition terminal :: "invocation_status \<Rightarrow> bool" where
  "terminal st = (st \<in> {InvSucceeded, InvFailed, InvCancelled, InvTimedOut})"

definition prunable :: "uuid \<Rightarrow> string \<Rightarrow> invocation \<Rightarrow> bool" where
  "prunable sid eid i = (inv_service i = sid \<and> inv_endpoint i = eid \<and> terminal (inv_status i))"

definition start_order :: "invocation \<Rightarrow> (nat \<times> time) \<times> uuid" where
  \<comment> \<open>\<open>ORDER BY started_at, id\<close>; PostgreSQL sorts a missing time as the latest\<close>
  "start_order i = (case inv_started i of None \<Rightarrow> (1, 0) | Some t \<Rightarrow> (0, t), inv_id i)"

definition stale_invocations :: "uuid \<Rightarrow> string \<Rightarrow> int \<Rightarrow> db \<Rightarrow> uuid list" where
  "stale_invocations sid eid keep d =
     map inv_id (drop (nat keep) (sort_desc start_order (filter (prunable sid eid) (invocations d))))"

definition drop_invocations :: "uuid set \<Rightarrow> db \<Rightarrow> db" where
  \<comment> \<open>\<open>DELETE FROM invocations\<close>, with the rows that \<open>ondelete="CASCADE"\<close> takes along\<close>
  "drop_invocations ids d =
     d\<lparr>invocations := filter (\<lambda>i. inv_id i \<notin> ids) (invocations d),
       executions := filter (\<lambda>x. exe_inv x \<notin> ids) (executions d),
       inv_logs := filter (\<lambda>l. il_inv l \<notin> ids) (inv_logs d)\<rparr>"

definition prune_endpoint_invocations :: "uuid \<Rightarrow> string \<Rightarrow> int \<Rightarrow> db \<Rightarrow> db" where
  "prune_endpoint_invocations sid eid keep d =
     (let stale = stale_invocations sid eid keep d
      in if stale = [] then d else drop_invocations (set stale) d)"

definition policy_at :: "uuid \<Rightarrow> string \<Rightarrow> db \<Rightarrow> policy option" where
  "policy_at sid eid d = row_get (\<lambda>p. (pol_service p, pol_endpoint p)) (sid, eid) (policies d)"

definition endpoint_invocation_retention_counts :: "uuid \<Rightarrow> string list \<Rightarrow> db \<Rightarrow> (string, int) dict" where
  "endpoint_invocation_retention_counts sid eids d =
     (if eids = [] then []
      else
        let configured = map (\<lambda>p. (pol_endpoint p, pol_count p))
              (filter (\<lambda>p. pol_service p = sid \<and> pol_endpoint p \<in> set eids) (policies d))
        in fold (\<lambda>x acc. AList.update x (case map_of configured x of None \<Rightarrow> 100 | Some n \<Rightarrow> n) acc) eids [])"

definition update_endpoint_invocation_policy :: "call \<Rightarrow> uuid \<Rightarrow> string \<Rightarrow> int \<Rightarrow> db \<Rightarrow> policy result" where
  "update_endpoint_invocation_policy e sid eid keep d =
     bindE (get_service sid d) (\<lambda>s.
       case svc_active_rev s of
         None \<Rightarrow> Inl (NotFound MissingActiveEndpoints)
       | Some rid \<Rightarrow>
           if \<not> list_ex (\<lambda>x. ep_rev x = rid \<and> ep_name x = eid) (endpoints d)
           then Inl (NotFound MissingActiveEndpoint)
           else
             let p = \<lparr>pol_service = sid, pol_endpoint = eid, pol_count = keep, pol_updated = call_now e\<rparr> in
             bindE (case policy_at sid eid d of
                      None \<Rightarrow> insert_policy p d
                    | Some _ \<Rightarrow> Inr (d\<lparr>policies := row_upd (\<lambda>p. (pol_service p, pol_endpoint p)) (sid, eid)
                        (\<lambda>p. p\<lparr>pol_count := keep, pol_updated := call_now e\<rparr>) (policies d)\<rparr>))
               (\<lambda>d1. Inr (p, prune_endpoint_invocations sid eid keep d1)))"

section \<open>Invocations\<close>

record invocation_record =
  irc_invocation :: invocation
  irc_service :: string
  irc_revision :: string
  irc_execution :: "execution option"

definition list_invocations :: "uuid option \<Rightarrow> nat \<Rightarrow> db \<Rightarrow> repo_error + invocation_record list" where
  "list_invocations sid limit d =
     bindE (case sid of None \<Rightarrow> Inr () | Some k \<Rightarrow> bindE (get_service k d) (\<lambda>_. Inr ())) (\<lambda>_.
       Inr (map (\<lambda>(i, s, r, x). \<lparr>irc_invocation = i, irc_service = svc_name s, irc_revision = rev_name r, irc_execution = x\<rparr>)
         (take limit (sort_desc (\<lambda>(i, s, r, x). inv_created i)
           [(i, s, r, x). i \<leftarrow> invocations d, s \<leftarrow> services d, r \<leftarrow> revisions d,
              x \<leftarrow> or_null (filter (\<lambda>x. exe_inv x = inv_id i) (executions d)),
              svc_id s = inv_service i \<and> rev_id r = inv_rev i \<and> (sid = None \<or> sid = Some (inv_service i))]))))"

definition inv_at :: "uuid \<Rightarrow> db \<Rightarrow> invocation option" where
  "inv_at i d = row_get inv_id i (invocations d)"

definition list_invocation_logs :: "uuid \<Rightarrow> int \<Rightarrow> nat \<Rightarrow> db \<Rightarrow> repo_error + inv_log list" where
  "list_invocation_logs iid after limit d =
     (case inv_at iid d of
        None \<Rightarrow> Inl (NotFound MissingInvocation)
      | Some _ \<Rightarrow>
          Inr (take limit (sort_key il_sequence
            (filter (\<lambda>l. il_inv l = iid \<and> after < int (il_sequence l)) (inv_logs d)))))"

definition new_invocation :: "call \<Rightarrow> resolved_endpoint \<Rightarrow> string \<Rightarrow> invocation" where
  "new_invocation e t transport =
     \<lparr>inv_id = call_ids e 0, inv_service = re_service t, inv_rev = re_revision t, inv_endpoint = re_endpoint t,
      inv_transport = Some transport, inv_status = InvRunning, inv_error = None, inv_created = call_now e,
      inv_started = Some (call_now e), inv_finished = None\<rparr>"

definition new_execution :: "call \<Rightarrow> resolved_endpoint \<Rightarrow> execution" where
  "new_execution e t =
     \<lparr>exe_inv = call_ids e 0, exe_version = re_version t, exe_ref = re_profile t, exe_digest = re_env_digest t,
      exe_artifact = re_digest t, exe_kind = (if re_task t = ''compute'' then ComputeTask else IoActor),
      exe_log_bytes = 0, exe_truncated = False, exe_created = call_now e\<rparr>"

definition begin_invocation :: "call \<Rightarrow> resolved_endpoint \<Rightarrow> string \<Rightarrow> db \<Rightarrow> invocation result" where
  "begin_invocation e t transport d =
     (let i = new_invocation e t transport in
      bindE (insert_invocation i d) (\<lambda>d1. bindE (insert_execution (new_execution e t) d1) (\<lambda>d2. Inr (i, d2))))"

record captured_logs =
  cl_chunks :: "log_chunk list"
  cl_bytes :: int
  cl_truncated :: bool

definition new_log :: "call \<Rightarrow> uuid \<Rightarrow> nat \<times> log_chunk \<Rightarrow> inv_log" where
  "new_log e iid = (\<lambda>(k, c).
     \<lparr>il_id = call_ids e k, il_inv = iid, il_sequence = chunk_sequence c, il_stream = chunk_stream c,
      il_content = chunk_content c, il_emitted = chunk_emitted c, il_created = call_now e\<rparr>)"

definition end_invocation :: "call \<Rightarrow> invocation_status \<Rightarrow> string option \<Rightarrow> invocation \<Rightarrow> invocation" where
  "end_invocation e st err i = i\<lparr>inv_status := st, inv_error := err, inv_finished := Some (call_now e)\<rparr>"

definition retention_count :: "uuid \<Rightarrow> string \<Rightarrow> db \<Rightarrow> int" where
  \<comment> \<open>\<open>retention_count or 100\<close>\<close>
  "retention_count sid eid d = (case policy_at sid eid d of None \<Rightarrow> 100 | Some p \<Rightarrow> if pol_count p = 0 then 100 else pol_count p)"

definition finish_invocation ::
  "call \<Rightarrow> uuid \<Rightarrow> invocation_status \<Rightarrow> string option \<Rightarrow> captured_logs \<Rightarrow> db \<Rightarrow> unit result" where
  "finish_invocation e iid st err logs d =
     (case inv_at iid d of
        None \<Rightarrow> Inl (NotFound MissingInvocation)
      | Some i \<Rightarrow>
          let d1 = d\<lparr>invocations := row_upd inv_id iid (end_invocation e st err) (invocations d),
                     executions := row_upd exe_inv iid
                       (\<lambda>x. x\<lparr>exe_log_bytes := cl_bytes logs, exe_truncated := cl_truncated logs\<rparr>) (executions d)\<rparr>
          in if \<not> pred_option pg_string err then Inl DataError
             else bindE (foldE insert_log (map (new_log e iid) (enumerate 0 (cl_chunks logs))) d1) (\<lambda>d2.
               Inr ((), prune_endpoint_invocations (inv_service i) (inv_endpoint i)
                 (retention_count (inv_service i) (inv_endpoint i) d2) d2)))"

section \<open>What is pruned\<close>

lemma start_order_inj: "start_order x = start_order y \<Longrightarrow> inv_id x = inv_id y"
  by (simp add: start_order_def)

lemma prunable_stale:
  "set (stale_invocations sid eid keep d) \<subseteq> inv_id ` set (filter (prunable sid eid) (invocations d))"
  by (auto simp: stale_invocations_def dest!: in_set_dropD)

lemma prune_tables [table_simps]:
  "services (prune_endpoint_invocations sid eid keep d) = services d"
  "revisions (prune_endpoint_invocations sid eid keep d) = revisions d"
  "labels (prune_endpoint_invocations sid eid keep d) = labels d"
  "versions (prune_endpoint_invocations sid eid keep d) = versions d"
  "bindings (prune_endpoint_invocations sid eid keep d) = bindings d"
  "policies (prune_endpoint_invocations sid eid keep d) = policies d"
  by (simp_all add: prune_endpoint_invocations_def drop_invocations_def Let_def)

lemma prune_as_drop:
  "prune_endpoint_invocations sid eid keep d = drop_invocations (set (stale_invocations sid eid keep d)) d"
  by (simp add: prune_endpoint_invocations_def Let_def) (simp add: drop_invocations_def)

lemma stale_unprunable:
  assumes "distinct (map inv_id (invocations d))" and "x \<in> set (invocations d)" and "\<not> prunable sid eid x"
  shows "inv_id x \<notin> set (stale_invocations sid eid keep d)"
proof
  assume "inv_id x \<in> set (stale_invocations sid eid keep d)"
  then obtain y where "y \<in> set (invocations d)" "prunable sid eid y" "inv_id y = inv_id x"
    using prunable_stale [of sid eid keep d] by force
  then show False using assms by (metis (no_types, lifting) distinct_map inj_onD)
qed

text \<open>What survives among the prunable invocations is the front of the sorted list.\<close>

lemma kept_prunable:
  assumes "distinct (map inv_id (invocations d))"
  shows "set (filter (prunable sid eid) (invocations (prune_endpoint_invocations sid eid keep d))) =
    set (take (nat keep) (sort_desc start_order (filter (prunable sid eid) (invocations d))))"
    (is "?L = set (take _ ?xs)")
proof -
  have xs: "set ?xs = set (filter (prunable sid eid) (invocations d))" by simp
  have dxs: "distinct ?xs" using assms by (simp add: distinct_map)
  have inj: "inj_on inv_id (set ?xs)" using assms by (auto simp: distinct_map inj_on_def)
  have disj: "set (take (nat keep) ?xs) \<inter> set (drop (nat keep) ?xs) = {}"
    using dxs by (rule set_take_disj_set_drop_if_distinct) simp
  have split: "set ?xs = set (take (nat keep) ?xs) \<union> set (drop (nat keep) ?xs)"
    by (metis append_take_drop_id set_append)
  have "x \<in> set (take (nat keep) ?xs) \<longleftrightarrow> x \<in> set ?xs \<and> inv_id x \<notin> inv_id ` set (drop (nat keep) ?xs)" for x
  proof
    assume x: "x \<in> set (take (nat keep) ?xs)"
    have "inv_id x \<noteq> inv_id y" if y: "y \<in> set (drop (nat keep) ?xs)" for y
    proof
      assume "inv_id x = inv_id y"
      then have "x = y" by (rule inj_onD [OF inj]) (use x y split in blast)+
      then show False using disj x y by blast
    qed
    then show "x \<in> set ?xs \<and> inv_id x \<notin> inv_id ` set (drop (nat keep) ?xs)"
      using x split by blast
  next
    assume "x \<in> set ?xs \<and> inv_id x \<notin> inv_id ` set (drop (nat keep) ?xs)"
    then show "x \<in> set (take (nat keep) ?xs)" using split by blast
  qed
  moreover have "x \<in> ?L \<longleftrightarrow> x \<in> set ?xs \<and> inv_id x \<notin> inv_id ` set (drop (nat keep) ?xs)" for x
    unfolding prune_as_drop xs by (simp add: drop_invocations_def stale_invocations_def conj_ac)
  ultimately show ?thesis by blast
qed

lemma prune_count:
  assumes "distinct (map inv_id (invocations d))"
  shows "length (filter (prunable sid eid) (invocations (prune_endpoint_invocations sid eid keep d))) =
    min (nat keep) (length (filter (prunable sid eid) (invocations d)))"
proof -
  let ?xs = "sort_desc start_order (filter (prunable sid eid) (invocations d))"
  let ?ys = "filter (prunable sid eid) (invocations (prune_endpoint_invocations sid eid keep d))"
  have "distinct (invocations d)" using assms by (simp add: distinct_map)
  then have "distinct ?ys" by (simp add: prune_as_drop drop_invocations_def)
  then have "length ?ys = card (set ?ys)" by (simp only: distinct_card)
  also have "\<dots> = card (set (take (nat keep) ?xs))" by (simp only: kept_prunable [OF assms])
  also have "\<dots> = length (take (nat keep) ?xs)"
    using \<open>distinct (invocations d)\<close> by (intro distinct_card) simp
  finally show ?thesis by simp
qed

lemma prune_newest:
  assumes "distinct (map inv_id (invocations d))"
    and "x \<in> set (invocations (prune_endpoint_invocations sid eid keep d))" and "prunable sid eid x"
    and "y \<in> set (invocations d)" and "y \<notin> set (invocations (prune_endpoint_invocations sid eid keep d))"
  shows "start_order y < start_order x"
proof -
  let ?xs = "sort_desc start_order (filter (prunable sid eid) (invocations d))"
  have y: "prunable sid eid y"
    using assms(4,5) stale_unprunable [OF assms(1,4)] by (auto simp: prune_as_drop drop_invocations_def)
  have "x \<in> set (take (nat keep) ?xs)" using kept_prunable [OF assms(1), of sid eid keep] assms(2,3) by auto
  moreover have "y \<in> set (drop (nat keep) ?xs)"
  proof -
    have "y \<in> set ?xs" using y assms(4) by simp
    moreover have "y \<notin> set (take (nat keep) ?xs)"
      using kept_prunable [OF assms(1), of sid eid keep] assms(5) by auto
    ultimately show ?thesis by (metis Un_iff append_take_drop_id set_append)
  qed
  moreover have "sorted_wrt (\<lambda>a b. start_order b \<le> start_order a) (take (nat keep) ?xs @ drop (nat keep) ?xs)"
    using sorted_sort_desc [of start_order] by (simp only: append_take_drop_id)
  ultimately have "start_order y \<le> start_order x" by (auto simp only: sorted_wrt_append)
  moreover have "start_order y \<noteq> start_order x"
  proof
    assume "start_order y = start_order x"
    then have "inv_id y = inv_id x" by (rule start_order_inj)
    moreover have "x \<in> set (invocations d)" using assms(2) by (simp add: prune_as_drop drop_invocations_def)
    ultimately have "y = x" using assms(1,4) by (metis (no_types, lifting) distinct_map inj_onD)
    then show False using assms(2,5) by simp
  qed
  ultimately show ?thesis by (rule order.not_eq_order_implies_strict [rotated])
qed

section \<open>The invariant of the invocation tables\<close>

definition invocation_inv :: "db \<Rightarrow> bool" where
  "invocation_inv d = (distinct (map inv_id (invocations d)) \<and> distinct (map exe_inv (executions d)) \<and>
     (\<forall>x \<in> set (executions d). exe_inv x \<in> inv_id ` set (invocations d)) \<and>
     (\<forall>l \<in> set (inv_logs d). il_inv l \<in> inv_id ` set (invocations d)) \<and>
     distinct (map (\<lambda>l. (il_inv l, il_sequence l)) (inv_logs d)) \<and>
     (\<forall>i \<in> set (invocations d). terminal (inv_status i) \<longrightarrow> inv_finished i \<noteq> None))"

lemma invocation_inv_same:
  "invocations d' = invocations d \<Longrightarrow> executions d' = executions d \<Longrightarrow> inv_logs d' = inv_logs d \<Longrightarrow>
   invocation_inv d' = invocation_inv d"
  by (simp add: invocation_inv_def)

lemma drop_invocations_inv: "invocation_inv d \<Longrightarrow> invocation_inv (drop_invocations ids d)"
  unfolding invocation_inv_def drop_invocations_def
  by (simp add: distinct_map_filter) (auto 0 3)

lemma prune_inv: "invocation_inv d \<Longrightarrow> invocation_inv (prune_endpoint_invocations sid eid keep d)"
  by (simp add: prune_as_drop drop_invocations_inv)

lemma begin_invocation_tables:
  assumes "begin_invocation e t tr d = Inr (i, d')"
  shows "i = new_invocation e t tr" and "invocations d' = invocations d @ [new_invocation e t tr]"
    and "executions d' = executions d @ [new_execution e t]" and "inv_logs d' = inv_logs d" and "core_same d d'"
    and "call_ids e 0 \<notin> inv_id ` set (invocations d)" and "call_ids e 0 \<notin> exe_inv ` set (executions d)"
    and "bindings d' = bindings d" and "endpoints d' = endpoints d"
  using assms by (auto simp: begin_invocation_def Let_def bindE_eq_Inr insert_defs guard_insert_eq core_same_def
    row_get_None_iff new_invocation_def new_execution_def)

lemma begin_invocation_inv:
  assumes "begin_invocation e t tr d = Inr (i, d')" and "invocation_inv d"
  shows "invocation_inv d'"
  using begin_invocation_tables [OF assms(1)] assms(2)
  by (auto simp: invocation_inv_def new_invocation_def new_execution_def terminal_def)

lemma insert_log_tables:
  "insert_log l d = Inr d' \<Longrightarrow> d' = d\<lparr>inv_logs := inv_logs d @ [l]\<rparr> \<and> il_inv l \<in> inv_id ` set (invocations d)
     \<and> (il_inv l, il_sequence l) \<notin> (\<lambda>x. (il_inv x, il_sequence x)) ` set (inv_logs d)"
  unfolding insert_log_def by (auto simp: guard_insert_eq row_get_None_iff dest: row_get_SomeD split: if_splits)

lemma insert_logs_tables:
  "foldE insert_log ls d = Inr d' \<Longrightarrow> d' = d\<lparr>inv_logs := inv_logs d @ ls\<rparr>"
proof (induction ls arbitrary: d)
  case (Cons l ls)
  then obtain d1 where "insert_log l d = Inr d1" "foldE insert_log ls d1 = Inr d'" by (auto simp: bindE_eq_Inr)
  then have "d1 = d\<lparr>inv_logs := inv_logs d @ [l]\<rparr>" "d' = d1\<lparr>inv_logs := inv_logs d1 @ ls\<rparr>"
    using insert_log_tables Cons.IH by blast+
  then show ?case by simp
qed simp

lemma insert_log_inv: "insert_log l d = Inr d' \<Longrightarrow> invocation_inv d \<Longrightarrow> invocation_inv d'"
  by (frule insert_log_tables) (auto simp: invocation_inv_def)

definition mark_finished :: "call \<Rightarrow> uuid \<Rightarrow> invocation_status \<Rightarrow> string option \<Rightarrow> captured_logs \<Rightarrow> db \<Rightarrow> db" where
  "mark_finished e iid st err logs d =
     d\<lparr>invocations := row_upd inv_id iid (end_invocation e st err) (invocations d),
       executions := row_upd exe_inv iid
         (\<lambda>x. x\<lparr>exe_log_bytes := cl_bytes logs, exe_truncated := cl_truncated logs\<rparr>) (executions d)\<rparr>"

lemma end_invocation_simps [simp]:
  "inv_id (end_invocation e st err i) = inv_id i" "inv_service (end_invocation e st err i) = inv_service i"
  "inv_endpoint (end_invocation e st err i) = inv_endpoint i" "inv_status (end_invocation e st err i) = st"
  "start_order (end_invocation e st err i) = start_order i"
  by (simp_all add: end_invocation_def start_order_def)

lemma mark_finished_tables:
  "services (mark_finished e iid st err logs d) = services d" "revisions (mark_finished e iid st err logs d) = revisions d"
  "labels (mark_finished e iid st err logs d) = labels d" "versions (mark_finished e iid st err logs d) = versions d"
  "inv_logs (mark_finished e iid st err logs d) = inv_logs d" "policies (mark_finished e iid st err logs d) = policies d"
  "map inv_id (invocations (mark_finished e iid st err logs d)) = map inv_id (invocations d)"
  "bindings (mark_finished e iid st err logs d) = bindings d"
  by (simp_all add: mark_finished_def row_upd_pk)

lemma mark_finished_at:
  "inv_at k (mark_finished e iid st err logs d) =
     (if k = iid then map_option (end_invocation e st err) (inv_at k d) else inv_at k d)"
  by (simp add: inv_at_def mark_finished_def row_get_upd)

lemma mark_finished_inv: "invocation_inv d \<Longrightarrow> invocation_inv (mark_finished e iid st err logs d)"
proof -
  assume inv: "invocation_inv d"
  have ids: "inv_id ` set (invocations (mark_finished e iid st err logs d)) = inv_id ` set (invocations d)"
    by (metis mark_finished_tables(7) set_map)
  have exe: "map exe_inv (executions (mark_finished e iid st err logs d)) = map exe_inv (executions d)"
    by (simp add: mark_finished_def row_upd_pk)
  have "exe_inv x \<in> exe_inv ` set (executions d)" if "x \<in> set (executions (mark_finished e iid st err logs d))" for x
    using that by (metis exe image_eqI set_map)
  moreover have "exe_inv ` set (executions d) \<subseteq> inv_id ` set (invocations d)"
    using inv by (auto simp: invocation_inv_def)
  ultimately have "\<forall>x \<in> set (executions (mark_finished e iid st err logs d)). exe_inv x \<in> inv_id ` set (invocations d)"
    by blast
  moreover have "terminal (inv_status i) \<longrightarrow> inv_finished i \<noteq> None"
    if "i \<in> set (invocations (mark_finished e iid st err logs d))" for i
    using that inv by (auto simp: mark_finished_def set_row_upd invocation_inv_def end_invocation_def)
  ultimately show ?thesis
    using inv by (simp add: invocation_inv_def ids exe mark_finished_tables)
qed

lemma finish_invocation_parts:
  assumes "finish_invocation e iid st err logs d = Inr (u, d')"
  obtains i d2 where "inv_at iid d = Some i"
    and "d2 = (mark_finished e iid st err logs d)\<lparr>inv_logs := inv_logs d @ map (new_log e iid) (enumerate 0 (cl_chunks logs))\<rparr>"
    and "foldE insert_log (map (new_log e iid) (enumerate 0 (cl_chunks logs))) (mark_finished e iid st err logs d) = Inr d2"
    and "d' = prune_endpoint_invocations (inv_service i) (inv_endpoint i) (retention_count (inv_service i) (inv_endpoint i) d) d2"
proof -
  obtain i where i: "inv_at iid d = Some i"
    using assms by (auto simp: finish_invocation_def split: option.splits)
  obtain d2 where d2: "foldE insert_log (map (new_log e iid) (enumerate 0 (cl_chunks logs))) (mark_finished e iid st err logs d) = Inr d2"
    "d' = prune_endpoint_invocations (inv_service i) (inv_endpoint i) (retention_count (inv_service i) (inv_endpoint i) d2) d2"
    using assms i by (auto simp: finish_invocation_def Let_def bindE_eq_Inr mark_finished_def split: if_splits)
  note t = insert_logs_tables [OF d2(1), unfolded mark_finished_tables]
  then have "retention_count sid eid d2 = retention_count sid eid d" for sid eid
    by (simp add: retention_count_def policy_at_def mark_finished_tables)
  then show thesis using that [OF i t d2(1)] d2(2) by simp
qed

lemma finish_invocation_core: "finish_invocation e iid st err logs d = Inr (u, d') \<Longrightarrow> core_same d d'"
  by (erule finish_invocation_parts) (simp add: core_same_def table_simps mark_finished_tables)

lemma finish_invocation_inv:
  assumes "finish_invocation e iid st err logs d = Inr (u, d')" and "invocation_inv d"
  shows "invocation_inv d'"
proof -
  obtain i d2 where "inv_at iid d = Some i"
    and "d2 = (mark_finished e iid st err logs d)\<lparr>inv_logs := inv_logs d @ map (new_log e iid) (enumerate 0 (cl_chunks logs))\<rparr>"
    and f: "foldE insert_log (map (new_log e iid) (enumerate 0 (cl_chunks logs))) (mark_finished e iid st err logs d) = Inr d2"
    and d': "d' = prune_endpoint_invocations (inv_service i) (inv_endpoint i) (retention_count (inv_service i) (inv_endpoint i) d) d2"
    by (rule finish_invocation_parts [OF assms(1)])
  have "invocation_inv d2"
    by (rule foldE_invariant [OF f]) (use mark_finished_inv [OF assms(2)] insert_log_inv in auto)
  then show ?thesis by (simp add: d' prune_inv)
qed

section \<open>Properties\<close>

lemma inv_at_distinct:
  "distinct (map inv_id (invocations d)) \<Longrightarrow> inv_at k d = Some i \<longleftrightarrow> i \<in> set (invocations d) \<and> inv_id i = k"
  by (simp add: inv_at_def row_get_unique)

lemma prune_distinct:
  "distinct (map inv_id (invocations d)) \<Longrightarrow> distinct (map inv_id (invocations (prune_endpoint_invocations sid eid keep d)))"
  by (simp add: prune_as_drop drop_invocations_def distinct_map_filter)

text \<open>Pruning an endpoint keeps exactly the newest finished invocations, up to the retention count, and
  touches neither running ones nor those of other endpoints; executions and logs go with their invocation.\<close>

theorem prune_keeps_newest:
  assumes "invocation_inv d" and "d' = prune_endpoint_invocations sid eid keep d"
  shows "length (filter (prunable sid eid) (invocations d')) = min (nat keep) (length (filter (prunable sid eid) (invocations d))) \<and>
    (\<forall>x \<in> set (invocations d'). \<forall>y \<in> set (invocations d) - set (invocations d').
       prunable sid eid y \<and> (prunable sid eid x \<longrightarrow> start_order y < start_order x)) \<and>
    set (executions d') = {x \<in> set (executions d). exe_inv x \<in> inv_id ` set (invocations d')} \<and>
    set (inv_logs d') = {l \<in> set (inv_logs d). il_inv l \<in> inv_id ` set (invocations d')}"
proof -
  have dist: "distinct (map inv_id (invocations d))" using assms(1) by (simp add: invocation_inv_def)
  have gone: "prunable sid eid y" if "y \<in> set (invocations d)" "y \<notin> set (invocations d')" for y
    using that stale_unprunable [OF dist that(1)] by (auto simp: assms(2) prune_as_drop drop_invocations_def)
  let ?stale = "set (stale_invocations sid eid keep d)"
  have keep_iff: "k \<in> inv_id ` set (invocations d') \<longleftrightarrow> k \<in> inv_id ` set (invocations d) \<and> k \<notin> ?stale" for k
    by (auto simp: assms(2) prune_as_drop drop_invocations_def)
  have "set (executions d') = {x \<in> set (executions d). exe_inv x \<in> inv_id ` set (invocations d')}"
    unfolding keep_iff using assms(1) by (auto simp: assms(2) prune_as_drop drop_invocations_def invocation_inv_def)
  moreover have "set (inv_logs d') = {l \<in> set (inv_logs d). il_inv l \<in> inv_id ` set (invocations d')}"
    unfolding keep_iff using assms(1) by (auto simp: assms(2) prune_as_drop drop_invocations_def invocation_inv_def)
  ultimately show ?thesis
    using prune_count [OF dist] prune_newest [OF dist] gone by (simp add: assms(2))
qed

definition demo_invocation :: "uuid \<Rightarrow> invocation_status \<Rightarrow> time \<Rightarrow> invocation" where
  "demo_invocation k st t = \<lparr>inv_id = k, inv_service = 7, inv_rev = 2, inv_endpoint = ''f'', inv_transport = Some ''rest'',
     inv_status = st, inv_error = None, inv_created = t, inv_started = Some t, inv_finished = (if st = InvRunning then None else Some t)\<rparr>"

definition busy_db :: db where
  \<comment> \<open>three finished invocations and a running one\<close>
  "busy_db = (demo_db SvcActive)\<lparr>invocations := [demo_invocation 20 InvSucceeded 2, demo_invocation 21 InvFailed 4,
     demo_invocation 22 InvRunning 0, demo_invocation 23 InvSucceeded 3]\<rparr>"

lemma busy_db_inv: "invocation_inv busy_db"
  by (simp add: invocation_inv_def busy_db_def demo_db_def empty_db_def demo_invocation_def terminal_def)

theorem prune_keeps_newest_witness:
  "map inv_id (invocations (prune_endpoint_invocations 7 ''f'' 2 busy_db)) = [21, 22, 23] \<and>
   length (filter (prunable 7 ''f'') (invocations (prune_endpoint_invocations 7 ''f'' 2 busy_db))) = 2"
proof
  show "map inv_id (invocations (prune_endpoint_invocations 7 ''f'' 2 busy_db)) = [21, 22, 23]"
    by (simp add: prune_endpoint_invocations_def stale_invocations_def busy_db_def demo_invocation_def prunable_def
      terminal_def sort_desc_def start_order_def drop_invocations_def Let_def)
  have "length (filter (prunable 7 ''f'') (invocations busy_db)) = 3"
    by (simp add: busy_db_def demo_invocation_def prunable_def terminal_def)
  then show "length (filter (prunable 7 ''f'') (invocations (prune_endpoint_invocations 7 ''f'' 2 busy_db))) = 2"
    using prune_keeps_newest [OF busy_db_inv refl, of 7 "''f''" 2] by simp
qed

lemma inv_at_drop: "inv_at k (drop_invocations ids d) = (if k \<in> ids then None else inv_at k d)"
proof -
  have "row_get inv_id k (filter (\<lambda>i. inv_id i \<notin> ids) xs) = (if k \<in> ids then None else row_get inv_id k xs)"
    for xs :: "invocation list"
    by (induction xs) (auto simp: row_get_Cons)
  then show ?thesis by (simp add: inv_at_def drop_invocations_def)
qed

lemma inv_at_prune:
  "inv_at k (prune_endpoint_invocations sid eid keep d) =
     (if k \<in> set (stale_invocations sid eid keep d) then None else inv_at k d)"
  by (simp add: prune_as_drop inv_at_drop)

lemma stale_at:
  assumes "distinct (map inv_id (invocations d))" and "k \<in> set (stale_invocations sid eid keep d)"
  shows "\<exists>x. inv_at k d = Some x \<and> prunable sid eid x"
    and "nat keep \<le> length (filter (prunable sid eid) (invocations d))"
proof -
  show "\<exists>x. inv_at k d = Some x \<and> prunable sid eid x"
    using assms prunable_stale [of sid eid keep d] by (force simp: inv_at_distinct)
  show "nat keep \<le> length (filter (prunable sid eid) (invocations d))"
    using assms(2) by (auto simp: stale_invocations_def intro: ccontr)
qed

lemma logs_drop:
  "iid \<notin> ids \<Longrightarrow> filter (\<lambda>l. il_inv l = iid) (inv_logs (drop_invocations ids d)) = filter (\<lambda>l. il_inv l = iid) (inv_logs d)"
  by (auto simp: drop_invocations_def intro!: filter_cong)

lemma finish_effect:
  assumes "invocation_inv d" and "finish_invocation e iid st err logs d = Inr (u, d')"
  shows "\<exists>i. inv_at iid d = Some i \<and>
    (let n = nat (retention_count (inv_service i) (inv_endpoint i) d); p = prunable (inv_service i) (inv_endpoint i)
     in length (filter p (invocations d')) \<le> n \<and>
        (\<forall>k x. k \<noteq> iid \<and> inv_at k d = Some x \<and> \<not> p x \<longrightarrow> inv_at k d' = Some x) \<and>
        (case inv_at iid d' of
           Some x \<Rightarrow> x = end_invocation e st err i \<and>
             filter (\<lambda>l. il_inv l = iid) (inv_logs d') =
               filter (\<lambda>l. il_inv l = iid) (inv_logs d) @ map (new_log e iid) (enumerate 0 (cl_chunks logs))
         | None \<Rightarrow> terminal st \<and> length (filter p (invocations d')) = n \<and>
             (\<forall>x \<in> set (invocations d'). p x \<longrightarrow> start_order i < start_order x)))"
proof -
  obtain i d2 where i: "inv_at iid d = Some i"
    and d2: "d2 = (mark_finished e iid st err logs d)\<lparr>inv_logs := inv_logs d @ map (new_log e iid) (enumerate 0 (cl_chunks logs))\<rparr>"
    and f: "foldE insert_log (map (new_log e iid) (enumerate 0 (cl_chunks logs))) (mark_finished e iid st err logs d) = Inr d2"
    and d': "d' = prune_endpoint_invocations (inv_service i) (inv_endpoint i) (retention_count (inv_service i) (inv_endpoint i) d) d2"
    by (rule finish_invocation_parts [OF assms(2)])
  let ?s = "inv_service i" and ?e = "inv_endpoint i"
  let ?n = "retention_count ?s ?e d" and ?p = "prunable ?s ?e"
  have at2: "inv_at k d2 = (if k = iid then Some (end_invocation e st err i) else inv_at k d)" for k
    using mark_finished_at [of k e iid st err logs d] i by (simp add: d2 inv_at_def)
  have dist: "distinct (map inv_id (invocations d2))"
    using assms(1) by (simp add: d2 mark_finished_tables invocation_inv_def)
  have "length (filter ?p (invocations d')) \<le> nat ?n"
    unfolding d' prune_count [OF dist] by simp
  moreover have "inv_at k d' = Some x" if "k \<noteq> iid" "inv_at k d = Some x" "\<not> ?p x" for k x
    using that stale_at(1) [OF dist, of k ?s ?e ?n] at2 [of k] by (auto simp: d' inv_at_prune)
  moreover have "case inv_at iid d' of
      Some x \<Rightarrow> x = end_invocation e st err i \<and>
             filter (\<lambda>l. il_inv l = iid) (inv_logs d') =
               filter (\<lambda>l. il_inv l = iid) (inv_logs d) @ map (new_log e iid) (enumerate 0 (cl_chunks logs))
    | None \<Rightarrow> terminal st \<and> length (filter ?p (invocations d')) = nat ?n \<and>
             (\<forall>x \<in> set (invocations d'). ?p x \<longrightarrow> start_order i < start_order x)"
  proof (cases "iid \<in> set (stale_invocations ?s ?e ?n d2)")
    case True
    have y: "end_invocation e st err i \<in> set (invocations d2)" using at2 [of iid] dist by (simp add: inv_at_distinct)
    have none: "inv_at iid d' = None" using True by (simp add: d' inv_at_prune)
    have "end_invocation e st err i \<notin> set (invocations d')"
    proof
      assume "end_invocation e st err i \<in> set (invocations d')"
      moreover have "distinct (map inv_id (invocations d'))" unfolding d' by (rule prune_distinct [OF dist])
      moreover have "inv_id i = iid" using i by (auto simp: inv_at_def dest: row_get_SomeD)
      ultimately show False using none by (metis inv_at_distinct end_invocation_simps(1) option.distinct(1))
    qed
    then have "\<forall>x \<in> set (invocations d'). ?p x \<longrightarrow> start_order i < start_order x"
      using prune_newest [OF dist _ _ y, of _ ?s ?e ?n] unfolding d' by simp
    moreover have "length (filter ?p (invocations d')) = nat ?n"
      unfolding d' prune_count [OF dist] using stale_at(2) [OF dist True] by simp
    moreover have "terminal st"
      using stale_at(1) [OF dist True] at2 [of iid] by (auto simp: prunable_def)
    ultimately show ?thesis using none by simp
  next
    case False
    have "il_inv l = iid" if "l \<in> set (map (new_log e iid) (enumerate 0 (cl_chunks logs)))" for l
      using that by (auto simp: new_log_def)
    then have "filter (\<lambda>l. il_inv l = iid) (map (new_log e iid) (enumerate 0 (cl_chunks logs))) =
      map (new_log e iid) (enumerate 0 (cl_chunks logs))" by (intro filter_True ballI)
    then have "filter (\<lambda>l. il_inv l = iid) (inv_logs d2) =
        filter (\<lambda>l. il_inv l = iid) (inv_logs d) @ map (new_log e iid) (enumerate 0 (cl_chunks logs))"
      by (simp add: d2)
    moreover have "filter (\<lambda>l. il_inv l = iid) (inv_logs d') = filter (\<lambda>l. il_inv l = iid) (inv_logs d2)"
      unfolding d' prune_as_drop by (rule logs_drop [OF False])
    moreover have "inv_at iid d' = Some (end_invocation e st err i)"
      using False at2 [of iid] by (simp add: d' inv_at_prune)
    ultimately show ?thesis by simp
  qed
  ultimately show ?thesis using i by (simp add: Let_def)
qed


lemma invocations_inv_logs: "invocations (d\<lparr>inv_logs := ls\<rparr>) = invocations d"
  by simp

definition no_logs :: captured_logs where
  "no_logs = \<lparr>cl_chunks = [], cl_bytes = 0, cl_truncated = False\<rparr>"


lemma insert_logs_result:
  assumes "\<And>l. l \<in> set ls \<Longrightarrow> il_inv l \<in> inv_id ` set (invocations d) \<and> il_id l \<notin> il_id ` set (inv_logs d) \<and>
      (il_inv l, il_sequence l) \<notin> (\<lambda>x. (il_inv x, il_sequence x)) ` set (inv_logs d)"
    and "distinct (map il_id ls)" and "distinct (map (\<lambda>x. (il_inv x, il_sequence x)) ls)"
  shows "foldE insert_log ls d =
    (if list_all (\<lambda>l. pg_text (il_content l)) ls then Inr (d\<lparr>inv_logs := inv_logs d @ ls\<rparr>) else Inl DataError)"
  using assms
proof (induction ls arbitrary: d)
  case (Cons l ls)
  let ?d = "d\<lparr>inv_logs := inv_logs d @ [l]\<rparr>"
  have "insert_log l d = (if pg_text (il_content l) then Inr ?d else Inl DataError)"
    using Cons.prems(1) [of l] by (simp add: insert_log_def guard_insert_def row_get_None_iff)
  moreover have "foldE insert_log ls ?d =
    (if list_all (\<lambda>l. pg_text (il_content l)) ls then Inr (?d\<lparr>inv_logs := inv_logs ?d @ ls\<rparr>) else Inl DataError)"
  proof (rule Cons.IH)
    fix x assume x: "x \<in> set ls"
    then have "il_id x \<in> il_id ` set ls"
      "(il_inv x, il_sequence x) \<in> (\<lambda>x. (il_inv x, il_sequence x)) ` set ls" by blast+
    then have "il_id x \<noteq> il_id l" "(il_inv x, il_sequence x) \<noteq> (il_inv l, il_sequence l)"
      using Cons.prems(2,3) by (simp_all only: distinct.simps(2) list.map(2) set_map) (metis)+
    then show "il_inv x \<in> inv_id ` set (invocations ?d) \<and> il_id x \<notin> il_id ` set (inv_logs ?d) \<and>
        (il_inv x, il_sequence x) \<notin> (\<lambda>x. (il_inv x, il_sequence x)) ` set (inv_logs ?d)"
      using Cons.prems(1) [of x] x by simp
  qed (use Cons.prems in auto)
  ultimately show ?case by (cases "pg_text (il_content l)") simp_all
qed simp

lemma new_log_keys: "il_id (new_log e iid (n, c)) = call_ids e n" "il_inv (new_log e iid (n, c)) = iid"
  "il_sequence (new_log e iid (n, c)) = chunk_sequence c"
  by (simp_all add: new_log_def)

lemma new_logs_ids: "map il_id (map (new_log e iid) (enumerate n cs)) = map (call_ids e) [n..<n + length cs]"
proof (induction cs arbitrary: n)
  case (Cons c cs)
  have "[n..<n + length (c # cs)] = n # [Suc n..<Suc n + length cs]"
    by (metis add_Suc add_Suc_right length_Cons less_Suc_eq_le le_add1 upt_conv_Cons)
  then show ?case using Cons.IH [of "Suc n"] by (simp add: new_log_keys)
qed simp

lemma new_logs_keys:
  "map (\<lambda>x. (il_inv x, il_sequence x)) (map (new_log e iid) (enumerate n cs)) = map (\<lambda>n. (iid, n)) (map chunk_sequence cs)"
  by (induction cs arbitrary: n) (simp_all add: new_log_keys)

lemma new_logs_text:
  "list_all (\<lambda>l. pg_text (il_content l)) (map (new_log e iid) (enumerate n cs)) = list_all (\<lambda>x. pg_text (chunk_content x)) cs"
  by (induction cs arbitrary: n) (simp_all add: new_log_def)

lemma finish_captured:
  assumes "inv_at iid d = Some i" and "\<And>l. l \<in> set (inv_logs d) \<Longrightarrow> il_inv l \<noteq> iid"
    and "map chunk_sequence (cl_chunks logs) = [0..<length (cl_chunks logs)]"
    and "inj (call_ids e)" and "\<And>n. call_ids e n \<notin> il_id ` set (inv_logs d)" and "pred_option pg_string err"
  shows "foldE insert_log (map (new_log e iid) (enumerate 0 (cl_chunks logs))) (mark_finished e iid st err logs d) =
    (if list_all (\<lambda>x. pg_text (chunk_content x)) (cl_chunks logs)
     then Inr ((mark_finished e iid st err logs d)\<lparr>inv_logs := inv_logs d @ map (new_log e iid) (enumerate 0 (cl_chunks logs))\<rparr>)
     else Inl DataError)"
proof -
  let ?ls = "map (new_log e iid) (enumerate 0 (cl_chunks logs))"
  let ?d = "mark_finished e iid st err logs d"
  have ids: "map il_id ?ls = map (call_ids e) [0..<length (cl_chunks logs)]"
    using new_logs_ids [of e iid 0] by simp
  have "map (\<lambda>x. (il_inv x, il_sequence x)) ?ls = map (\<lambda>n. (iid, n)) (map chunk_sequence (cl_chunks logs))"
    by (rule new_logs_keys)
  then have keys: "distinct (map (\<lambda>x. (il_inv x, il_sequence x)) ?ls)"
    unfolding assms(3) by (simp only: distinct_map distinct_upt) (simp add: inj_on_def)
  have dist: "distinct (map il_id ?ls)"
    unfolding ids using assms(4) by (simp only: distinct_map distinct_upt) (auto simp: inj_on_def)
  have here: "iid \<in> inv_id ` set (invocations ?d)"
    using row_get_SomeD [OF assms(1) [unfolded inv_at_def]] mark_finished_tables(7) [of e iid st err logs d]
    by (metis image_eqI set_map)
  have fresh: "il_inv l \<in> inv_id ` set (invocations ?d) \<and> il_id l \<notin> il_id ` set (inv_logs ?d) \<and>
      (il_inv l, il_sequence l) \<notin> (\<lambda>x. (il_inv x, il_sequence x)) ` set (inv_logs ?d)" if l: "l \<in> set ?ls" for l
  proof -
    have "il_inv l = iid" using l by (auto simp: new_log_def)
    moreover obtain n where "il_id l = call_ids e n" using l by (auto simp: new_log_def)
    moreover have "il_id l \<notin> il_id ` set (inv_logs ?d)" using calculation(2) assms(5) by (simp add: mark_finished_tables)
    moreover have "(il_inv l, il_sequence l) \<notin> (\<lambda>x. (il_inv x, il_sequence x)) ` set (inv_logs ?d)"
      using calculation(1) assms(2) unfolding mark_finished_tables by (metis (no_types, lifting) imageE prod.inject)
    ultimately show ?thesis using here by blast
  qed
  show ?thesis
    using insert_logs_result [OF fresh dist keys] by (simp only: new_logs_text mark_finished_tables)
qed

lemma finish_sequenced:
  assumes "inv_at iid d = Some i" and "\<And>l. l \<in> set (inv_logs d) \<Longrightarrow> il_inv l \<noteq> iid"
    and "map chunk_sequence (cl_chunks logs) = [0..<length (cl_chunks logs)]"
    and "inj (call_ids e)" and "\<And>n. call_ids e n \<notin> il_id ` set (inv_logs d)"
  shows "if list_all (\<lambda>x. pg_text (chunk_content x)) (cl_chunks logs) \<and> pred_option pg_string err
    then \<exists>d'. finish_invocation e iid st err logs d = Inr ((), d')
    else finish_invocation e iid st err logs d = Inl DataError"
proof (cases "pred_option pg_string err")
  case True
  from finish_captured [OF assms(1-5) True, of st] show ?thesis
    using assms(1) True by (auto simp: finish_invocation_def mark_finished_def Let_def)
next
  case False
  then show ?thesis using assms(1) by (simp add: finish_invocation_def Let_def)
qed

text \<open>The output an actor captured can be stored exactly when no script wrote a NUL character or a lone
  surrogate that reached it, and the error text has no NUL either: then finishing an invocation that exists
  and has no logs yet succeeds; otherwise the database refuses the text, the call raises and nothing of the
  transaction, not even the new status, is kept.\<close>

theorem captured_output_is_storable:
  assumes "inv_at iid d = Some i" and "\<And>l. l \<in> set (inv_logs d) \<Longrightarrow> il_inv l \<noteq> iid"
    and "snapshot now c = ((cl_chunks logs, cl_bytes logs, cl_truncated logs), c')"
    and "inj (call_ids e)" and "\<And>n. call_ids e n \<notin> il_id ` set (inv_logs d)"
  shows "if list_all (\<lambda>x. pg_text (chunk_content x)) (cl_chunks logs) \<and> pred_option pg_string err
    then \<exists>d'. finish_invocation e iid st err logs d = Inr ((), d')
    else finish_invocation e iid st err logs d = Inl DataError"
  by (rule finish_sequenced [OF assms(1,2) snapshot_chunks(1) [OF assms(3)] assms(4,5)])

theorem captured_output_is_storable_witness:
  "\<exists>logs d'. map chunk_content (cl_chunks logs) = [[104]] \<and> finish_invocation demo_call 22 InvSucceeded None logs busy_db = Inr ((), d')"
proof -
  let ?c = "(new_capture 10 10 True)\<lparr>cap_chunks := [(STDOUT, [104], 1)]\<rparr>"
  obtain chunks n tr c' where s: "snapshot 2 ?c = ((chunks, n, tr), c')" by (metis prod_cases4 surj_pair)
  have "map chunk_content chunks = [[104]]"
    using s by (auto simp: snapshot_def flush_pending_def new_capture_def Let_def)
  moreover from this have "list_all (\<lambda>x. pg_text (chunk_content x)) chunks"
    by (cases chunks) (auto simp: pg_text_def surrogate_def)
  moreover have "if list_all (\<lambda>x. pg_text (chunk_content x)) (cl_chunks \<lparr>cl_chunks = chunks, cl_bytes = n, cl_truncated = tr\<rparr>) \<and> pred_option pg_string None
    then \<exists>d'. finish_invocation demo_call 22 InvSucceeded None \<lparr>cl_chunks = chunks, cl_bytes = n, cl_truncated = tr\<rparr> busy_db = Inr ((), d')
    else finish_invocation demo_call 22 InvSucceeded None \<lparr>cl_chunks = chunks, cl_bytes = n, cl_truncated = tr\<rparr> busy_db = Inl DataError"
    by (rule captured_output_is_storable [of _ _ "demo_invocation 22 InvRunning 0" 2 ?c _ c'])
      (use s in \<open>simp_all add: inv_at_def busy_db_def row_get_Cons demo_invocation_def demo_db_def empty_db_def demo_call_def inj_def\<close>)
  ultimately show ?thesis by (intro exI [of _ "\<lparr>cl_chunks = chunks, cl_bytes = n, cl_truncated = tr\<rparr>"]) simp
qed

section \<open>What is resolved\<close>

lemma active_rows_iff:
  "(s, r) \<in> set (active_rows d) \<longleftrightarrow> s \<in> set (services d) \<and> r \<in> set (revisions d) \<and>
     svc_active_rev s = Some (rev_id r) \<and> svc_status s = SvcActive \<and> rev_status r = RevActive"
  by (auto simp: active_rows_def)

lemma endpoint_rows_iff:
  "(s, r, x, p) \<in> set (endpoint_rows d) \<longleftrightarrow> (s, r) \<in> set (active_rows d) \<and> x \<in> set (endpoints d) \<and>
     ep_rev x = rev_id r \<and> p \<in> set (profiles_of (rev_id r) d)"
  by (auto simp: endpoint_rows_def)

lemma or_null_neq [simp]: "or_null xs \<noteq> []"
  by (simp add: or_null_def)

lemma profiles_of_neq: "profiles_of rid d \<noteq> []"
proof -
  have "\<exists>b. b \<in> set (or_null (filter (\<lambda>b. bnd_rev b = rid) (bindings d)))" by (meson list.set_sel(1) or_null_neq)
  then show ?thesis by (force simp: profiles_of_def concat_eq_Nil_conv split: option.splits)
qed

lemma profiles_of_SomeD:
  "Some v \<in> set (profiles_of rid d) \<Longrightarrow> v \<in> set (versions d) \<and> (\<exists>b \<in> set (bindings d). bnd_rev b = rid \<and> bnd_version b = pv_id v)"
  by (fastforce simp: profiles_of_def or_null_def split: if_splits option.splits)

lemma resolved_endpoint_fields:
  assumes "resolved_endpoint s r x p = Inr t"
  shows "re_service t = svc_id s \<and> re_service_name t = svc_name s \<and> re_revision t = rev_id r \<and> re_uri t = rev_uri r \<and>
    re_digest t = rev_digest r \<and> re_endpoint t = ep_name x \<and> re_entry t = ep_entry x \<and> re_task t = ep_task x \<and>
    re_version t = map_option pv_id p \<and> re_env_digest t = (case p of Some v \<Rightarrow> pv_digest v | None \<Rightarrow> None)"
  using assms by (auto simp: resolved_endpoint_def bindE_eq_Inr)

lemma mapE_fails: "x \<in> set xs \<Longrightarrow> f x = Inl e \<Longrightarrow> \<exists>e'. mapE f xs = Inl e'"
proof (induction xs)
  case (Cons a xs)
  then show ?case by (cases "f a"; cases "mapE f xs") auto
qed simp

lemma manifest_items_of_revision:
  "manifest_items (revision_manifest q prof) = Inr (map to_manifest (if_endpoints (rr_interface q)))"
proof -
  have "mapE (\<lambda>x. case x of JObj o1 \<Rightarrow> Inr o1 | _ \<Rightarrow> Inl PyError) (map (JObj \<circ> to_manifest) ss) = Inr (map to_manifest ss)" for ss
    by (induction ss) simp_all
  then show ?thesis by (simp add: manifest_items_def revision_manifest_def)
qed

lemma to_manifest_id:
  assumes "distinct (map fst (es_params s))"
  shows "\<exists>v. map_of (to_manifest s) ''id'' = Some v \<and>
     (''id'' \<in> fst ` set (es_params s) \<longrightarrow> v \<noteq> JStr n) \<and> (''id'' \<notin> fst ` set (es_params s) \<longrightarrow> v = JStr (es_id s))"
proof -
  have k: "map_of (map (\<lambda>(n, s). (n, JObj s)) xs) k = map_option JObj (map_of xs k)" for xs :: "(string \<times> jdict) list" and k
    by (induction xs) auto
  have d: "distinct (map fst (map (\<lambda>(n, s). (n, JObj s)) (es_params s)))"
    using assms by (simp add: case_prod_beta' comp_def)
  have i: "map_of (dump_endpoint s) ''id'' = Some (JStr (es_id s))"
    by (simp add: dump_endpoint_def)
  show ?thesis
    unfolding to_manifest_def map_of_dict_merge [OF d] k i
    by (auto simp: map_of_eq_None_iff split: option.split) (metis map_of_eq_None_iff fst_conv imageI option.distinct(1))
qed

text \<open>A call resolves to the revision that serves: a resolved endpoint is declared by the active revision
  of the active service of that name, carries that revision's artifact, and runs in the environment of
  the profile version bound to it.\<close>

theorem resolve_endpoint_active:
  assumes "resolve_endpoint name eid d = Inr t"
  shows "\<exists>s r x. s \<in> set (services d) \<and> svc_name s = name \<and> svc_status s = SvcActive \<and>
    svc_active_rev s = Some (rev_id r) \<and> r \<in> set (revisions d) \<and> rev_status r = RevActive \<and>
    supports_current_interface r \<and> x \<in> set (endpoints d) \<and> ep_rev x = rev_id r \<and> ep_name x = eid \<and>
    re_service t = svc_id s \<and> re_revision t = rev_id r \<and> re_uri t = rev_uri r \<and> re_digest t = rev_digest r \<and>
    re_entry t = ep_entry x \<and> re_endpoint t = eid \<and>
    (case re_version t of None \<Rightarrow> re_env_digest t = None
     | Some k \<Rightarrow> \<exists>v \<in> set (versions d). pv_id v = k \<and> re_env_digest t = pv_digest v \<and>
         (\<exists>b \<in> set (bindings d). bnd_rev b = rev_id r \<and> bnd_version b = k))"
proof -
  let ?rows = "filter (\<lambda>(s, r, x, p). svc_name s = name \<and> ep_name x = eid) (endpoint_rows d)"
  obtain row where o: "one_or_none ?rows = Inr row"
    and k: "(case row of None \<Rightarrow> Inl (NotFound MissingActiveEndpoint) | Some (s, r, x, p) \<Rightarrow>
       if supports_current_interface r then resolved_endpoint s r x p else Inl (NotFound MissingActiveEndpoint)) = Inr t"
    using assms unfolding resolve_endpoint_def bindE_eq_Inr by blast
  then obtain s r x p where "row = Some (s, r, x, p)" by (cases row) auto
  with o k have row: "?rows = [(s, r, x, p)]"
    and sup: "supports_current_interface r" and t: "resolved_endpoint s r x p = Inr t"
    by (auto simp: one_or_none_eq split: if_splits)
  have "(s, r, x, p) \<in> set (filter (\<lambda>(s, r, x, p). svc_name s = name \<and> ep_name x = eid) (endpoint_rows d))"
    unfolding row by simp
  then have m: "(s, r, x, p) \<in> set (endpoint_rows d)" "svc_name s = name" "ep_name x = eid" by auto
  then have a: "(s, r) \<in> set (active_rows d)" "x \<in> set (endpoints d)" "ep_rev x = rev_id r" "p \<in> set (profiles_of (rev_id r) d)"
    by (simp_all add: endpoint_rows_iff)
  note f = resolved_endpoint_fields [OF t]
  have "case re_version t of None \<Rightarrow> re_env_digest t = None
     | Some k \<Rightarrow> \<exists>v \<in> set (versions d). pv_id v = k \<and> re_env_digest t = pv_digest v \<and>
         (\<exists>b \<in> set (bindings d). bnd_rev b = rev_id r \<and> bnd_version b = k)"
    using f profiles_of_SomeD [of _ "rev_id r" d] a(4) by (cases p) auto
  then show ?thesis using a(1-3) m(2,3) sup f by (auto simp: active_rows_iff)
qed

definition one_endpoint :: "string \<Rightarrow> revision_request" where
  "one_endpoint p = demo_request\<lparr>rr_interface := (rr_interface demo_request)\<lparr>if_endpoints := [demo_endpoint p]\<rparr>\<rparr>"

definition served_db :: "string \<Rightarrow> db" where
  \<comment> \<open>an active service with one endpoint, whose function has one parameter of the given name\<close>
  "served_db p = (demo_db SvcActive)\<lparr>
     revisions := [(demo_revision 2 7 RevActive [])\<lparr>rev_manifest := revision_manifest (one_endpoint p) None\<rparr>],
     endpoints := [\<lparr>ep_id = 5, ep_rev = 2, ep_name = ''run'', ep_task = ''compute'', ep_entry = ''app.main:run'',
       ep_request = [], ep_response = []\<rparr>]\<rparr>"

lemma served_endpoints: "if_endpoints (rr_interface (one_endpoint p)) = [demo_endpoint p]"
  by (simp add: one_endpoint_def)

lemma served_rows:
  "endpoint_rows (served_db p) =
     [(demo_service 7 SvcActive (Some 2),
       (demo_revision 2 7 RevActive [])\<lparr>rev_manifest := revision_manifest (one_endpoint p) None\<rparr>,
       \<lparr>ep_id = 5, ep_rev = 2, ep_name = ''run'', ep_task = ''compute'', ep_entry = ''app.main:run'',
       ep_request = [], ep_response = []\<rparr>, None)]"
  by (simp add: endpoint_rows_def served_db_def active_rows_def demo_db_def empty_db_def demo_service_def demo_revision_def
    profiles_of_def or_null_def)

lemma served_supported:
  "supports_current_interface ((demo_revision 2 7 RevActive [])\<lparr>rev_manifest := revision_manifest (one_endpoint p) None\<rparr>)"
  by (simp add: supports_current_interface_def revision_manifest_def dfind_def dget_def)

theorem resolve_endpoint_active_witness:
  "\<exists>t. resolve_endpoint (svc_name (demo_service 7 SvcActive (Some 2))) ''run'' (served_db ''days'') = Inr t \<and>
     re_entry t = ''app.main:run'' \<and> re_revision t = 2"
proof -
  let ?d = "served_db ''days''" and ?n = "svc_name (demo_service 7 SvcActive (Some 2))"
  have i: "map_of (to_manifest (demo_endpoint ''days'')) ''id'' = Some (JStr ''run'')"
    and io: "dget (to_manifest (demo_endpoint ''days'')) ''io_type'' (JArr [JStr ''rest'']) = JArr [JStr ''rest'']"
    by (simp_all add: to_manifest_def dict_merge_def demo_endpoint_def dump_endpoint_def dget_def)
  have "\<exists>t. resolved_endpoint (demo_service 7 SvcActive (Some 2))
       ((demo_revision 2 7 RevActive [])\<lparr>rev_manifest := revision_manifest (one_endpoint ''days'') None\<rparr>)
       \<lparr>ep_id = 5, ep_rev = 2, ep_name = ''run'', ep_task = ''compute'', ep_entry = ''app.main:run'',
       ep_request = [], ep_response = []\<rparr> None = Inr t"
    by (simp add: resolved_endpoint_def manifest_items_of_revision served_endpoints i io)
  then obtain t where t: "resolve_endpoint ?n ''run'' ?d = Inr t"
    using served_supported [of "''days''"] by (auto simp: resolve_endpoint_def served_rows one_or_none_def)
  show ?thesis
    using resolve_endpoint_active [OF t] t by (auto simp: served_db_def demo_revision_def)
qed

text \<open>One revision can break the listing of every service's endpoints: when an endpoint of an active
  revision has a parameter called \<open>id\<close>, its manifest entry has lost its name, and
  \<open>list_active_endpoints\<close> raises, whatever else is active.\<close>

theorem parameter_named_id_breaks_listing:
  assumes "(s, r) \<in> set (active_rows d)" and "rev_manifest r = revision_manifest q prof"
    and "x \<in> set (endpoints d)" and "ep_rev x = rev_id r"
    and "\<And>s. s \<in> set (if_endpoints (rr_interface q)) \<Longrightarrow> distinct (map fst (es_params s))"
    and "\<And>s. s \<in> set (if_endpoints (rr_interface q)) \<Longrightarrow> es_id s = ep_name x \<Longrightarrow> ''id'' \<in> fst ` set (es_params s)"
    and "supports_current_interface r"
  shows "\<exists>err. list_active_endpoints d = Inl err"
proof -
  obtain p where p: "p \<in> set (profiles_of (rev_id r) d)" by (meson list.set_sel(1) profiles_of_neq)
  have "item_of (ep_name x) (map to_manifest ss) = Inl PyError"
    if "\<And>s. s \<in> set ss \<Longrightarrow> s \<in> set (if_endpoints (rr_interface q))" for ss
    using that
  proof (induction ss)
    case (Cons a ss)
    then have a: "a \<in> set (if_endpoints (rr_interface q))" by simp
    obtain v where "map_of (to_manifest a) ''id'' = Some v" "v \<noteq> JStr (ep_name x)"
      using to_manifest_id [OF assms(5) [OF a], of "ep_name x"] assms(6) [OF a] by (metis json.inject(4))
    with Cons show ?case by simp
  qed simp
  then have "resolved_endpoint s r x p = Inl PyError"
    by (simp add: resolved_endpoint_def assms(2) manifest_items_of_revision)
  moreover have "(s, r, x, p) \<in> set (endpoint_rows d)" using assms(1,3,4) p by (simp add: endpoint_rows_iff)
  ultimately show ?thesis
    unfolding list_active_endpoints_def using assms(7) by (intro mapE_fails [of "(s, r, x, p)"]) auto
qed

theorem parameter_named_id_breaks_listing_witness:
  "(\<exists>err. list_active_endpoints (served_db ''id'') = Inl err) \<and> endpoint_rows (served_db ''id'') \<noteq> []"
proof -
  let ?s = "demo_service 7 SvcActive (Some 2)"
    and ?r = "(demo_revision 2 7 RevActive [])\<lparr>rev_manifest := revision_manifest (one_endpoint ''id'') None\<rparr>"
    and ?x = "\<lparr>ep_id = 5, ep_rev = 2, ep_name = ''run'', ep_task = ''compute'', ep_entry = ''app.main:run'',
       ep_request = [], ep_response = []\<rparr>"
  have "(?s, ?r, ?x, None) \<in> set (endpoint_rows (served_db ''id''))" by (simp add: served_rows)
  then have a: "(?s, ?r) \<in> set (active_rows (served_db ''id''))" "?x \<in> set (endpoints (served_db ''id''))"
    by (simp_all only: endpoint_rows_iff)
  have "\<exists>err. list_active_endpoints (served_db ''id'') = Inl err"
    by (rule parameter_named_id_breaks_listing [OF a(1) _ a(2) _ _ _ served_supported])
      (auto simp: demo_revision_def served_endpoints demo_endpoint_def)
  then show ?thesis by (simp add: served_rows)
qed

end
