(* ===== verification/Sizing.thy ===== *)
theory Sizing
  imports Admission "HOL-Library.Multiset"
begin

text \<open>
  \<open>runtime/directory.py\<close>, the arithmetic of the IO actor pools: recent traffic of a profile, how many
  actors it deserves, in which order they are offered a request, which node a compute task prefers, and
  the management snapshot. The times and rates, floats in Python, are exact rationals here.
\<close>

section \<open>Settings and traffic\<close>

record pool_settings =
  s_max_per_profile :: int
  s_max_io :: int
  s_target_io :: int
  s_hot_rate :: rat
  s_rate_window :: rat
  s_warm_spares :: int
  s_ewma_alpha :: rat
  s_lease_ttl :: rat
  s_queue_timeout :: rat
  s_poll :: rat
  s_hot_idle :: rat
  s_warm_idle :: rat
  s_compute_pending :: int
  s_warm_nodes :: int

definition settings_ok :: "pool_settings \<Rightarrow> bool" where
  \<comment> \<open>the bounds of the fields of \<open>Settings\<close>\<close>
  "settings_ok cfg = (1 \<le> s_max_per_profile cfg \<and> 1 \<le> s_max_io cfg \<and> 1 \<le> s_target_io cfg \<and> 0 < s_hot_rate cfg \<and>
     0 < s_rate_window cfg \<and> 0 \<le> s_warm_spares cfg \<and> 0 < s_ewma_alpha cfg \<and> s_ewma_alpha cfg \<le> 1 \<and>
     0 < s_lease_ttl cfg \<and> 0 < s_queue_timeout cfg \<and> 0 < s_poll cfg \<and> 0 < s_hot_idle cfg \<and> 0 < s_warm_idle cfg \<and>
     1 \<le> s_compute_pending cfg \<and> 1 \<le> s_warm_nodes cfg)"

datatype scheduler_error = TargetAboveMaximum | WarmShorterThanHot

definition check_settings :: "pool_settings \<Rightarrow> scheduler_error + unit" where
  \<comment> \<open>what \<open>ProfilePoolScheduler.__init__\<close> refuses\<close>
  "check_settings cfg =
     (if s_target_io cfg > s_max_io cfg then Inl TargetAboveMaximum
      else if s_warm_idle cfg < s_hot_idle cfg then Inl WarmShorterThanHot else Inr ())"

record traffic =
  tr_arrivals :: "time list"
  tr_last :: "time option"
  tr_ewma :: rat

definition fresh_traffic :: traffic where
  "fresh_traffic = \<lparr>tr_arrivals = [], tr_last = None, tr_ewma = 1\<rparr>"

type_synonym traffic_table = "(string, traffic) dict"

definition traffic_at :: "string \<Rightarrow> traffic_table \<Rightarrow> traffic" where
  \<comment> \<open>the entry that \<open>_profile_traffic.setdefault(key, ProfileTraffic())\<close> returns\<close>
  "traffic_at k t = (case map_of t k of None \<Rightarrow> fresh_traffic | Some x \<Rightarrow> x)"

definition trim_arrivals :: "pool_settings \<Rightarrow> time \<Rightarrow> traffic \<Rightarrow> traffic" where
  "trim_arrivals cfg now x = x\<lparr>tr_arrivals := dropWhile (\<lambda>t. t \<le> now - s_rate_window cfg) (tr_arrivals x)\<rparr>"

definition record_arrival :: "pool_settings \<Rightarrow> string \<Rightarrow> time \<Rightarrow> traffic_table \<Rightarrow> traffic_table" where
  "record_arrival cfg k now t =
     (let x = traffic_at k t
      in AList.update k (trim_arrivals cfg now (x\<lparr>tr_arrivals := tr_arrivals x @ [now], tr_last := Some now\<rparr>)) t)"

definition record_duration :: "pool_settings \<Rightarrow> string \<Rightarrow> rat \<Rightarrow> traffic_table \<Rightarrow> traffic_table" where
  "record_duration cfg k seconds t =
     (let x = traffic_at k t; a = s_ewma_alpha cfg
      in AList.update k (x\<lparr>tr_ewma := a * max (1 / 1000) seconds + (1 - a) * tr_ewma x\<rparr>) t)"

definition request_rate :: "pool_settings \<Rightarrow> string \<Rightarrow> time \<Rightarrow> traffic_table \<Rightarrow> rat \<times> traffic_table" where
  "request_rate cfg k now t =
     (let x = trim_arrivals cfg now (traffic_at k t)
      in (of_nat (length (tr_arrivals x)) / s_rate_window cfg, AList.update k x t))"

definition profile_is_cold :: "string \<Rightarrow> time \<Rightarrow> time \<Rightarrow> traffic_table \<Rightarrow> bool" where
  "profile_is_cold k timeout now t =
     (case map_of t k of None \<Rightarrow> True
      | Some x \<Rightarrow> (case tr_last x of None \<Rightarrow> True | Some l \<Rightarrow> timeout \<le> now - l))"

section \<open>Candidates\<close>

record candidate =
  cd_replica :: nat
  cd_handle :: nat
  cd_status :: actor_status

definition hot_actors :: "pool_settings \<Rightarrow> int \<Rightarrow> rat \<Rightarrow> rat \<Rightarrow> int" where
  "hot_actors cfg demand rate ewma =
     max 1 \<lceil>of_int (max demand \<lceil>rate * ewma\<rceil>) / (of_int (s_target_io cfg) :: rat)\<rceil>"

definition desired_actor_count ::
  "pool_settings \<Rightarrow> string \<Rightarrow> candidate list \<Rightarrow> int \<Rightarrow> time \<Rightarrow> traffic_table \<Rightarrow> int \<times> traffic_table" where
  "desired_actor_count cfg k cands pending now t =
     (let active = sum_list (map (\<lambda>c. st_active_io (cd_status c)) (filter (\<lambda>c. st_state (cd_status c) \<noteq> DRAINING) cands));
          (rate, t1) = request_rate cfg k now t;
          hot = hot_actors cfg (active + pending) rate (tr_ewma (traffic_at k t1));
          is_hot = (s_hot_rate cfg \<le> rate \<or> 1 < hot)
      in (min (hot + (if is_hot then s_warm_spares cfg else 0)) (s_max_per_profile cfg), t1))"

definition eligible :: "candidate \<Rightarrow> bool" where
  "eligible c = (st_state (cd_status c) \<in> {SHARED_IO, IDLE})"

definition offer_rank :: "int option \<Rightarrow> candidate \<Rightarrow> int \<times> int \<times> int" where
  "offer_rank target c =
     (let st = st_state (cd_status c); n = st_active_io (cd_status c); r = int (cd_replica c)
      in if st = SHARED_IO \<and> (case target of None \<Rightarrow> True | Some x \<Rightarrow> n < x) then (0, - n, r)
         else if st = IDLE then (1, 0, r) else (2, n, r))"

definition order_candidates :: "candidate list \<Rightarrow> int option \<Rightarrow> candidate list" where
  "order_candidates cands target = sort_key (offer_rank target) (filter eligible cands)"

section \<open>Warm compute nodes\<close>

record warm_nodes =
  wn_nodes :: "(string, string list) dict"
  wn_cursor :: "(string, nat) dict"

definition next_compute_warm_node :: "string \<Rightarrow> warm_nodes \<Rightarrow> string option \<times> warm_nodes" where
  "next_compute_warm_node k w =
     (case map_of (wn_nodes w) k of
        None \<Rightarrow> (None, w)
      | Some [] \<Rightarrow> (None, w)
      | Some ns \<Rightarrow>
          let cur = (case map_of (wn_cursor w) k of None \<Rightarrow> 0 | Some n \<Rightarrow> n)
          in (Some (ns ! (cur mod length ns)), w\<lparr>wn_cursor := AList.update k (Suc cur) (wn_cursor w)\<rparr>))"

definition keep_last :: "int \<Rightarrow> 'a list \<Rightarrow> 'a list" where
  \<comment> \<open>\<open>del xs[:-n]\<close>: for \<open>n = 0\<close> the slice is empty, for a negative \<open>n\<close> it is \<open>xs[:-n]\<close>\<close>
  "keep_last n xs = (if 0 < n then drop (length xs - nat n) xs else if n = 0 then xs else drop (nat (- n)) xs)"

definition remember_compute_warm_node :: "pool_settings \<Rightarrow> string \<Rightarrow> string \<Rightarrow> warm_nodes \<Rightarrow> warm_nodes" where
  "remember_compute_warm_node cfg k node w =
     (if node = [] then w
      else
        let ns = (case map_of (wn_nodes w) k of None \<Rightarrow> [] | Some ns \<Rightarrow> ns)
        in if node \<in> set ns then w\<lparr>wn_nodes := AList.update k ns (wn_nodes w)\<rparr>
           else w\<lparr>wn_nodes := AList.update k (keep_last (s_warm_nodes cfg) (ns @ [node])) (wn_nodes w)\<rparr>)"

definition forget_warm_nodes :: "string \<Rightarrow> warm_nodes \<Rightarrow> warm_nodes" where
  "forget_warm_nodes k w = w\<lparr>wn_nodes := AList.delete k (wn_nodes w), wn_cursor := AList.delete k (wn_cursor w)\<rparr>"

section \<open>The management snapshot\<close>

datatype temperature = COLD | WARM | HOT

datatype tier = TierWarm | TierDraining | TierHot

datatype shown_state = Shown actor_state | CREATING

record actor_line =
  al_replica :: nat
  al_tier :: tier
  al_state :: shown_state
  al_active :: int
  al_max :: int
  al_reserved :: int
  al_running :: int
  al_idle :: rat

record pool_snapshot =
  ps_key :: string
  ps_temperature :: temperature
  ps_desired :: int
  ps_total :: nat
  ps_ready :: nat
  ps_creating :: nat
  ps_hot :: nat
  ps_warm :: nat
  ps_draining :: nat
  ps_active_io :: int
  ps_reserved :: int
  ps_running :: int
  ps_rate :: rat
  ps_duration :: rat
  ps_last_ago :: "rat option"
  ps_target_capacity :: int
  ps_max_capacity :: int
  ps_actors :: "actor_line list"

definition actor_line_of :: "candidate \<Rightarrow> actor_line" where
  "actor_line_of c =
     (let s = cd_status c in
      \<lparr>al_replica = cd_replica c,
       al_tier = (if st_state s = IDLE then TierWarm else if st_state s = DRAINING then TierDraining else TierHot),
       al_state = Shown (st_state s), al_active = st_active_io s, al_max = st_max_io s,
       al_reserved = st_reserved_leases s, al_running = st_running_leases s, al_idle = st_idle_for_seconds s\<rparr>)"

definition creating_line :: "pool_settings \<Rightarrow> nat \<Rightarrow> actor_line" where
  "creating_line cfg r = \<lparr>al_replica = r, al_tier = TierWarm, al_state = CREATING, al_active = 0, al_max = s_max_io cfg,
     al_reserved = 0, al_running = 0, al_idle = 0\<rparr>"

definition total_of :: "(actor_status \<Rightarrow> int) \<Rightarrow> candidate list \<Rightarrow> int" where
  "total_of f cands = sum_list (map (f \<circ> cd_status) cands)"

definition count_state :: "actor_state set \<Rightarrow> candidate list \<Rightarrow> nat" where
  "count_state sts cands = length (filter (\<lambda>c. st_state (cd_status c) \<in> sts) cands)"

definition profile_snapshot ::
  "pool_settings \<Rightarrow> string \<Rightarrow> candidate list \<Rightarrow> nat list \<Rightarrow> time \<Rightarrow> traffic_table \<Rightarrow> pool_snapshot \<times> traffic_table" where
  "profile_snapshot cfg k cands creating now t =
     (let cr = sort creating;
          (rate, t1) = request_rate cfg k now t;
          x = traffic_at k t1;
          ago = map_option (\<lambda>l. max 0 (now - l)) (tr_last x);
          (want, t2) = desired_actor_count cfg k cands 0 now t1;
          total = length cands + length cr;
          cold = (total = 0 \<and> (case ago of None \<Rightarrow> True | Some a \<Rightarrow> s_warm_idle cfg \<le> a));
          temp = (if cold then COLD
                  else if 0 < count_state {SHARED_IO, SATURATED_IO} cands \<or> s_hot_rate cfg \<le> rate \<or> 1 < want then HOT
                  else WARM)
      in (\<lparr>ps_key = k, ps_temperature = temp, ps_desired = (if cold then 0 else want), ps_total = total,
           ps_ready = length cands, ps_creating = length cr,
           ps_hot = count_state {SHARED_IO, SATURATED_IO} cands, ps_warm = count_state {IDLE} cands,
           ps_draining = count_state {DRAINING} cands, ps_active_io = total_of st_active_io cands,
           ps_reserved = total_of st_reserved_leases cands, ps_running = total_of st_running_leases cands,
           ps_rate = rate, ps_duration = tr_ewma x, ps_last_ago = ago,
           ps_target_capacity = int (length cands) * s_target_io cfg, ps_max_capacity = int (length cands) * s_max_io cfg,
           ps_actors = map actor_line_of (sort_key cd_replica cands) @ map (creating_line cfg) cr\<rparr>, t2))"

section \<open>How many actors\<close>

lemma hot_actors_enough:
  assumes "1 \<le> s_target_io cfg"
  shows "1 \<le> hot_actors cfg demand rate ewma" and "demand \<le> hot_actors cfg demand rate ewma * s_target_io cfg"
    and "rate * ewma \<le> of_int (hot_actors cfg demand rate ewma * s_target_io cfg)"
proof -
  let ?m = "max demand \<lceil>rate * ewma\<rceil>"
  have "(of_int ?m :: rat) / of_int (s_target_io cfg) \<le> of_int \<lceil>of_int ?m / (of_int (s_target_io cfg) :: rat)\<rceil>"
    by (rule le_of_int_ceiling)
  also have "\<dots> \<le> of_int (hot_actors cfg demand rate ewma)" by (simp add: hot_actors_def)
  finally have "(of_int ?m :: rat) \<le> of_int (hot_actors cfg demand rate ewma) * of_int (s_target_io cfg)"
    using assms by (simp add: pos_divide_le_eq)
  then have m: "?m \<le> hot_actors cfg demand rate ewma * s_target_io cfg"
    by (simp only: of_int_le_iff flip: of_int_mult)
  then show "demand \<le> hot_actors cfg demand rate ewma * s_target_io cfg" by simp
  have "rate * ewma \<le> of_int \<lceil>rate * ewma\<rceil>" by (rule le_of_int_ceiling)
  also have "\<dots> \<le> of_int (hot_actors cfg demand rate ewma * s_target_io cfg)"
    using m by (simp only: of_int_le_iff)
  finally show "rate * ewma \<le> of_int (hot_actors cfg demand rate ewma * s_target_io cfg)" .
  show "1 \<le> hot_actors cfg demand rate ewma" by (simp add: hot_actors_def)
qed

lemma hot_actors_one:
  assumes "1 \<le> s_target_io cfg" and "demand \<le> s_target_io cfg" and "rate * ewma \<le> of_int (s_target_io cfg)"
  shows "hot_actors cfg demand rate ewma = 1"
proof -
  have "max demand \<lceil>rate * ewma\<rceil> \<le> s_target_io cfg" using assms(2,3) by (simp add: ceiling_le_iff)
  then have "(of_int (max demand \<lceil>rate * ewma\<rceil>) :: rat) \<le> of_int (s_target_io cfg)" by (simp only: of_int_le_iff)
  then have "(of_int (max demand \<lceil>rate * ewma\<rceil>) :: rat) / of_int (s_target_io cfg) \<le> 1"
    using assms(1) by (simp add: divide_le_eq_1)
  then have "\<lceil>(of_int (max demand \<lceil>rate * ewma\<rceil>) :: rat) / of_int (s_target_io cfg)\<rceil> \<le> 1"
    by (simp add: ceiling_le_iff)
  then show ?thesis unfolding hot_actors_def by linarith
qed

definition busy_io :: "candidate list \<Rightarrow> int" where
  "busy_io cands = sum_list (map (\<lambda>c. st_active_io (cd_status c)) (filter (\<lambda>c. st_state (cd_status c) \<noteq> DRAINING) cands))"

lemma desired_eq:
  "fst (desired_actor_count cfg k cands pending now t) =
     (let rate = fst (request_rate cfg k now t); ewma = tr_ewma (traffic_at k (snd (request_rate cfg k now t)));
          hot = hot_actors cfg (busy_io cands + pending) rate ewma
      in min (hot + (if s_hot_rate cfg \<le> rate \<or> 1 < hot then s_warm_spares cfg else 0)) (s_max_per_profile cfg))"
  by (simp add: desired_actor_count_def Let_def busy_io_def split: prod.split)

lemma request_rate_ewma: "tr_ewma (traffic_at k (snd (request_rate cfg k now t))) = tr_ewma (traffic_at k t)"
  by (simp add: request_rate_def Let_def traffic_at_def dict_simps trim_arrivals_def)

section \<open>Traffic\<close>

lemma dropWhile_sorted: "sorted xs \<Longrightarrow> dropWhile (\<lambda>t. t \<le> c) xs = filter (\<lambda>t. c < t) (xs :: time list)"
proof (induction xs)
  case (Cons x xs)
  show ?case
  proof (cases "x \<le> c")
    case False
    then have "\<forall>t \<in> set xs. c < t" using Cons.prems by force
    then show ?thesis using False by (simp add: filter_True)
  qed (use Cons in simp)
qed simp

lemma arrivals_window:
  assumes "sorted ts" and "ts \<noteq> []"
  shows "tr_arrivals (traffic_at k (fold (record_arrival cfg k) ts [])) = filter (\<lambda>t. last ts - s_rate_window cfg < t) ts"
  using assms
proof (induction ts rule: rev_induct)
  case (snoc t ts)
  let ?x = "traffic_at k (fold (record_arrival cfg k) ts [])"
  let ?W = "s_rate_window cfg"
  have st: "sorted ts" "\<forall>u \<in> set ts. u \<le> t" using snoc.prems by (auto simp: sorted_append)
  have step: "tr_arrivals (traffic_at k (fold (record_arrival cfg k) (ts @ [t]) [])) =
      dropWhile (\<lambda>u. u \<le> t - ?W) (tr_arrivals ?x @ [t])"
    by (simp add: record_arrival_def Let_def traffic_at_def dict_simps trim_arrivals_def)
  show ?case
  proof (cases "ts = []")
    case True
    then have "tr_arrivals ?x = []" by (simp add: traffic_at_def fresh_traffic_def)
    then show ?thesis using step True by auto
  next
    case False
    then have IH: "tr_arrivals ?x = filter (\<lambda>u. last ts - ?W < u) ts" using snoc.IH st(1) by blast
    have "last ts \<le> t" using st(2) False by simp
    have "sorted (tr_arrivals ?x @ [t])" using st by (auto simp: IH sorted_append sorted_wrt_filter)
    then have "dropWhile (\<lambda>u. u \<le> t - ?W) (tr_arrivals ?x @ [t]) = filter (\<lambda>u. t - ?W < u) (tr_arrivals ?x @ [t])"
      by (rule dropWhile_sorted)
    also have "\<dots> = filter (\<lambda>u. t - ?W < u) (ts @ [t])"
      using \<open>last ts \<le> t\<close> by (auto simp: IH intro!: filter_cong)
    finally show ?thesis using step by simp
  qed
qed simp

section \<open>Warm nodes\<close>

definition warm_inv :: "pool_settings \<Rightarrow> warm_nodes \<Rightarrow> bool" where
  "warm_inv cfg w = (\<forall>k ns. map_of (wn_nodes w) k = Some ns \<longrightarrow>
     ns \<noteq> [] \<and> distinct ns \<and> int (length ns) \<le> s_warm_nodes cfg \<and> [] \<notin> set ns)"

lemma keep_last_length: "0 < n \<Longrightarrow> length (keep_last n xs) = min (nat n) (length xs)"
  by (simp add: keep_last_def)

lemma remember_inv:
  assumes "warm_inv cfg w" and "1 \<le> s_warm_nodes cfg"
  shows "warm_inv cfg (remember_compute_warm_node cfg k node w)"
proof -
  define ns where "ns = (case map_of (wn_nodes w) k of None \<Rightarrow> [] | Some ns \<Rightarrow> ns)"
  let ?l = "keep_last (s_warm_nodes cfg) (ns @ [node])"
  have ns: "distinct ns \<and> [] \<notin> set ns \<and> int (length ns) \<le> s_warm_nodes cfg"
  proof (cases "map_of (wn_nodes w) k")
    case None
    then show ?thesis using assms(2) by (simp add: ns_def)
  next
    case (Some ms)
    then show ?thesis using assms(1) [unfolded warm_inv_def, rule_format, OF Some] by (simp add: ns_def)
  qed
  have "length ?l = min (nat (s_warm_nodes cfg)) (Suc (length ns))"
    using keep_last_length [of "s_warm_nodes cfg" "ns @ [node]"] assms(2) by simp
  then have "1 \<le> length ?l" "int (length ?l) \<le> s_warm_nodes cfg" using assms(2) by linarith+
  then have l: "?l \<noteq> []" "int (length ?l) \<le> s_warm_nodes cfg" by (auto simp only: list.size(3))
  have d: "distinct ?l \<and> [] \<notin> set ?l" if "node \<notin> set ns" "node \<noteq> []"
  proof -
    have "distinct (ns @ [node])" "[] \<notin> set (ns @ [node])" using that ns by auto
    then have "distinct (drop n (ns @ [node])) \<and> [] \<notin> set (drop n (ns @ [node]))" for n
      by (metis distinct_drop in_set_dropD)
    moreover have "?l = drop (length (ns @ [node]) - nat (s_warm_nodes cfg)) (ns @ [node])"
      using assms(2) by (simp only: keep_last_def) simp
    ultimately show ?thesis by metis
  qed
  show ?thesis
    unfolding warm_inv_def
  proof (intro allI impI)
    fix k' ms
    assume m: "map_of (wn_nodes (remember_compute_warm_node cfg k node w)) k' = Some ms"
    show "ms \<noteq> [] \<and> distinct ms \<and> int (length ms) \<le> s_warm_nodes cfg \<and> [] \<notin> set ms"
    proof (cases "node = [] \<or> k' \<noteq> k")
      case True
      then have "map_of (wn_nodes w) k' = Some ms"
        using m by (auto simp: remember_compute_warm_node_def Let_def dict_get_update split: if_splits)
      then show ?thesis using assms(1) unfolding warm_inv_def by blast
    next
      case False
      then have "ms = (if node \<in> set ns then ns else ?l)"
        using m False unfolding remember_compute_warm_node_def Let_def ns_def [symmetric]
        by (cases "node \<in> set ns") (simp_all add: dict_get_update)
      moreover have "ns \<noteq> []" if "node \<in> set ns" using that by (metis empty_iff list.set(1))
      ultimately show ?thesis using False ns l d by presburger
    qed
  qed
qed

definition next_nodes :: "nat \<Rightarrow> string \<Rightarrow> warm_nodes \<Rightarrow> string option list" where
  \<comment> \<open>what \<open>n\<close> calls in a row return\<close>
  "next_nodes n k w = map (\<lambda>i. fst (next_compute_warm_node k (((\<lambda>w. snd (next_compute_warm_node k w)) ^^ i) w))) [0..<n]"

lemma next_cursor:
  assumes "map_of (wn_nodes w) k = Some ns" and "ns \<noteq> []"
  defines "c \<equiv> (case map_of (wn_cursor w) k of None \<Rightarrow> 0 | Some n \<Rightarrow> n)"
  shows "fst (next_compute_warm_node k (((\<lambda>w. snd (next_compute_warm_node k w)) ^^ i) w)) = Some (ns ! ((c + i) mod length ns))"
proof -
  let ?w = "((\<lambda>w. snd (next_compute_warm_node k w)) ^^ i) w"
  have "wn_nodes ?w = wn_nodes w \<and> (case map_of (wn_cursor ?w) k of None \<Rightarrow> 0 | Some n \<Rightarrow> n) = c + i"
  proof (induction i)
    case (Suc i)
    let ?v = "((\<lambda>w. snd (next_compute_warm_node k w)) ^^ i) w"
    have v: "map_of (wn_nodes ?v) k = Some ns" using Suc assms(1) by simp
    have "next_compute_warm_node k ?v =
        (Some (ns ! ((c + i) mod length ns)), ?v\<lparr>wn_cursor := AList.update k (Suc (c + i)) (wn_cursor ?v)\<rparr>)"
      using v assms(2) Suc by (simp add: next_compute_warm_node_def Let_def split: list.split)
    then show ?case using Suc by (simp add: dict_simps)
  qed (simp add: c_def)
  then show ?thesis
    using assms(1,2) by (simp add: next_compute_warm_node_def Let_def split: list.split)
qed

section \<open>Properties\<close>

text \<open>C32. The number of actors a profile deserves lies between one and the maximum; unless it is the maximum,
  that many actors carry the requests in progress and pending, and the predicted load, at the target
  concurrency; and one actor is enough for a cool profile whose load fits it.\<close>

theorem desired_actor_bounds:
  assumes "settings_ok cfg"
  shows "let n = fst (desired_actor_count cfg k cands pending now t);
      load = fst (request_rate cfg k now t) * tr_ewma (traffic_at k t) in
    1 \<le> n \<and> n \<le> s_max_per_profile cfg \<and>
    (n < s_max_per_profile cfg \<longrightarrow>
       busy_io cands + pending \<le> n * s_target_io cfg \<and> load \<le> of_int (n * s_target_io cfg)) \<and>
    (busy_io cands + pending \<le> s_target_io cfg \<and> load \<le> of_int (s_target_io cfg) \<and>
       fst (request_rate cfg k now t) < s_hot_rate cfg \<longrightarrow> n = 1)"
proof -
  define n where "n = fst (desired_actor_count cfg k cands pending now t)"
  define load where "load = fst (request_rate cfg k now t) * tr_ewma (traffic_at k t)"
  let ?rate = "fst (request_rate cfg k now t)" and ?ewma = "tr_ewma (traffic_at k t)"
  let ?hot = "hot_actors cfg (busy_io cands + pending) ?rate ?ewma"
  let ?extra = "if s_hot_rate cfg \<le> ?rate \<or> 1 < ?hot then s_warm_spares cfg else 0"
  have ok: "1 \<le> s_target_io cfg" "0 \<le> ?extra" "1 \<le> s_max_per_profile cfg" using assms(1) by (auto simp: settings_ok_def)
  have n: "n = min (?hot + ?extra) (s_max_per_profile cfg)"
    unfolding n_def desired_eq by (simp add: Let_def request_rate_ewma)
  note enough = hot_actors_enough [OF ok(1), where demand = "busy_io cands + pending" and rate = ?rate and ewma = ?ewma]
  have more: "?hot * s_target_io cfg \<le> n * s_target_io cfg" if "n < s_max_per_profile cfg"
    using that n ok by (intro mult_right_mono) auto
  have "load \<le> of_int (n * s_target_io cfg)" if "n < s_max_per_profile cfg"
  proof -
    have "(of_int (?hot * s_target_io cfg) :: rat) \<le> of_int (n * s_target_io cfg)"
      using more [OF that] by (simp only: of_int_le_iff)
    then show ?thesis using enough(3) unfolding load_def by (rule order_trans [rotated])
  qed
  moreover have "busy_io cands + pending \<le> n * s_target_io cfg" if "n < s_max_per_profile cfg"
    using enough(2) more [OF that] by linarith
  moreover have "n = 1" if "busy_io cands + pending \<le> s_target_io cfg" "load \<le> of_int (s_target_io cfg)" "?rate < s_hot_rate cfg"
    using hot_actors_one [OF ok(1) that(1), of ?rate ?ewma] that(2,3) ok(3) n unfolding load_def by auto
  moreover have "1 \<le> n \<and> n \<le> s_max_per_profile cfg" using n enough(1) ok by auto
  ultimately show ?thesis unfolding Let_def n_def [symmetric] load_def [symmetric] by blast
qed

definition demo_settings :: pool_settings where
  "demo_settings = \<lparr>s_max_per_profile = 8, s_max_io = 100, s_target_io = 50, s_hot_rate = 1 / 2, s_rate_window = 10,
     s_warm_spares = 1, s_ewma_alpha = 1 / 5, s_lease_ttl = 15, s_queue_timeout = 30, s_poll = 1 / 20, s_hot_idle = 300,
     s_warm_idle = 1800, s_compute_pending = 64, s_warm_nodes = 8\<rparr>"

definition demo_candidate :: "nat \<Rightarrow> actor_state \<Rightarrow> int \<Rightarrow> candidate" where
  "demo_candidate r st n = \<lparr>cd_replica = r, cd_handle = r, cd_status = \<lparr>st_state = st, st_active_io = n, st_max_io = 100,
     st_reserved_leases = 0, st_running_leases = n, st_idle_for_seconds = 0\<rparr>\<rparr>"

theorem desired_actor_bounds_witness:
  "settings_ok demo_settings \<and>
   fst (desired_actor_count demo_settings ''p'' [demo_candidate 0 SHARED_IO 70, demo_candidate 3 DRAINING 40] 31 7 []) = 4"
proof
  show ok: "settings_ok demo_settings" by (simp add: settings_ok_def demo_settings_def)
  let ?n = "fst (desired_actor_count demo_settings ''p'' [demo_candidate 0 SHARED_IO 70, demo_candidate 3 DRAINING 40] 31 7 [])"
  have "busy_io [demo_candidate 0 SHARED_IO 70, demo_candidate 3 DRAINING 40] = 70"
    by (simp add: busy_io_def demo_candidate_def)
  moreover have h: "fst (request_rate demo_settings ''p'' 7 []) = 0"
    by (simp add: request_rate_def Let_def traffic_at_def fresh_traffic_def trim_arrivals_def)
  ultimately have "?n = 4"
    unfolding desired_eq Let_def by (simp add: hot_actors_def demo_settings_def ceiling_unique)
  then show "?n = 4"
    using desired_actor_bounds [OF ok, of "''p''" "[demo_candidate 0 SHARED_IO 70, demo_candidate 3 DRAINING 40]" 31 7 "[]"]
    by (simp add: Let_def)
qed

lemma order_head:
  assumes "order_candidates cands target = c # cs" and "x \<in> set cands" and "eligible x"
  shows "c \<in> set cands" and "eligible c" and "offer_rank target c \<le> offer_rank target x"
proof -
  have s: "set (c # cs) = set (filter eligible cands)"
    unfolding assms(1) [symmetric] order_candidates_def by simp
  then have "c \<in> set (filter eligible cands)" by (metis list.set_intros(1))
  then show "c \<in> set cands" "eligible c" by auto
  have "sorted (map (offer_rank target) (c # cs))"
    unfolding assms(1) [symmetric] order_candidates_def by simp
  moreover have "x \<in> set (c # cs)" unfolding s using assms(2,3) by simp
  ultimately show "offer_rank target c \<le> offer_rank target x" by auto
qed

text \<open>A request is offered to every actor that takes IO and to no other, draining and saturated ones
  included in neither. The first offer goes to the fullest actor below the target concurrency, if there
  is one; else to an idle actor; else to the least busy one.\<close>

theorem candidates_packed:
  assumes "order_candidates cands (Some target) = c # cs"
  shows "mset (c # cs) = mset (filter eligible cands) \<and>
    (let n = st_active_io (cd_status c); st = st_state (cd_status c) in
     if \<exists>x \<in> set cands. st_state (cd_status x) = SHARED_IO \<and> st_active_io (cd_status x) < target
     then st = SHARED_IO \<and> n < target \<and>
       (\<forall>x \<in> set cands. st_state (cd_status x) = SHARED_IO \<and> st_active_io (cd_status x) < target \<longrightarrow>
          st_active_io (cd_status x) \<le> n)
     else if \<exists>x \<in> set cands. st_state (cd_status x) = IDLE
     then st = IDLE
     else st = SHARED_IO \<and> (\<forall>x \<in> set cands. st_state (cd_status x) = SHARED_IO \<longrightarrow> n \<le> st_active_io (cd_status x)))"
proof -
  have m: "mset (c # cs) = mset (filter eligible cands)"
    unfolding assms [symmetric] order_candidates_def by simp
  then have "c \<in># mset (filter eligible cands)" by (metis list.set_intros(1) set_mset_mset)
  then have "c \<in> set (filter eligible cands)" by (simp only: set_mset_mset)
  then have c: "st_state (cd_status c) = SHARED_IO \<or> st_state (cd_status c) = IDLE" by (simp add: eligible_def)
  have le: "offer_rank (Some target) c \<le> offer_rank (Some target) x"
    if "x \<in> set cands" "st_state (cd_status x) = SHARED_IO \<or> st_state (cd_status x) = IDLE" for x
    by (rule order_head(3) [OF assms that(1)]) (use that(2) in \<open>auto simp: eligible_def\<close>)
  note rank = offer_rank_def Let_def less_eq_prod_def
  show ?thesis
  proof (cases "\<exists>x \<in> set cands. st_state (cd_status x) = SHARED_IO \<and> st_active_io (cd_status x) < target")
    case True
    then obtain y where y: "y \<in> set cands" "st_state (cd_status y) = SHARED_IO" "st_active_io (cd_status y) < target" by blast
    have c': "st_state (cd_status c) = SHARED_IO \<and> st_active_io (cd_status c) < target"
      using le [OF y(1)] y c by (auto simp: rank split: if_splits)
    moreover have "st_active_io (cd_status x) \<le> st_active_io (cd_status c)"
      if "x \<in> set cands" "st_state (cd_status x) = SHARED_IO" "st_active_io (cd_status x) < target" for x
      using le [OF that(1)] that c' by (auto simp: rank split: if_splits)
    ultimately show ?thesis using True m by (auto simp: Let_def)
  next
    case False
    note noshared = this
    show ?thesis
    proof (cases "\<exists>x \<in> set cands. st_state (cd_status x) = IDLE")
      case True
      then obtain y where y: "y \<in> set cands" "st_state (cd_status y) = IDLE" by blast
      have "st_state (cd_status c) = IDLE"
        using le [OF y(1)] y c noshared order_head(1) [OF assms y(1)] by (auto simp: rank eligible_def split: if_splits)
      then show ?thesis using noshared True m by (auto simp: Let_def)
    next
      case False
      have cin: "c \<in> set cands" using \<open>c \<in> set (filter eligible cands)\<close> by simp
      have "st_active_io (cd_status c) \<le> st_active_io (cd_status x)"
        if "x \<in> set cands" "st_state (cd_status x) = SHARED_IO" for x
        using le [OF that(1)] that c noshared False cin by (auto simp: rank split: if_splits)
      then show ?thesis using noshared False m c cin by (auto simp: Let_def)
    qed
  qed
qed

theorem candidates_packed_witness:
  "map cd_replica (order_candidates [demo_candidate 0 SHARED_IO 70, demo_candidate 1 IDLE 0, demo_candidate 2 DRAINING 1,
     demo_candidate 3 SHARED_IO 20, demo_candidate 4 SHARED_IO 30] (Some 50)) = [4, 3, 1, 0]"
proof -
  let ?cs = "[demo_candidate 0 SHARED_IO 70, demo_candidate 1 IDLE 0, demo_candidate 2 DRAINING 1,
     demo_candidate 3 SHARED_IO 20, demo_candidate 4 SHARED_IO 30]"
  have o: "order_candidates ?cs (Some 50) = [demo_candidate 4 SHARED_IO 30, demo_candidate 3 SHARED_IO 20,
      demo_candidate 1 IDLE 0, demo_candidate 0 SHARED_IO 70]"
    by (simp add: order_candidates_def eligible_def demo_candidate_def offer_rank_def)
  show ?thesis using candidates_packed [OF o] unfolding o by (simp add: demo_candidate_def)
qed

text \<open>The request rate of a profile is the number of its arrivals in the last window, over the length of
  the window, whatever was trimmed on the way.\<close>

theorem request_rate_window:
  assumes "sorted (ts @ [now])" and "0 < s_rate_window cfg"
  shows "fst (request_rate cfg k now (fold (record_arrival cfg k) ts [])) =
    of_nat (length (filter (\<lambda>t. now - s_rate_window cfg < t) ts)) / s_rate_window cfg"
proof -
  let ?x = "traffic_at k (fold (record_arrival cfg k) ts [])"
  have st: "sorted ts" "\<forall>t \<in> set ts. t \<le> now" using assms(1) by (auto simp: sorted_append)
  have "dropWhile (\<lambda>t. t \<le> now - s_rate_window cfg) (tr_arrivals ?x) = filter (\<lambda>t. now - s_rate_window cfg < t) ts"
  proof (cases "ts = []")
    case True
    then show ?thesis by (simp add: traffic_at_def fresh_traffic_def)
  next
    case False
    have a: "tr_arrivals ?x = filter (\<lambda>t. last ts - s_rate_window cfg < t) ts" by (rule arrivals_window [OF st(1) False])
    have "last ts \<le> now" using st(2) False by simp
    moreover have "sorted (tr_arrivals ?x)" using st(1) by (simp add: a sorted_wrt_filter)
    ultimately show ?thesis
      by (simp add: dropWhile_sorted) (auto simp: a intro!: filter_cong)
  qed
  then show ?thesis by (simp add: request_rate_def Let_def trim_arrivals_def)
qed

theorem request_rate_window_witness:
  "fst (request_rate demo_settings ''p'' 12 (fold (record_arrival demo_settings ''p'') [1, 3, 9, 9] [])) = 3 / 10"
  using request_rate_window [of "[1, 3, 9, 9]" 12 demo_settings "''p''"] by (simp add: demo_settings_def)

text \<open>Compute tasks are spread over the warm nodes of a profile: as many requests in a row as there are
  warm nodes are offered each of them once, and what is remembered are the last distinct nodes, never more
  than the setting allows.\<close>

theorem warm_nodes_round_robin:
  assumes "warm_inv cfg w" and "map_of (wn_nodes w) k = Some ns" and "1 \<le> s_warm_nodes cfg"
  shows "mset (next_nodes (length ns) k w) = mset (map Some ns) \<and> distinct (next_nodes (length ns) k w) \<and>
    int (length ns) \<le> s_warm_nodes cfg \<and> warm_inv cfg (remember_compute_warm_node cfg k node w)"
proof -
  have ns: "ns \<noteq> []" "distinct ns" "int (length ns) \<le> s_warm_nodes cfg"
    using assms(1) [unfolded warm_inv_def, rule_format, OF assms(2)] by auto
  define c where "c = (case map_of (wn_cursor w) k of None \<Rightarrow> 0 | Some n \<Rightarrow> n)"
  have "next_nodes (length ns) k w = map (\<lambda>i. Some (ns ! ((c + i) mod length ns))) [0..<length ns]"
    by (simp only: next_nodes_def next_cursor [OF assms(2) ns(1)] c_def)
  also have "\<dots> = map Some (rotate (c mod length ns) ns)"
    by (rule nth_equalityI) (auto simp: nth_rotate mod_simps)
  finally have r: "next_nodes (length ns) k w = map Some (rotate (c mod length ns) ns)" .
  moreover have "mset (rotate n ns) = mset ns" for n
    unfolding rotate_drop_take by (metis append_take_drop_id mset_append union_commute)
  ultimately have "mset (next_nodes (length ns) k w) = mset (map Some ns)" by simp
  moreover have "distinct (next_nodes (length ns) k w)" using ns(2) by (simp add: r distinct_map)
  ultimately show ?thesis using ns(3) remember_inv [OF assms(1,3)] by blast
qed

theorem warm_nodes_round_robin_witness:
  "set (next_nodes 2 ''p'' \<lparr>wn_nodes = [(''p'', [''n1'', ''n2''])], wn_cursor = [(''p'', 5)]\<rparr>) = {Some ''n1'', Some ''n2''}"
proof -
  let ?w = "\<lparr>wn_nodes = [(''p'', [''n1'', ''n2''])], wn_cursor = [(''p'', 5)]\<rparr>"
  have l: "length [''n1'', ''n2''] = 2" by simp
  have "mset (next_nodes 2 ''p'' ?w) = mset (map Some [''n1'', ''n2''])"
    by (rule conjunct1 [OF warm_nodes_round_robin [of demo_settings ?w "''p''" "[''n1'', ''n2'']", unfolded l]])
      (auto simp: warm_inv_def demo_settings_def split: if_splits)
  then have "set (next_nodes 2 ''p'' ?w) = set (map Some [''n1'', ''n2''])" by (rule mset_eq_setD)
  then show ?thesis by simp
qed

end
