(* ===== verification/Pool.thy ===== *)
theory Pool
  imports Sizing Json
begin

text \<open>
  \<open>runtime/directory.py\<close>, the IO actor pools: which actors exist, starting missing ones, finding those other
  gateways started, offering a request, reaping idle actors and retiring a profile, together with the
  limit on compute tasks. Ray is a table of named actors, each an admission controller that is up, out of
  reach or dead. A coroutine is a function of the world that hands it to \<open>env\<close> at every \<open>await\<close>: what
  other coroutines, other gateways, Ray and the clock do meanwhile, whatever that is.
\<close>

section \<open>The world\<close>

datatype remote = NotCreated | Up admission | Unreachable admission | Dead

record pool_profile =
  pp_key :: string
  pp_ref :: string
  pp_pool :: string
  pp_env :: jdict

record world =
  w_now :: time
  w_tick :: nat
  w_actors :: "(string \<times> nat, nat) dict"
  w_creating :: "(string \<times> nat, bool) dict"
  w_profiles :: "(string, pool_profile) dict"
  w_traffic :: traffic_table
  w_checked :: "string list"
  w_limits :: "(string, nat) dict"
  w_semaphores :: "int list"
  w_warm :: warm_nodes
  w_names :: "(string, nat) dict"
  w_remote :: "nat \<Rightarrow> remote"

text \<open>\<open>w_creating\<close> tells of each creation task whether it is done; \<open>w_limits\<close> points to a semaphore, and
  \<open>w_semaphores\<close> holds the free slots of every semaphore ever made.\<close>

datatype pool_error =
    ActorDied | ActorUnavailable | NoActorName | SetupFailed | Conflict | NotIo | Overloaded

type_synonym env = "nat \<Rightarrow> world \<Rightarrow> world"
type_synonym 'a act = "(pool_error + 'a) \<times> world"

definition await :: "env \<Rightarrow> world \<Rightarrow> world" where
  "await env w = (env (w_tick w) w)\<lparr>w_tick := Suc (w_tick w)\<rparr>"

definition bindW :: "'a act \<Rightarrow> ('a \<Rightarrow> world \<Rightarrow> 'b act) \<Rightarrow> 'b act" where
  "bindW m f = (case m of (Inl e, w) \<Rightarrow> (Inl e, w) | (Inr x, w) \<Rightarrow> f x w)"

fun forW :: "('a \<Rightarrow> 's \<Rightarrow> world \<Rightarrow> 's act) \<Rightarrow> 'a list \<Rightarrow> 's \<Rightarrow> world \<Rightarrow> 's act" where
  "forW f [] s w = (Inr s, w)"
| "forW f (x # xs) s w = bindW (f x s w) (forW f xs)"

definition set_remote :: "nat \<Rightarrow> remote \<Rightarrow> world \<Rightarrow> world" where
  "set_remote h r w = w\<lparr>w_remote := (w_remote w)(h := r)\<rparr>"

definition remote_call :: "env \<Rightarrow> nat \<Rightarrow> (time \<Rightarrow> admission \<Rightarrow> 'a \<times> admission) \<Rightarrow> world \<Rightarrow> 'a act" where
  \<comment> \<open>\<open>await handle.method.remote(...)\<close>: the call travels, runs on the actor, and its reply travels back\<close>
  "remote_call env h f w =
     (let w1 = await env w in
      case w_remote w1 h of
        Up a \<Rightarrow> (let (r, b) = f (w_now w1) a in (Inr r, await env (set_remote h (Up b) w1)))
      | Dead \<Rightarrow> (Inl ActorDied, await env w1)
      | _ \<Rightarrow> (Inl ActorUnavailable, await env w1))"

definition remote_status :: "env \<Rightarrow> nat \<Rightarrow> world \<Rightarrow> actor_status act" where
  "remote_status env h w = remote_call env h (\<lambda>now a. status now now a) w"

definition remote_drain :: "env \<Rightarrow> nat \<Rightarrow> world \<Rightarrow> unit act" where
  "remote_drain env h w = remote_call env h (\<lambda>now a. ((), drain_actor a)) w"

definition kill :: "nat \<Rightarrow> world \<Rightarrow> world" where
  \<comment> \<open>\<open>ray.kill(handle, no_restart=True)\<close>; the name is free again\<close>
  "kill h w = (set_remote h Dead w)\<lparr>w_names := filter (\<lambda>(n, k). k \<noteq> h) (w_names w)\<rparr>"

definition get_actor :: "string \<Rightarrow> world \<Rightarrow> nat option" where
  "get_actor name w = map_of (w_names w) name"

section \<open>Names\<close>

text \<open>\<open>sha\<close> stands for the first twenty hexadecimal digits of the SHA-256 of a profile key.\<close>

definition actor_name :: "(string \<Rightarrow> string) \<Rightarrow> string \<Rightarrow> nat \<Rightarrow> string" where
  "actor_name sha k r = ''pyscripts-runtime-v9-'' @ sha k @ ''-'' @ dec r"

definition legacy_actor_names :: "(string \<Rightarrow> string) \<Rightarrow> string \<Rightarrow> nat \<Rightarrow> string list" where
  "legacy_actor_names sha k r =
     (''pyscripts-runtime-'' @ sha k @ ''-'' @ dec r)
       # map (\<lambda>v. ''pyscripts-runtime-v'' @ dec v @ ''-'' @ sha k @ ''-'' @ dec r) [2..<9]"

section \<open>Profiles\<close>

definition register_runtime_profile :: "pool_profile \<Rightarrow> world \<Rightarrow> pool_profile act" where
  \<comment> \<open>\<open>p\<close> carries the materialized runtime environment\<close>
  "register_runtime_profile p w =
     (let w1 = (case map_of (w_profiles w) (pp_key p) of
                  None \<Rightarrow> w\<lparr>w_profiles := AList.update (pp_key p) p (w_profiles w)\<rparr> | Some _ \<Rightarrow> w);
          existing = (case map_of (w_profiles w) (pp_key p) of None \<Rightarrow> p | Some q \<Rightarrow> q)
      in if existing \<noteq> p then (Inl Conflict, w1)
         else (Inr existing, w1\<lparr>w_traffic := AList.update (pp_key p) (traffic_at (pp_key p) (w_traffic w)) (w_traffic w)\<rparr>))"

section \<open>Pools\<close>

definition replicas :: "string \<Rightarrow> (string \<times> nat, 'v) dict \<Rightarrow> nat list" where
  "replicas k d = map (snd \<circ> fst) (filter (\<lambda>((p, r), v). p = k) d)"

definition actor_count :: "string \<Rightarrow> world \<Rightarrow> nat" where
  "actor_count k w = length (replicas k (w_actors w))"

definition first_free :: "nat \<Rightarrow> nat list \<Rightarrow> nat option" where
  "first_free mx occ = find (\<lambda>r. r \<notin> set occ) [0..<mx]"

function fill_pool :: "nat \<Rightarrow> string \<Rightarrow> nat \<Rightarrow> nat list \<Rightarrow> (string \<times> nat, bool) dict \<Rightarrow> (string \<times> nat, bool) dict" where
  "fill_pool mx k n occ cr =
     (if length occ < n then
        (case first_free mx occ of
           None \<Rightarrow> cr
         | Some r \<Rightarrow> fill_pool mx k n (r # occ) (AList.update (k, r) False cr))
      else cr)"
  by pat_completeness auto
termination by (relation "measure (\<lambda>(mx, k, n, occ, cr). n - length occ)") auto

declare fill_pool.simps [simp del]

definition occupied :: "string \<Rightarrow> world \<Rightarrow> nat list" where
  "occupied k w = remdups (replicas k (w_actors w) @ replicas k (w_creating w))"

definition pending_creations :: "string \<Rightarrow> world \<Rightarrow> (string \<times> nat) list" where
  "pending_creations k w = map fst (filter (\<lambda>((p, r), done). p = k \<and> \<not> done) (w_creating w))"

definition schedule_actor_count :: "pool_settings \<Rightarrow> string \<Rightarrow> int \<Rightarrow> world \<Rightarrow> (string \<times> nat) list \<times> world" where
  "schedule_actor_count cfg k desired w =
     (let mx = nat (s_max_per_profile cfg);
          n = nat (min desired (s_max_per_profile cfg));
          w1 = w\<lparr>w_creating := fill_pool mx k n (occupied k w) (w_creating w)\<rparr>
      in (pending_creations k w1, w1))"

definition discover_actor :: "(string \<Rightarrow> string) \<Rightarrow> string \<Rightarrow> nat \<Rightarrow> world \<Rightarrow> world" where
  "discover_actor sha k r w =
     (if map_of (w_actors w) (k, r) \<noteq> None \<or> map_of (w_creating w) (k, r) \<noteq> None then w
      else case get_actor (actor_name sha k r) w of
             None \<Rightarrow> w
           | Some h \<Rightarrow> w\<lparr>w_actors := AList.update (k, r) h (w_actors w)\<rparr>)"

definition discover_actors :: "pool_settings \<Rightarrow> (string \<Rightarrow> string) \<Rightarrow> string \<Rightarrow> world \<Rightarrow> world" where
  "discover_actors cfg sha k w = fold (discover_actor sha k) [0..<nat (s_max_per_profile cfg)] w"

definition retire_legacy_actor :: "env \<Rightarrow> string \<Rightarrow> bool \<Rightarrow> world \<Rightarrow> bool act" where
  "retire_legacy_actor env name ok w =
     (case get_actor name w of
        None \<Rightarrow> (Inr ok, w)
      | Some h \<Rightarrow>
          (case remote_drain env h w of
             (Inl _, w1) \<Rightarrow> (Inr False, w1)
           | (Inr _, w1) \<Rightarrow>
               (case remote_status env h w1 of
                  (Inl _, w2) \<Rightarrow> (Inr False, w2)
                | (Inr s, w2) \<Rightarrow>
                    if st_running_leases s = 0 \<and> st_reserved_leases s = 0 then (Inr ok, kill h w2)
                    else (Inr False, w2))))"

definition retire_legacy_actors :: "env \<Rightarrow> pool_settings \<Rightarrow> (string \<Rightarrow> string) \<Rightarrow> string \<Rightarrow> world \<Rightarrow> bool act" where
  "retire_legacy_actors env cfg sha k w =
     forW (retire_legacy_actor env) (concat (map (legacy_actor_names sha k) [0..<nat (s_max_per_profile cfg)])) True w"

definition prepare_pool :: "env \<Rightarrow> pool_settings \<Rightarrow> (string \<Rightarrow> string) \<Rightarrow> string \<Rightarrow> world \<Rightarrow> unit act" where
  "prepare_pool env cfg sha k w0 =
     (let w = await env w0 in
      bindW (if k \<in> set (w_checked w) then (Inr (), w)
             else bindW (retire_legacy_actors env cfg sha k w)
                    (\<lambda>ok w1. (Inr (), if ok then w1\<lparr>w_checked := List.insert k (w_checked w1)\<rparr> else w1)))
        (\<lambda>_ w2. (Inr (), discover_actors cfg sha k w2)))"

definition status_of :: "env \<Rightarrow> string \<Rightarrow> nat \<times> nat \<Rightarrow> candidate list \<times> (nat \<times> nat) list \<Rightarrow> world \<Rightarrow>
    (candidate list \<times> (nat \<times> nat) list) act" where
  "status_of env k = (\<lambda>(r, h) (cands, gone) w.
     case remote_status env h w of
       (Inl _, w1) \<Rightarrow> (Inr (cands, gone @ [(r, h)]), w1)
     | (Inr s, w1) \<Rightarrow> (Inr (cands @ [\<lparr>cd_replica = r, cd_handle = h, cd_status = s\<rparr>], gone), w1))"

definition drop_unavailable :: "string \<Rightarrow> nat \<times> nat \<Rightarrow> world \<Rightarrow> world" where
  "drop_unavailable k = (\<lambda>(r, h) w.
     if map_of (w_actors w) (k, r) = Some h then w\<lparr>w_actors := AList.delete (k, r) (w_actors w)\<rparr> else w)"

definition known_actors :: "string \<Rightarrow> world \<Rightarrow> (nat \<times> nat) list" where
  "known_actors k w = map (\<lambda>((p, r), h). (r, h)) (filter (\<lambda>((p, r), h). p = k) (w_actors w))"

definition actor_statuses :: "env \<Rightarrow> string \<Rightarrow> world \<Rightarrow> candidate list act" where
  \<comment> \<open>the gathered calls overlap; their order among each other is that of the list\<close>
  "actor_statuses env k w =
     bindW (forW (status_of env k) (known_actors k w) ([], []) w)
       (\<lambda>(cands, gone) w1. (Inr cands, fold (drop_unavailable k) gone w1))"

definition pool_snapshot_of :: "env \<Rightarrow> pool_settings \<Rightarrow> (string \<Rightarrow> string) \<Rightarrow> string \<Rightarrow> world \<Rightarrow> candidate list act" where
  "pool_snapshot_of env cfg sha k w = bindW (prepare_pool env cfg sha k w) (\<lambda>_ w1. actor_statuses env k w1)"

definition count_desired :: "pool_settings \<Rightarrow> string \<Rightarrow> candidate list \<Rightarrow> int \<Rightarrow> world \<Rightarrow> int \<times> world" where
  "count_desired cfg k cands pending w =
     (let (n, t) = desired_actor_count cfg k cands pending (w_now w) (w_traffic w) in (n, w\<lparr>w_traffic := t\<rparr>))"

section \<open>Starting an actor\<close>

definition create_actor :: "env \<Rightarrow> pool_settings \<Rightarrow> nat \<Rightarrow> bool \<Rightarrow> string \<Rightarrow> world \<Rightarrow> nat act" where
  \<comment> \<open>Ray's answer: a new actor \<open>h\<close>, whose environment may fail to set up; another gateway may have won the name\<close>
  "create_actor env cfg h works name w =
     (case get_actor name w of
        Some g \<Rightarrow> (Inr g, w)
      | None \<Rightarrow>
          (case (works, new_controller (s_max_io cfg) (s_lease_ttl cfg) (w_now w)) of
             (True, Inr a) \<Rightarrow> (Inr h, (set_remote h (Up a) w)\<lparr>w_names := w_names w @ [(name, h)]\<rparr>)
           | _ \<Rightarrow> (Inr h, (set_remote h Dead w)\<lparr>w_names := w_names w @ [(name, h)]\<rparr>)))"

definition end_creation :: "string \<times> nat \<Rightarrow> world \<Rightarrow> world" where
  "end_creation key w = w\<lparr>w_creating := AList.delete key (w_creating w)\<rparr>"

definition create_actor_replica ::
  "env \<Rightarrow> pool_settings \<Rightarrow> (string \<Rightarrow> string) \<Rightarrow> nat \<Rightarrow> bool \<Rightarrow> string \<Rightarrow> nat \<Rightarrow> world \<Rightarrow> nat option \<times> world" where
  "create_actor_replica env cfg sha h works k r w =
     (let name = actor_name sha k r;
          got = (case get_actor name w of Some g \<Rightarrow> (Inr g, w) | None \<Rightarrow> create_actor env cfg h works name (await env w))
      in case bindW got (\<lambda>g w1. bindW (remote_status env g w1)
               (\<lambda>_ w2. (Inr g, w2\<lparr>w_actors := AList.update (k, r) g (w_actors w2)\<rparr>))) of
           (Inr g, w3) \<Rightarrow> (Some g, end_creation (k, r) w3)
         | (Inl _, w3) \<Rightarrow> (None, end_creation (k, r) w3))"

definition cancel_creation :: "string \<times> nat \<Rightarrow> bool \<Rightarrow> world \<Rightarrow> world" where
  \<comment> \<open>\<open>task.cancel()\<close>: a task that has not run yet never reaches its \<open>finally\<close> and keeps its entry\<close>
  "cancel_creation key started w =
     (case map_of (w_creating w) key of
        None \<Rightarrow> w
      | Some _ \<Rightarrow> if started then end_creation key w else w\<lparr>w_creating := AList.update key True (w_creating w)\<rparr>)"

definition wait_for_actor_creation :: "env \<Rightarrow> (string \<times> nat) list \<Rightarrow> world \<Rightarrow> bool \<times> world" where
  \<comment> \<open>the result of a finished creation is read off the table of actors\<close>
  "wait_for_actor_creation env tasks w =
     (if filter (\<lambda>key. map_of (w_creating w) key = Some False) tasks = [] then (False, w)
      else
        let w1 = await env w
        in (list_ex (\<lambda>key. map_of (w_creating w1) key \<noteq> Some False \<and> map_of (w_actors w1) key \<noteq> None) tasks, w1))"

section \<open>Reserving a slot\<close>

record io_request =
  io_id :: string
  io_task :: string
  io_service :: string
  io_revision :: string

definition remote_reserve :: "env \<Rightarrow> (nat \<Rightarrow> string) \<Rightarrow> io_request \<Rightarrow> nat \<Rightarrow> world \<Rightarrow> (admission_error + string option) act" where
  \<comment> \<open>\<open>lid\<close> draws the lease identifier on the actor\<close>
  "remote_reserve env lid q h w =
     remote_call env h (\<lambda>now a. try_reserve (lid (w_tick w)) now now (io_id q) (io_task q) (io_service q) (io_revision q) a) w"

fun offer :: "env \<Rightarrow> (nat \<Rightarrow> string) \<Rightarrow> io_request \<Rightarrow> candidate list \<Rightarrow> world \<Rightarrow> (nat \<times> string) option act" where
  "offer env lid q [] w = (Inr None, w)"
| "offer env lid q (c # cs) w =
     bindW (remote_reserve env lid q (cd_handle c) w) (\<lambda>res w1.
       case res of
         Inl _ \<Rightarrow> (Inl NotIo, w1)
       | Inr (Some l) \<Rightarrow> (Inr (Some (cd_handle c, l)), w1)
       | Inr None \<Rightarrow> offer env lid q cs w1)"

datatype round_result = Assigned nat string | Again | Sleep

definition wait_for_capacity ::
  "env \<Rightarrow> pool_settings \<Rightarrow> string \<Rightarrow> nat \<Rightarrow> (string \<times> nat) list \<Rightarrow> world \<Rightarrow> round_result \<times> world" where
  \<comment> \<open>after every candidate refused: start one more replica if none is starting, and wait for the first to come up\<close>
  "wait_for_capacity env cfg k ready tasks w =
     (let total = int ready + int (length tasks);
          (tasks', w1) = (if tasks = [] \<and> total < s_max_per_profile cfg
                          then schedule_actor_count cfg k (total + 1) (await env w) else (tasks, w))
      in if tasks' = [] then (Sleep, w1)
         else let (created, w2) = wait_for_actor_creation env tasks' w1 in (if created then Again else Sleep, w2))"

definition reserve_round ::
  "env \<Rightarrow> pool_settings \<Rightarrow> (string \<Rightarrow> string) \<Rightarrow> (nat \<Rightarrow> string) \<Rightarrow> string \<Rightarrow> io_request \<Rightarrow> world \<Rightarrow> round_result act" where
  "reserve_round env cfg sha lid k q w =
     bindW (pool_snapshot_of env cfg sha k w) (\<lambda>cands w1.
       let (desired, w2) = count_desired cfg k cands 1 w1;
           (tasks, w3) = schedule_actor_count cfg k desired (await env w2)
       in bindW (offer env lid q (order_candidates cands (Some (s_target_io cfg))) w3) (\<lambda>got w4.
         case got of
           Some (h, l) \<Rightarrow> (Inr (Assigned h l), w4)
         | None \<Rightarrow> let (res, w5) = wait_for_capacity env cfg k (length cands) tasks w4 in (Inr res, w5)))"

partial_function (option) reserve_loop ::
  "env \<Rightarrow> pool_settings \<Rightarrow> (string \<Rightarrow> string) \<Rightarrow> (nat \<Rightarrow> string) \<Rightarrow> string \<Rightarrow> io_request \<Rightarrow> time \<Rightarrow> world \<Rightarrow> (nat \<times> string) act option" where
  "reserve_loop env cfg sha lid k q deadline w =
     (case reserve_round env cfg sha lid k q w of
        (Inl e, w1) \<Rightarrow> Some (Inl e, w1)
      | (Inr res, w1) \<Rightarrow>
          (case res of
             Assigned h l \<Rightarrow> Some (Inr (h, l), w1)
           | Again \<Rightarrow> reserve_loop env cfg sha lid k q deadline w1
           | Sleep \<Rightarrow>
               if deadline - w_now w1 \<le> 0 then Some (Inl Overloaded, w1)
               else reserve_loop env cfg sha lid k q deadline (await env w1)))"

definition reserve ::
  "env \<Rightarrow> pool_settings \<Rightarrow> (string \<Rightarrow> string) \<Rightarrow> (nat \<Rightarrow> string) \<Rightarrow> pool_profile \<Rightarrow> io_request \<Rightarrow> world \<Rightarrow> (nat \<times> string) act option" where
  "reserve env cfg sha lid p q w =
     (if io_task q \<noteq> ''io'' then Some (Inl NotIo, w)
      else case register_runtime_profile p w of
             (Inl e, w1) \<Rightarrow> Some (Inl e, w1)
           | (Inr _, w1) \<Rightarrow>
               reserve_loop env cfg sha lid (pp_key p) q (w_now w1 + s_queue_timeout cfg)
                 (w1\<lparr>w_traffic := record_arrival cfg (pp_key p) (w_now w1) (w_traffic w1)\<rparr>))"

section \<open>Reaping idle actors\<close>

definition reapable :: "pool_settings \<Rightarrow> string \<Rightarrow> int \<Rightarrow> candidate \<Rightarrow> int \<Rightarrow> world \<Rightarrow> bool" where
  "reapable cfg k desired c current w =
     (let s = cd_status c; final = (current = 1);
          timeout = (if final then s_warm_idle cfg else s_hot_idle cfg);
          idle_long_enough = (st_state s = IDLE \<and> timeout \<le> st_idle_for_seconds s);
          drained_and_empty = (st_state s = DRAINING \<and> st_reserved_leases s = 0 \<and> st_running_leases s = 0)
      in (idle_long_enough \<or> drained_and_empty) \<and> (final \<or> desired < current) \<and>
         (final \<longrightarrow> profile_is_cold k timeout (w_now w) (w_traffic w)))"

definition drain_and_check :: "env \<Rightarrow> candidate \<Rightarrow> world \<Rightarrow> bool act" where
  \<comment> \<open>whether the actor may be killed\<close>
  "drain_and_check env c w =
     bindW (if st_state (cd_status c) \<noteq> DRAINING then remote_drain env (cd_handle c) w else (Inr (), w)) (\<lambda>_ w1.
     bindW (remote_status env (cd_handle c) w1) (\<lambda>latest w2.
       (Inr (\<not> (0 < st_reserved_leases latest \<or> 0 < st_running_leases latest)), w2)))"

definition reap_candidate :: "env \<Rightarrow> pool_settings \<Rightarrow> string \<Rightarrow> int \<Rightarrow> candidate \<Rightarrow> int \<times> nat \<Rightarrow> world \<Rightarrow> (int \<times> nat) act" where
  "reap_candidate env cfg k desired c = (\<lambda>(current, reaped) w.
     if \<not> reapable cfg k desired c current w then (Inr (current, reaped), w)
     else bindW (drain_and_check env c w) (\<lambda>free w1.
       if free then (Inr (current - 1, Suc reaped),
                     (kill (cd_handle c) w1)\<lparr>w_actors := AList.delete (k, cd_replica c) (w_actors w1)\<rparr>)
       else (Inr (current, reaped), w1)))"

definition reap_profile :: "env \<Rightarrow> pool_settings \<Rightarrow> (string \<Rightarrow> string) \<Rightarrow> string \<Rightarrow> nat \<Rightarrow> world \<Rightarrow> nat act" where
  "reap_profile env cfg sha k reaped w =
     bindW (prepare_pool env cfg sha k w) (\<lambda>_ w1.
     bindW (actor_statuses env k w1) (\<lambda>cands w2.
       let current = int (actor_count k w2); (desired, w3) = count_desired cfg k cands 0 w2
       in bindW (forW (reap_candidate env cfg k desired) (rev (sort_key cd_replica cands)) (current, reaped) w3)
            (\<lambda>(_, n) w4. (Inr n, w4))))"

definition reap_idle_actors :: "env \<Rightarrow> pool_settings \<Rightarrow> (string \<Rightarrow> string) \<Rightarrow> world \<Rightarrow> nat act" where
  "reap_idle_actors env cfg sha w = forW (reap_profile env cfg sha) (map fst (w_profiles w)) 0 w"

section \<open>Retiring a profile\<close>

definition forget_profile :: "string \<Rightarrow> world \<Rightarrow> world" where
  "forget_profile k w =
     w\<lparr>w_profiles := AList.delete k (w_profiles w), w_traffic := AList.delete k (w_traffic w),
       w_checked := removeAll k (w_checked w), w_limits := AList.delete k (w_limits w),
       w_warm := forget_warm_nodes k (w_warm w)\<rparr>"

definition retirement_actors :: "pool_settings \<Rightarrow> (string \<Rightarrow> string) \<Rightarrow> string \<Rightarrow> world \<Rightarrow> (nat option \<times> nat) list" where
  \<comment> \<open>the known actors with their replica, then the legacy ones\<close>
  "retirement_actors cfg sha k w =
     map (\<lambda>(r, h). (Some r, h)) (known_actors k w)
     @ map (Pair None) (List.map_filter (\<lambda>n. get_actor n w)
         (concat (map (legacy_actor_names sha k) [0..<nat (s_max_per_profile cfg)])))"

definition gather_drain :: "env \<Rightarrow> nat option \<times> nat \<Rightarrow> (pool_error + unit) list \<Rightarrow> world \<Rightarrow> (pool_error + unit) list act" where
  "gather_drain env = (\<lambda>(_, h) acc w. let (res, w1) = remote_drain env h w in (Inr (acc @ [res]), w1))"

definition drain_all :: "env \<Rightarrow> (nat option \<times> nat) list \<Rightarrow> world \<Rightarrow> (pool_error + unit) list act" where
  \<comment> \<open>\<open>gather(..., return_exceptions=True)\<close>\<close>
  "drain_all env actors w = forW (gather_drain env) actors [] w"

definition gather_status :: "env \<Rightarrow> nat option \<times> nat \<Rightarrow> (pool_error + actor_status) list \<Rightarrow> world \<Rightarrow> (pool_error + actor_status) list act" where
  "gather_status env = (\<lambda>(_, h) acc w. let (res, w1) = remote_status env h w in (Inr (acc @ [res]), w1))"

definition busy_status :: "pool_error + actor_status \<Rightarrow> bool" where
  "busy_status x = (case x of Inl _ \<Rightarrow> False | Inr s \<Rightarrow> 0 < st_running_leases s \<or> 0 < st_reserved_leases s)"

definition unknown_status :: "pool_error + actor_status \<Rightarrow> bool" where
  "unknown_status x = (case x of Inl e \<Rightarrow> e \<noteq> ActorDied | Inr _ \<Rightarrow> False)"

definition kill_retired :: "string \<Rightarrow> nat option \<times> nat \<Rightarrow> world \<Rightarrow> world" where
  "kill_retired k = (\<lambda>(r, h) w.
     let w1 = kill h w in case r of None \<Rightarrow> w1 | Some r \<Rightarrow> w1\<lparr>w_actors := AList.delete (k, r) (w_actors w1)\<rparr>)"

partial_function (option) retire_poll ::
  "env \<Rightarrow> string \<Rightarrow> time \<Rightarrow> (nat option \<times> nat) list \<Rightarrow> world \<Rightarrow> bool act option" where
  "retire_poll env k deadline actors w =
     (if deadline - w_now w \<le> 0 then Some (Inr False, w)
      else case forW (gather_status env) actors [] w of
        (Inl e, w1) \<Rightarrow> Some (Inl e, w1)
      | (Inr sts, w1) \<Rightarrow>
          if deadline \<le> w_now w1 then Some (Inr False, w1)
          else case find unknown_status sts of
            Some (Inl e) \<Rightarrow> Some (Inl e, w1)
          | _ \<Rightarrow>
              if \<not> list_ex busy_status sts
              then Some (Inr True, forget_profile k (fold (kill_retired k) actors w1))
              else retire_poll env k deadline actors (await env w1))"

definition retire_profile ::
  "env \<Rightarrow> pool_settings \<Rightarrow> (string \<Rightarrow> string) \<Rightarrow> (string \<times> nat \<Rightarrow> bool) \<Rightarrow> string \<Rightarrow> rat \<Rightarrow> world \<Rightarrow> bool act option" where
  \<comment> \<open>\<open>started\<close> tells which creation tasks have run\<close>
  "retire_profile env cfg sha started k timeout w0 =
     (let w = fold (\<lambda>key. cancel_creation key (started key)) (map fst (filter (\<lambda>((p, r), d). p = k) (w_creating w0))) (await env w0);
          w1 = discover_actors cfg sha k (await env w);
          actors = retirement_actors cfg sha k w1
      in if actors = [] then Some (Inr True, forget_profile k w1)
         else
           let w2 = snd (drain_all env actors w1)  \<comment> \<open>the results are not looked at\<close>
           in if timeout \<le> w_now w2 - w_now w1 then Some (Inr False, w2)
              else retire_poll env k (w_now w1 + timeout) actors w2)"

section \<open>The limit on compute tasks\<close>

definition compute_semaphore :: "pool_settings \<Rightarrow> string \<Rightarrow> world \<Rightarrow> nat \<times> world" where
  \<comment> \<open>\<open>_compute_limits.setdefault(key, BoundedSemaphore(n))\<close>\<close>
  "compute_semaphore cfg k w =
     (case map_of (w_limits w) k of
        Some i \<Rightarrow> (i, w)
      | None \<Rightarrow> (length (w_semaphores w),
                 w\<lparr>w_limits := AList.update k (length (w_semaphores w)) (w_limits w),
                   w_semaphores := w_semaphores w @ [s_compute_pending cfg]\<rparr>))"

definition acquire_compute :: "pool_settings \<Rightarrow> string \<Rightarrow> world \<Rightarrow> nat option \<times> world" where
  \<comment> \<open>one attempt at \<open>limit.acquire()\<close>; without a free slot the caller waits or times out\<close>
  "acquire_compute cfg k w =
     (let (i, w1) = compute_semaphore cfg k w in
      if 0 < w_semaphores w1 ! i then (Some i, w1\<lparr>w_semaphores := (w_semaphores w1)[i := w_semaphores w1 ! i - 1]\<rparr>)
      else (None, w1))"

definition release_compute :: "nat \<Rightarrow> world \<Rightarrow> world" where
  "release_compute i w = w\<lparr>w_semaphores := (w_semaphores w)[i := w_semaphores w ! i + 1]\<rparr>"

record compute_request =
  cr_cpus :: "rat option"
  cr_gpus :: "rat option"

record compute_options =
  co_cpus :: rat
  co_gpus :: rat
  co_selector :: "(string, string) dict option"
  co_fallback :: "(string, string) dict option"

record compute_settings =
  cs_cpus :: rat
  cs_gpus :: rat
  cs_use_selector :: bool
  cs_affinity :: bool
  cs_pool_label :: string
  cs_node_label :: string

definition compute_task_options ::
  "compute_settings \<Rightarrow> pool_profile \<Rightarrow> compute_request \<Rightarrow> world \<Rightarrow> compute_options \<times> world" where
  "compute_task_options cs p q w =
     (let cpus = (case cr_cpus q of None \<Rightarrow> cs_cpus cs | Some c \<Rightarrow> if c = 0 then cs_cpus cs else c);
          gpus = (case cr_gpus q of None \<Rightarrow> cs_gpus cs | Some g \<Rightarrow> g);
          base = \<lparr>co_cpus = cpus, co_gpus = gpus, co_selector = None, co_fallback = None\<rparr>
      in if \<not> cs_use_selector cs then (base, w)
         else
           let pool = [(cs_pool_label cs, pp_pool p)];
               (node, wn) = next_compute_warm_node (pp_key p) (w_warm w);
               w1 = w\<lparr>w_warm := wn\<rparr>
           in (case node of
                 Some n \<Rightarrow>
                   if cs_affinity cs
                   then (base\<lparr>co_selector := Some (AList.update (cs_node_label cs) n pool), co_fallback := Some pool\<rparr>, w1)
                   else (base\<lparr>co_selector := Some pool\<rparr>, w1)
               | None \<Rightarrow> (base\<lparr>co_selector := Some pool\<rparr>, w1)))"

section \<open>What the world may do meanwhile\<close>

definition controller :: "remote \<Rightarrow> admission option" where
  "controller r = (case r of Up a \<Rightarrow> Some a | Unreachable a \<Rightarrow> Some a | _ \<Rightarrow> None)"

text \<open>An actor that exists only changes by operations of its admission controller, and dies for good.\<close>

definition remote_evolves :: "remote \<Rightarrow> remote \<Rightarrow> bool" where
  "remote_evolves r r' = (case r of
       NotCreated \<Rightarrow> (\<forall>b. controller r' = Some b \<longrightarrow> reachable fresh_controller (admission_step {}) b)
     | Dead \<Rightarrow> r' = Dead
     | Up a \<Rightarrow> r' = Dead \<or> (\<exists>b. controller r' = Some b \<and> (admission_step {})\<^sup>*\<^sup>* a b)
     | Unreachable a \<Rightarrow> r' = Dead \<or> (\<exists>b. controller r' = Some b \<and> (admission_step {})\<^sup>*\<^sup>* a b))"

definition env_ok :: "env \<Rightarrow> bool" where
  "env_ok env = (\<forall>n w h. remote_evolves (w_remote w h) (w_remote (env n w) h))"

definition controllers_ok :: "world \<Rightarrow> bool" where
  "controllers_ok w = (\<forall>h a. controller (w_remote w h) = Some a \<longrightarrow> reachable fresh_controller (admission_step {}) a)"

lemma controller_simps [simp]:
  "controller (Up a) = Some a" "controller (Unreachable a) = Some a" "controller Dead = None" "controller NotCreated = None"
  by (simp_all add: controller_def)

lemma reachable_steps:
  "reachable init step s \<Longrightarrow> step\<^sup>*\<^sup>* s t \<Longrightarrow> reachable init step t"
  by (rotate_tac, induction rule: rtranclp_induct) (auto intro: reachable.move)

text \<open>A closed, empty actor: once it is, it stays so, whatever happens.\<close>

definition retired :: "remote \<Rightarrow> bool" where
  "retired r = (case controller r of None \<Rightarrow> r = Dead | Some a \<Rightarrow> actor_draining a \<and> leases a = [])"

definition draining :: "remote \<Rightarrow> bool" where
  "draining r = (case controller r of None \<Rightarrow> r = Dead | Some a \<Rightarrow> actor_draining a)"

lemma drain_kept: "admission_step {} a b \<Longrightarrow> actor_draining a \<Longrightarrow> actor_draining b"
  by (erule admission_stepE)
    (auto simp: try_reserve_def start_lease_def finish_lease_def cancel_reservation_def drain_actor_def status_def Let_def
      split: option.splits)

lemma drain_kept_steps: "(admission_step {})\<^sup>*\<^sup>* a b \<Longrightarrow> actor_draining a \<Longrightarrow> actor_draining b"
  by (induction rule: rtranclp_induct) (auto intro: drain_kept)

lemma evolves_draining: "remote_evolves r r' \<Longrightarrow> draining r \<Longrightarrow> draining r'"
  by (cases r) (auto simp: remote_evolves_def draining_def dest: drain_kept_steps)

lemma retired_steps:
  "(admission_step {})\<^sup>*\<^sup>* a b \<Longrightarrow> admission_inv a \<Longrightarrow> actor_draining a \<Longrightarrow> leases a = [] \<Longrightarrow>
   actor_draining b \<and> leases b = []"
  using drained_steps [of "{}" a b] by simp

lemma evolves_retired:
  assumes "remote_evolves r r'" and "retired r" and inv: "\<And>a. controller r = Some a \<Longrightarrow> admission_inv a"
  shows "retired r'"
proof (cases "controller r")
  case None
  then have "r = Dead" using assms(2) by (simp add: retired_def)
  then show ?thesis using assms(1,2) by (simp add: remote_evolves_def)
next
  case (Some a)
  then have a: "admission_inv a" "actor_draining a" "leases a = []" using inv assms(2) by (simp_all add: retired_def)
  have "r' = Dead \<or> (\<exists>b. controller r' = Some b \<and> (admission_step {})\<^sup>*\<^sup>* a b)"
    using assms(1) Some by (cases r) (simp_all add: remote_evolves_def)
  then show ?thesis
  proof
    assume "\<exists>b. controller r' = Some b \<and> (admission_step {})\<^sup>*\<^sup>* a b"
    then obtain b where b: "controller r' = Some b" "(admission_step {})\<^sup>*\<^sup>* a b" by blast
    then show ?thesis using retired_steps [OF b(2) a] by (simp add: retired_def)
  qed (simp add: retired_def)
qed

lemma await_evolves: "env_ok env \<Longrightarrow> remote_evolves (w_remote w h) (w_remote (await env w) h)"
  by (simp add: await_def env_ok_def)

lemma await_controllers:
  assumes "env_ok env" and "controllers_ok w" shows "controllers_ok (await env w)"
  unfolding controllers_ok_def
proof (intro allI impI)
  fix h b
  assume b: "controller (w_remote (await env w) h) = Some b"
  have r: "reachable fresh_controller (admission_step {}) a" if "controller (w_remote w h) = Some a" for a
    using assms(2) that by (simp add: controllers_ok_def)
  then show "reachable fresh_controller (admission_step {}) b"
    using await_evolves [OF assms(1), of w h] b r
    by (cases "w_remote w h") (auto simp: remote_evolves_def intro: reachable_steps)
qed

lemma await_draining: "env_ok env \<Longrightarrow> draining (w_remote w h) \<Longrightarrow> draining (w_remote (await env w) h)"
  using await_evolves evolves_draining by blast

lemma await_retired:
  assumes "env_ok env" and "controllers_ok w" and "retired (w_remote w h)"
  shows "retired (w_remote (await env w) h)"
  by (rule evolves_retired [OF await_evolves [OF assms(1)] assms(3)])
    (use assms(2) admission.reach_inv in \<open>auto simp: controllers_ok_def\<close>)

lemma set_remote_at [simp]: "w_remote (set_remote h r w) g = (if g = h then r else w_remote w g)"
  by (simp add: set_remote_def)

lemma set_remote_controllers:
  "controllers_ok w \<Longrightarrow> reachable fresh_controller (admission_step {}) b \<Longrightarrow> controllers_ok (set_remote h (Up b) w)"
  by (auto simp: controllers_ok_def)

lemma remote_call_reply:
  assumes "remote_call env h f w = (Inr x, w')"
  obtains a b where "w_remote (await env w) h = Up a" and "f (w_now (await env w)) a = (x, b)"
    and "w' = await env (set_remote h (Up b) (await env w))"
  using assms by (auto simp: remote_call_def Let_def split: remote.splits prod.splits)

lemma remote_call_controllers:
  assumes "env_ok env" and "controllers_ok w" and "\<And>now a. admission_step {} a (snd (f now a))"
  shows "controllers_ok (snd (remote_call env h f w))"
proof -
  have c: "controllers_ok (await env w)" by (rule await_controllers [OF assms(1,2)])
  show ?thesis
  proof (cases "w_remote (await env w) h")
    case (Up a)
    then have "reachable fresh_controller (admission_step {}) a" using c by (metis controller_simps(1) controllers_ok_def)
    then have "reachable fresh_controller (admission_step {}) (snd (f (w_now (await env w)) a))"
      using assms(3) by (rule reachable.move)
    then show ?thesis
      using Up await_controllers [OF assms(1) set_remote_controllers [OF c]]
      by (cases "f (w_now (await env w)) a") (simp add: remote_call_def Let_def)
  qed (simp_all add: remote_call_def Let_def await_controllers [OF assms(1) c])
qed

lemma remote_status_controllers:
  "env_ok env \<Longrightarrow> controllers_ok w \<Longrightarrow> controllers_ok (snd (remote_status env h w))"
  unfolding remote_status_def by (rule remote_call_controllers) (auto intro: s_status)

lemma remote_drain_controllers:
  "env_ok env \<Longrightarrow> controllers_ok w \<Longrightarrow> controllers_ok (snd (remote_drain env h w))"
  unfolding remote_drain_def by (rule remote_call_controllers) (auto intro: s_drain)

lemma remote_drain_drains:
  assumes "env_ok env" and "remote_drain env h w = (Inr (), w')"
  shows "draining (w_remote w' h)"
proof -
  obtain a b where "drain_actor a = b" and w': "w' = await env (set_remote h (Up b) (await env w))"
    using assms(2) unfolding remote_drain_def by (elim remote_call_reply) auto
  then have "draining (w_remote (set_remote h (Up b) (await env w)) h)" by (auto simp: draining_def drain_actor_def)
  then show ?thesis unfolding w' by (rule await_draining [OF assms(1)])
qed

text \<open>A status of a draining actor that shows no lease is final.\<close>

lemma status_final:
  assumes "env_ok env" and "controllers_ok w" and "draining (w_remote w h)"
    and "remote_status env h w = (Inr s, w')"
    and "\<not> (0 < st_reserved_leases s \<or> 0 < st_running_leases s)"
  shows "retired (w_remote w' h)"
proof -
  obtain a b where a: "w_remote (await env w) h = Up a" and s: "status (w_now (await env w)) (w_now (await env w)) a = (s, b)"
    and w': "w' = await env (set_remote h (Up b) (await env w))"
    using assms(4) unfolding remote_status_def by (elim remote_call_reply)
  have c: "controllers_ok (await env w)" by (rule await_controllers [OF assms(1,2)])
  then have ra: "reachable fresh_controller (admission_step {}) a" using a by (metis controller_simps(1) controllers_ok_def)
  have "actor_draining a" using await_draining [OF assms(1,3)] a by (simp add: draining_def)
  then have "actor_draining b" using s by (auto simp: status_def Let_def)
  moreover have "leases b = []"
    using s assms(5) by (auto simp: status_def Let_def reserved_count_def)
  ultimately have "retired (w_remote (set_remote h (Up b) (await env w)) h)" by (simp add: retired_def)
  moreover have "reachable fresh_controller (admission_step {}) b"
    using ra s by (metis reachable.move s_status snd_conv)
  ultimately show ?thesis
    unfolding w' by (intro await_retired assms(1) set_remote_controllers c)
qed

section \<open>The reaper\<close>

lemma bindW_Inr:
  "bindW m f = (Inr y, w') \<longleftrightarrow> (\<exists>x w1. m = (Inr x, w1) \<and> f x w1 = (Inr y, w'))"
  by (auto simp: bindW_def split: prod.splits sum.splits)

lemma drain_and_check_safe:
  assumes "env_ok env" and "controllers_ok w"
    and "st_state (cd_status c) = DRAINING \<Longrightarrow> draining (w_remote w (cd_handle c))"
    and "drain_and_check env c w = (Inr True, w')"
  shows "retired (w_remote w' (cd_handle c))"
proof -
  let ?m = "if st_state (cd_status c) \<noteq> DRAINING then remote_drain env (cd_handle c) w else (Inr (), w)"
  obtain w1 where w1: "?m = (Inr (), w1)"
    and k: "bindW (remote_status env (cd_handle c) w1) (\<lambda>latest w2.
       (Inr (\<not> (0 < st_reserved_leases latest \<or> 0 < st_running_leases latest)), w2)) = (Inr True, w')"
    using assms(4) unfolding drain_and_check_def bindW_Inr by auto
  obtain s where s: "remote_status env (cd_handle c) w1 = (Inr s, w')"
    "\<not> (0 < st_reserved_leases s \<or> 0 < st_running_leases s)"
    using k unfolding bindW_Inr by auto
  have "w1 = snd ?m" by (simp only: w1 snd_conv)
  then have "controllers_ok w1" using assms(1,2) remote_drain_controllers by simp
  moreover have "draining (w_remote w1 (cd_handle c))"
    using w1 assms(3) remote_drain_drains [OF assms(1), of "cd_handle c" w w1] by (auto split: if_splits)
  ultimately show ?thesis using status_final [OF assms(1) _ _ s] by blast
qed

lemma reap_candidate_cases:
  assumes "reap_candidate env cfg k desired c (current, n) w = (Inr (current', n'), w')"
  obtains (kept) "current' = current" and "n' = n"
  | (killed) w1 where "reapable cfg k desired c current w" and "drain_and_check env c w = (Inr True, w1)"
      and "current' = current - 1" and "n' = Suc n"
      and "w' = (kill (cd_handle c) w1)\<lparr>w_actors := AList.delete (k, cd_replica c) (w_actors w1)\<rparr>"
proof (cases "reapable cfg k desired c current w")
  case True
  then obtain b w1 where d: "drain_and_check env c w = (Inr b, w1)"
    using assms by (auto simp: reap_candidate_def bindW_Inr)
  show thesis
  proof (cases b)
    case True
    then have "(current - 1, Suc n) = (current', n')"
      and w': "(kill (cd_handle c) w1)\<lparr>w_actors := AList.delete (k, cd_replica c) (w_actors w1)\<rparr> = w'"
      using assms d \<open>reapable cfg k desired c current w\<close> by (simp_all add: reap_candidate_def bindW_def)
    moreover have "drain_and_check env c w = (Inr True, w1)" using d True by simp
    ultimately show thesis using killed \<open>reapable cfg k desired c current w\<close> by auto
  next
    case False
    then have "(current, n) = (current', n')"
      using assms d \<open>reapable cfg k desired c current w\<close> by (simp add: reap_candidate_def bindW_def)
    then show thesis using kept by simp
  qed
next
  case False
  then have "(current, n) = (current', n')" using assms by (simp add: reap_candidate_def)
  then show thesis using kept by simp
qed

lemma reap_loop_count:
  assumes "forW (reap_candidate env cfg k desired) cs (current, n) w = (Inr (current', n'), w')" and "1 \<le> desired"
  shows "int n' - int n = current - current' \<and> n \<le> n' \<and> (current' = current \<or> desired \<le> current' \<or> current' = 0)"
  using assms(1)
proof (induction cs arbitrary: current n w)
  case (Cons c cs)
  then obtain cur1 n1 w1 where one: "reap_candidate env cfg k desired c (current, n) w = (Inr (cur1, n1), w1)"
    and rest: "forW (reap_candidate env cfg k desired) cs (cur1, n1) w1 = (Inr (current', n'), w')"
    by (auto simp: bindW_Inr)
  note IH = Cons.IH [OF rest]
  show ?case
  proof (cases rule: reap_candidate_cases [OF one])
    case 1
    then show ?thesis using IH by simp
  next
    case (2 w2)
    then have "current = 1 \<or> desired < current" by (simp add: reapable_def Let_def)
    then show ?thesis using IH 2(3,4) assms(2) by auto
  qed
qed simp

section \<open>The tables of the scheduler\<close>

definition keys_ok :: "nat \<Rightarrow> (string \<times> nat) list \<Rightarrow> (string \<times> nat) list \<Rightarrow> bool" where
  "keys_ok mx as cs = (distinct as \<and> distinct cs \<and> set as \<inter> set cs = {} \<and> (\<forall>k r. (k, r) \<in> set as \<union> set cs \<longrightarrow> r < mx))"

definition pool_inv :: "nat \<Rightarrow> world \<Rightarrow> bool" where
  "pool_inv mx w = keys_ok mx (map fst (w_actors w)) (map fst (w_creating w))"

lemma pool_inv_same: "w_actors w' = w_actors w \<Longrightarrow> w_creating w' = w_creating w \<Longrightarrow> pool_inv mx w' = pool_inv mx w"
  by (simp add: pool_inv_def)

lemma find_filter: "find P xs = (case filter P xs of [] \<Rightarrow> None | x # _ \<Rightarrow> Some x)"
  by (induction xs) auto

lemma fill_pool_eq:
  "fill_pool mx k n occ cr =
     fold (\<lambda>r. AList.update (k, r) False) (take (n - length occ) (filter (\<lambda>r. r \<notin> set occ) [0..<mx])) cr"
proof (induction mx k n occ cr rule: fill_pool.induct)
  case (1 mx k n occ cr)
  let ?xs = "filter (\<lambda>r. r \<notin> set occ) [0..<mx]"
  show ?case
  proof (cases "length occ < n")
    case True
    show ?thesis
    proof (cases ?xs)
      case Nil
      then have "first_free mx occ = None" by (simp add: first_free_def find_filter)
      then show ?thesis using True Nil by (simp add: fill_pool.simps [of mx k n occ cr])
    next
      case (Cons r rs)
      then have f: "first_free mx occ = Some r" by (simp add: first_free_def find_filter)
      have "filter (\<lambda>x. x \<notin> set (r # occ)) [0..<mx] = filter (\<lambda>x. x \<noteq> r) ?xs"
        by (auto intro!: filter_cong)
      also have "\<dots> = rs"
      proof -
        have "distinct (r # rs)" unfolding Cons [symmetric] by simp
        then have "filter (\<lambda>x. x \<noteq> r) (r # rs) = rs" by (auto simp: filter_id_conv)
        then show ?thesis by (simp only: Cons)
      qed
      finally have rs: "filter (\<lambda>x. x \<notin> set (r # occ)) [0..<mx] = rs" .
      have "n - length occ = Suc (n - length (r # occ))" using True by simp
      moreover have "fill_pool mx k n occ cr =
          fold (\<lambda>r. AList.update (k, r) False) (take (n - length (r # occ)) rs) (AList.update (k, r) False cr)"
        using True f 1 [OF True f] unfolding rs by (simp only: fill_pool.simps [of mx k n occ cr] if_True option.case)
      ultimately show ?thesis unfolding Cons by (simp only: take_Suc_Cons fold.simps comp_apply)
    qed
  next
    case False
    then show ?thesis by (simp add: fill_pool.simps [of mx k n occ cr])
  qed
qed

lemma set_replicas: "r \<in> set (replicas k d) \<longleftrightarrow> (k, r) \<in> set (map fst d)"
  by (force simp: replicas_def)

lemma replicas_append: "replicas k (d @ e) = replicas k d @ replicas k e"
  by (simp add: replicas_def)

lemma replicas_new: "replicas k (map (\<lambda>r. ((k, r), v)) rs) = rs" "p \<noteq> k \<Longrightarrow> replicas p (map (\<lambda>r. ((k, r), v)) rs) = []"
  by (induction rs) (auto simp: replicas_def)

lemma distinct_replicas: "distinct (map fst d) \<Longrightarrow> distinct (replicas k d)"
proof (induction d)
  case (Cons x d)
  then show ?case by (cases x) (auto simp: replicas_def image_iff)
qed (simp add: replicas_def)

lemma fold_update_new:
  "distinct rs \<Longrightarrow> (\<And>r. r \<in> set rs \<Longrightarrow> (k, r) \<notin> set (map fst cr)) \<Longrightarrow>
   fold (\<lambda>r. AList.update (k, r) v) rs cr = cr @ map (\<lambda>r. ((k, r), v)) rs"
proof (induction rs arbitrary: cr)
  case (Cons r rs)
  then have "AList.update (k, r) v cr = cr @ [((k, r), v)]" by (intro length_update_new) simp
  moreover have "fold (\<lambda>r. AList.update (k, r) v) rs (cr @ [((k, r), v)]) = (cr @ [((k, r), v)]) @ map (\<lambda>r. ((k, r), v)) rs"
    by (rule Cons.IH) (use Cons.prems in auto)
  ultimately show ?case by simp
qed simp

definition new_replicas :: "nat \<Rightarrow> nat \<Rightarrow> nat list \<Rightarrow> nat list" where
  "new_replicas mx n occ = take (n - length occ) (filter (\<lambda>r. r \<notin> set occ) [0..<mx])"

lemma schedule_creating:
  "w_creating (snd (schedule_actor_count cfg k n w)) =
     w_creating w @ map (\<lambda>r. ((k, r), False))
       (new_replicas (nat (s_max_per_profile cfg)) (nat (min n (s_max_per_profile cfg))) (occupied k w))"
proof -
  have "fold (\<lambda>r. AList.update (k, r) False) rs (w_creating w) = w_creating w @ map (\<lambda>r. ((k, r), False)) rs"
    if "rs = new_replicas (nat (s_max_per_profile cfg)) (nat (min n (s_max_per_profile cfg))) (occupied k w)" for rs
  proof (rule fold_update_new)
    show "distinct rs" by (simp add: that new_replicas_def)
    fix r assume "r \<in> set rs"
    then have "r \<notin> set (occupied k w)" by (auto simp: that new_replicas_def dest: in_set_takeD)
    then show "(k, r) \<notin> set (map fst (w_creating w))" by (simp add: occupied_def set_replicas)
  qed
  then show ?thesis by (simp add: schedule_actor_count_def Let_def fill_pool_eq new_replicas_def)
qed

lemma schedule_other:
  "w_actors (snd (schedule_actor_count cfg k n w)) = w_actors w"
  by (simp add: schedule_actor_count_def Let_def)

lemma set_occupied:
  "r \<in> set (occupied k w) \<longleftrightarrow> (k, r) \<in> set (map fst (w_actors w)) \<union> set (map fst (w_creating w))"
  unfolding occupied_def set_remdups set_append Un_iff set_replicas by (rule refl)

lemma occupied_inv:
  assumes "pool_inv mx w"
  shows "occupied k w = replicas k (w_actors w) @ replicas k (w_creating w)"
    and "distinct (occupied k w)" and "set (occupied k w) \<subseteq> {..<mx}" and "length (occupied k w) \<le> mx"
proof -
  note inv = assms [unfolded pool_inv_def keys_ok_def]
  have "set (replicas k (w_actors w)) \<inter> set (replicas k (w_creating w)) = {}"
  proof (rule equals0I)
    fix r assume "r \<in> set (replicas k (w_actors w)) \<inter> set (replicas k (w_creating w))"
    then have "(k, r) \<in> set (map fst (w_actors w)) \<inter> set (map fst (w_creating w))" unfolding Int_iff set_replicas .
    then show False using inv by blast
  qed
  then have "distinct (replicas k (w_actors w) @ replicas k (w_creating w))"
    using inv by (simp add: distinct_replicas)
  then show o: "occupied k w = replicas k (w_actors w) @ replicas k (w_creating w)"
    unfolding occupied_def by (rule distinct_remdups_id)
  show d: "distinct (occupied k w)" by (simp add: occupied_def)
  show s: "set (occupied k w) \<subseteq> {..<mx}"
    using inv unfolding subset_iff set_occupied lessThan_iff by blast
  show "length (occupied k w) \<le> mx"
    using card_mono [OF _ s] distinct_card [OF d] by simp
qed

lemma length_free:
  assumes "distinct occ" and "set occ \<subseteq> {..<mx}"
  shows "length (filter (\<lambda>r. r \<notin> set occ) [0..<mx]) = mx - length occ"
proof -
  have "length (filter (\<lambda>r. r \<notin> set occ) [0..<mx]) = card (set (filter (\<lambda>r. r \<notin> set occ) [0..<mx]))"
    by (rule distinct_card [symmetric]) simp
  also have "set (filter (\<lambda>r. r \<notin> set occ) [0..<mx]) = {..<mx} - set occ" by auto
  also have "card \<dots> = mx - length occ"
    using assms by (simp add: card_Diff_subset distinct_card)
  finally show ?thesis .
qed

lemma keys_ok_add:
  assumes "keys_ok mx as cs" and "distinct rs" and "\<And>r. r \<in> set rs \<Longrightarrow> r < mx \<and> (k, r) \<notin> set as \<union> set cs"
  shows "keys_ok mx as (cs @ map (Pair k) rs)"
  using assms by (auto simp: keys_ok_def distinct_map inj_on_def)

lemma schedule_inv:
  assumes "pool_inv (nat (s_max_per_profile cfg)) w"
  shows "pool_inv (nat (s_max_per_profile cfg)) (snd (schedule_actor_count cfg k n w))"
proof -
  define rs where "rs = new_replicas (nat (s_max_per_profile cfg)) (nat (min n (s_max_per_profile cfg))) (occupied k w)"
  have d: "distinct rs" by (simp add: rs_def new_replicas_def)
  have n: "r < nat (s_max_per_profile cfg) \<and> (k, r) \<notin> set (map fst (w_actors w)) \<union> set (map fst (w_creating w))"
    if "r \<in> set rs" for r
    using that unfolding rs_def new_replicas_def set_occupied [symmetric] by (auto dest!: in_set_takeD)
  have "keys_ok (nat (s_max_per_profile cfg)) (map fst (w_actors w)) (map fst (w_creating w) @ map (Pair k) rs)"
    by (rule keys_ok_add [OF assms [unfolded pool_inv_def] d n])
  then show ?thesis
    unfolding pool_inv_def schedule_creating schedule_other rs_def [symmetric] by (simp add: comp_def)
qed

text \<open>The other changes of the tables.\<close>

lemma keys_ok_delete:
  "keys_ok mx as cs \<Longrightarrow> keys_ok mx (removeAll x as) cs" "keys_ok mx as cs \<Longrightarrow> keys_ok mx as (removeAll x cs)"
  by (auto simp: keys_ok_def distinct_removeAll)

lemma map_fst_delete: "map fst (AList.delete k d) = removeAll k (map fst d)"
  by (induction d) auto

lemma keys_delete_pool:
  "pool_inv mx w \<Longrightarrow> pool_inv mx (w\<lparr>w_actors := AList.delete key (w_actors w)\<rparr>)"
  "pool_inv mx w \<Longrightarrow> pool_inv mx (end_creation key w)"
proof -
  assume inv: "pool_inv mx w"
  have "keys_ok mx (removeAll key (map fst (w_actors w))) (map fst (w_creating w))"
    "keys_ok mx (map fst (w_actors w)) (removeAll key (map fst (w_creating w)))"
    using inv keys_ok_delete by (simp_all only: pool_inv_def)
  then show "pool_inv mx (w\<lparr>w_actors := AList.delete key (w_actors w)\<rparr>)" "pool_inv mx (end_creation key w)"
    by (simp_all add: pool_inv_def end_creation_def map_fst_delete)
qed

lemma keys_ok_insert:
  "keys_ok mx as cs \<Longrightarrow> snd x < mx \<Longrightarrow> keys_ok mx (if x \<in> set as then as else as @ [x]) (removeAll x cs)"
  by (cases x) (auto simp: keys_ok_def distinct_removeAll)

lemma map_fst_update: "map fst (AList.update k v d) = (if k \<in> set (map fst d) then map fst d else map fst d @ [k])"
  by (induction d) auto

lemma created_pool:
  assumes "pool_inv mx w" and "r < mx"
  shows "pool_inv mx (end_creation (k, r) (w\<lparr>w_actors := AList.update (k, r) g (w_actors w)\<rparr>))"
proof -
  have "keys_ok mx (if (k, r) \<in> set (map fst (w_actors w)) then map fst (w_actors w) else map fst (w_actors w) @ [(k, r)])
      (removeAll (k, r) (map fst (w_creating w)))"
    by (rule keys_ok_insert) (use assms in \<open>simp_all only: pool_inv_def snd_conv\<close>)
  then show ?thesis by (simp add: pool_inv_def end_creation_def map_fst_delete map_fst_update del: set_map)
qed

lemma cancel_pool: "pool_inv mx w \<Longrightarrow> pool_inv mx (cancel_creation key started w)"
proof -
  assume inv: "pool_inv mx w"
  show ?thesis
  proof (cases "map_of (w_creating w) key = None \<or> started")
    case True
    then show ?thesis using inv keys_delete_pool(2) by (auto simp: cancel_creation_def split: option.split)
  next
    case False
    then have "key \<in> set (map fst (w_creating w))" by (auto simp: map_of_eq_None_iff)
    then have "map fst (w_creating (cancel_creation key started w)) = map fst (w_creating w)"
      using False by (auto simp: cancel_creation_def map_fst_update simp del: set_map)
    moreover have "w_actors (cancel_creation key started w) = w_actors w"
      using False by (auto simp: cancel_creation_def)
    ultimately show ?thesis using inv by (simp only: pool_inv_def)
  qed
qed

lemma discover_pool:
  assumes "pool_inv mx w" and "r < mx"
  shows "pool_inv mx (discover_actor sha k r w)"
proof (cases "map_of (w_actors w) (k, r) \<noteq> None \<or> map_of (w_creating w) (k, r) \<noteq> None \<or> get_actor (actor_name sha k r) w = None")
  case True
  then show ?thesis using assms(1) by (auto simp: discover_actor_def)
next
  case False
  then obtain h where h: "discover_actor sha k r w = w\<lparr>w_actors := AList.update (k, r) h (w_actors w)\<rparr>"
    by (auto simp: discover_actor_def)
  have n: "(k, r) \<notin> set (map fst (w_actors w))" "(k, r) \<notin> set (map fst (w_creating w))"
    using False by (simp_all add: map_of_eq_None_iff)
  then have "keys_ok mx (map fst (w_actors w) @ [(k, r)]) (map fst (w_creating w))"
    using assms by (auto simp: pool_inv_def keys_ok_def simp del: set_map)
  then show ?thesis using n unfolding h by (simp add: pool_inv_def map_fst_update del: set_map)
qed

lemma discover_all_pool: "pool_inv (nat (s_max_per_profile cfg)) w \<Longrightarrow> pool_inv (nat (s_max_per_profile cfg)) (discover_actors cfg sha k w)"
proof -
  have "pool_inv mx w \<Longrightarrow> \<forall>r \<in> set rs. r < mx \<Longrightarrow> pool_inv mx (fold (discover_actor sha k) rs w)" for mx rs w
    by (induction rs arbitrary: w) (auto intro: discover_pool)
  then show "pool_inv (nat (s_max_per_profile cfg)) w \<Longrightarrow> pool_inv (nat (s_max_per_profile cfg)) (discover_actors cfg sha k w)"
    by (simp add: discover_actors_def)
qed

lemma drop_unavailable_pool: "pool_inv mx w \<Longrightarrow> pool_inv mx (drop_unavailable k x w)"
  using keys_delete_pool(1) by (cases x) (simp add: drop_unavailable_def)

text \<open>
  The coroutines keep the tables in order whatever runs between their steps, as long as that does: the
  other coroutines are of this kind themselves.
\<close>

definition env_pool :: "nat \<Rightarrow> env \<Rightarrow> bool" where
  "env_pool mx env = (\<forall>n w. pool_inv mx w \<longrightarrow> pool_inv mx (env n w))"

definition keeps :: "nat \<Rightarrow> (world \<Rightarrow> 'a \<times> world) \<Rightarrow> bool" where
  "keeps mx f = (\<forall>w. pool_inv mx w \<longrightarrow> pool_inv mx (snd (f w)))"

lemma keepsI: "(\<And>w. pool_inv mx w \<Longrightarrow> pool_inv mx (snd (f w))) \<Longrightarrow> keeps mx f"
  by (simp add: keeps_def)

lemma keepsD: "keeps mx f \<Longrightarrow> pool_inv mx w \<Longrightarrow> pool_inv mx (snd (f w))"
  by (simp add: keeps_def)

lemma await_pool: "env_pool mx env \<Longrightarrow> pool_inv mx w \<Longrightarrow> pool_inv mx (await env w)"
  by (simp add: env_pool_def await_def pool_inv_same [of "x\<lparr>w_tick := n\<rparr>" x for x n])

lemma bindW_pool:
  "pool_inv mx (snd m) \<Longrightarrow> (\<And>x. keeps mx (f x)) \<Longrightarrow> pool_inv mx (snd (bindW m f))"
  by (cases m; cases "fst m") (auto simp: bindW_def keeps_def)

lemma forW_keeps: "(\<And>x s. keeps mx (f x s)) \<Longrightarrow> keeps mx (forW f xs s)"
proof (induction xs arbitrary: s)
  case (Cons x xs)
  show ?case
    by (rule keepsI) (simp add: bindW_pool Cons keepsD [OF Cons.prems])
qed (simp add: keeps_def)

lemma same_tables_pool:
  "pool_inv mx w \<Longrightarrow> pool_inv mx (set_remote h r w)" "pool_inv mx w \<Longrightarrow> pool_inv mx (kill h w)"
  "pool_inv mx w \<Longrightarrow> pool_inv mx (forget_profile k w)"
  by (simp_all add: pool_inv_def set_remote_def kill_def forget_profile_def)

lemma remote_call_keeps: "env_pool mx env \<Longrightarrow> keeps mx (remote_call env h f)"
  by (rule keepsI) (auto simp: remote_call_def Let_def await_pool same_tables_pool split: remote.split prod.split)

lemma remote_keeps:
  "env_pool mx env \<Longrightarrow> keeps mx (remote_status env h)" "env_pool mx env \<Longrightarrow> keeps mx (remote_drain env h)"
  "env_pool mx env \<Longrightarrow> keeps mx (remote_reserve env lid q h)"
  by (rule keepsI, simp add: remote_status_def remote_drain_def remote_reserve_def keepsD [OF remote_call_keeps])+

lemma return_keeps [simp]: "keeps mx (Pair x)"
  by (simp add: keeps_def)

lemma legacy_keeps: "env_pool mx env \<Longrightarrow> keeps mx (retire_legacy_actor env name ok)"
proof (rule keepsI)
  fix w assume e: "env_pool mx env" and i: "pool_inv mx w"
  show "pool_inv mx (snd (retire_legacy_actor env name ok w))"
  proof (cases "get_actor name w")
    case (Some h)
    obtain x1 w1 where d: "remote_drain env h w = (x1, w1)" by fastforce
    have i1: "pool_inv mx w1" using keepsD [OF remote_keeps(2) [OF e] i, of h] d by simp
    obtain x2 w2 where st: "remote_status env h w1 = (x2, w2)" by fastforce
    have i2: "pool_inv mx w2" using keepsD [OF remote_keeps(1) [OF e] i1, of h] st by simp
    show ?thesis
      using i1 i2 Some d st by (cases x1; cases x2) (simp_all add: retire_legacy_actor_def same_tables_pool)
  qed (simp add: retire_legacy_actor_def i)
qed

lemma prepare_keeps:
  assumes "env_pool (nat (s_max_per_profile cfg)) env"
  shows "keeps (nat (s_max_per_profile cfg)) (prepare_pool env cfg sha k)"
proof (rule keepsI)
  let ?mx = "nat (s_max_per_profile cfg)"
  fix w assume i: "pool_inv ?mx w"
  have a: "pool_inv ?mx (await env w)" by (rule await_pool [OF assms i])
  have l: "keeps ?mx (retire_legacy_actors env cfg sha k)"
    unfolding retire_legacy_actors_def by (rule keepsI) (rule keepsD [OF forW_keeps], rule legacy_keeps [OF assms])
  have m: "keeps ?mx (\<lambda>w1. (Inr () :: pool_error + unit, if ok then w1\<lparr>w_checked := List.insert k (w_checked w1)\<rparr> else w1))" for ok
    by (rule keepsI) (simp add: pool_inv_def)
  have d: "keeps ?mx (\<lambda>w2. (Inr () :: pool_error + unit, discover_actors cfg sha k w2))"
    by (rule keepsI) (simp add: discover_all_pool)
  show "pool_inv ?mx (snd (prepare_pool env cfg sha k w))"
    unfolding prepare_pool_def Let_def
    by (rule bindW_pool) (use a in \<open>simp_all add: d bindW_pool keepsD [OF l] m\<close>)
qed

lemma statuses_keeps:
  assumes "env_pool mx env" shows "keeps mx (actor_statuses env k)"
proof (rule keepsI)
  fix w assume i: "pool_inv mx w"
  have s: "keeps mx (status_of env k x acc)" for x acc
  proof (rule keepsI)
    fix w assume "pool_inv mx w"
    then have "pool_inv mx (snd (remote_status env (snd x) w))" by (rule keepsD [OF remote_keeps(1) [OF assms]])
    then show "pool_inv mx (snd (status_of env k x acc w))"
      by (auto simp: status_of_def split: prod.splits sum.splits)
  qed
  have f: "pool_inv mx v \<Longrightarrow> pool_inv mx (fold (drop_unavailable k) gone v)" for gone v
    by (induction gone arbitrary: v) (auto intro: drop_unavailable_pool)
  show "pool_inv mx (snd (actor_statuses env k w))"
    unfolding actor_statuses_def
    by (rule bindW_pool [OF keepsD [OF forW_keeps i]]) (use s f in \<open>auto intro!: keepsI\<close>)
qed

lemma snapshot_keeps:
  "env_pool (nat (s_max_per_profile cfg)) env \<Longrightarrow> keeps (nat (s_max_per_profile cfg)) (pool_snapshot_of env cfg sha k)"
  unfolding pool_snapshot_of_def
  by (rule keepsI, rule bindW_pool) (auto intro: keepsD [OF prepare_keeps] statuses_keeps)

lemma count_desired_pool: "pool_inv mx w \<Longrightarrow> pool_inv mx (snd (count_desired cfg k cands p w))"
  by (simp add: count_desired_def pool_inv_def split: prod.split)

lemma offer_keeps: "env_pool mx env \<Longrightarrow> keeps mx (offer env lid q cs)"
proof (induction cs)
  case (Cons c cs)
  have k: "keeps mx (\<lambda>w1. case res of Inl _ \<Rightarrow> (Inl NotIo, w1) | Inr None \<Rightarrow> offer env lid q cs w1
       | Inr (Some l) \<Rightarrow> (Inr (Some (cd_handle c, l)), w1))" for res :: "admission_error + string option"
    using Cons by (auto simp: keeps_def split: sum.split option.split)
  show ?case
    by (rule keepsI) (simp only: offer.simps bindW_pool [OF keepsD [OF remote_keeps(3) [OF Cons.prems]] k])
qed (simp add: keeps_def)

lemma wait_keeps: "env_pool mx env \<Longrightarrow> keeps mx (wait_for_actor_creation env tasks)"
  by (rule keepsI) (simp add: wait_for_actor_creation_def Let_def await_pool)

lemma capacity_keeps:
  assumes e: "env_pool (nat (s_max_per_profile cfg)) env"
  shows "keeps (nat (s_max_per_profile cfg)) (wait_for_capacity env cfg k n tasks)"
proof (rule keepsI)
  let ?mx = "nat (s_max_per_profile cfg)"
  fix w assume i: "pool_inv ?mx w"
  obtain tasks' w1 where t: "(if tasks = [] \<and> int n + int (length tasks) < s_max_per_profile cfg
      then schedule_actor_count cfg k (int n + int (length tasks) + 1) (await env w) else (tasks, w)) = (tasks', w1)"
    by fastforce
  have "pool_inv ?mx (snd (tasks', w1))"
    unfolding t [symmetric] using i schedule_inv [OF await_pool [OF e i]] by simp
  then have w1: "pool_inv ?mx w1" by simp
  then have "pool_inv ?mx (snd (wait_for_actor_creation env tasks' w1))" by (rule keepsD [OF wait_keeps [OF e]])
  then show "pool_inv ?mx (snd (wait_for_capacity env cfg k n tasks w))"
    using w1 by (cases "wait_for_actor_creation env tasks' w1") (simp add: wait_for_capacity_def Let_def t)
qed

lemma reserve_round_keeps:
  assumes e: "env_pool (nat (s_max_per_profile cfg)) env"
  shows "keeps (nat (s_max_per_profile cfg)) (reserve_round env cfg sha lid k q)"
proof -
  let ?mx = "nat (s_max_per_profile cfg)"
  have tail: "keeps ?mx (\<lambda>w4. case got of
           None \<Rightarrow> let (res, w5) = wait_for_capacity env cfg k n tasks w4 in (Inr res, w5)
         | Some (h, l) \<Rightarrow> (Inr (Assigned h l) :: pool_error + round_result, w4))" for got n tasks
  proof (rule keepsI)
    fix w4 assume i: "pool_inv ?mx w4"
    have "pool_inv ?mx (snd (wait_for_capacity env cfg k n tasks w4))" by (rule keepsD [OF capacity_keeps [OF e] i])
    then show "pool_inv ?mx (snd (case got of
           None \<Rightarrow> let (res, w5) = wait_for_capacity env cfg k n tasks w4 in (Inr res, w5)
         | Some (h, l) \<Rightarrow> (Inr (Assigned h l) :: pool_error + round_result, w4)))"
      using i by (auto split: option.split prod.split)
  qed
  show ?thesis
    unfolding reserve_round_def
  proof (rule keepsI, rule bindW_pool [OF keepsD [OF snapshot_keeps [OF e]]], assumption, rule keepsI, goal_cases)
    case (1 w cands w1)
    obtain desired w2 where c: "count_desired cfg k cands 1 w1 = (desired, w2)" by fastforce
    obtain tasks w3 where t: "schedule_actor_count cfg k desired (await env w2) = (tasks, w3)" by fastforce
    have "pool_inv ?mx w2" using count_desired_pool [OF 1(2), of cfg k cands 1] c by simp
    then have "pool_inv ?mx w3" using schedule_inv [OF await_pool [OF e], of w2 k desired] t by simp
    then have "pool_inv ?mx (snd (offer env lid q (order_candidates cands (Some (s_target_io cfg))) w3))"
      by (rule keepsD [OF offer_keeps [OF e]])
    then have "pool_inv ?mx (snd (bindW (offer env lid q (order_candidates cands (Some (s_target_io cfg))) w3) (\<lambda>got w4.
         case got of None \<Rightarrow> let (res, w5) = wait_for_capacity env cfg k (length cands) tasks w4 in (Inr res, w5)
         | Some (h, l) \<Rightarrow> (Inr (Assigned h l), w4))))"
      by (rule bindW_pool) (rule tail)
    then show ?case by (simp only: c Let_def prod.case t)
  qed
qed

lemma reap_keeps:
  assumes e: "env_pool (nat (s_max_per_profile cfg)) env"
  shows "keeps (nat (s_max_per_profile cfg)) (reap_idle_actors env cfg sha)"
proof -
  let ?mx = "nat (s_max_per_profile cfg)"
  have check: "keeps ?mx (drain_and_check env c)" for c
  proof (rule keepsI)
    fix w assume i: "pool_inv ?mx w"
    have "pool_inv ?mx (snd (if st_state (cd_status c) \<noteq> DRAINING then remote_drain env (cd_handle c) w else (Inr (), w)))"
      using i keepsD [OF remote_keeps(2) [OF e] i] by simp
    moreover have "keeps ?mx (\<lambda>w2. (Inr (\<not> (0 < st_reserved_leases latest \<or> 0 < st_running_leases latest)) :: pool_error + bool, w2))" for latest
      by (simp add: keeps_def)
    ultimately show "pool_inv ?mx (snd (drain_and_check env c w))"
      unfolding drain_and_check_def
      by (intro bindW_pool keepsI keepsD [OF remote_keeps(1) [OF e]]) (simp_all only: snd_conv)
  qed
  have cand: "keeps ?mx (reap_candidate env cfg k desired c s)" for k desired c s
  proof (rule keepsI)
    fix w assume i: "pool_inv ?mx w"
    have "pool_inv ?mx ((kill h v)\<lparr>w_actors := AList.delete key (w_actors v)\<rparr>)" if "pool_inv ?mx v" for h v key
      using keys_delete_pool(1) [OF same_tables_pool(2) [OF that, of h], of key] by (simp add: kill_def set_remote_def)
    then have "keeps ?mx (\<lambda>w1. if free then (Inr (current - 1, Suc reaped) :: pool_error + int \<times> nat,
                     (kill (cd_handle c) w1)\<lparr>w_actors := AList.delete (k, cd_replica c) (w_actors w1)\<rparr>)
       else (Inr (current, reaped), w1))" for free current reaped
      by (auto simp: keeps_def)
    then show "pool_inv ?mx (snd (reap_candidate env cfg k desired c s w))"
      using i by (cases s) (simp add: reap_candidate_def bindW_pool keepsD [OF check])
  qed
  have p: "keeps ?mx (reap_profile env cfg sha k reaped)" for k reaped
    unfolding reap_profile_def
  proof (rule keepsI, rule bindW_pool [OF keepsD [OF prepare_keeps [OF e]]], assumption, rule keepsI,
      rule bindW_pool [OF keepsD [OF statuses_keeps [OF e]]], assumption, rule keepsI, goal_cases)
    case (1 w u w1 cands w2)
    obtain desired w3 where c: "count_desired cfg k cands 0 w2 = (desired, w3)" by fastforce
    have "pool_inv ?mx w3" using count_desired_pool [OF 1(3), of cfg k cands 0] c by simp
    then have "pool_inv ?mx (snd (forW (reap_candidate env cfg k desired) (rev (sort_key cd_replica cands)) (int (actor_count k w2), reaped) w3))"
      by - (rule keepsD [OF forW_keeps], rule cand, assumption)
    then have "pool_inv ?mx (snd (bindW (forW (reap_candidate env cfg k desired) (rev (sort_key cd_replica cands)) (int (actor_count k w2), reaped) w3)
        (\<lambda>(_, n) w4. (Inr n, w4))))"
      by (rule bindW_pool) (auto simp: keeps_def)
    then show ?case by (simp only: Let_def c prod.case)
  qed
  show ?thesis
    unfolding reap_idle_actors_def by (rule keepsI, rule keepsD [OF forW_keeps], rule p, assumption)
qed

lemma create_keeps:
  assumes e: "env_pool mx env" and "r < mx"
  shows "keeps mx (create_actor_replica env cfg sha h works k r)"
proof (rule keepsI)
  fix w assume i: "pool_inv mx w"
  let ?name = "actor_name sha k r"
  let ?got = "case get_actor ?name w of Some g \<Rightarrow> (Inr g, w) | None \<Rightarrow> create_actor env cfg h works ?name (await env w)"
  have c: "pool_inv mx (snd (create_actor env cfg h works name v))" if "pool_inv mx v" for name v
    using same_tables_pool(1) [OF that, of h] that
    by (auto simp: create_actor_def pool_inv_same [of "x\<lparr>w_names := n\<rparr>" x for x n] split: option.split sum.split bool.split)
  have g: "pool_inv mx (snd ?got)" using i c [OF await_pool [OF e i]] by (auto split: option.split)
  let ?all = "bindW ?got (\<lambda>g w1. bindW (remote_status env g w1)
      (\<lambda>_ w2. (Inr g, w2\<lparr>w_actors := AList.update (k, r) g (w_actors w2)\<rparr>)))"
  have eq: "snd (create_actor_replica env cfg sha h works k r w) = end_creation (k, r) (snd ?all)"
    unfolding create_actor_replica_def Let_def by (cases ?all; cases "fst ?all") simp_all
  obtain x v1 where v1: "?got = (x, v1)" by fastforce
  then have i1: "pool_inv mx v1" using g by simp
  show "pool_inv mx (snd (create_actor_replica env cfg sha h works k r w))"
  proof (cases x)
    case (Inl err)
    then show ?thesis unfolding eq v1 by (simp add: bindW_def keys_delete_pool(2) [OF i1])
  next
    case (Inr g')
    obtain y w2 where w2: "remote_status env g' v1 = (y, w2)" by fastforce
    then have i2: "pool_inv mx w2" using keepsD [OF remote_keeps(1) [OF e] i1, of g'] by simp
    show ?thesis
      using keys_delete_pool(2) [OF i2, of "(k, r)"] created_pool [OF i2 assms(2), of k g']
      unfolding eq v1 by (cases y) (simp_all add: bindW_def Inr w2)
  qed
qed

section \<open>Retirement\<close>

lemma remote_call_evolves:
  assumes "env_ok env" and "controllers_ok w" and "\<And>now a. admission_step {} a (snd (f now a))"
  shows "draining (w_remote w g) \<Longrightarrow> draining (w_remote (snd (remote_call env h f w)) g)"
    and "retired (w_remote w g) \<Longrightarrow> retired (w_remote (snd (remote_call env h f w)) g)"
proof -
  let ?w = "await env w"
  have c: "controllers_ok ?w" by (rule await_controllers [OF assms(1,2)])
  show "draining (w_remote (snd (remote_call env h f w)) g)" if d: "draining (w_remote w g)"
  proof -
    have d1: "draining (w_remote ?w g)" by (rule await_draining [OF assms(1) d])
    show ?thesis
    proof (cases "w_remote ?w h")
      case (Up a)
      let ?b = "snd (f (w_now ?w) a)"
      have "draining (w_remote (set_remote h (Up ?b) ?w) g)"
        using d1 Up drain_kept [OF assms(3) [of a "w_now ?w"]] by (cases "g = h") (simp_all add: draining_def)
      then have "draining (w_remote (await env (set_remote h (Up ?b) ?w)) g)" by (rule await_draining [OF assms(1)])
      then show ?thesis using Up by (cases "f (w_now ?w) a") (simp add: remote_call_def Let_def)
    qed (simp_all add: remote_call_def Let_def await_draining [OF assms(1) d1])
  qed
  show "retired (w_remote (snd (remote_call env h f w)) g)" if d: "retired (w_remote w g)"
  proof -
    have d1: "retired (w_remote ?w g)" by (rule await_retired [OF assms(1,2) d])
    show ?thesis
    proof (cases "w_remote ?w h")
      case (Up a)
      let ?b = "snd (f (w_now ?w) a)"
      have ra: "reachable fresh_controller (admission_step {}) a" using c Up by (metis controller_simps(1) controllers_ok_def)
      have "retired (w_remote (set_remote h (Up ?b) ?w) g)"
        using d1 Up retired_steps [OF r_into_rtranclp [of "admission_step {}", OF assms(3) [of a "w_now ?w"]] admission.reach_inv [OF ra]]
        by (cases "g = h") (simp_all add: retired_def)
      moreover have "controllers_ok (set_remote h (Up ?b) ?w)"
        by (rule set_remote_controllers [OF c reachable.move [OF ra assms(3)]])
      ultimately have "retired (w_remote (await env (set_remote h (Up ?b) ?w)) g)" by (intro await_retired assms(1))
      then show ?thesis using Up by (cases "f (w_now ?w) a") (simp add: remote_call_def Let_def)
    qed (simp_all add: remote_call_def Let_def await_retired [OF assms(1) c d1])
  qed
qed

lemma remote_status_evolves:
  assumes "env_ok env" and "controllers_ok w"
  shows "draining (w_remote w g) \<Longrightarrow> draining (w_remote (snd (remote_status env h w)) g)"
    and "retired (w_remote w g) \<Longrightarrow> retired (w_remote (snd (remote_status env h w)) g)"
  unfolding remote_status_def by (rule remote_call_evolves [OF assms]; simp add: s_status)+

lemma remote_drain_evolves:
  assumes "env_ok env" and "controllers_ok w"
  shows "draining (w_remote w g) \<Longrightarrow> draining (w_remote (snd (remote_drain env h w)) g)"
  unfolding remote_drain_def by (rule remote_call_evolves(1) [OF assms]) (simp_all add: s_drain)

lemma remote_died: "remote_call env h f w = (Inl ActorDied, w') \<Longrightarrow> env_ok env \<Longrightarrow> w_remote w' h = Dead"
  using await_evolves [of env "await env w" h]
  by (auto simp: remote_call_def Let_def remote_evolves_def split: remote.splits prod.splits)

lemma gather_status_final:
  assumes "forW (gather_status env) actors acc w = (Inr sts, w')" and "env_ok env" and "controllers_ok w"
    and "\<And>r h. (r, h) \<in> set actors \<Longrightarrow> draining (w_remote w h)"
  shows "controllers_ok w' \<and> (\<forall>g. draining (w_remote w g) \<longrightarrow> draining (w_remote w' g)) \<and>
    (\<forall>g. retired (w_remote w g) \<longrightarrow> retired (w_remote w' g)) \<and>
    (\<exists>new. sts = acc @ new \<and> (\<not> list_ex busy_status new \<and> \<not> list_ex unknown_status new \<longrightarrow>
       (\<forall>(r, h) \<in> set actors. retired (w_remote w' h))))"
  using assms(1,3,4)
proof (induction actors arbitrary: acc w)
  case (Cons x actors)
  obtain r h where x: "x = (r, h)" by fastforce
  obtain res w1 where st: "remote_status env h w = (res, w1)" by fastforce
  have rest: "forW (gather_status env) actors (acc @ [res]) w1 = (Inr sts, w')"
    using Cons.prems(1) by (simp add: x gather_status_def st bindW_def)
  have c1: "controllers_ok w1" using remote_status_controllers [OF assms(2) Cons.prems(2), of h] st by simp
  have ev: "draining (w_remote w g) \<Longrightarrow> draining (w_remote w1 g)" "retired (w_remote w g) \<Longrightarrow> retired (w_remote w1 g)" for g
    using remote_status_evolves [OF assms(2) Cons.prems(2), of g h] st by simp_all
  have dr: "\<And>r h. (r, h) \<in> set actors \<Longrightarrow> draining (w_remote w1 h)"
    by (rule ev(1), rule Cons.prems(3)) (rule list.set_intros(2))
  have IH: "controllers_ok w' \<and> (\<forall>g. draining (w_remote w1 g) \<longrightarrow> draining (w_remote w' g)) \<and>
    (\<forall>g. retired (w_remote w1 g) \<longrightarrow> retired (w_remote w' g)) \<and>
    (\<exists>new. sts = (acc @ [res]) @ new \<and> (\<not> list_ex busy_status new \<and> \<not> list_ex unknown_status new \<longrightarrow>
       (\<forall>(r, h) \<in> set actors. retired (w_remote w' h))))"
    by (rule Cons.IH [OF rest c1]) (rule dr)
  then obtain new where new: "sts = (acc @ [res]) @ new"
    "\<not> list_ex busy_status new \<and> \<not> list_ex unknown_status new \<longrightarrow> (\<forall>(r, h) \<in> set actors. retired (w_remote w' h))" by blast
  have "retired (w_remote w1 h)" if "\<not> busy_status res" "\<not> unknown_status res"
  proof (cases res)
    case (Inl err)
    then have "err = ActorDied" using that(2) by (simp add: unknown_status_def)
    then show ?thesis
      using remote_died [OF _ assms(2), of h "\<lambda>now a. status now now a" w w1] st Inl
      by (simp add: remote_status_def retired_def)
  next
    case (Inr s)
    have "draining (w_remote w h)" using Cons.prems(3) [of r h] x by simp
    then show ?thesis
      using status_final [OF assms(2) Cons.prems(2) _ st [unfolded Inr]] that(1) Inr by (auto simp: busy_status_def)
  qed
  then have "\<not> list_ex busy_status (res # new) \<and> \<not> list_ex unknown_status (res # new) \<longrightarrow>
      (\<forall>(r, h) \<in> set (x # actors). retired (w_remote w' h))"
    using IH new(2) by (auto simp: x)
  moreover have "sts = acc @ (res # new)" using new(1) by simp
  ultimately show ?case using IH ev by blast
qed simp

lemma retire_poll_final:
  assumes "retire_poll env k deadline actors w = Some (Inr True, w')" and "env_ok env" and "controllers_ok w"
    and "\<And>r h. (r, h) \<in> set actors \<Longrightarrow> draining (w_remote w h)"
  shows "\<exists>w1. (\<forall>(r, h) \<in> set actors. retired (w_remote w1 h)) \<and> w' = forget_profile k (fold (kill_retired k) actors w1)"
proof -
  have "\<forall>w'. res = (Inr True, w') \<longrightarrow> env_ok env \<longrightarrow> controllers_ok w \<longrightarrow> (\<forall>(r, h) \<in> set actors. draining (w_remote w h)) \<longrightarrow>
     (\<exists>w1. (\<forall>(r, h) \<in> set actors. retired (w_remote w1 h)) \<and> w' = forget_profile k (fold (kill_retired k) actors w1))"
    if "retire_poll env k deadline actors w = Some res" for env k deadline actors w res
    using that
  proof (rule retire_poll.raw_induct [rotated])
    fix rec env k deadline actors w res
    assume IH: "\<And>env k deadline actors w res. rec env k deadline actors w = Some res \<Longrightarrow>
       \<forall>w'. res = (Inr True, w') \<longrightarrow> env_ok env \<longrightarrow> controllers_ok w \<longrightarrow> (\<forall>(r, h) \<in> set actors. draining (w_remote w h)) \<longrightarrow>
     (\<exists>w1. (\<forall>(r, h) \<in> set actors. retired (w_remote w1 h)) \<and> w' = forget_profile k (fold (kill_retired k) actors w1))"
      and run: "(if deadline - w_now w \<le> 0 then Some (Inr False, w)
      else case forW (gather_status env) actors [] w of
        (Inl e, w1) \<Rightarrow> Some (Inl e, w1)
      | (Inr sts, w1) \<Rightarrow>
          if deadline \<le> w_now w1 then Some (Inr False, w1)
          else case find unknown_status sts of
            Some (Inl e) \<Rightarrow> Some (Inl e, w1)
          | _ \<Rightarrow>
              if \<not> list_ex busy_status sts
              then Some (Inr True, forget_profile k (fold (kill_retired k) actors w1))
              else rec env k deadline actors (await env w1)) = Some res"
    show "\<forall>w'. res = (Inr True, w') \<longrightarrow> env_ok env \<longrightarrow> controllers_ok w \<longrightarrow> (\<forall>(r, h) \<in> set actors. draining (w_remote w h)) \<longrightarrow>
     (\<exists>w1. (\<forall>(r, h) \<in> set actors. retired (w_remote w1 h)) \<and> w' = forget_profile k (fold (kill_retired k) actors w1))"
    proof (intro allI impI)
      fix w' assume r: "res = (Inr True, w')" and e: "env_ok env" and c: "controllers_ok w"
        and d: "\<forall>(r, h) \<in> set actors. draining (w_remote w h)"
      obtain sts w1 where g: "forW (gather_status env) actors [] w = (Inr sts, w1)" and t: "\<not> deadline - w_now w \<le> 0"
        using run r by (auto split: if_splits prod.splits sum.splits)
      have dl: "\<not> deadline \<le> w_now w1" using run r g t by (auto split: if_splits)
      note fin = gather_status_final [OF g e c]
      show "\<exists>w1. (\<forall>(r, h) \<in> set actors. retired (w_remote w1 h)) \<and> w' = forget_profile k (fold (kill_retired k) actors w1)"
      proof (cases "find unknown_status sts")
        case None
        then have nu: "\<not> list_ex unknown_status sts" by (auto simp: find_None_iff list_ex_iff)
        show ?thesis
        proof (cases "list_ex busy_status sts")
          case True
          then have "rec env k deadline actors (await env w1) = Some (Inr True, w')"
            using run r g t dl None by simp
          moreover have "controllers_ok (await env w1)" using fin d by (intro await_controllers e) auto
          moreover have "\<forall>(r, h) \<in> set actors. draining (w_remote (await env w1) h)"
            using fin d await_draining [OF e] by fast
          ultimately show ?thesis using IH e by blast
        next
          case False
          then have "w' = forget_profile k (fold (kill_retired k) actors w1)" using run r g t dl None by simp
          moreover have "\<forall>(r, h) \<in> set actors. retired (w_remote w1 h)" using fin d False nu by auto
          ultimately show ?thesis by blast
        qed
      next
        case (Some x)
        then have "unknown_status x" by (auto simp: find_Some_iff)
        then obtain err where "x = Inl err" by (auto simp: unknown_status_def split: sum.splits)
        then show ?thesis using run r g t dl Some by simp
      qed
    qed
  qed
  then show ?thesis using assms by blast
qed

lemma drains_all:
  assumes "forW (gather_drain env) actors acc w = (Inr res, w')" and "env_ok env" and "controllers_ok w"
    and "Inl ActorUnavailable \<notin> set res"
  shows "controllers_ok w' \<and> (\<forall>g. draining (w_remote w g) \<longrightarrow> draining (w_remote w' g)) \<and>
    (\<forall>(r, h) \<in> set actors. draining (w_remote w' h))"
  using assms(1,3,4)
proof (induction actors arbitrary: acc w)
  case (Cons x actors)
  obtain r h where x: "x = (r, h)" by fastforce
  obtain one w1 where st: "remote_drain env h w = (one, w1)" by fastforce
  have rest: "forW (gather_drain env) actors (acc @ [one]) w1 = (Inr res, w')"
    using Cons.prems(1) by (simp add: x gather_drain_def st bindW_def)
  have acc: "set acc' \<subseteq> set res" if "forW (gather_drain env) as acc' v = (Inr res, v')" for as acc' v v'
    using that
  proof (induction as arbitrary: acc' v)
    case (Cons y as)
    obtain one v1 where "remote_drain env (snd y) v = (one, v1)" by fastforce
    then have "forW (gather_drain env) as (acc' @ [one]) v1 = (Inr res, v')"
      using Cons.prems by (cases y) (simp add: gather_drain_def bindW_def)
    then show ?case using Cons.IH by fastforce
  qed simp
  have c1: "controllers_ok w1" using remote_drain_controllers [OF assms(2) Cons.prems(2), of h] st by simp
  have ev: "draining (w_remote w g) \<Longrightarrow> draining (w_remote w1 g)" for g
    using remote_drain_evolves [OF assms(2) Cons.prems(2), of g h] st by simp
  have "one \<in> set res" using acc [OF rest] by simp
  then have "one \<noteq> Inl ActorUnavailable" using Cons.prems(3) by blast
  then have "draining (w_remote w1 h)"
  proof (cases one)
    case (Inl err)
    then have "err = ActorDied"
      using st \<open>one \<noteq> _\<close> by (auto simp: remote_drain_def remote_call_def Let_def split: remote.splits)
    then show ?thesis
      using remote_died [OF _ assms(2), of h "\<lambda>now a. ((), drain_actor a)" w w1] st Inl
      by (simp add: remote_drain_def draining_def)
  next
    case (Inr u)
    then show ?thesis using remote_drain_drains [OF assms(2), of h w w1] st by simp
  qed
  then show ?case using Cons.IH [OF rest c1 Cons.prems(3)] ev by (auto simp: x)
qed simp

section \<open>Properties\<close>


definition demo_world :: world where
  "demo_world = \<lparr>w_now = 10, w_tick = 0, w_actors = [((''p'', 0), 5)], w_creating = [], w_profiles = [], w_traffic = [],
     w_checked = [''p''], w_limits = [], w_semaphores = [], w_warm = \<lparr>wn_nodes = [], wn_cursor = []\<rparr>, w_names = [],
     w_remote = (\<lambda>h. if h = 5 then Up demo_controller else NotCreated)\<rparr>"

definition calm :: env where
  \<comment> \<open>nothing else happens\<close>
  "calm = (\<lambda>n w. w)"


text \<open>Scheduling starts exactly the actors that are missing: afterwards as many replicas are up or starting
  as were wanted, up to the maximum, unless there were more before; the new ones take the lowest free
  numbers, and what is returned are the tasks of the profile still under way.\<close>

theorem schedule_reaches_desired:
  assumes "pool_inv (nat (s_max_per_profile cfg)) w"
  shows "let (tasks, w') = schedule_actor_count cfg k n w; mx = nat (s_max_per_profile cfg) in
    length (occupied k w') = max (length (occupied k w)) (nat (min n (s_max_per_profile cfg))) \<and>
    w_actors w' = w_actors w \<and> tasks = pending_creations k w' \<and>
    w_creating w' = w_creating w @ map (\<lambda>r. ((k, r), False))
      (take (nat (min n (s_max_per_profile cfg)) - length (occupied k w)) (filter (\<lambda>r. r \<notin> set (occupied k w)) [0..<mx]))"
proof -
  let ?w = "snd (schedule_actor_count cfg k n w)" and ?mx = "nat (s_max_per_profile cfg)"
  let ?n = "nat (min n (s_max_per_profile cfg))"
  have occ: "occupied k ?w = occupied k w @ new_replicas ?mx ?n (occupied k w)"
    using occupied_inv(1) [OF schedule_inv [OF assms]] occupied_inv(1) [OF assms]
    by (simp add: schedule_other schedule_creating replicas_append replicas_new)
  have "length (new_replicas ?mx ?n (occupied k w)) = min (?n - length (occupied k w)) (?mx - length (occupied k w))"
    unfolding new_replicas_def by (simp add: length_free [OF occupied_inv(2,3) [OF assms]])
  moreover have "?n \<le> ?mx" by simp
  moreover have "a = min (n - l) (m - l) \<Longrightarrow> n \<le> m \<Longrightarrow> l + a = max l n" for a l m n :: nat by arith
  ultimately have "length (occupied k ?w) = max (length (occupied k w)) ?n"
    unfolding occ length_append by blast
  moreover have "fst (schedule_actor_count cfg k n w) = pending_creations k ?w"
    by (simp add: schedule_actor_count_def Let_def)
  ultimately show ?thesis
    using schedule_other [of cfg k n w] schedule_creating [of cfg k n w]
    by (simp add: case_prod_beta Let_def new_replicas_def)
qed

theorem schedule_reaches_desired_witness:
  "w_creating (snd (schedule_actor_count demo_settings ''p'' 3 demo_world)) = [((''p'', 1), False), ((''p'', 2), False)] \<and>
   length (occupied ''p'' (snd (schedule_actor_count demo_settings ''p'' 3 demo_world))) = 3"
proof -
  have m: "nat (s_max_per_profile demo_settings) = 8" "s_max_per_profile demo_settings = 8" by (simp_all add: demo_settings_def)
  have o: "occupied ''p'' demo_world = [0]" by (simp add: occupied_def replicas_def demo_world_def)
  have e: "[0..<8] = [0, 1, 2, 3, 4, 5, 6, 7 :: nat]" by (simp add: upt_rec)
  have "pool_inv 8 demo_world" by (simp add: pool_inv_def keys_ok_def demo_world_def)
  then show ?thesis
    using schedule_reaches_desired [of demo_settings demo_world "''p''" 3, unfolded m]
    by (simp add: case_prod_beta Let_def o e) (simp add: demo_world_def)
qed


definition cold_candidate :: candidate where
  "cold_candidate = \<lparr>cd_replica = 0, cd_handle = 5, cd_status = \<lparr>st_state = IDLE, st_active_io = 0, st_max_io = 1,
     st_reserved_leases = 0, st_running_leases = 0, st_idle_for_seconds = 2000\<rparr>\<rparr>"

lemma calm_ok: "env_ok calm"
proof -
  have "remote_evolves r r" for r by (cases r) (auto simp: remote_evolves_def)
  then show ?thesis by (simp add: env_ok_def calm_def)
qed

lemma demo_controllers: "controllers_ok demo_world"
proof -
  have "new_controller 1 15 0 = Inr demo_controller" by (simp add: new_controller_def demo_controller_def)
  then have "reachable fresh_controller (admission_step {}) demo_controller"
    by (intro reachable.start) (auto simp: fresh_controller_def)
  then show ?thesis by (simp add: controllers_ok_def demo_world_def)
qed

lemma demo_reap:
  "\<exists>w'. reap_candidate calm demo_settings ''p'' 1 cold_candidate (1, 0) demo_world = (Inr (0, 1), w') \<and> w_actors w' = []"
proof -
  have "reapable demo_settings ''p'' 1 cold_candidate 1 demo_world"
    by (simp add: reapable_def Let_def cold_candidate_def demo_settings_def demo_world_def profile_is_cold_def)
  moreover have "\<exists>w1. drain_and_check calm cold_candidate demo_world = (Inr True, w1) \<and> w_actors w1 = [((''p'', 0), 5)]"
    by (simp add: drain_and_check_def cold_candidate_def bindW_def remote_drain_def remote_status_def remote_call_def Let_def
      await_def calm_def demo_world_def demo_controller_def drain_actor_def status_def expire_def reserved_count_def set_remote_def)
  ultimately show ?thesis by (auto simp: reap_candidate_def bindW_def cold_candidate_def)
qed


text \<open>A sweep over a pool removes as many actors as it counts, and leaves the desired number or more, all
  there were, or none.\<close>

theorem reaper_keeps_desired:
  assumes "forW (reap_candidate env cfg k desired) cs (current, n) w = (Inr (current', n'), w')" and "1 \<le> desired"
  shows "int n' - int n = current - current' \<and> n \<le> n' \<and> (current' = current \<or> desired \<le> current' \<or> current' = 0)"
  using reap_loop_count [OF assms] .

theorem reaper_keeps_desired_witness:
  "\<exists>w'. forW (reap_candidate calm demo_settings ''p'' 1) [cold_candidate] (1, 0) demo_world = (Inr (0, 1), w') \<and>
     int 1 - int 0 = (1 :: int) - 0"
proof -
  obtain w' where "forW (reap_candidate calm demo_settings ''p'' 1) [cold_candidate] (1, 0) demo_world = (Inr (0, 1), w')"
    using demo_reap by (auto simp: bindW_def)
  then show ?thesis using reaper_keeps_desired [of calm demo_settings "''p''" 1 "[cold_candidate]" 1 0 demo_world 0 1 w'] by auto
qed

text \<open>Retiring a profile loses no work: when \<open>retire_profile\<close> reports success and every call to close an
  actor got through to it (or found it dead), each actor of the profile was closed and empty, or dead, when
  it was killed, whatever other callers did in between; and the profile is forgotten.\<close>

theorem retire_profile_no_loss:
  fixes w0 :: world
  assumes "env_ok env" and "controllers_ok w0"
    and "w1 = discover_actors cfg sha k (await env (fold (\<lambda>key. cancel_creation key (started key))
           (map fst (filter (\<lambda>((p, r), d). p = k) (w_creating w0))) (await env w0)))"
    and "drain_all env (retirement_actors cfg sha k w1) w1 = (Inr res, w2)" and "Inl ActorUnavailable \<notin> set res"
    and "retire_profile env cfg sha started k timeout w0 = Some (Inr True, w')"
  shows "\<exists>w3. (\<forall>(r, h) \<in> set (retirement_actors cfg sha k w1). retired (w_remote w3 h)) \<and>
    w' = forget_profile k (fold (kill_retired k) (retirement_actors cfg sha k w1) w3) \<and>
    map_of (w_profiles w') k = None"
proof -
  let ?actors = "retirement_actors cfg sha k w1"
  have gone: "map_of (w_profiles (forget_profile k v)) k = None" for v
    by (simp add: forget_profile_def dict_get_delete)
  show ?thesis
  proof (cases "?actors = []")
    case True
    then have "w' = forget_profile k w1" using assms(6) by (simp add: retire_profile_def Let_def flip: assms(3))
    then show ?thesis using True gone by auto
  next
    case False
    have ok: "controllers_ok (w\<lparr>w_creating := c\<rparr>)" "controllers_ok (w\<lparr>w_actors := a\<rparr>)" if "controllers_ok w" for w :: world and c a
      using that by (simp_all add: controllers_ok_def)
    have cancel: "controllers_ok (cancel_creation key b w)" if "controllers_ok w" for key b w
      using that ok by (auto simp: cancel_creation_def end_creation_def split: option.split)
    have cancels: "controllers_ok (fold (\<lambda>key. cancel_creation key (started key)) keys w)" if "controllers_ok w" for keys w
      using that by (induction keys arbitrary: w) (auto intro: cancel)
    have disc: "controllers_ok (discover_actor sha k r w)" if "controllers_ok w" for r w
      using that ok(2) by (auto simp: discover_actor_def split: option.split)
    have discs: "controllers_ok (fold (discover_actor sha k) rs w)" if "controllers_ok w" for rs w
      using that by (induction rs arbitrary: w) (auto intro: disc)
    have c1: "controllers_ok w1"
      unfolding assms(3) discover_actors_def by (intro discs await_controllers assms(1,2) cancels)
    have drained: "controllers_ok w2" "\<forall>(r, h) \<in> set ?actors. draining (w_remote w2 h)"
      using drains_all [OF assms(4) [unfolded drain_all_def] assms(1) c1 assms(5)] by blast+
    have "retire_poll env k (w_now w1 + timeout) ?actors w2 = Some (Inr True, w')"
      using assms(6) False by (simp add: retire_profile_def Let_def assms(4) flip: assms(3) split: if_splits)
    then obtain w3 where "\<forall>(r, h) \<in> set ?actors. retired (w_remote w3 h)"
      "w' = forget_profile k (fold (kill_retired k) ?actors w3)"
      using retire_poll_final [OF _ assms(1) drained(1)] drained(2) by blast
    then show ?thesis using gone by blast
  qed
qed

lemma retire_demo:
  defines "w1 \<equiv> demo_world\<lparr>w_tick := 2\<rparr>"
    and "w2 \<equiv> demo_world\<lparr>w_tick := 4, w_remote := (w_remote demo_world)(5 := Up (drain_actor demo_controller))\<rparr>"
  shows "discover_actors demo_settings (\<lambda>k. k) ''p'' (await calm (fold (\<lambda>key. cancel_creation key True)
           (map fst (filter (\<lambda>((p, r), d). p = ''p'') (w_creating demo_world))) (await calm demo_world))) = w1"
    and "retirement_actors demo_settings (\<lambda>k. k) ''p'' w1 = [(Some 0, 5)]"
    and "drain_all calm [(Some 0, 5)] w1 = (Inr [Inr ()], w2)"
    and "\<exists>w'. retire_poll calm ''p'' 310 [(Some 0, 5)] w2 = Some (Inr True, w')"
proof -
  have d: "discover_actor (\<lambda>k. k) ''p'' r w = w" if "w_names w = []" for r w
    using that by (simp add: discover_actor_def get_actor_def)
  have "fold (discover_actor (\<lambda>k. k) ''p'') rs w = w" if "w_names w = []" for rs w
    using that by (induction rs) (simp_all add: d)
  then show "discover_actors demo_settings (\<lambda>k. k) ''p'' (await calm (fold (\<lambda>key. cancel_creation key True)
           (map fst (filter (\<lambda>((p, r), d). p = ''p'') (w_creating demo_world))) (await calm demo_world))) = w1"
    by (simp add: discover_actors_def await_def calm_def w1_def demo_world_def)
  have "List.map_filter (\<lambda>n. get_actor n w) xs = []" if "w_names w = []" for w xs
    using that by (induction xs) (simp_all add: get_actor_def List.map_filter_simps)
  then show "retirement_actors demo_settings (\<lambda>k. k) ''p'' w1 = [(Some 0, 5)]"
    by (simp add: retirement_actors_def known_actors_def w1_def demo_world_def)
  show "drain_all calm [(Some 0, 5)] w1 = (Inr [Inr ()], w2)"
    by (simp add: drain_all_def gather_drain_def remote_drain_def remote_call_def Let_def await_def calm_def w1_def w2_def
      demo_world_def set_remote_def bindW_def)
  have st: "\<exists>s w3. remote_status calm 5 w2 = (Inr s, w3) \<and> \<not> busy_status (Inr s) \<and> w_now w3 = 10"
    by (simp add: remote_status_def remote_call_def Let_def await_def calm_def w2_def demo_world_def status_def
      drain_actor_def demo_controller_def expire_def reserved_count_def busy_status_def set_remote_def)
  then obtain s w3 where s: "remote_status calm 5 w2 = (Inr s, w3)" "\<not> busy_status (Inr s)" "w_now w3 = 10" by blast
  have "w_now w2 = 10" by (simp add: w2_def demo_world_def)
  then show "\<exists>w'. retire_poll calm ''p'' 310 [(Some 0, 5)] w2 = Some (Inr True, w')"
    using s by (subst retire_poll.simps) (simp add: gather_status_def bindW_def unknown_status_def)
qed

theorem retire_profile_no_loss_witness:
  "\<exists>w'. retire_profile calm demo_settings (\<lambda>k. k) (\<lambda>_. True) ''p'' 300 demo_world = Some (Inr True, w') \<and>
     w_remote w' 5 = Dead \<and> map_of (w_profiles w') ''p'' = None"
proof -
  let ?w1 = "demo_world\<lparr>w_tick := 2\<rparr>"
  obtain w' where p: "retire_poll calm ''p'' 310 [(Some 0, 5)]
      (demo_world\<lparr>w_tick := 4, w_remote := (w_remote demo_world)(5 := Up (drain_actor demo_controller))\<rparr>) = Some (Inr True, w')"
    using retire_demo(4) by blast
  have r: "retire_profile calm demo_settings (\<lambda>k. k) (\<lambda>_. True) ''p'' 300 demo_world = Some (Inr True, w')"
    unfolding retire_profile_def retire_demo(1) Let_def retire_demo(2,3)
    using p by (simp add: demo_world_def)
  have "w' = forget_profile ''p'' (kill_retired ''p'' (Some 0, 5) w3) \<Longrightarrow> w_remote w' 5 = Dead" for w3
    by (simp add: forget_profile_def kill_retired_def Let_def kill_def)
  then show ?thesis
    using retire_profile_no_loss [OF calm_ok demo_controllers retire_demo(1) [symmetric] _ _ r] retire_demo(2,3) r by auto
qed

definition compute_inv :: "pool_settings \<Rightarrow> world \<Rightarrow> nat list \<Rightarrow> bool" where
  \<comment> \<open>\<open>held\<close>: the semaphore of each compute task under way\<close>
  "compute_inv cfg w held =
     ((\<forall>k i. map_of (w_limits w) k = Some i \<longrightarrow> i < length (w_semaphores w)) \<and>
      (\<forall>i < length (w_semaphores w). 0 \<le> w_semaphores w ! i \<and>
         w_semaphores w ! i + int (count_list held i) = s_compute_pending cfg) \<and>
      (\<forall>i \<in> set held. i < length (w_semaphores w)))"

lemma compute_semaphore_inv:
  assumes "compute_inv cfg w held" and "0 \<le> s_compute_pending cfg" and "compute_semaphore cfg k w = (i, w1)"
  shows "compute_inv cfg w1 held" and "i < length (w_semaphores w1)" and "map_of (w_limits w1) k = Some i"
proof -
  have fresh: "count_list held (length (w_semaphores w)) = 0"
    using assms(1) by (fastforce simp: compute_inv_def count_list_0_iff)
  show "map_of (w_limits w1) k = Some i"
    using assms(3) by (auto simp: compute_semaphore_def dict_get_update split: option.splits)
  show "i < length (w_semaphores w1)"
    using assms(1,3) by (auto simp: compute_semaphore_def compute_inv_def split: option.splits)
  show "compute_inv cfg w1 held"
  proof (cases "map_of (w_limits w) k")
    case None
    then have w1: "w1 = w\<lparr>w_limits := AList.update k (length (w_semaphores w)) (w_limits w),
        w_semaphores := w_semaphores w @ [s_compute_pending cfg]\<rparr>"
      using assms(3) by (auto simp: compute_semaphore_def)
    have "0 \<le> w_semaphores w1 ! j \<and> w_semaphores w1 ! j + int (count_list held j) = s_compute_pending cfg"
      if "j < length (w_semaphores w1)" for j
      using that assms(1,2) fresh unfolding w1
      by (cases "j < length (w_semaphores w)") (auto simp: compute_inv_def nth_append less_Suc_eq)
    then show ?thesis
      using assms(1) unfolding compute_inv_def w1 by (auto simp: dict_get_update less_Suc_eq split: if_splits)
  next
    case (Some j)
    then show ?thesis using assms by (simp add: compute_semaphore_def)
  qed
qed

text \<open>The compute tasks of a profile under way never exceed its limit, and no slot is lost: taking and giving
  back slots keeps the free and the held ones of every semaphore adding up to the limit, also across a
  retirement that forgets the semaphore, and a task is made to wait only when all slots are held.\<close>

theorem compute_slots_conserved:
  assumes "compute_inv cfg w held" and "0 \<le> s_compute_pending cfg"
  shows "(case acquire_compute cfg k w of
      (Some i, w') \<Rightarrow> compute_inv cfg w' (i # held) \<and> int (count_list (i # held) i) \<le> s_compute_pending cfg
    | (None, w') \<Rightarrow> compute_inv cfg w' held \<and>
        (\<exists>i. map_of (w_limits w') k = Some i \<and> int (count_list held i) = s_compute_pending cfg)) \<and>
    (\<forall>i \<in> set held. compute_inv cfg (release_compute i w) (remove1 i held)) \<and>
    compute_inv cfg (forget_profile p w) held"
proof -
  obtain i w1 where s: "compute_semaphore cfg k w = (i, w1)" by fastforce
  note S = compute_semaphore_inv [OF assms s]
  have sum: "0 \<le> w_semaphores w1 ! j \<and> w_semaphores w1 ! j + int (count_list held j) = s_compute_pending cfg"
    if "j < length (w_semaphores w1)" for j
    using S(1) that by (simp add: compute_inv_def)
  have "case acquire_compute cfg k w of
      (Some i, w') \<Rightarrow> compute_inv cfg w' (i # held) \<and> int (count_list (i # held) i) \<le> s_compute_pending cfg
    | (None, w') \<Rightarrow> compute_inv cfg w' held \<and>
        (\<exists>i. map_of (w_limits w') k = Some i \<and> int (count_list held i) = s_compute_pending cfg)"
  proof (cases "0 < w_semaphores w1 ! i")
    case True
    let ?w = "w1\<lparr>w_semaphores := (w_semaphores w1)[i := w_semaphores w1 ! i - 1]\<rparr>"
    have a: "acquire_compute cfg k w = (Some i, ?w)" using True by (simp add: acquire_compute_def s)
    have "compute_inv cfg ?w (i # held)"
      using S(1,2) True by (auto simp: compute_inv_def nth_list_update)
    moreover have "int (count_list (i # held) i) \<le> s_compute_pending cfg" using sum [OF S(2)] True by simp
    ultimately show ?thesis unfolding a by simp
  next
    case False
    then have "acquire_compute cfg k w = (None, w1)" by (simp add: acquire_compute_def s)
    moreover have "int (count_list held i) = s_compute_pending cfg" using sum [OF S(2)] False by simp
    ultimately show ?thesis using S by auto
  qed
  moreover have "compute_inv cfg (release_compute i w) (remove1 i held)" if "i \<in> set held" for i
  proof -
    have c: "int (count_list (remove1 i held) j) = int (count_list held j) - (if j = i then 1 else 0)" for j
      using that by (induction held) auto
    have "set (remove1 i held) \<subseteq> set held" by (rule set_remove1_subset)
    then show ?thesis
      using assms(1) that unfolding compute_inv_def release_compute_def
      by (auto simp: c nth_list_update simp del: count_list_remove1)
  qed
  moreover have "compute_inv cfg (forget_profile p w) held"
    using assms(1) by (auto simp: compute_inv_def forget_profile_def dict_get_delete split: if_splits)
  ultimately show ?thesis by blast
qed

theorem compute_slots_conserved_witness:
  "case acquire_compute demo_settings ''p'' demo_world of
     (Some i, w') \<Rightarrow> compute_inv demo_settings w' [i] \<and> w_semaphores w' = [63] | (None, w') \<Rightarrow> False"
proof -
  have "compute_inv demo_settings demo_world []" by (simp add: compute_inv_def demo_world_def)
  moreover have p: "s_compute_pending demo_settings = 64" by (simp add: demo_settings_def)
  moreover obtain w' where "acquire_compute demo_settings ''p'' demo_world = (Some 0, w')" "w_semaphores w' = [63]"
    by (simp add: acquire_compute_def compute_semaphore_def demo_world_def p)
  ultimately show ?thesis
    using compute_slots_conserved [of demo_settings demo_world "[]" "''p''"] by simp
qed

section \<open>A pool of one\<close>

definition quiet :: "time \<Rightarrow> env \<Rightarrow> bool" where
  \<comment> \<open>only the clock moves, at least by \<open>d\<close> at each suspension\<close>
  "quiet d env = (\<forall>n w. \<exists>t \<ge> w_now w + d. env n w = w\<lparr>w_now := t\<rparr>)"

definition stuck :: "string \<Rightarrow> nat \<Rightarrow> world \<Rightarrow> bool" where
  "stuck k h w = (w_actors w = [((k, 0), h)] \<and> w_creating w = [] \<and> k \<in> set (w_checked w) \<and>
     (\<exists>a. w_remote w h = Up a \<and> actor_draining a))"

lemma stuck_await:
  assumes "quiet d env" and "stuck k h w"
  shows "stuck k h (await env w)" and "w_now w + d \<le> w_now (await env w)"
proof -
  obtain t where "env (w_tick w) w = w\<lparr>w_now := t\<rparr>" "w_now w + d \<le> t" using assms(1) by (auto simp: quiet_def)
  then show "stuck k h (await env w)" "w_now w + d \<le> w_now (await env w)"
    using assms(2) by (simp_all add: await_def stuck_def)
qed

lemma stuck_snapshot:
  assumes "quiet d env" and "0 < d" and "stuck k h w" and "s_max_per_profile cfg = 1"
  obtains c w' where "pool_snapshot_of env cfg sha k w = (Inr [c], w')" and "\<not> eligible c" and "stuck k h w'"
    and "w_now w \<le> w_now w'"
proof -
  note A1 = stuck_await [OF assms(1,3)]
  have "discover_actors cfg sha k (await env w) = await env w"
    using A1(1) assms(4) by (simp add: discover_actors_def discover_actor_def stuck_def)
  then have p: "prepare_pool env cfg sha k w = (Inr (), await env w)"
    using A1(1) by (simp add: prepare_pool_def Let_def stuck_def bindW_def)
  let ?w2 = "await env (await env w)"
  note A2 = stuck_await [OF assms(1) A1(1)]
  then obtain a where a: "w_remote ?w2 h = Up a" "actor_draining a" by (auto simp: stuck_def)
  obtain s b where sb: "status (w_now ?w2) (w_now ?w2) a = (s, b)" by fastforce
  have s: "st_state s = DRAINING" "actor_draining b"
    using sb a(2) by (auto simp: status_def Let_def state_of_def)
  let ?w3 = "await env (set_remote h (Up b) ?w2)"
  have "stuck k h (set_remote h (Up b) ?w2)" using A2(1) s(2) by (simp add: stuck_def set_remote_def)
  note A3 = stuck_await [OF assms(1) this]
  have now: "w_now w \<le> w_now ?w3"
    using A1(2) A2(2) A3(2) assms(2) by (simp add: set_remote_def)
  have "remote_status env h (await env w) = (Inr s, ?w3)"
    by (simp add: remote_status_def remote_call_def Let_def a(1) sb)
  then have "actor_statuses env k (await env w) = (Inr [\<lparr>cd_replica = 0, cd_handle = h, cd_status = s\<rparr>], ?w3)"
    using A1(1) by (simp add: actor_statuses_def known_actors_def stuck_def status_of_def bindW_def)
  then have "pool_snapshot_of env cfg sha k w = (Inr [\<lparr>cd_replica = 0, cd_handle = h, cd_status = s\<rparr>], ?w3)"
    by (simp add: pool_snapshot_of_def p bindW_def)
  then show thesis using that A3(1) now s(1) by (auto simp: eligible_def)
qed

lemma stuck_round:
  assumes "quiet d env" and "0 < d" and "stuck k h w" and "s_max_per_profile cfg = 1"
  obtains w' where "reserve_round env cfg sha lid k q w = (Inr Sleep, w')" and "stuck k h w'" and "w_now w \<le> w_now w'"
proof -
  obtain c w1 where c: "pool_snapshot_of env cfg sha k w = (Inr [c], w1)" "\<not> eligible c" and st1: "stuck k h w1"
    and n1: "w_now w \<le> w_now w1"
    by (rule stuck_snapshot [OF assms])
  obtain desired w2 where d: "count_desired cfg k [c] 1 w1 = (desired, w2)" by fastforce
  then have st2: "stuck k h w2" and n2: "w_now w2 = w_now w1"
    using st1 by (auto simp: count_desired_def stuck_def split: prod.splits)
  let ?w3 = "await env w2"
  note A3 = stuck_await [OF assms(1) st2]
  have n3: "w_now w \<le> w_now ?w3" using n1 n2 A3(2) assms(2) by simp
  have "occupied k ?w3 = [0]" using A3(1) by (simp add: stuck_def occupied_def replicas_def)
  moreover have "nat (min desired 1) \<le> length [0 :: nat]" by simp
  ultimately have "fill_pool 1 k (nat (min desired 1)) (occupied k ?w3) (w_creating ?w3) = w_creating ?w3"
    by (subst fill_pool.simps) simp
  then have sch: "schedule_actor_count cfg k desired ?w3 = ([], ?w3)"
    using assms(4) A3(1) by (simp add: schedule_actor_count_def Let_def pending_creations_def stuck_def)
  have o: "order_candidates [c] (Some (s_target_io cfg)) = []" using c(2) by (simp add: order_candidates_def)
  have "reserve_round env cfg sha lid k q w = (Inr Sleep, ?w3)"
    using assms(4) by (simp add: reserve_round_def c(1) bindW_def d sch o wait_for_capacity_def Let_def)
  then show thesis using that A3(1) n3 by blast
qed

lemma stuck_loop:
  assumes "quiet d env" and "0 < d" and "s_max_per_profile cfg = 1" and "stuck k h w"
    and "deadline - w_now w \<le> of_nat n * d"
  shows "\<exists>w'. reserve_loop env cfg sha lid k q deadline w = Some (Inl Overloaded, w')"
  using assms(4,5)
proof (induction n arbitrary: w)
  case 0
  obtain w1 where w1: "reserve_round env cfg sha lid k q w = (Inr Sleep, w1)" "w_now w \<le> w_now w1"
    by (rule stuck_round [OF assms(1,2) 0(1) assms(3)])
  then have "deadline - w_now w1 \<le> 0" using 0(2) by simp
  then show ?case using w1(1) by (subst reserve_loop.simps) simp
next
  case (Suc n)
  obtain w1 where w1: "reserve_round env cfg sha lid k q w = (Inr Sleep, w1)" "stuck k h w1" "w_now w \<le> w_now w1"
    by (rule stuck_round [OF assms(1,2) Suc.prems(1) assms(3)])
  note A = stuck_await [OF assms(1) w1(2)]
  have "deadline - w_now (await env w1) \<le> of_nat n * d"
    using Suc.prems(2) w1(3) A(2) by (simp add: algebra_simps)
  then obtain w' where "reserve_loop env cfg sha lid k q deadline (await env w1) = Some (Inl Overloaded, w')"
    using Suc.IH [OF A(1)] by blast
  then show ?case using w1(1) by (subst reserve_loop.simps) simp
qed

text \<open>With one actor per profile, an actor that the reaper closed just as a request reached it blocks the
  profile: while it is closed and nothing but time passes, every request waits until its deadline and is
  refused, and the reaper does not remove it as long as requests keep the profile warm.\<close>

theorem closed_actor_blocks_pool_of_one:
  assumes "quiet d env" and "0 < d" and "stuck k h w" and "s_max_per_profile cfg = 1"
  shows "(\<exists>w'. reserve_loop env cfg sha lid k q deadline w = Some (Inl Overloaded, w')) \<and>
    (\<forall>c desired. \<not> profile_is_cold k (s_warm_idle cfg) (w_now w) (w_traffic w) \<longrightarrow>
       \<not> reapable cfg k desired c (int (actor_count k w)) w)"
proof -
  obtain n :: nat where "deadline - w_now w < of_nat n * d" using ex_less_of_nat_mult [OF assms(2)] by blast
  then have "\<exists>w'. reserve_loop env cfg sha lid k q deadline w = Some (Inl Overloaded, w')"
    using stuck_loop [OF assms(1,2,4,3), of deadline n] by simp
  moreover have "actor_count k w = 1" using assms(3) by (simp add: stuck_def actor_count_def replicas_def)
  ultimately show ?thesis by (simp add: reapable_def Let_def)
qed

theorem closed_actor_blocks_pool_of_one_witness:
  "\<exists>w'. reserve_loop (\<lambda>n w. w\<lparr>w_now := w_now w + 1\<rparr>) (demo_settings\<lparr>s_max_per_profile := 1\<rparr>) (\<lambda>k. k)
     (\<lambda>n. ''L'' @ dec n) ''p'' \<lparr>io_id = ''r'', io_task = ''io'', io_service = ''s'', io_revision = ''v''\<rparr> 40
     (set_remote 5 (Up (drain_actor demo_controller)) demo_world) = Some (Inl Overloaded, w')"
proof -
  have "quiet 1 (\<lambda>n w. w\<lparr>w_now := w_now w + 1\<rparr>)" by (auto simp: quiet_def)
  moreover have "stuck ''p'' 5 (set_remote 5 (Up (drain_actor demo_controller)) demo_world)"
    by (simp add: stuck_def set_remote_def demo_world_def drain_actor_def)
  ultimately show ?thesis using closed_actor_blocks_pool_of_one [of 1] by simp
qed

end
