(* ===== verification/Access.thy ===== *)
theory Access
  imports Database Schemas
begin

text \<open>
  Who may call: the API tokens of \<open>api_tokens.py\<close> and the repository, the administrator's session cookie of
  \<open>auth.py\<close> with the base64 text it is made of, and the request handlers of \<open>api.py\<close> that check them.
  HMAC-SHA256, SHA-256, scrypt and the JSON reader are arguments: \<open>mac\<close> maps the secret and the signed
  text to a digest, \<open>sha\<close> a token to its hash, \<open>check\<close> a password and a stored hash to a verdict and
  \<open>loads\<close> the decoded payload to a value. A string that arrives is a list of characters below 256.
\<close>

section \<open>Base64\<close>

definition b64_char :: "nat \<Rightarrow> char" where
  \<comment> \<open>\<open>A\<close>-\<open>Z\<close>, \<open>a\<close>-\<open>z\<close>, \<open>0\<close>-\<open>9\<close>, \<open>-\<close>, \<open>_\<close>\<close>
  "b64_char n = char_of (if n < 26 then n + 65 else if n < 52 then n + 71 else if n < 62 then n - 4
     else if n = 62 then 45 else 95)"

definition b64_value :: "char \<Rightarrow> nat option" where
  \<comment> \<open>\<open>urlsafe_b64decode\<close> maps \<open>-_\<close> to \<open>+/\<close> first and so reads both\<close>
  "b64_value c =
     (let n = of_char c :: nat in
      if 65 \<le> n \<and> n \<le> 90 then Some (n - 65)
      else if 97 \<le> n \<and> n \<le> 122 then Some (n - 71)
      else if 48 \<le> n \<and> n \<le> 57 then Some (n + 4)
      else if n = 45 \<or> n = 43 then Some 62
      else if n = 95 \<or> n = 47 then Some 63
      else None)"

fun sextets :: "bytes \<Rightarrow> nat list" where
  "sextets (a # b # c # r) = (a div 4) # ((a mod 4) * 16 + b div 16) # ((b mod 16) * 4 + c div 64) # (c mod 64) # sextets r"
| "sextets [a, b] = [a div 4, (a mod 4) * 16 + b div 16, (b mod 16) * 4]"
| "sextets [a] = [a div 4, (a mod 4) * 16]"
| "sextets [] = []"

definition pad4 :: "nat \<Rightarrow> string" where
  \<comment> \<open>\<open>"=" * (-n % 4)\<close>\<close>
  "pad4 n = replicate (nat (- int n mod 4)) CHR ''=''"

definition b64encode :: "bytes \<Rightarrow> string" where
  "b64encode s = map b64_char (sextets s) @ pad4 (length (sextets s))"

definition urlsafe_encode :: "bytes \<Rightarrow> string" where
  \<comment> \<open>\<open>.rstrip(b"=")\<close>\<close>
  "urlsafe_encode s = rev (dropWhile (\<lambda>c. c = CHR ''='') (rev (b64encode s)))"

fun a2b :: "nat \<Rightarrow> nat \<Rightarrow> nat \<Rightarrow> string \<Rightarrow> bytes option" where
  \<comment> \<open>\<open>binascii.a2b_base64\<close>: position in the group of four, bits left over, pad characters seen; characters
    outside the alphabet are skipped\<close>
  "a2b q left pads [] = (if q = 0 then Some [] else None)"
| "a2b q left pads (c # cs) =
     (if c = CHR ''='' then
        (if 2 \<le> q \<and> 4 \<le> q + Suc pads then Some [] else a2b q left (if 2 \<le> q then Suc pads else pads) cs)
      else
        (case b64_value c of
           None \<Rightarrow> a2b q left pads cs
         | Some v \<Rightarrow>
             if q = 0 then a2b 1 v 0 cs
             else if q = 1 then map_option (Cons (left * 4 + v div 16)) (a2b 2 (v mod 16) 0 cs)
             else if q = 2 then map_option (Cons (left * 16 + v div 4)) (a2b 3 (v mod 4) 0 cs)
             else map_option (Cons (left * 64 + v)) (a2b 0 0 0 cs)))"

definition urlsafe_decode :: "string \<Rightarrow> bytes option" where
  "urlsafe_decode s = (if list_ex (\<lambda>c. 128 \<le> (of_char c :: nat)) s then None else a2b 0 0 0 (s @ pad4 (length s)))"

section \<open>Administrator sessions\<close>

record admin_auth =
  aa_username :: string
  aa_ttl :: int
  aa_secret :: "bytes option"

record admin_session =
  as_username :: string
  as_expires :: int
  as_version :: int

definition auth_configured :: "admin_auth \<Rightarrow> bool" where
  "auth_configured a = (aa_username a = ''admin'' \<and> (case aa_secret a of None \<Rightarrow> False | Some s \<Rightarrow> 32 \<le> length s))"

definition to_bytes :: "string \<Rightarrow> bytes" where
  \<comment> \<open>\<open>.encode("ascii")\<close> of ASCII text\<close>
  "to_bytes s = map of_char s"

definition dec_int :: "int \<Rightarrow> string" where
  "dec_int i = (if i < 0 then CHR ''-'' # dec (nat (- i)) else dec (nat i))"

definition session_payload :: "admin_auth \<Rightarrow> int \<Rightarrow> int \<Rightarrow> bytes" where
  \<comment> \<open>\<open>json.dumps(..., separators=(",", ":"), sort_keys=True)\<close>; the user name needs no escapes\<close>
  "session_payload a now ver = to_bytes
     (''{\"exp\":'' @ dec_int (now + aa_ttl a) @ '',\"iat\":'' @ dec_int now @ '',\"sub\":\"'' @ aa_username a
      @ ''\",\"ver\":'' @ dec_int ver @ ''}'')"

definition session_value :: "admin_auth \<Rightarrow> int \<Rightarrow> int \<Rightarrow> json" where
  "session_value a now ver = JObj [(''exp'', JInt (now + aa_ttl a)), (''iat'', JInt now),
     (''sub'', JStr (aa_username a)), (''ver'', JInt ver)]"

definition sign :: "(bytes \<Rightarrow> bytes \<Rightarrow> bytes) \<Rightarrow> bytes \<Rightarrow> string \<Rightarrow> string" where
  "sign mac secret payload = urlsafe_encode (mac secret (to_bytes payload))"

definition issue_session :: "(bytes \<Rightarrow> bytes \<Rightarrow> bytes) \<Rightarrow> admin_auth \<Rightarrow> int \<Rightarrow> int \<Rightarrow> string option" where
  \<comment> \<open>\<open>None\<close>: \<open>RuntimeError\<close>\<close>
  "issue_session mac a ver now =
     (case aa_secret a of
        Some secret \<Rightarrow>
          if auth_configured a
          then let payload = urlsafe_encode (session_payload a now ver)
               in Some (payload @ ''.'' @ sign mac secret payload)
          else None
      | None \<Rightarrow> None)"

fun as_int :: "json \<Rightarrow> int option" where
  \<comment> \<open>\<open>int(v)\<close> of a number; text is not looked into\<close>
  "as_int (JInt i) = Some i"
| "as_int (JBool b) = Some (if b then 1 else 0)"
| "as_int (JFloat (Fin q)) = Some (if 0 \<le> q then \<lfloor>q\<rfloor> else \<lceil>q\<rceil>)"
| "as_int _ = None"

definition split_token :: "string \<Rightarrow> (string \<times> string) option" where
  \<comment> \<open>\<open>token.split(".", 1)\<close>\<close>
  "split_token t =
     (case dropWhile (\<lambda>c. c \<noteq> CHR ''.'') t of
        [] \<Rightarrow> None
      | _ # rest \<Rightarrow> Some (takeWhile (\<lambda>c. c \<noteq> CHR ''.'') t, rest))"

definition session_fields :: "json \<Rightarrow> (json \<times> int \<times> int) option" where
  "session_fields v =
     (case v of
        JObj d \<Rightarrow>
          (case (map_of d ''sub'', map_of d ''exp'', map_of d ''ver'') of
             (Some u, Some x, Some n) \<Rightarrow>
               (case (as_int x, as_int n) of (Some x', Some n') \<Rightarrow> Some (u, x', n') | _ \<Rightarrow> None)
           | _ \<Rightarrow> None)
      | _ \<Rightarrow> None)"

definition verify_session ::
  "(bytes \<Rightarrow> bytes \<Rightarrow> bytes) \<Rightarrow> (bytes \<Rightarrow> json option) \<Rightarrow> admin_auth \<Rightarrow> string option \<Rightarrow> int \<Rightarrow> admin_session option" where
  "verify_session mac loads a token now =
     (case (aa_secret a, token) of
        (Some secret, Some t) \<Rightarrow>
          if \<not> auth_configured a \<or> t = [] then None
          else
            (case split_token t of
               None \<Rightarrow> None
             | Some (payload, signature) \<Rightarrow>
                 if list_ex (\<lambda>c. 128 \<le> (of_char c :: nat)) payload \<or> sign mac secret payload \<noteq> signature then None
                 else
                   (case Option.bind (Option.bind (urlsafe_decode payload) loads) session_fields of
                      None \<Rightarrow> None
                    | Some (u, expires, ver) \<Rightarrow>
                        if u \<noteq> JStr (aa_username a) \<or> expires \<le> now then None
                        else Some \<lparr>as_username = aa_username a, as_expires = expires, as_version = ver\<rparr>))
      | _ \<Rightarrow> None)"

section \<open>The repository on tokens and the administrator\<close>

definition get_admin_credential :: "string \<Rightarrow> db \<Rightarrow> admin option" where
  "get_admin_credential user d = row_get adm_user user (admins d)"

definition create_admin_credential :: "call \<Rightarrow> string \<Rightarrow> db \<Rightarrow> admin result" where
  "create_admin_credential e hash d =
     (let a = \<lparr>adm_user = ''admin'', adm_hash = hash, adm_version = 1, adm_created = call_now e, adm_updated = call_now e\<rparr>
      in bindE (insert_admin a d) (\<lambda>d'. Inr (a, d')))"

definition update_admin_password :: "call \<Rightarrow> string \<Rightarrow> string \<Rightarrow> db \<Rightarrow> db" where
  "update_admin_password e user hash d =
     d\<lparr>admins := row_upd adm_user user
        (\<lambda>a. a\<lparr>adm_hash := hash, adm_version := adm_version a + 1, adm_updated := call_now e\<rparr>) (admins d)\<rparr>"

definition create_api_token :: "call \<Rightarrow> string \<Rightarrow> string \<Rightarrow> string \<Rightarrow> db \<Rightarrow> api_token result" where
  "create_api_token e name hash prefix d =
     (let t = \<lparr>tok_id = call_ids e 0, tok_name = name, tok_hash = hash, tok_prefix = prefix,
               tok_created = call_now e, tok_revoked = None\<rparr>
      in bindE (insert_token t d) (\<lambda>d'. Inr (t, d')))"

definition list_api_tokens :: "db \<Rightarrow> api_token list" where
  "list_api_tokens d = sort_desc tok_created (filter (\<lambda>t. tok_revoked t = None) (tokens d))"

definition revoke_api_token :: "call \<Rightarrow> uuid \<Rightarrow> db \<Rightarrow> api_token result" where
  "revoke_api_token e tid d =
     bindE (of_opt (NotFound MissingToken) (row_get tok_id tid (tokens d))) (\<lambda>t.
       if tok_revoked t = None
       then Inr (t\<lparr>tok_revoked := Some (call_now e)\<rparr>,
                 d\<lparr>tokens := row_upd tok_id tid (\<lambda>t. t\<lparr>tok_revoked := Some (call_now e)\<rparr>) (tokens d)\<rparr>)
       else Inr (t, d))"

definition validate_api_token :: "string \<Rightarrow> db \<Rightarrow> bool" where
  "validate_api_token hash d = list_ex (\<lambda>t. tok_hash t = hash \<and> tok_revoked t = None) (tokens d)"

section \<open>The checks of the request handlers\<close>

definition bearer_token :: "string option \<Rightarrow> string option" where
  "bearer_token header =
     (case header of
        None \<Rightarrow> None
      | Some h \<Rightarrow>
          let scheme = takeWhile (\<lambda>c. c \<noteq> CHR '' '') h; value = drop (Suc (length scheme)) h
          in if length scheme = length h \<or> lower scheme \<noteq> ''bearer'' \<or> strip value = [] then None
             else Some (strip value))"

datatype http = Pass admin_session | Http nat

definition require_admin_session ::
  "(bytes \<Rightarrow> bytes \<Rightarrow> bytes) \<Rightarrow> (bytes \<Rightarrow> json option) \<Rightarrow> admin_auth \<Rightarrow> string option \<Rightarrow> int \<Rightarrow> db \<Rightarrow> http" where
  \<comment> \<open>for a path below \<open>/admin/\<close>\<close>
  "require_admin_session mac loads a cookie now d =
     (if \<not> auth_configured a then Http 503
      else case verify_session mac loads a cookie now of
        None \<Rightarrow> Http 401
      | Some s \<Rightarrow>
          (case get_admin_credential (as_username s) d of
             None \<Rightarrow> Http 503
           | Some c \<Rightarrow> if adm_version c \<noteq> as_version s then Http 401 else Pass s))"

definition login ::
  "(bytes \<Rightarrow> bytes \<Rightarrow> bytes) \<Rightarrow> (string \<Rightarrow> string \<Rightarrow> bool) \<Rightarrow> admin_auth \<Rightarrow> string \<Rightarrow> int \<Rightarrow> db \<Rightarrow> nat + string" where
  \<comment> \<open>the session cookie, or the status of the refusal\<close>
  "login mac check a password now d =
     (if \<not> auth_configured a then Inl 503
      else case get_admin_credential ''admin'' d of
        None \<Rightarrow> Inl 503
      | Some c \<Rightarrow>
          if \<not> check password (adm_hash c) then Inl 401
          else (case issue_session mac a (adm_version c) now of None \<Rightarrow> Inl 500 | Some t \<Rightarrow> Inr t))"

definition change_admin_password ::
  "(string \<Rightarrow> string \<Rightarrow> bool) \<Rightarrow> call \<Rightarrow> string \<Rightarrow> string \<Rightarrow> db \<Rightarrow> nat + db" where
  \<comment> \<open>\<open>new_hash\<close>: \<open>hash_admin_password(body.new_password)\<close>\<close>
  "change_admin_password check e current new_hash d =
     (case get_admin_credential ''admin'' d of
        None \<Rightarrow> Inl 503
      | Some c \<Rightarrow>
          if \<not> check current (adm_hash c) then Inl 400
          else Inr (update_admin_password e ''admin'' new_hash d))"

section \<open>Base64 text reads back\<close>

lemma b64_value_char:
  assumes "n < 64"
  shows "b64_value (b64_char n) = Some n" and "b64_char n \<noteq> CHR ''=''" and "b64_char n \<noteq> CHR ''.''"
    and "(of_char (b64_char n) :: nat) < 128"
proof -
  let ?m = "if n < 26 then n + 65 else if n < 52 then n + 71 else if n < 62 then n - 4 else if n = 62 then 45 else 95"
  have m: "(of_char (b64_char n) :: nat) = ?m" using assms by (simp add: b64_char_def of_char_of)
  show "b64_value (b64_char n) = Some n" unfolding b64_value_def m Let_def using assms by auto
  show "(of_char (b64_char n) :: nat) < 128" unfolding m using assms by auto
  have "?m \<noteq> 61" "?m \<noteq> 46" using assms by auto
  moreover have "(of_char CHR ''='' :: nat) = 61" "(of_char CHR ''.'' :: nat) = 46" by simp_all
  ultimately show "b64_char n \<noteq> CHR ''=''" "b64_char n \<noteq> CHR ''.''" using m by metis+
qed

lemma sextets_bound: "list_all (\<lambda>b. b < 256) s \<Longrightarrow> list_all (\<lambda>n. n < 64) (sextets s)"
proof (induction s rule: sextets.induct)
  case (1 a b c r)
  then have "a div 4 < 64" "b div 16 < 16" "c div 64 < 4" by (simp_all add: less_mult_imp_div_less)
  moreover have "(a mod 4) * 16 \<le> 48" "(b mod 16) * 4 \<le> 60" by (simp_all add: mult.commute)
  ultimately show ?case using 1 by simp
next
  case (2 a b)
  then have "a div 4 < 64" "b div 16 < 16" by (simp_all add: less_mult_imp_div_less)
  moreover have "(a mod 4) * 16 \<le> 48" "(b mod 16) * 4 \<le> 60" by (simp_all add: mult.commute)
  ultimately show ?case by simp
next
  case (3 a)
  then have "a div 4 < 64" by (simp add: less_mult_imp_div_less)
  moreover have "(a mod 4) * 16 \<le> 48" by (simp add: mult.commute)
  ultimately show ?case by simp
qed simp

lemma urlsafe_encode_sextets:
  assumes "list_all (\<lambda>b. b < 256) s"
  shows "urlsafe_encode s = map b64_char (sextets s)"
proof -
  let ?xs = "map b64_char (sextets s)"
  have "x \<noteq> CHR ''=''" if "x \<in> set ?xs" for x
    using that sextets_bound [OF assms] b64_value_char(2) by (auto simp: list_all_iff)
  then have "hd (rev ?xs) \<noteq> CHR ''=''" if "?xs \<noteq> []" using that by (simp only: hd_rev last_in_set not_False_eq_True)
  then have "dropWhile (\<lambda>c. c = CHR ''='') (rev ?xs) = rev ?xs" by (auto simp only: dropWhile_eq_self_iff rev_is_Nil_conv)
  moreover have "dropWhile (\<lambda>c. c = CHR ''='') (replicate n CHR ''='' @ ys) = dropWhile (\<lambda>c. c = CHR ''='') ys" for n ys
    by (induction n) auto
  ultimately show ?thesis by (simp add: urlsafe_encode_def b64encode_def pad4_def)
qed

lemma pad4_add: "pad4 (Suc (Suc (Suc (Suc n)))) = pad4 n"
proof -
  have "- int (Suc (Suc (Suc (Suc n)))) = - int n - 4" by simp
  then have "- int (Suc (Suc (Suc (Suc n)))) mod 4 = (- int n - 4) mod 4" by (rule arg_cong)
  also have "\<dots> = - int n mod 4" using mod_diff_right_eq [of "- int n" 4 4] by simp
  finally show ?thesis by (simp only: pad4_def)
qed

lemma a2b_char:
  assumes "v < 64"
  shows "a2b 0 l p (b64_char v # cs) = a2b 1 v 0 cs"
    and "a2b (Suc 0) l p (b64_char v # cs) = map_option (Cons (l * 4 + v div 16)) (a2b 2 (v mod 16) 0 cs)"
    and "a2b 2 l p (b64_char v # cs) = map_option (Cons (l * 16 + v div 4)) (a2b 3 (v mod 4) 0 cs)"
    and "a2b 3 l p (b64_char v # cs) = map_option (Cons (l * 64 + v)) (a2b 0 0 0 cs)"
  using b64_value_char [OF assms] by simp_all

lemma a2b_sextets:
  "list_all (\<lambda>b. b < 256) s \<Longrightarrow> a2b 0 l 0 (map b64_char (sextets s) @ pad4 (length (sextets s))) = Some s"
proof (induction s arbitrary: l rule: sextets.induct)
  case (1 a b c r)
  have v: "a div 4 < 64" "(a mod 4) * 16 + b div 16 < 64" "(b mod 16) * 4 + c div 64 < 64" "c mod 64 < 64"
    using sextets_bound [OF "1.prems"] by simp_all
  have bytes: "a div 4 * 4 + ((a mod 4) * 16 + b div 16) div 16 = a" "((a mod 4) * 16 + b div 16) mod 16 * 16 + ((b mod 16) * 4 + c div 64) div 4 = b"
    "((b mod 16) * 4 + c div 64) mod 4 * 64 + c mod 64 = c"
    using "1.prems" by (simp_all add: div_plus_div_distrib_dvd_left less_mult_imp_div_less)
  show ?case using "1.IH" "1.prems" bytes by (simp add: a2b_char v pad4_add del: a2b.simps)
next
  case (2 a b)
  have v: "a div 4 < 64" "(a mod 4) * 16 + b div 16 < 64" "(b mod 16) * 4 < 64"
    using sextets_bound [OF "2.prems"] by simp_all
  have bytes: "a div 4 * 4 + ((a mod 4) * 16 + b div 16) div 16 = a" "((a mod 4) * 16 + b div 16) mod 16 * 16 + b mod 16 = b"
    using "2.prems" by (simp_all add: less_mult_imp_div_less)
  have "pad4 (Suc (Suc (Suc 0))) = ''=''" by (simp add: pad4_def)
  moreover have "a2b 3 m 0 ''='' = Some []" for m by simp
  ultimately show ?case using bytes by (simp add: a2b_char v del: a2b.simps)
next
  case (3 a)
  have v: "a div 4 < 64" "(a mod 4) * 16 < 64"
    using sextets_bound [OF "3.prems"] by simp_all
  have "pad4 (Suc (Suc 0)) = ''==''" by (simp add: pad4_def numeral_2_eq_2)
  moreover have "a2b 2 m 0 ''=='' = Some []" for m by simp
  ultimately show ?case by (simp add: a2b_char v del: a2b.simps)
next
  case 4
  then show ?case by (simp add: pad4_def)
qed

lemma urlsafe_roundtrip:
  assumes "list_all (\<lambda>b. b < 256) s"
  shows "urlsafe_decode (urlsafe_encode s) = Some s"
    and "CHR ''.'' \<notin> set (urlsafe_encode s)" and "\<not> list_ex (\<lambda>c. 128 \<le> (of_char c :: nat)) (urlsafe_encode s)"
proof -
  have e: "urlsafe_encode s = map b64_char (sextets s)" by (rule urlsafe_encode_sextets [OF assms])
  have n: "n < 64" if "n \<in> set (sextets s)" for n using that sextets_bound [OF assms] by (simp add: list_all_iff)
  then show "CHR ''.'' \<notin> set (urlsafe_encode s)" unfolding e using b64_value_char(3) by fastforce
  show ascii: "\<not> list_ex (\<lambda>c. 128 \<le> (of_char c :: nat)) (urlsafe_encode s)"
    unfolding e using n b64_value_char(4) by (fastforce simp: list_ex_iff not_le)
  then show "urlsafe_decode (urlsafe_encode s) = Some s"
    using a2b_sextets [OF assms] by (simp add: urlsafe_decode_def e)
qed

section \<open>Sessions\<close>

lemma split_token_dot: "CHR ''.'' \<notin> set p \<Longrightarrow> split_token (p @ CHR ''.'' # q) = Some (p, q)"
proof -
  assume "CHR ''.'' \<notin> set p"
  then have "dropWhile (\<lambda>c. c \<noteq> CHR ''.'') (p @ CHR ''.'' # q) = CHR ''.'' # q"
    "takeWhile (\<lambda>c. c \<noteq> CHR ''.'') (p @ CHR ''.'' # q) = p"
    by (induction p) auto
  then show ?thesis by (simp add: split_token_def)
qed

lemma to_bytes_bound: "list_all (\<lambda>b. b < 256) (to_bytes s)"
  by (simp add: to_bytes_def list_all_iff of_char_def)

text \<open>C28. A session cookie is accepted exactly until it expires and reads back as the administrator, the expiry
  and the credential version it was issued for; a cookie whose signature is not the one of its payload, so
  also one whose payload was changed after signing, is refused.\<close>

theorem session_roundtrip:
  assumes "auth_configured a" and "aa_secret a = Some secret"
    and "loads (session_payload a t v) = Some (session_value a t v)"
  shows "\<exists>token. issue_session mac a v t = Some token \<and>
     verify_session mac loads a (Some token) now =
       (if now < t + aa_ttl a then Some \<lparr>as_username = ''admin'', as_expires = t + aa_ttl a, as_version = v\<rparr> else None) \<and>
     (\<forall>payload signature. CHR ''.'' \<notin> set payload \<and> signature \<noteq> sign mac secret payload \<longrightarrow>
        verify_session mac loads a (Some (payload @ ''.'' @ signature)) now = None)"
proof -
  let ?b = "session_payload a t v"
  let ?p = "urlsafe_encode ?b"
  let ?t = "?p @ ''.'' @ sign mac secret ?p"
  have user: "aa_username a = ''admin''" using assms(1) by (simp add: auth_configured_def)
  have "list_all (\<lambda>b. b < 256) ?b" unfolding session_payload_def by (rule to_bytes_bound)
  note R = urlsafe_roundtrip [OF this]
  have issued: "issue_session mac a v t = Some ?t" using assms(1,2) by (simp add: issue_session_def Let_def)
  have "session_fields (session_value a t v) = Some (JStr ''admin'', t + aa_ttl a, v)"
    by (simp add: session_fields_def session_value_def user)
  then have "verify_session mac loads a (Some ?t) now =
     (if now < t + aa_ttl a then Some \<lparr>as_username = ''admin'', as_expires = t + aa_ttl a, as_version = v\<rparr> else None)"
    using assms R user by (simp add: verify_session_def split_token_dot [OF R(2)])
  moreover have "verify_session mac loads a (Some (payload @ ''.'' @ signature)) now = None"
    if "CHR ''.'' \<notin> set payload" "signature \<noteq> sign mac secret payload" for payload signature
    using assms(2) that(2) by (simp add: verify_session_def split_token_dot [OF that(1)])
  ultimately show ?thesis using issued by blast
qed

definition demo_auth :: admin_auth where
  "demo_auth = \<lparr>aa_username = ''admin'', aa_ttl = 28800, aa_secret = Some (replicate 32 7)\<rparr>"

theorem session_roundtrip_witness:
  "\<exists>token. issue_session (\<lambda>k m. [200, 7]) demo_auth 3 100 = Some token \<and>
     verify_session (\<lambda>k m. [200, 7]) (\<lambda>b. if b = session_payload demo_auth 100 3 then Some (session_value demo_auth 100 3) else None)
       demo_auth (Some token) 28899 = Some \<lparr>as_username = ''admin'', as_expires = 28900, as_version = 3\<rparr>"
proof -
  have "auth_configured demo_auth" "aa_secret demo_auth = Some (replicate 32 7)" "aa_ttl demo_auth = 28800"
    by (simp_all add: auth_configured_def demo_auth_def)
  then show ?thesis
    using session_roundtrip [of demo_auth "replicate 32 7"
      "\<lambda>b. if b = session_payload demo_auth 100 3 then Some (session_value demo_auth 100 3) else None" 100 3 "\<lambda>k m. [200, 7]" 28899]
    by auto
qed

section \<open>Tokens and passwords\<close>

text \<open>What one step of the repository may do to the tokens and the administrator: a token keeps its
  identifier and hash and a revocation lasts; the administrator's credential version only grows.\<close>

definition access_le :: "db \<Rightarrow> db \<Rightarrow> bool" where
  "access_le d d' =
     ((\<forall>t \<in> set (tokens d). \<exists>t' \<in> set (tokens d'). tok_id t' = tok_id t \<and> tok_hash t' = tok_hash t \<and>
         (tok_revoked t \<noteq> None \<longrightarrow> tok_revoked t' = tok_revoked t)) \<and>
      (\<forall>c. get_admin_credential ''admin'' d = Some c \<longrightarrow>
         (\<exists>c'. get_admin_credential ''admin'' d' = Some c' \<and> adm_version c \<le> adm_version c')))"

definition access_inv :: "db \<Rightarrow> bool" where
  "access_inv d = (distinct (map tok_id (tokens d)) \<and> distinct (map tok_hash (tokens d)) \<and>
     distinct (map adm_user (admins d)))"

lemma access_le_refl [simp]: "access_le d d"
  by (auto simp: access_le_def)

lemma access_le_token:
  "access_le d d' \<Longrightarrow> t \<in> set (tokens d) \<Longrightarrow> \<exists>t' \<in> set (tokens d'). tok_id t' = tok_id t \<and> tok_hash t' = tok_hash t \<and>
     (tok_revoked t \<noteq> None \<longrightarrow> tok_revoked t' = tok_revoked t)"
  by (simp add: access_le_def)

lemma access_le_admin:
  "access_le d d' \<Longrightarrow> get_admin_credential ''admin'' d = Some c \<Longrightarrow>
   \<exists>c'. get_admin_credential ''admin'' d' = Some c' \<and> adm_version c \<le> adm_version c'"
  by (simp add: access_le_def)

lemma access_le_trans:
  assumes "access_le a b" and "access_le b c"
  shows "access_le a c"
  unfolding access_le_def
proof (intro conjI ballI allI impI)
  fix t assume "t \<in> set (tokens a)"
  then obtain u where u: "u \<in> set (tokens b)" "tok_id u = tok_id t" "tok_hash u = tok_hash t"
    "tok_revoked t \<noteq> None \<longrightarrow> tok_revoked u = tok_revoked t" using access_le_token [OF assms(1)] by blast
  then obtain v where "v \<in> set (tokens c)" "tok_id v = tok_id u" "tok_hash v = tok_hash u"
    "tok_revoked u \<noteq> None \<longrightarrow> tok_revoked v = tok_revoked u" using access_le_token [OF assms(2)] by blast
  with u show "\<exists>t' \<in> set (tokens c). tok_id t' = tok_id t \<and> tok_hash t' = tok_hash t \<and>
     (tok_revoked t \<noteq> None \<longrightarrow> tok_revoked t' = tok_revoked t)" by (intro bexI [of _ v]) auto
next
  fix x assume "get_admin_credential ''admin'' a = Some x"
  then obtain y where y: "get_admin_credential ''admin'' b = Some y" "adm_version x \<le> adm_version y"
    using access_le_admin [OF assms(1)] by blast
  then obtain z where "get_admin_credential ''admin'' c = Some z" "adm_version y \<le> adm_version z"
    using access_le_admin [OF assms(2)] by blast
  with y(2) show "\<exists>z. get_admin_credential ''admin'' c = Some z \<and> adm_version x \<le> adm_version z" by auto
qed

lemma access_same: "tokens d' = tokens d \<Longrightarrow> admins d' = admins d \<Longrightarrow> access_le d d' \<and> access_inv d' = access_inv d"
  by (auto simp: access_le_def access_inv_def get_admin_credential_def)

lemma insert_token_access:
  "insert_token t d = Inr d' \<Longrightarrow> access_inv d \<Longrightarrow> access_inv d' \<and> access_le d d'"
  by (auto simp: insert_token_def guard_insert_eq access_inv_def access_le_def get_admin_credential_def row_get_None_iff)

lemma insert_admin_access:
  "insert_admin a d = Inr d' \<Longrightarrow> access_inv d \<Longrightarrow> access_inv d' \<and> access_le d d'"
  by (auto simp: insert_admin_def guard_insert_eq access_inv_def access_le_def get_admin_credential_def row_get_None_iff
      row_get_add)

lemma update_password_access:
  assumes "access_inv d"
  shows "access_inv (update_admin_password e u h d)" and "access_le d (update_admin_password e u h d)"
  using assms by (auto simp: access_inv_def access_le_def update_admin_password_def row_upd_pk get_admin_credential_def row_get_upd)

lemma distinct_map_inj: "distinct (map f xs) \<Longrightarrow> x \<in> set xs \<Longrightarrow> y \<in> set xs \<Longrightarrow> f x = f y \<Longrightarrow> x = y"
  by (simp add: distinct_map inj_on_def)

lemma revoke_token_access:
  assumes "revoke_api_token e tid d = Inr (t, d')" and "access_inv d"
  shows "access_inv d'" and "access_le d d'" and "\<exists>t' \<in> set (tokens d'). tok_id t' = tid \<and> tok_hash t' = tok_hash t \<and> tok_revoked t' \<noteq> None"
proof -
  let ?f = "\<lambda>t. t\<lparr>tok_revoked := Some (call_now e)\<rparr>"
  obtain t0 where t0: "row_get tok_id tid (tokens d) = Some t0"
    using assms(1) by (cases "row_get tok_id tid (tokens d)") (simp_all add: revoke_api_token_def)
  have in0: "t0 \<in> set (tokens d)" "tok_id t0 = tid" using t0 by (auto dest: row_get_SomeD)
  note A = assms(1) [unfolded revoke_api_token_def t0 of_opt_simps bindE_simps]
  consider (fresh) "tok_revoked t0 = None" "t = ?f t0" "d' = d\<lparr>tokens := row_upd tok_id tid ?f (tokens d)\<rparr>"
    | (kept) "tok_revoked t0 \<noteq> None" "t = t0" "d' = d"
  proof (cases "tok_revoked t0 = None")
    case True
    then show thesis using A by (intro fresh) simp_all
  next
    case False
    then show thesis using A by (intro kept) (auto split: if_splits)
  qed
  then have "access_inv d' \<and> access_le d d' \<and> (\<exists>t' \<in> set (tokens d'). tok_id t' = tid \<and> tok_hash t' = tok_hash t \<and> tok_revoked t' \<noteq> None)"
  proof cases
    case fresh
    have ids: "map tok_id (row_upd tok_id tid ?f (tokens d)) = map tok_id (tokens d)"
      "map tok_hash (row_upd tok_id tid ?f (tokens d)) = map tok_hash (tokens d)"
      by (simp_all add: row_upd_def)
    have "access_inv d'" using assms(2) by (simp add: fresh(3) access_inv_def ids)
    have same: "x = t0" if "x \<in> set (tokens d)" "tok_id x = tid" for x
      using that in0 assms(2) by (intro distinct_map_inj [of tok_id]) (simp_all add: access_inv_def)
    have "\<exists>x' \<in> set (tokens d'). tok_id x' = tok_id x \<and> tok_hash x' = tok_hash x \<and>
         (tok_revoked x \<noteq> None \<longrightarrow> tok_revoked x' = tok_revoked x)" if x: "x \<in> set (tokens d)" for x
    proof (cases "tok_id x = tid")
      case True
      then have "x = t0" using same x by blast
      then have "?f x \<in> set (tokens d')" using x True by (auto simp: fresh(3) set_row_upd)
      then show ?thesis using fresh(1) \<open>x = t0\<close> by (intro bexI [of _ "?f x"]) simp_all
    next
      case False
      then have "x \<in> set (tokens d')" using x by (auto simp: fresh(3) set_row_upd)
      then show ?thesis by blast
    qed
    then have "access_le d d'" by (simp add: access_le_def fresh(3) get_admin_credential_def)
    moreover have "?f t0 \<in> set (tokens d')" using in0 by (auto simp: fresh(3) set_row_upd)
    then have "\<exists>t' \<in> set (tokens d'). tok_id t' = tid \<and> tok_hash t' = tok_hash t \<and> tok_revoked t' \<noteq> None"
      using in0 by (intro bexI [of _ "?f t0"]) (simp_all add: fresh(2))
    ultimately show ?thesis using \<open>access_inv d'\<close> by blast
  next
    case kept
    then show ?thesis using assms(2) in0 by auto
  qed
  then show "access_inv d'" "access_le d d'"
    "\<exists>t' \<in> set (tokens d'). tok_id t' = tid \<and> tok_hash t' = tok_hash t \<and> tok_revoked t' \<noteq> None" by blast+
qed

lemma revoked_refused:
  assumes "access_inv d" and "t \<in> set (tokens d)" and "tok_revoked t \<noteq> None"
  shows "\<not> validate_api_token (tok_hash t) d"
proof -
  have "x = t" if "x \<in> set (tokens d)" "tok_hash x = tok_hash t" for x
    using that assms(1,2) by (intro distinct_map_inj [of tok_hash]) (simp_all add: access_inv_def)
  then show ?thesis using assms(3) by (auto simp: validate_api_token_def list_ex_iff)
qed

lemma verify_session_issued:
  assumes "verify_session mac loads a cookie now = Some s"
  shows "as_username s = ''admin''"
  using assms by (auto simp: verify_session_def auth_configured_def split: option.splits if_splits)

lemma change_password_version:
  assumes "change_admin_password check e current h d = Inr d'"
  obtains c c' where "get_admin_credential ''admin'' d = Some c" and "get_admin_credential ''admin'' d' = Some c'"
    and "adm_version c < adm_version c'" and "adm_hash c' = h" and "check current (adm_hash c)"
    and "d' = update_admin_password e ''admin'' h d"
proof -
  obtain c where c: "get_admin_credential ''admin'' d = Some c"
    using assms by (cases "get_admin_credential ''admin'' d") (simp_all add: change_admin_password_def)
  have ok: "check current (adm_hash c)"
    by (rule ccontr) (use assms c in \<open>simp add: change_admin_password_def\<close>)
  then have d': "d' = update_admin_password e ''admin'' h d"
    using assms c by (simp add: change_admin_password_def)
  have "get_admin_credential ''admin'' d' =
      Some (c\<lparr>adm_hash := h, adm_version := adm_version c + 1, adm_updated := call_now e\<rparr>)"
    using c by (simp add: d' get_admin_credential_def update_admin_password_def row_get_upd)
  from that [OF c this _ _ ok d'] show thesis by simp
qed

end
