(* ===== verification/Repository.thy ===== *)
theory Repository
  imports Invocations Access
begin

text \<open>
  The repository as a whole. A step of the database is one method of \<open>PlatformRepository\<close> that returned, in its
  own transaction; \<open>repo_step\<close> has a rule for every method that changes a row. The invariants of the services,
  the runtime profiles, the invocations and the credentials hold of every database that steps lead to from
  the empty one, and what they promise together is stated of those.
\<close>

section \<open>The methods that write\<close>

inductive repo_step :: "packaging \<Rightarrow> (json \<Rightarrow> string) \<Rightarrow> db \<Rightarrow> db \<Rightarrow> bool" for pk py_str where
  CreateService: "create_service e cq d = Inr (s, d') \<Longrightarrow> repo_step pk py_str d d'"
| DeleteService: "delete_service sid d = Inr (n, d') \<Longrightarrow> repo_step pk py_str d d'"
| UpdateService: "update_service e sid uq d = Inr (s, d') \<Longrightarrow> repo_step pk py_str d d'"
| ConfigureWebhook: "configure_service_webhook e sid h d = Inr (s, d') \<Longrightarrow> repo_step pk py_str d d'"
| CreateRevision: "create_revision e sid rq cid prof d = Inr (r, d') \<Longrightarrow> repo_step pk py_str d d'"
| ActivateRevision: "activate_revision e sid rid d = Inr (r, d') \<Longrightarrow> repo_step pk py_str d d'"
| StopService: "stop_service e sid d = Inr (s, d') \<Longrightarrow> repo_step pk py_str d d'"
| StartService: "start_service e sid d = Inr (s, d') \<Longrightarrow> repo_step pk py_str d d'"
| StopUnsupported: "stop_services_with_unsupported_interfaces e d = Inr (ns, d') \<Longrightarrow> repo_step pk py_str d d'"
| RegisterContract: "register_contract pk e sid p d = Inr (c, d') \<Longrightarrow> repo_step pk py_str d d'"
| CreateLabel: "create_runtime_label e name pq d = Inr (rec, d') \<Longrightarrow> repo_step pk py_str d d'"
| CreateVersion: "create_runtime_version e lid pq d = Inr (rec, d') \<Longrightarrow> repo_step pk py_str d d'"
| CompleteValidation: "complete_runtime_profile_validation e vid res info env g d = Inr (rec, d') \<Longrightarrow> repo_step pk py_str d d'"
| FailValidation: "fail_runtime_profile_validation e vid msg d = Inr (u, d') \<Longrightarrow>
    (\<And>v. ver_at vid d = Some v \<Longrightarrow> pv_status v \<noteq> ProfActive) \<Longrightarrow> repo_step pk py_str d d'"
| ActivateProfile: "activate_runtime_profile pk py_str e vid d = Inr ((rec, old, n), d') \<Longrightarrow> repo_step pk py_str d d'"
| RetireProfile: "retire_runtime_profile e vid fin d = Inr (rec, d') \<Longrightarrow> repo_step pk py_str d d'"
| UpdatePolicy: "update_endpoint_invocation_policy e sid eid k d = Inr (p, d') \<Longrightarrow> repo_step pk py_str d d'"
| BeginInvocation: "begin_invocation e t transport d = Inr (i, d') \<Longrightarrow> repo_step pk py_str d d'"
| FinishInvocation: "finish_invocation e iid st err logs d = Inr (u, d') \<Longrightarrow> repo_step pk py_str d d'"
| CreateAdmin: "create_admin_credential e hash d = Inr (a, d') \<Longrightarrow> repo_step pk py_str d d'"
| UpdatePassword: "repo_step pk py_str d (update_admin_password e user hash d)"
| CreateToken: "create_api_token e name hash prefix d = Inr (t, d') \<Longrightarrow> repo_step pk py_str d d'"
| RevokeToken: "revoke_api_token e tid d = Inr (t, d') \<Longrightarrow> repo_step pk py_str d d'"

text \<open>The premise of \<open>FailValidation\<close> is kept by the callers: a validation ends once, by completing or by failing,
  and only a completed one makes a version that can be activated.\<close>

section \<open>What a method leaves alone\<close>

definition invs_same :: "db \<Rightarrow> db \<Rightarrow> bool" where
  "invs_same d d' = (invocations d' = invocations d \<and> executions d' = executions d \<and> inv_logs d' = inv_logs d)"
definition access_same :: "db \<Rightarrow> db \<Rightarrow> bool" where
  "access_same d d' = (tokens d' = tokens d \<and> admins d' = admins d)"
definition profs_same :: "db \<Rightarrow> db \<Rightarrow> bool" where
  "profs_same d d' = (labels d' = labels d \<and> versions d' = versions d)"
definition rest_same :: "db \<Rightarrow> db \<Rightarrow> bool" where
  "rest_same d d' = (invs_same d d' \<and> access_same d d')"

lemmas same_defs = invs_same_def access_same_def profs_same_def rest_same_def

text \<open>A relation that every step inside a method keeps is kept by the method.\<close>

definition ends_in :: "(db \<Rightarrow> db \<Rightarrow> bool) \<Rightarrow> db \<Rightarrow> 'a result \<Rightarrow> bool" where
  "ends_in R d m = (\<forall>x d'. m = Inr (x, d') \<longrightarrow> R d d')"

locale table_frame =
  fixes R :: "db \<Rightarrow> db \<Rightarrow> bool"
  assumes frame_refl: "R d d" and frame_trans: "R a b \<Longrightarrow> R b c \<Longrightarrow> R a c"
    and frame_emit: "emit_event oid now t g p d = Inr d' \<Longrightarrow> R d d'"
begin

lemma ends_Inl: "ends_in R d (Inl e)"
  by (simp add: ends_in_def)

lemma ends_Inr: "R d d' \<Longrightarrow> ends_in R d (Inr (x, d'))"
  by (simp add: ends_in_def)

lemma ends_bind: "(\<And>x. m = Inr x \<Longrightarrow> ends_in R d (f x)) \<Longrightarrow> ends_in R d (bindE m f)"
  by (cases m) (simp_all add: ends_in_def)

lemma ends_emit: "R d d1 \<Longrightarrow> (\<And>d2. R d d2 \<Longrightarrow> ends_in R d (f d2)) \<Longrightarrow> ends_in R d (bindE (emit_event a b c g h d1) f)"
  by (rule ends_bind) (meson frame_emit frame_trans)

lemma ends_if: "(c \<Longrightarrow> ends_in R d x) \<Longrightarrow> (\<not> c \<Longrightarrow> ends_in R d y) \<Longrightarrow> ends_in R d (if c then x else y)"
  by simp

lemma ends_option:
  "(k = None \<Longrightarrow> ends_in R d x) \<Longrightarrow> (\<And>v. k = Some v \<Longrightarrow> ends_in R d (f v)) \<Longrightarrow> ends_in R d (case k of None \<Rightarrow> x | Some v \<Rightarrow> f v)"
  by (simp split: option.split)

lemmas ends_rules = ends_Inl ends_if ends_option ends_emit ends_bind ends_Inr

lemma ends_inD: "m = Inr (x, d') \<Longrightarrow> ends_in R d m \<Longrightarrow> R d d'"
  by (simp add: ends_in_def)

end

interpretation rest: table_frame rest_same
  by unfold_locales (auto simp: insert_defs guard_insert_eq same_defs)

interpretation core: table_frame core_same
  by unfold_locales (auto simp: insert_defs guard_insert_eq core_same_def)

interpretation profs: table_frame profs_same
  by unfold_locales (auto simp: insert_defs guard_insert_eq same_defs)

lemma upd_rest [simp]:
  "rest_same d (upd_service now sid f d)" "profs_same d (upd_service now sid f d)"
  "rest_same d (upd_revision rid g d)" "profs_same d (upd_revision rid g d)"
  "rest_same d (upd_version vid h d)" "rest_same d (upd_label now lid k d)"
  by (simp_all add: upd_service_def upd_revision_def upd_version_def upd_label_def same_defs)

lemma rest_refl [simp]: "rest_same d d" "profs_same d d"
  by (simp_all add: same_defs)

lemma drain_publish_rest: "rest_same d (publish_revision e s r (drain_old_revision s r d))"
    "profs_same d (publish_revision e s r (drain_old_revision s r d))"
  by (auto simp: publish_revision_def drain_old_revision_def upd_service_def upd_revision_def same_defs split: option.splits)

lemma service_rest:
  "ends_in rest_same d (stop_service e sid d)" "ends_in profs_same d (stop_service e sid d)"
  "ends_in rest_same d (start_service e sid d)" "ends_in profs_same d (start_service e sid d)"
  "ends_in rest_same d (activate_revision e sid rid d)" "ends_in profs_same d (activate_revision e sid rid d)"
  unfolding stop_service_def start_service_def activate_revision_def
  by (intro rest.ends_rules profs.ends_rules upd_rest drain_publish_rest; assumption)+

lemma service_data_rest:
  "ends_in rest_same d (update_service e sid q d)" "ends_in profs_same d (update_service e sid q d)"
  "ends_in rest_same d (configure_service_webhook e sid h d)" "ends_in profs_same d (configure_service_webhook e sid h d)"
  unfolding update_service_def configure_service_webhook_def Let_def
  by (intro rest.ends_rules profs.ends_rules upd_rest)+

lemma create_service_rest:
  "ends_in rest_same d (create_service e q d)" "ends_in profs_same d (create_service e q d)"
  by (auto simp: ends_in_def create_service_def Let_def bindE_eq_Inr insert_defs guard_insert_eq same_defs)

lemma stop_unsupported_rest:
  "ends_in rest_same d (stop_services_with_unsupported_interfaces e d)"
  "ends_in profs_same d (stop_services_with_unsupported_interfaces e d)"
proof -
  have row: "rest_same (snd p) (snd q) \<and> profs_same (snd p) (snd q)" if "stop_unsupported_row e x p = Inr q" for x p q
  proof -
    obtain i s r st b where x: "x = (i, s, r)" "p = (st, b)" by (metis prod_cases3 surj_pair)
    have "ends_in rest_same b (stop_unsupported_row e x p)" "ends_in profs_same b (stop_unsupported_row e x p)"
      unfolding stop_unsupported_row_def x prod.case
      by (intro rest.ends_rules profs.ends_rules upd_rest; simp)+
    then show ?thesis using that x by (cases q) (simp add: ends_in_def)
  qed
  have all: "rest_same (snd p) (snd q) \<and> profs_same (snd p) (snd q)" if "foldE (stop_unsupported_row e) xs p = Inr q" for xs p q
    using that
  proof (induction xs arbitrary: p)
    case (Cons x xs)
    then obtain p1 where "stop_unsupported_row e x p = Inr p1" "foldE (stop_unsupported_row e) xs p1 = Inr q"
      by (auto simp: bindE_eq_Inr)
    then show ?case using row Cons.IH by (meson rest.frame_trans profs.frame_trans)
  qed simp
  show "ends_in rest_same d (stop_services_with_unsupported_interfaces e d)"
    "ends_in profs_same d (stop_services_with_unsupported_interfaces e d)"
    using all by (fastforce simp: ends_in_def stop_services_with_unsupported_interfaces_def)+
qed

lemma profile_rest:
  "ends_in rest_same d (create_runtime_label e name pq d)" "ends_in rest_same d (create_runtime_version e lid pq d)"
  "ends_in rest_same d (complete_runtime_profile_validation e vid res info env g d)"
  "ends_in rest_same d (fail_runtime_profile_validation e vid msg d)"
  "ends_in rest_same d (retire_runtime_profile e vid fin d)"
proof -
  show "ends_in rest_same d (create_runtime_label e name pq d)" "ends_in rest_same d (create_runtime_version e lid pq d)"
    by (auto simp: ends_in_def create_runtime_label_def create_runtime_version_def Let_def bindE_eq_Inr insert_defs
      guard_insert_eq same_defs split: if_splits)
  show "ends_in rest_same d (complete_runtime_profile_validation e vid res info env g d)"
    "ends_in rest_same d (fail_runtime_profile_validation e vid msg d)" "ends_in rest_same d (retire_runtime_profile e vid fin d)"
    unfolding complete_runtime_profile_validation_def fail_runtime_profile_validation_def retire_runtime_profile_def Let_def
    by (intro rest.ends_rules upd_rest)+
qed

lemma retarget_rest: "foldE (retarget_binding l v) bs d = Inr d' \<Longrightarrow> rest_same d d'"
proof (induction bs arbitrary: d)
  case (Cons b bs)
  then obtain d1 where d1: "retarget_binding l v b d = Inr d1" "foldE (retarget_binding l v) bs d1 = Inr d'"
    by (auto simp: bindE_eq_Inr)
  have "rest_same d d1"
    using d1(1) by (auto simp: retarget_binding_def Let_def bindE_eq_Inr same_defs upd_revision_def split: option.splits)
  then show ?case using Cons.IH [OF d1(2)] rest.frame_trans by blast
qed simp

lemma activate_profile_rest: "ends_in rest_same d (activate_runtime_profile pk py_str e vid d)"
proof -
  have old: "rest_same d (snd (release_old old vid d1))" if "rest_same d d1" for old d1
    using that by (auto simp: release_old_def Let_def split: option.split intro: rest.frame_trans)
  have new: "rest_same d (upd_version vid f (upd_label now lid g d1))" if "rest_same d d1" for f now lid g d1
    using that upd_rest by (meson rest.frame_trans)
  show ?thesis
    unfolding activate_runtime_profile_def Let_def
    by (intro rest.ends_rules) (erule retarget_rest [THEN new] old)+
qed

lemma insert_rest:
  "insert_revision x a = Inr b \<Longrightarrow> rest_same a b" "insert_binding y a = Inr b \<Longrightarrow> rest_same a b"
  "insert_rev_contract z a = Inr b \<Longrightarrow> rest_same a b" "insert_contract c a = Inr b \<Longrightarrow> rest_same a b"
  "insert_endpoint u a = Inr b \<Longrightarrow> rest_same a b" "insert_policy v a = Inr b \<Longrightarrow> rest_same a b"
  by (auto simp: insert_defs guard_insert_eq same_defs)

lemma insert_endpoints_rest: "foldE insert_endpoint xs a = Inr b \<Longrightarrow> rest_same a b"
proof (induction xs arbitrary: a)
  case (Cons x xs)
  then obtain a1 where a1: "insert_endpoint x a = Inr a1" "foldE insert_endpoint xs a1 = Inr b" by (auto simp: bindE_eq_Inr)
  then show ?case using Cons.IH [OF a1(2)] insert_rest(5) rest.frame_trans by blast
qed simp

lemma create_revision_rest: "ends_in rest_same d (create_revision e sid q cid prof d)"
  unfolding create_revision_def Let_def
proof (intro rest.ends_rules)
  fix d1 d2 d3 d4
  assume "insert_revision (new_revision e sid q prof) d = Inr d1"
    and "(case prof of None \<Rightarrow> Inr d1 | Some p \<Rightarrow> insert_binding (new_binding e q p) d1) = Inr d2"
    and "(case cid of None \<Rightarrow> Inr d2
          | Some c \<Rightarrow> insert_rev_contract \<lparr>rc_rev = rev_id (new_revision e sid q prof), rc_contract = c\<rparr> d2) = Inr d3"
    and "foldE insert_endpoint (map (new_endpoint e) (enumerate 0 (if_endpoints (rr_interface q)))) d3 = Inr d4"
  then have "rest_same d d1" "rest_same d1 d2" "rest_same d2 d3" "rest_same d3 d4"
    by (auto dest: insert_rest insert_endpoints_rest split: option.splits)
  then show "rest_same d d4" by (meson rest.frame_trans)
qed

lemma register_contract_rest: "ends_in rest_same d (register_contract pk e sid p d)"
  unfolding register_contract_def Let_def
  by (intro rest.ends_rules) (auto dest: insert_rest simp: same_defs)

lemma insert_core: "insert_contract c a = Inr b \<Longrightarrow> core_same a b" "insert_policy v a = Inr b \<Longrightarrow> core_same a b"
  by (auto simp: insert_defs guard_insert_eq core_same_def)

lemma register_contract_core: "ends_in core_same d (register_contract pk e sid p d)"
  unfolding register_contract_def Let_def
  by (intro core.ends_rules) (auto dest: insert_core simp: core_same_def)

lemma update_policy_ends:
  assumes "update_endpoint_invocation_policy e sid eid k d = Inr (p, d')"
  obtains d1 where "core_same d d1" and "rest_same d d1" and "d' = prune_endpoint_invocations sid eid k d1"
proof -
  obtain d1 where "(case policy_at sid eid d of
        None \<Rightarrow> insert_policy \<lparr>pol_service = sid, pol_endpoint = eid, pol_count = k, pol_updated = call_now e\<rparr> d
      | Some _ \<Rightarrow> Inr (d\<lparr>policies := row_upd (\<lambda>p. (pol_service p, pol_endpoint p)) (sid, eid)
          (\<lambda>p. p\<lparr>pol_count := k, pol_updated := call_now e\<rparr>) (policies d)\<rparr>)) = Inr d1"
    and d': "d' = prune_endpoint_invocations sid eid k d1"
    using assms by (auto simp: update_endpoint_invocation_policy_def bindE_eq_Inr Let_def split: if_splits option.splits)
  then have "core_same d d1 \<and> rest_same d d1"
    by (auto dest: insert_core insert_rest simp: core_same_def same_defs split: option.splits)
  then show thesis using that d' by blast
qed

lemma prune_core: "core_same d (prune_endpoint_invocations sid eid k d)" "access_same d (prune_endpoint_invocations sid eid k d)"
  by (simp_all add: core_same_def access_same_def table_simps prune_endpoint_invocations_def drop_invocations_def Let_def)

lemma invocation_access:
  "begin_invocation e t transport d = Inr (i, d') \<Longrightarrow> access_same d d'"
  "finish_invocation e iid st err logs d = Inr (u, d') \<Longrightarrow> access_same d d'"
proof -
  show "begin_invocation e t transport d = Inr (i, d') \<Longrightarrow> access_same d d'"
    by (auto simp: begin_invocation_def Let_def bindE_eq_Inr insert_defs guard_insert_eq access_same_def split: if_splits)
  show "finish_invocation e iid st err logs d = Inr (u, d') \<Longrightarrow> access_same d d'"
    by (erule finish_invocation_parts)
      (simp add: access_same_def mark_finished_def prune_endpoint_invocations_def drop_invocations_def Let_def)
qed

lemma access_life:
  "create_admin_credential e hash d = Inr (a, d') \<Longrightarrow> core_same d d' \<and> invs_same d d'"
  "create_api_token e name hash prefix d = Inr (t, d') \<Longrightarrow> core_same d d' \<and> invs_same d d'"
  "revoke_api_token e tid d = Inr (t, d') \<Longrightarrow> core_same d d' \<and> invs_same d d'"
  "core_same d (update_admin_password e user hash d)" "invs_same d (update_admin_password e user hash d)"
  by (auto simp: create_admin_credential_def create_api_token_def revoke_api_token_def update_admin_password_def Let_def
    bindE_eq_Inr of_opt_eq insert_defs guard_insert_eq core_same_def invs_same_def split: if_splits)

section \<open>The invariant\<close>

definition repo_inv :: "db \<Rightarrow> bool" where
  "repo_inv d = (lifecycle_inv d \<and> profile_inv d \<and> invocation_inv d \<and> access_inv d)"

lemma empty_inv: "repo_inv empty_db"
  by (simp add: repo_inv_def empty_db_def lifecycle_inv_def profile_inv_def invocation_inv_def access_inv_def published_def
    lbl_at_def ver_at_def)

lemma invs_same_inv: "invs_same d d' \<Longrightarrow> invocation_inv d' = invocation_inv d"
  by (rule invocation_inv_same) (simp_all add: invs_same_def)

lemma access_same_inv: "access_same d d' \<Longrightarrow> access_le d d' \<and> access_inv d' = access_inv d"
  by (rule access_same) (simp_all add: access_same_def)

lemma profs_same_inv: "profs_same d d' \<Longrightarrow> profile_inv d' = profile_inv d"
  by (simp add: profile_inv_def profs_same_def lbl_at_def ver_at_def)

text \<open>A step that keeps the invocations and the credentials as they are.\<close>

lemma rest_step:
  assumes "rest_same d d'" and "repo_inv d" and "lifecycle_inv d'" and "profile_inv d'"
  shows "repo_inv d' \<and> access_le d d'"
  using assms invs_same_inv [of d d'] access_same_inv [of d d'] by (simp add: repo_inv_def rest_same_def)

lemma core_step:
  assumes "core_same d d'" and "repo_inv d" and "invocation_inv d'" and "access_inv d' \<and> access_le d d'"
  shows "repo_inv d' \<and> access_le d d'"
  using assms core_same_inv [OF assms(1)] by (simp add: repo_inv_def)

lemma repo_step_inv:
  assumes "repo_step pk py_str d d'" and inv: "repo_inv d"
  shows "repo_inv d' \<and> access_le d d'"
proof -
  have L: "lifecycle_inv d" and P: "profile_inv d" and I: "invocation_inv d" and A: "access_inv d"
    using inv by (simp_all add: repo_inv_def)
  have di: "distinct (map rev_id (revisions d))" using L by (simp add: lifecycle_inv_def)
  note service = rest_step [OF _ inv _ iffD2 [OF profs_same_inv P]]
  note profile = rest_step [OF _ inv core_same_inv(1) [OF _ L]]
  from assms(1) show ?thesis
  proof cases
    case (CreateService e cq s)
    from service [OF rest.ends_inD [OF this create_service_rest(1)] create_service_inv [OF L this]
        profs.ends_inD [OF this create_service_rest(2)]] show ?thesis .
  next
    case (DeleteService sid n)
    have same: "labels d' = labels d" "versions d' = versions d" "tokens d' = tokens d" "admins d' = admins d"
      "invocations d' = filter (\<lambda>i. inv_service i \<noteq> sid) (invocations d)"
      "executions d' = filter (\<lambda>x. exe_inv x \<notin> inv_id ` {i \<in> set (invocations d). inv_service i = sid}) (executions d)"
      "inv_logs d' = filter (\<lambda>l. il_inv l \<notin> inv_id ` {i \<in> set (invocations d). inv_service i = sid}) (inv_logs d)"
      using DeleteService by (auto simp: delete_service_def result_simps delete_cascade_def Let_def split: if_splits)
    have "invocation_inv d'"
      using I unfolding invocation_inv_def same by (simp add: distinct_map_filter) (auto 0 3)
    moreover have "profile_inv d'" using P by (simp add: profile_inv_def lbl_at_def ver_at_def same)
    ultimately show ?thesis
      using delete_service_inv [OF L DeleteService] access_same [OF same(3,4)] A by (simp add: repo_inv_def)
  next
    case (UpdateService e sid uq s)
    from service [OF rest.ends_inD [OF this service_data_rest(1)] update_service_inv [OF L this]
        profs.ends_inD [OF this service_data_rest(2)]] show ?thesis .
  next
    case (ConfigureWebhook e sid h s)
    from service [OF rest.ends_inD [OF this service_data_rest(3)] configure_webhook_inv [OF L this]
        profs.ends_inD [OF this service_data_rest(4)]] show ?thesis .
  next
    case (CreateRevision e sid rq cid prof r)
    from rest_step [OF rest.ends_inD [OF this create_revision_rest] inv create_revision_inv(1) [OF this L]
        create_revision_inv(2) [OF this P]] show ?thesis .
  next
    case (ActivateRevision e sid rid r)
    from service [OF rest.ends_inD [OF this service_rest(5)] activate_revision_inv [OF L this]
        profs.ends_inD [OF this service_rest(6)]] show ?thesis .
  next
    case (StopService e sid s)
    from service [OF rest.ends_inD [OF this service_rest(1)] stop_service_inv [OF L this]
        profs.ends_inD [OF this service_rest(2)]] show ?thesis .
  next
    case (StartService e sid s)
    from service [OF rest.ends_inD [OF this service_rest(3)] start_service_inv [OF L this]
        profs.ends_inD [OF this service_rest(4)]] show ?thesis .
  next
    case (StopUnsupported e ns)
    from service [OF rest.ends_inD [OF this stop_unsupported_rest(1)] stop_unsupported_inv [OF L this]
        profs.ends_inD [OF this stop_unsupported_rest(2)]] show ?thesis .
  next
    case (RegisterContract e sid p c)
    note same = core.ends_inD [OF this register_contract_core]
    from rest_step [OF rest.ends_inD [OF RegisterContract register_contract_rest] inv core_same_inv(1) [OF same L]
        core_same_inv(2) [OF same P]] show ?thesis .
  next
    case (CreateLabel e name pq rec)
    have "same_view d d'" using CreateLabel
      by (auto simp: create_runtime_label_def Let_def bindE_eq_Inr insert_defs guard_insert_eq same_view_def split: if_splits)
    from rest_step [OF rest.ends_inD [OF CreateLabel profile_rest(1)] inv lifecycle_same_view [OF this L]
        create_label_inv [OF P CreateLabel]] show ?thesis .
  next
    case (CreateVersion e lid pq rec)
    have "same_view d d'" using CreateVersion
      by (auto simp: create_runtime_version_def Let_def bindE_eq_Inr insert_defs guard_insert_eq same_view_def split: if_splits)
    from rest_step [OF rest.ends_inD [OF CreateVersion profile_rest(2)] inv lifecycle_same_view [OF this L]
        create_version_inv [OF P CreateVersion]] show ?thesis .
  next
    case (CompleteValidation e vid res info env g rec)
    have "same_view d d'" using CompleteValidation
      by (auto simp: complete_runtime_profile_validation_def Let_def result_simps same_view_def split: if_splits)
    from rest_step [OF rest.ends_inD [OF CompleteValidation profile_rest(3)] inv lifecycle_same_view [OF this L]
        complete_validation_inv [OF P CompleteValidation]] show ?thesis .
  next
    case (FailValidation e vid msg u)
    have "same_view d d'" using FailValidation(1)
      by (auto simp: fail_runtime_profile_validation_def Let_def result_simps same_view_def)
    from rest_step [OF rest.ends_inD [OF FailValidation(1) profile_rest(4)] inv lifecycle_same_view [OF this L]
        fail_validation_inv [OF P FailValidation]] show ?thesis .
  next
    case (ActivateProfile e vid rec old n)
    from rest_step [OF rest.ends_inD [OF this activate_profile_rest] inv
        lifecycle_same_view [OF activation_same_view [OF P di this] L] activate_profile_inv [OF P di this]] show ?thesis .
  next
    case (RetireProfile e vid fin rec)
    have "same_view d d'" using RetireProfile by (elim retire_profile_parts) (simp add: same_view_def)
    from rest_step [OF rest.ends_inD [OF RetireProfile profile_rest(5)] inv lifecycle_same_view [OF this L]
        retire_profile_inv [OF P RetireProfile]] show ?thesis .
  next
    case (UpdatePolicy e sid eid k p)
    then obtain d1 where d1: "core_same d d1" "rest_same d d1" "d' = prune_endpoint_invocations sid eid k d1"
      by (rule update_policy_ends)
    have "core_same d d'" using d1 prune_core(1) by (metis core.frame_trans)
    moreover have "invocation_inv d'" using d1 I invs_same_inv [of d d1] prune_inv by (simp add: rest_same_def)
    moreover have "access_same d d'" using d1(2) prune_core(2) [of d1 sid eid k] by (simp add: d1(3) rest_same_def access_same_def)
    ultimately show ?thesis using core_step [OF _ inv] access_same_inv A by blast
  next
    case (BeginInvocation e t transport i)
    from core_step [OF begin_invocation_tables(5) [OF this] inv begin_invocation_inv [OF this I]]
      access_same_inv [OF invocation_access(1) [OF this]] A show ?thesis by blast
  next
    case (FinishInvocation e iid st err logs u)
    from core_step [OF finish_invocation_core [OF this] inv finish_invocation_inv [OF this I]]
      access_same_inv [OF invocation_access(2) [OF this]] A show ?thesis by blast
  next
    case (CreateAdmin e hash a)
    have "access_inv d' \<and> access_le d d'"
      using CreateAdmin insert_admin_access [OF _ A] by (auto simp: create_admin_credential_def Let_def bindE_eq_Inr)
    with access_life(1) [OF CreateAdmin] I show ?thesis using core_step [OF _ inv] invs_same_inv by blast
  next
    case (UpdatePassword e user hash)
    then show ?thesis
      using core_step [OF access_life(4) inv] access_life(5) invs_same_inv I update_password_access [OF A] by blast
  next
    case (CreateToken e name hash prefix t)
    have "access_inv d' \<and> access_le d d'"
      using CreateToken insert_token_access [OF _ A] by (auto simp: create_api_token_def Let_def bindE_eq_Inr)
    with access_life(2) [OF CreateToken] I show ?thesis using core_step [OF _ inv] invs_same_inv by blast
  next
    case (RevokeToken e tid t)
    with access_life(3) [OF this] I revoke_token_access(1,2) [OF this A] show ?thesis
      using core_step [OF _ inv] invs_same_inv by blast
  qed
qed

interpretation repository: inductive_invariant "\<lambda>d. d = empty_db" "repo_step pk py_str" repo_inv
proof unfold_locales
  show "repo_inv d" if "d = empty_db" for d using that empty_inv by simp
  show "repo_inv d'" if "repo_inv d" "repo_step pk py_str d d'" for d d' using repo_step_inv [OF that(2,1)] by blast
qed

lemma repo_steps_access: "(repo_step pk py_str)\<^sup>*\<^sup>* d d' \<Longrightarrow> repo_inv d \<Longrightarrow> repo_inv d' \<and> access_le d d'"
proof (induction rule: rtranclp_induct)
  case (step b c)
  then show ?case using repo_step_inv [of pk py_str b c] access_le_trans by blast
qed simp

abbreviation repo_reachable :: "packaging \<Rightarrow> (json \<Rightarrow> string) \<Rightarrow> db \<Rightarrow> bool" where
  "repo_reachable pk py_str \<equiv> reachable (\<lambda>d. d = empty_db) (repo_step pk py_str)"

section \<open>Properties\<close>

text \<open>C1. Whatever methods the repository has run: an active service has an active revision of its own, no service
  has two active revisions, no gRPC route is published by two services, no label has two active profile
  versions, every execution and log line belongs to an invocation, and a finished invocation has its end.\<close>

theorem repository_consistent:
  assumes "repo_reachable pk py_str d"
  shows "(\<forall>s \<in> set (services d). svc_status s = SvcActive \<longrightarrow>
       (\<exists>r \<in> set (revisions d). svc_active_rev s = Some (rev_id r) \<and> rev_service r = svc_id s \<and> rev_status r = RevActive)) \<and>
    (\<forall>r \<in> set (revisions d). \<forall>r' \<in> set (revisions d).
       rev_status r = RevActive \<and> rev_status r' = RevActive \<and> rev_service r = rev_service r' \<longrightarrow> r = r') \<and>
    (\<forall>k k'. k \<noteq> k' \<longrightarrow> published d k \<inter> published d k' = {}) \<and>
    (\<forall>v \<in> set (versions d). \<forall>v' \<in> set (versions d).
       pv_status v = ProfActive \<and> pv_status v' = ProfActive \<and> pv_label v = pv_label v' \<longrightarrow> v = v') \<and>
    exe_inv ` set (executions d) \<union> il_inv ` set (inv_logs d) \<subseteq> inv_id ` set (invocations d) \<and>
    (\<forall>i \<in> set (invocations d). terminal (inv_status i) \<longrightarrow> inv_finished i \<noteq> None)"
proof -
  have inv: "lifecycle_inv d" "profile_inv d" "invocation_inv d"
    using repository.reach_inv [OF assms] by (simp_all add: repo_inv_def)
  have svc: "svc_at (svc_id s) d = Some s" if "s \<in> set (services d)" for s
    using inv(1) that by (simp add: lifecycle_inv_def row_get_unique)
  have rev: "rev_at k d = Some r \<longleftrightarrow> r \<in> set (revisions d) \<and> rev_id r = k" for k r
    using inv(1) by (simp add: lifecycle_inv_def row_get_unique)
  have ver: "ver_at k d = Some v \<longleftrightarrow> v \<in> set (versions d) \<and> pv_id v = k" for k v
    using inv(2) by (simp add: profile_inv_def row_get_unique ver_at_def)
  have "\<exists>r \<in> set (revisions d). svc_active_rev s = Some (rev_id r) \<and> rev_service r = svc_id s \<and> rev_status r = RevActive"
    if s: "s \<in> set (services d)" "svc_status s = SvcActive" for s
  proof -
    obtain rid where rid: "svc_active_rev s = Some rid" using lifecycle_active [OF inv(1) svc [OF s(1)] s(2)] by blast
    from lifecycle_active_rev [OF inv(1) svc [OF s(1)] rid] show ?thesis using rid by (auto simp: rev)
  qed
  moreover have "r = r'" if r: "r \<in> set (revisions d)" "r' \<in> set (revisions d)"
    "rev_status r = RevActive" "rev_status r' = RevActive" "rev_service r = rev_service r'" for r r'
  proof -
    have at: "rev_at (rev_id r) d = Some r" "rev_at (rev_id r') d = Some r'" using r(1,2) by (simp_all add: rev)
    obtain s where s: "svc_at (rev_service r) d = Some s" "svc_active_rev s = Some (rev_id r)"
      using lifecycle_owner [OF inv(1) at(1)] r(3) by blast
    obtain s' where "svc_at (rev_service r') d = Some s'" "svc_active_rev s' = Some (rev_id r')"
      using lifecycle_owner [OF inv(1) at(2)] r(4) by blast
    with s r(5) have "rev_id r = rev_id r'" by (metis option.inject)
    with at show ?thesis by (metis option.inject)
  qed
  moreover have "v = v'" if v: "v \<in> set (versions d)" "v' \<in> set (versions d)"
    "pv_status v = ProfActive" "pv_status v' = ProfActive" "pv_label v = pv_label v'" for v v'
  proof -
    have at: "ver_at (pv_id v) d = Some v" "ver_at (pv_id v') d = Some v'" using v(1,2) by (simp_all add: ver)
    obtain l where l: "lbl_at (pv_label v) d = Some l" "lbl_active l = Some (pv_id v)"
      using profile_label [OF inv(2) at(1)] v(3) by blast
    obtain l' where "lbl_at (pv_label v') d = Some l'" "lbl_active l' = Some (pv_id v')"
      using profile_label [OF inv(2) at(2)] v(4) by blast
    with l v(5) have "pv_id v = pv_id v'" by (metis option.inject)
    with at show ?thesis by (metis option.inject)
  qed
  moreover have "exe_inv ` set (executions d) \<union> il_inv ` set (inv_logs d) \<subseteq> inv_id ` set (invocations d)"
    using inv(3) by (auto simp: invocation_inv_def)
  ultimately show ?thesis using lifecycle_routes [OF inv(1)] inv(3) by (simp add: invocation_inv_def)
qed

definition calls :: "nat \<Rightarrow> call" where
  "calls n = \<lparr>call_now = of_nat n, call_ids = (\<lambda>i. n + i)\<rparr>"

definition first_service :: service where
  "first_service = \<lparr>svc_id = 100, svc_name = ''shop'', svc_git_url = ''https://g/x'', svc_git_branch = None,
     svc_tracking = ''manual'', svc_interval = None, svc_token_hash = None, svc_webhook_at = None, svc_profile = None,
     svc_profile_mode = None, svc_status = SvcRegistered, svc_active_rev = None, svc_created = 100, svc_updated = 100\<rparr>"

definition first_revision :: revision where
  "first_revision = new_revision (calls 200) 100 (one_endpoint ''days'') None"

definition shop_db :: db where
  "shop_db = empty_db\<lparr>services := [first_service]\<rparr>"

definition first_rest :: "db \<Rightarrow> bool" where
  \<comment> \<open>the tables beside the service and its revision\<close>
  "first_rest d = (endpoints d = [new_endpoint (calls 200) (0, demo_endpoint ''days'')] \<and> bindings d = [] \<and> tokens d = [] \<and>
     invocations d = [] \<and> executions d = [] \<and> inv_logs d = [] \<and> policies d = [])"

lemma first_registration:
  "\<exists>s. create_service (calls 100) \<lparr>csr_name = ''shop'', csr_git_url = ''https://g/x'', csr_branch = None,
      csr_tracking = ''manual'', csr_interval = None\<rparr> empty_db = Inr (s, shop_db)"
  by (simp add: create_service_def Let_def insert_service_def guard_insert_def empty_db_def first_service_def calls_def
    shop_db_def)

lemma first_creation:
  "\<exists>r d2. create_revision (calls 200) 100 (one_endpoint ''days'') None None shop_db = Inr (r, d2) \<and>
      services d2 = [first_service] \<and> revisions d2 = [first_revision] \<and> map ob_id (outboxes d2) = [202] \<and> first_rest d2"
proof -
  let ?d1 = "shop_db\<lparr>revisions := [first_revision]\<rparr>"
  let ?ep = "new_endpoint (calls 200) (0, demo_endpoint ''days'')"
  have g: "get_service 100 shop_db = Inr first_service"
    by (simp add: get_service_def row_get_Cons shop_db_def) (simp add: first_service_def)
  have i: "insert_revision first_revision shop_db = Inr ?d1"
    by (simp add: insert_revision_def guard_insert_def row_get_Cons shop_db_def empty_db_def)
      (simp add: first_service_def first_revision_def new_revision_def)
  have e: "insert_endpoint ?ep ?d1 = Inr (?d1\<lparr>endpoints := [?ep]\<rparr>)"
    by (simp add: insert_endpoint_def guard_insert_def row_get_Cons shop_db_def empty_db_def)
      (simp add: first_revision_def new_revision_def new_endpoint_def calls_def)
  have c: "call_ids (calls 200) (Suc (Suc 0)) = 202" by (simp add: calls_def)
  have o: "\<exists>d5. emit_event 202 t topic agg p (?d1\<lparr>endpoints := [?ep]\<rparr>) = Inr d5 \<and> services d5 = [first_service] \<and>
      revisions d5 = [first_revision] \<and> map ob_id (outboxes d5) = [202] \<and> first_rest d5" for t topic agg p
    by (simp add: emit_event_def insert_outbox_def guard_insert_def shop_db_def empty_db_def first_rest_def)
  have n: "es_grpc (demo_endpoint ''days'') = None" by (simp add: demo_endpoint_def)
  obtain d5 where d5: "emit_event 202 (call_now (calls 200)) ''revision.ready'' (uuid_str (rev_id first_revision))
      [(''service_id'', JStr (uuid_str 100)), (''revision_id'', JStr (uuid_str (rev_id first_revision)))]
      (?d1\<lparr>endpoints := [?ep]\<rparr>) = Inr d5"
    and s: "services d5 = [first_service] \<and> revisions d5 = [first_revision] \<and> map ob_id (outboxes d5) = [202] \<and> first_rest d5"
    using o by meson
  have "create_revision (calls 200) 100 (one_endpoint ''days'') None None shop_db = Inr (first_revision, d5)"
    unfolding create_revision_def g bindE_simps Let_def first_revision_def [symmetric] i served_endpoints
    using e d5 by (simp add: n c del: uuid_str_def)
  with s show ?thesis by (intro exI [of _ first_revision] exI [of _ d5]) simp
qed

definition live_service :: service where
  "live_service = first_service\<lparr>svc_status := SvcActive, svc_active_rev := Some 200, svc_updated := 300\<rparr>"

definition live_revision :: revision where
  "live_revision = first_revision\<lparr>rev_status := RevActive, rev_activated := Some 300\<rparr>"

lemma first_activation:
  assumes "services d = [first_service]" and "revisions d = [first_revision]" and "map ob_id (outboxes d) = [202]" and "first_rest d"
  shows "\<exists>r d3. activate_revision (calls 300) 100 200 d = Inr (r, d3) \<and> services d3 = [live_service] \<and>
     revisions d3 = [live_revision] \<and> first_rest d3"
proof -
  have "grpc_path_of (to_manifest (demo_endpoint ''days'')) = None"
    by (subst grpc_path_of_manifest) (simp_all add: demo_endpoint_def metadata_fields_def)
  then have "grpc_method_paths (rev_manifest first_revision) = Inr []"
    by (simp add: first_revision_def new_revision_def grpc_method_paths_def endpoint_items_def revision_manifest_def
      dget_def served_endpoints List.map_filter_simps)
  moreover have "supports_current_interface first_revision"
    by (simp add: supports_current_interface_def first_revision_def new_revision_def revision_manifest_def dfind_def dget_def)
  moreover have "rev_status first_revision = RevReady" by (simp add: first_revision_def)
  ultimately have c: "activation_checks first_service first_revision d = Inr ()"
    by (simp add: activation_checks_def require_current_interface_def)
  have g: "get_service 100 d = Inr first_service"
    by (simp add: get_service_def row_get_Cons assms(1)) (simp add: first_service_def)
  have r: "revision_of 100 200 d = Some first_revision"
    by (simp add: revision_of_def assms(2)) (simp add: first_revision_def new_revision_def calls_def)
  have o: "row_get ob_id 300 (outboxes d) = None"
    using assms(3) by (auto simp: row_get_None_iff)
  show ?thesis
    unfolding activate_revision_def g r bindE_simps of_opt_simps c live_service_def live_revision_def
    using o assms
    by (simp add: first_rest_def emit_event_def insert_outbox_def guard_insert_def publish_revision_def drain_old_revision_def first_service_def
      upd_service_def upd_revision_def row_upd_def first_revision_def new_revision_def calls_def)
qed

lemma first_reachable:
  "\<exists>d. repo_reachable pk py_str d \<and> services d = [live_service] \<and> revisions d = [live_revision] \<and> first_rest d"
proof -
  obtain s where s: "create_service (calls 100) \<lparr>csr_name = ''shop'', csr_git_url = ''https://g/x'', csr_branch = None,
      csr_tracking = ''manual'', csr_interval = None\<rparr> empty_db = Inr (s, shop_db)" using first_registration ..
  obtain r where "\<exists>d2. create_revision (calls 200) 100 (one_endpoint ''days'') None None shop_db = Inr (r, d2) \<and>
      services d2 = [first_service] \<and> revisions d2 = [first_revision] \<and> map ob_id (outboxes d2) = [202] \<and> first_rest d2"
    using first_creation ..
  then obtain d2 where d2: "create_revision (calls 200) 100 (one_endpoint ''days'') None None shop_db = Inr (r, d2) \<and>
      services d2 = [first_service] \<and> revisions d2 = [first_revision] \<and> map ob_id (outboxes d2) = [202] \<and> first_rest d2" ..
  obtain r' where "\<exists>d3. activate_revision (calls 300) 100 200 d2 = Inr (r', d3) \<and> services d3 = [live_service] \<and>
     revisions d3 = [live_revision] \<and> first_rest d3" using first_activation [of d2] d2 by meson
  then obtain d3 where d3: "activate_revision (calls 300) 100 200 d2 = Inr (r', d3) \<and> services d3 = [live_service] \<and>
     revisions d3 = [live_revision] \<and> first_rest d3" ..
  have 0: "repo_reachable pk py_str empty_db" by (rule reachable.start) simp
  have 1: "repo_reachable pk py_str shop_db" by (rule reachable.move [OF 0 repo_step.CreateService [OF s]])
  have 2: "repo_reachable pk py_str d2" by (rule reachable.move [OF 1 repo_step.CreateRevision [OF conjunct1 [OF d2]]])
  have "repo_reachable pk py_str d3" by (rule reachable.move [OF 2 repo_step.ActivateRevision [OF conjunct1 [OF d3]]])
  with d3 show ?thesis by meson
qed

theorem repository_consistent_witness:
  "\<exists>d :: db. map svc_status (services d) = [SvcActive] \<and>
     (\<exists>s \<in> set (services d). \<exists>r \<in> set (revisions d). svc_active_rev s = Some (rev_id r) \<and> rev_status r = RevActive)"
proof -
  obtain d where d: "repo_reachable demo_packaging (\<lambda>_. []) d" "map svc_status (services d) = [SvcActive]"
    using first_reachable [of demo_packaging "\<lambda>_. []"] by (auto simp: live_service_def)
  obtain s where s: "services d = [s]" "svc_status s = SvcActive" using d(2) by (cases "services d") simp_all
  have "s \<in> set (services d)" by (simp add: s(1))
  with conjunct1 [OF repository_consistent [OF d(1)]] s(2)
  have "\<exists>r \<in> set (revisions d). svc_active_rev s = Some (rev_id r) \<and> rev_status r = RevActive" by meson
  with d(2) \<open>s \<in> set (services d)\<close> show ?thesis by (intro exI [of _ d] conjI bexI [of _ s]) simp_all
qed

text \<open>C27. A revoked API token is never accepted again, and after a change of the administrator's password no
  session that was issued before it passes, whatever methods run in between.\<close>

theorem revocation_lasts:
  assumes "repo_reachable pk py_str d" and "(repo_step pk py_str)\<^sup>*\<^sup>* d1 d2"
  shows "(revoke_api_token e tid d = Inr (t, d1) \<longrightarrow> \<not> validate_api_token (tok_hash t) d2) \<and>
    (get_admin_credential ''admin'' d = Some c \<and> change_admin_password check e current h d = Inr d1 \<and>
       auth_configured a \<and> verify_session mac loads a cookie now = Some s \<and> as_version s \<le> adm_version c \<longrightarrow>
       require_admin_session mac loads a cookie now d2 = Http 401)"
proof (intro conjI impI)
  have inv: "repo_inv d" by (rule repository.reach_inv [OF assms(1)])
  then have acc: "access_inv d" by (simp add: repo_inv_def)
  {
    assume r: "revoke_api_token e tid d = Inr (t, d1)"
    obtain t1 where t1: "t1 \<in> set (tokens d1)" "tok_hash t1 = tok_hash t" "tok_revoked t1 \<noteq> None"
      using revoke_token_access(3) [OF r acc] by blast
    have S: "repo_inv d2" "access_le d1 d2"
      using repo_steps_access [OF assms(2)] repo_step_inv [OF repo_step.RevokeToken [OF r] inv] by blast+
    obtain t2 where "t2 \<in> set (tokens d2)" "tok_hash t2 = tok_hash t" "tok_revoked t2 \<noteq> None"
      using access_le_token [OF S(2) t1(1)] t1(2,3) by auto
    then show "\<not> validate_api_token (tok_hash t) d2" using revoked_refused [of d2 t2] S(1) by (simp add: repo_inv_def)
  }
  assume "get_admin_credential ''admin'' d = Some c \<and> change_admin_password check e current h d = Inr d1 \<and>
       auth_configured a \<and> verify_session mac loads a cookie now = Some s \<and> as_version s \<le> adm_version c"
  then have ch: "change_admin_password check e current h d = Inr d1" and c: "get_admin_credential ''admin'' d = Some c"
    and v: "verify_session mac loads a cookie now = Some s" "as_version s \<le> adm_version c" "auth_configured a" by blast+
  obtain c0 c1 where c01: "get_admin_credential ''admin'' d = Some c0" "get_admin_credential ''admin'' d1 = Some c1"
    "adm_version c0 < adm_version c1" and d1: "d1 = update_admin_password e ''admin'' h d"
    by (rule change_password_version [OF ch]) (rule that)
  have "access_le d1 d2"
    using repo_steps_access [OF assms(2)] repo_step_inv [OF repo_step.UpdatePassword inv] d1 by blast
  then obtain c2 where c2: "get_admin_credential ''admin'' d2 = Some c2" "adm_version c1 \<le> adm_version c2"
    using access_le_admin [OF _ c01(2)] by blast
  have "adm_version c2 \<noteq> as_version s" using c01 c2(2) c v(2) by simp
  then show "require_admin_session mac loads a cookie now d2 = Http 401"
    using v c2(1) verify_session_issued [OF v(1)] by (simp add: require_admin_session_def)
qed

definition login_db :: db where
  "login_db = empty_db\<lparr>admins := [\<lparr>adm_user = ''admin'', adm_hash = ''h0'', adm_version = 1, adm_created = 1, adm_updated = 1\<rparr>],
     tokens := [\<lparr>tok_id = 2, tok_name = ''ci'', tok_hash = ''h'', tok_prefix = ''pst_'', tok_created = 2, tok_revoked = None\<rparr>]\<rparr>"

lemma login_db_reachable: "repo_reachable pk py_str login_db"
proof -
  let ?d1 = "empty_db\<lparr>admins := [\<lparr>adm_user = ''admin'', adm_hash = ''h0'', adm_version = 1, adm_created = 1, adm_updated = 1\<rparr>]\<rparr>"
  have "repo_reachable pk py_str empty_db" by (rule reachable.start) simp
  moreover have "\<exists>a. create_admin_credential (calls 1) ''h0'' empty_db = Inr (a, ?d1)"
    by (simp add: create_admin_credential_def Let_def insert_admin_def guard_insert_def empty_db_def calls_def)
  moreover have "\<exists>t. create_api_token (calls 2) ''ci'' ''h'' ''pst_'' ?d1 = Inr (t, login_db)"
    by (simp add: create_api_token_def Let_def insert_token_def guard_insert_def empty_db_def calls_def login_db_def)
  ultimately show ?thesis by (meson reachable.move repo_step.CreateAdmin repo_step.CreateToken)
qed

theorem revocation_lasts_witness:
  "\<exists>t d1. revoke_api_token (calls 3) 2 login_db = Inr (t, d1) \<and> validate_api_token ''h'' login_db \<and> \<not> validate_api_token ''h'' d1"
proof -
  obtain t d1 where r: "revoke_api_token (calls 3) 2 login_db = Inr (t, d1)" "tok_hash t = ''h''"
    by (simp add: revoke_api_token_def login_db_def row_get_Cons)
  have "\<not> validate_api_token (tok_hash t) d1"
    using revocation_lasts [OF login_db_reachable, of demo_packaging "\<lambda>_. []" d1 d1] r(1) by simp
  moreover have "validate_api_token ''h'' login_db" by (simp add: validate_api_token_def login_db_def)
  ultimately show ?thesis using r by metis
qed

end
