(* ===== verification/Registry.thy ===== *)
theory Registry
  imports Repository
begin

text \<open>
  The routing table of the gRPC gateway (\<open>grpc_gateway/registry.py\<close>): a snapshot of the active endpoints that is
  replaced as a whole, and the task that refreshes it for ever. Every lookup returns the route together
  with the endpoint it was built from, so that a call keeps the revision it started with.
\<close>

section \<open>The table\<close>

record grpc_route =
  gr_path :: string
  gr_target :: resolved_endpoint

record registry =
  rg_routes :: "(string \<times> grpc_route) list"
  rg_generation :: nat

datatype registry_error =
    DuplicateGrpcRoute string string string \<comment> \<open>the path and the names of the two services\<close>
  | RouteFormat \<comment> \<open>\<open>TypeError\<close> or \<open>KeyError\<close> on \<open>target.grpc[...]\<close>\<close>
  | ListingFailed repo_error

definition new_registry :: registry where
  "new_registry = \<lparr>rg_routes = [], rg_generation = 0\<rparr>"

definition resolve :: "string \<Rightarrow> registry \<Rightarrow> grpc_route option" where
  "resolve path g = map_of (rg_routes g) path"

definition format_value :: "(json \<Rightarrow> string) \<Rightarrow> json \<Rightarrow> string" where
  \<comment> \<open>a value in an f-string: \<open>str(value)\<close>\<close>
  "format_value py_str v = (case v of JStr s \<Rightarrow> s | _ \<Rightarrow> py_str v)"

definition route_path :: "(json \<Rightarrow> string) \<Rightarrow> json \<Rightarrow> registry_error + string" where
  "route_path py_str g =
     (case g of
        JObj o1 \<Rightarrow>
          (case (map_of o1 ''service'', map_of o1 ''method'') of
             (Some s, Some m) \<Rightarrow> Inr (''/'' @ format_value py_str s @ ''/'' @ format_value py_str m)
           | _ \<Rightarrow> Inl RouteFormat)
      | _ \<Rightarrow> Inl RouteFormat)"

fun add_routes ::
  "(json \<Rightarrow> string) \<Rightarrow> resolved_endpoint list \<Rightarrow> (string \<times> grpc_route) list \<Rightarrow> registry_error + (string \<times> grpc_route) list" where
  "add_routes py_str [] routes = Inr routes"
| "add_routes py_str (t # ts) routes =
     (if re_grpc t = JNull then add_routes py_str ts routes
      else bindE (route_path py_str (re_grpc t)) (\<lambda>path.
        case map_of routes path of
          Some first \<Rightarrow>
            Inl (DuplicateGrpcRoute path (re_service_name (gr_target first)) (re_service_name t))
        | None \<Rightarrow> add_routes py_str ts (AList.update path \<lparr>gr_path = path, gr_target = t\<rparr> routes)))"

definition replace :: "(json \<Rightarrow> string) \<Rightarrow> resolved_endpoint list \<Rightarrow> registry \<Rightarrow> (registry_error + nat) \<times> registry" where
  "replace py_str ts g =
     (case add_routes py_str ts [] of
        Inl x \<Rightarrow> (Inl x, g)
      | Inr routes \<Rightarrow>
          let g' = \<lparr>rg_routes = routes, rg_generation = rg_generation g + 1\<rparr> in (Inr (rg_generation g'), g'))"

definition refresh :: "(json \<Rightarrow> string) \<Rightarrow> db \<Rightarrow> registry \<Rightarrow> (registry_error + nat) \<times> registry" where
  "refresh py_str d g =
     (case list_active_endpoints d of
        Inl x \<Rightarrow> (Inl (ListingFailed x), g)
      | Inr ts \<Rightarrow> replace py_str ts g)"

definition refresh_rounds :: "(json \<Rightarrow> string) \<Rightarrow> db list \<Rightarrow> registry \<Rightarrow> registry" where
  \<comment> \<open>\<open>refresh_routes_forever\<close> on the databases it finds: every \<open>Exception\<close> of a round is logged and dropped\<close>
  "refresh_rounds py_str ds g = fold (\<lambda>d g. snd (refresh py_str d g)) ds g"

section \<open>What a table holds\<close>

text \<open>The reference: the routes of a list of endpoints, in their order. Filling the table succeeds exactly when
  every method has a path and no two paths are equal, and then the table is that list.\<close>

definition route_of :: "(json \<Rightarrow> string) \<Rightarrow> resolved_endpoint \<Rightarrow> registry_error + (string \<times> grpc_route)" where
  "route_of py_str t = bindE (route_path py_str (re_grpc t)) (\<lambda>p. Inr (p, \<lparr>gr_path = p, gr_target = t\<rparr>))"

definition routes_of :: "(json \<Rightarrow> string) \<Rightarrow> resolved_endpoint list \<Rightarrow> registry_error + (string \<times> grpc_route) list" where
  "routes_of py_str ts = mapE (route_of py_str) (filter (\<lambda>t. re_grpc t \<noteq> JNull) ts)"

lemma update_fresh: "k \<notin> fst ` set rs \<Longrightarrow> AList.update k v rs = rs @ [(k, v)]"
  by (induction rs) auto

lemma add_routes_eq:
  "distinct (map fst rs) \<Longrightarrow>
   add_routes py_str ts rs = Inr rs' \<longleftrightarrow>
     (\<exists>xs. routes_of py_str ts = Inr xs \<and> distinct (map fst (rs @ xs)) \<and> rs' = rs @ xs)"
proof (induction py_str ts rs arbitrary: rs' rule: add_routes.induct)
  case (2 py_str t ts rs)
  show ?case
  proof (cases "re_grpc t = JNull")
    case True
    then show ?thesis using 2 by (simp add: routes_of_def)
  next
    case False
    show ?thesis
    proof (cases "route_path py_str (re_grpc t)")
      case (Inl x)
      then show ?thesis using False by (simp add: routes_of_def route_of_def)
    next
      case (Inr p)
      let ?r = "\<lparr>gr_path = p, gr_target = t\<rparr>"
      have R: "routes_of py_str (t # ts) = bindE (routes_of py_str ts) (\<lambda>xs. Inr ((p, ?r) # xs))"
        using False Inr by (simp add: routes_of_def route_of_def)
      show ?thesis
      proof (cases "map_of rs p")
        case None
        then have n: "p \<notin> fst ` set rs" by (simp add: map_of_eq_None_iff)
        have "distinct (map fst (AList.update p ?r rs))" using 2(3) by (simp add: distinct_update)
        from 2(2) [OF False Inr None this] show ?thesis
          using False Inr None R by (auto simp: update_fresh [OF n] bindE_eq_Inr)
      next
        case (Some r)
        then have "p \<in> fst ` set rs" by (force dest: map_of_SomeD)
        then show ?thesis using False Inr Some R by (auto simp: bindE_eq_Inr)
      qed
    qed
  qed
qed (auto simp: routes_of_def)

definition at_path :: "(json \<Rightarrow> string) \<Rightarrow> resolved_endpoint \<Rightarrow> string \<Rightarrow> bool" where
  "at_path py_str t p = (re_grpc t \<noteq> JNull \<and> route_path py_str (re_grpc t) = Inr p)"

lemma add_routes_duplicate:
  assumes "add_routes py_str ts rs = Inl (DuplicateGrpcRoute p a b)"
  shows "\<exists>t1 t2. (t1 \<in> set ts \<and> at_path py_str t1 p \<or> t1 \<in> gr_target ` {r. (p, r) \<in> set rs}) \<and>
     t2 \<in> set ts \<and> at_path py_str t2 p \<and> a = re_service_name t1 \<and> b = re_service_name t2"
  using assms
proof (induction py_str ts rs rule: add_routes.induct)
  case (2 py_str t ts rs)
  show ?case
  proof (cases "re_grpc t = JNull")
    case True
    with 2(3) have "add_routes py_str ts rs = Inl (DuplicateGrpcRoute p a b)" by simp
    from 2(1) [OF True this] obtain t1 t2 where
      "t1 \<in> set ts \<and> at_path py_str t1 p \<or> t1 \<in> gr_target ` {r. (p, r) \<in> set rs}"
      "t2 \<in> set ts" "at_path py_str t2 p" "a = re_service_name t1" "b = re_service_name t2"
      by (elim exE conjE) (rule that)
    then show ?thesis by (intro exI [of _ t1] exI [of _ t2]) auto
  next
    case False
    have nofmt: "route_path py_str v \<noteq> Inl (DuplicateGrpcRoute q a b)" for v q
      by (simp add: route_path_def split: json.split option.split)
    obtain q where q: "route_path py_str (re_grpc t) = Inr q"
      using 2(3) False nofmt by (cases "route_path py_str (re_grpc t)") auto
    then have at: "at_path py_str t q" using False by (simp add: at_path_def)
    show ?thesis
    proof (cases "map_of rs q")
      case None
      then have n: "q \<notin> fst ` set rs" by (simp add: map_of_eq_None_iff)
      have "add_routes py_str ts (AList.update q \<lparr>gr_path = q, gr_target = t\<rparr> rs) = Inl (DuplicateGrpcRoute p a b)"
        using 2(3) False q None by simp
      from 2(2) [OF False q None this] obtain t1 t2 where
        t1: "t1 \<in> set ts \<and> at_path py_str t1 p \<or> t1 \<in> gr_target ` {r. (p, r) \<in> set (rs @ [(q, \<lparr>gr_path = q, gr_target = t\<rparr>)])}"
        and t2: "t2 \<in> set ts" "at_path py_str t2 p" "a = re_service_name t1" "b = re_service_name t2"
        unfolding update_fresh [OF n] by (elim exE conjE) (rule that)
      from t1 at have "t1 \<in> set (t # ts) \<and> at_path py_str t1 p \<or> t1 \<in> gr_target ` {r. (p, r) \<in> set rs}" by auto
      with t2 show ?thesis by (intro exI [of _ t1] exI [of _ t2]) simp
    next
      case (Some r)
      then have "(q, r) \<in> set rs" by (rule map_of_SomeD)
      moreover have "p = q" "a = re_service_name (gr_target r)" "b = re_service_name t" using 2(3) False q Some by simp_all
      ultimately show ?thesis using at by (intro exI [of _ "gr_target r"] exI [of _ t]) auto
    qed
  qed
qed simp

section \<open>The routes of the repository\<close>

definition string_route :: "json \<Rightarrow> bool" where
  \<comment> \<open>a \<open>GrpcEndpointSpec\<close>: service and method are strings\<close>
  "string_route v =
     (case v of
        JNull \<Rightarrow> True
      | JObj g \<Rightarrow> (case (map_of g ''service'', map_of g ''method'') of (Some (JStr _), Some (JStr _)) \<Rightarrow> True | _ \<Rightarrow> False)
      | _ \<Rightarrow> False)"

lemma item_of_in: "item_of n items = Inr x \<Longrightarrow> x \<in> set items"
  by (induction n items rule: item_of.induct) (auto split: option.splits if_splits)

lemma manifest_items_endpoint_items: "manifest_items m = Inr items \<Longrightarrow> endpoint_items m = Inr items"
  by (auto simp: manifest_items_def endpoint_items_def dget_def split: option.splits json.splits)

lemma resolved_path_published:
  assumes "resolved_endpoint s r x p = Inr t" and "string_route (re_grpc t)" and "at_path py_str t path"
  shows "\<exists>ps. grpc_method_paths (rev_manifest r) = Inr ps \<and> path \<in> set ps"
proof -
  from assms(1) obtain items spec where items: "manifest_items (rev_manifest r) = Inr items"
    and spec: "item_of (ep_name x) items = Inr spec" and g: "re_grpc t = dfind spec ''grpc''"
    by (auto simp: resolved_endpoint_def bindE_eq_Inr)
  obtain o1 a b where o1: "re_grpc t = JObj o1" "map_of o1 ''service'' = Some (JStr a)" "map_of o1 ''method'' = Some (JStr b)"
    using assms(2,3) by (auto simp: string_route_def at_path_def split: json.splits option.splits)
  then have "path = ''/'' @ a @ ''/'' @ b"
    using assms(3) by (simp add: at_path_def route_path_def format_value_def)
  then have "grpc_path_of spec = Some path" using o1 g by (simp add: grpc_path_of_def dfind_def dget_def)
  moreover have "grpc_method_paths (rev_manifest r) = Inr (List.map_filter grpc_path_of items)"
    by (simp add: grpc_method_paths_def manifest_items_endpoint_items [OF items])
  ultimately show ?thesis using item_of_in [OF spec] by (force simp: List.map_filter_def)
qed

lemma active_target:
  assumes "list_active_endpoints d = Inr ts" and "t \<in> set ts"
  shows "\<exists>s r x p. (s, r) \<in> set (active_rows d) \<and> resolved_endpoint s r x p = Inr t"
proof -
  let ?rows = "filter (\<lambda>(s, r, x, p). supports_current_interface r) (sort_key (\<lambda>(s, r, x, p). (svc_name s, ep_name x)) (endpoint_rows d))"
  obtain row where row: "row \<in> set ?rows" "(\<lambda>(s, r, x, p). resolved_endpoint s r x p) row = Inr t"
    using mapE_source [OF assms(1) [unfolded list_active_endpoints_def] assms(2)] by (elim bexE) (rule that)
  obtain s r x p where e: "row = (s, r, x, p)" by (cases row)
  have "row \<in> set (endpoint_rows d)" using row(1) by simp
  then have "(s, r) \<in> set (active_rows d)" unfolding e endpoint_rows_iff by blast
  moreover have "resolved_endpoint s r x p = Inr t" using row(2) by (simp add: e)
  ultimately show ?thesis by (intro exI conjI)
qed

lemma target_published:
  assumes "lifecycle_inv d" and "list_active_endpoints d = Inr ts" and "t \<in> set ts"
    and "string_route (re_grpc t)" and "at_path py_str t path"
  shows "path \<in> published d (re_service t)" and "\<exists>s. svc_at (re_service t) d = Some s \<and> re_service_name t = svc_name s"
proof -
  obtain s r x p where row: "(s, r) \<in> set (active_rows d)" and t: "resolved_endpoint s r x p = Inr t"
    using active_target [OF assms(2,3)] by meson
  have m: "s \<in> set (services d)" "r \<in> set (revisions d)" "svc_active_rev s = Some (rev_id r)" "svc_status s = SvcActive"
    "rev_status r = RevActive" using row by (simp_all add: active_rows_iff)
  have di: "distinct (map svc_id (services d))" "distinct (map rev_id (revisions d))"
    using assms(1) unfolding lifecycle_inv_def by blast+
  have s: "svc_at (svc_id s) d = Some s" by (rule row_get_unique [OF di(1), THEN iffD2, OF conjI [OF m(1) refl]])
  have r: "rev_at (rev_id r) d = Some r" by (rule row_get_unique [OF di(2), THEN iffD2, OF conjI [OF m(2) refl]])
  have f: "re_service t = svc_id s" "re_service_name t = svc_name s" using resolved_endpoint_fields [OF t] by simp_all
  obtain ps where "grpc_method_paths (rev_manifest r) = Inr ps" "path \<in> set ps"
    using resolved_path_published [OF t assms(4,5)] by meson
  then show "path \<in> published d (re_service t)"
    by (simp add: f(1) published_def s r m(3-5))
  show "\<exists>s. svc_at (re_service t) d = Some s \<and> re_service_name t = svc_name s" 
    unfolding f using s by blast
qed

lemma routes_of_Cons:
  "routes_of py_str (t # ts) = Inr rs \<longleftrightarrow>
     (if re_grpc t = JNull then routes_of py_str ts = Inr rs
      else \<exists>p rs'. route_path py_str (re_grpc t) = Inr p \<and> routes_of py_str ts = Inr rs' \<and>
        rs = (p, \<lparr>gr_path = p, gr_target = t\<rparr>) # rs')"
  by (auto simp: routes_of_def route_of_def bindE_eq_Inr)

lemma routes_of_set:
  "routes_of py_str ts = Inr rs \<Longrightarrow>
   (p, r) \<in> set rs \<longleftrightarrow> gr_path r = p \<and> gr_target r \<in> set ts \<and> at_path py_str (gr_target r) p"
proof (induction ts arbitrary: rs)
  case (Cons t ts)
  show ?case
  proof (cases "re_grpc t = JNull")
    case True
    then have n: "\<not> at_path py_str t p" by (simp add: at_path_def)
    from True Cons.prems have "routes_of py_str ts = Inr rs" by (simp add: routes_of_Cons)
    from Cons.IH [OF this] n show ?thesis by auto
  next
    case False
    obtain q rs' where q: "route_path py_str (re_grpc t) = Inr q" "routes_of py_str ts = Inr rs'"
      "rs = (q, \<lparr>gr_path = q, gr_target = t\<rparr>) # rs'"
      using Cons.prems False by (auto simp: routes_of_Cons)
    have "at_path py_str t p \<longleftrightarrow> p = q" using q(1) False by (auto simp: at_path_def)
    moreover have "r = \<lparr>gr_path = q, gr_target = t\<rparr> \<longleftrightarrow> gr_path r = q \<and> gr_target r = t" by (cases r) auto
    ultimately show ?thesis using Cons.IH [OF q(2)] by (auto simp: q(3))
  qed
qed (simp add: routes_of_def)

lemma routes_of_count:
  "routes_of py_str ts = Inr rs \<Longrightarrow> length (filter (\<lambda>t. at_path py_str t p) ts) = length (filter (\<lambda>k. k = p) (map fst rs))"
proof (induction ts arbitrary: rs)
  case (Cons t ts)
  then show ?case
    by (cases "re_grpc t = JNull") (auto simp: routes_of_Cons at_path_def)
qed (simp add: routes_of_def)

lemma distinct_once: "distinct xs \<Longrightarrow> length (filter (\<lambda>k. k = p) xs) \<le> 1"
  by (induction xs) (auto simp: filter_empty_conv)

text \<open>C18. A refresh replaces the routes as a whole or not at all: when it succeeds, a path resolves exactly to the
  active endpoint that declares it, one per path, and the generation grows by one; when it raises, the old
  routes stay. On a database the repository can reach, two services never collide: a duplicate route is
  two endpoints of one service.\<close>

theorem refresh_atomic:
  assumes "refresh py_str d g = (res, g')"
  shows "case res of
      Inl x \<Rightarrow> g' = g \<and>
        (\<forall>p a b ts. x = DuplicateGrpcRoute p a b \<and> repo_reachable pk py_str d \<and> list_active_endpoints d = Inr ts \<and>
           (\<forall>t \<in> set ts. string_route (re_grpc t)) \<longrightarrow> a = b)
    | Inr n \<Rightarrow> n = rg_generation g + 1 \<and> rg_generation g' = n \<and>
        (\<exists>ts. list_active_endpoints d = Inr ts \<and>
          (\<forall>p r. resolve p g' = Some r \<longleftrightarrow> gr_path r = p \<and> gr_target r \<in> set ts \<and> at_path py_str (gr_target r) p) \<and>
          (\<forall>p. length (filter (\<lambda>t. at_path py_str t p) ts) \<le> 1))"
proof (cases res)
  case (Inl x)
  have "a = b" if d: "x = DuplicateGrpcRoute p a b" and r: "repo_reachable pk py_str d"
    and l: "list_active_endpoints d = Inr ts" and s: "\<forall>t \<in> set ts. string_route (re_grpc t)" for p a b ts
  proof -
    have inv: "lifecycle_inv d" using repository.reach_inv [OF r] by (simp add: repo_inv_def)
    have "add_routes py_str ts [] = Inl (DuplicateGrpcRoute p a b)"
      using assms l Inl d by (auto simp: refresh_def replace_def Let_def split: sum.splits)
    from add_routes_duplicate [OF this] obtain t1 t2 where
      t1: "t1 \<in> set ts" "at_path py_str t1 p" and t2: "t2 \<in> set ts" "at_path py_str t2 p"
      and n: "a = re_service_name t1" "b = re_service_name t2" by auto
    have "p \<in> published d (re_service t1) \<inter> published d (re_service t2)"
      using target_published(1) [OF inv l t1(1) _ t1(2)] target_published(1) [OF inv l t2(1) _ t2(2)] s t1(1) t2(1) by blast
    then have "re_service t1 = re_service t2" using lifecycle_routes [OF inv] by blast
    moreover obtain s1 where "svc_at (re_service t1) d = Some s1" "re_service_name t1 = svc_name s1"
      using target_published(2) [OF inv l t1(1) _ t1(2)] s t1(1) by blast
    moreover obtain s2 where "svc_at (re_service t2) d = Some s2" "re_service_name t2 = svc_name s2"
      using target_published(2) [OF inv l t2(1) _ t2(2)] s t2(1) by blast
    ultimately show ?thesis using n by simp
  qed
  moreover have "g' = g" using assms Inl by (auto simp: refresh_def replace_def Let_def split: sum.splits)
  ultimately show ?thesis unfolding Inl by (simp only: sum.case) blast
next
  case (Inr n)
  obtain ts where l: "list_active_endpoints d = Inr ts"
    using assms Inr by (cases "list_active_endpoints d") (simp_all add: refresh_def)
  obtain rs where a: "add_routes py_str ts [] = Inr rs"
    using assms Inr l by (cases "add_routes py_str ts []") (simp_all add: refresh_def replace_def)
  have "(Inr (rg_generation g + 1) :: registry_error + nat, \<lparr>rg_routes = rs, rg_generation = rg_generation g + 1\<rparr>) = (Inr n, g')"
    using assms unfolding Inr refresh_def l replace_def a sum.case Let_def registry.select_convs .
  then have g: "g' = \<lparr>rg_routes = rs, rg_generation = rg_generation g + 1\<rparr>" "n = rg_generation g + 1"
    unfolding prod.inject sum.inject by (metis, metis)
  have rs: "routes_of py_str ts = Inr rs" "distinct (map fst rs)" using a by (simp_all add: add_routes_eq)
  have R: "resolve p g' = Some r \<longleftrightarrow> gr_path r = p \<and> gr_target r \<in> set ts \<and> at_path py_str (gr_target r) p" for p r
    using routes_of_set [OF rs(1), of p r] by (simp add: resolve_def g map_of_eq_Some_iff [OF rs(2)])
  have N: "length (filter (\<lambda>t. at_path py_str t p) ts) \<le> 1" for p
    unfolding routes_of_count [OF rs(1)] by (rule distinct_once [OF rs(2)])
  have G: "rg_generation g' = n" by (simp add: g)
  show ?thesis unfolding Inr sum.case using R N by (intro conjI exI [of _ ts] g(2) G l allI)
qed

definition rpc_db :: db where
  \<comment> \<open>an active service with one endpoint that is also a gRPC method\<close>
  "rpc_db = (served_db ''days'')\<lparr>
     revisions := [(demo_revision 2 7 RevActive [])\<lparr>rev_manifest := revision_manifest demo_request None\<rparr>]\<rparr>"

theorem refresh_atomic_witness:
  "\<exists>r. resolve ''/p.S/Run'' (snd (refresh (\<lambda>_. []) rpc_db new_registry)) = Some r \<and> re_revision (gr_target r) = 2 \<and>
     rg_generation (snd (refresh (\<lambda>_. []) rpc_db new_registry)) = 1"
proof -
  let ?e = "(demo_endpoint ''days'')\<lparr>es_grpc := Some \<lparr>gs_service = ''p.S'', gs_method = ''Run'', gs_descriptor = ''d.pb'',
        gs_generated = False, gs_wrapped = False\<rparr>\<rparr>"
  let ?r = "(demo_revision 2 7 RevActive [])\<lparr>rev_manifest := revision_manifest demo_request None\<rparr>"
  let ?x = "\<lparr>ep_id = 5, ep_rev = 2, ep_name = ''run'', ep_task = ''compute'', ep_entry = ''app.main:run'',
       ep_request = [], ep_response = []\<rparr>"
  have if1: "if_endpoints (rr_interface demo_request) = [?e]" by (simp add: demo_request_def)
  have i: "map_of (to_manifest ?e) ''id'' = Some (JStr ''run'')"
    and io: "dget (to_manifest ?e) ''io_type'' (JArr [JStr ''rest'']) = JArr [JStr ''rest'']"
    and gr: "route_path (\<lambda>_. []) (dfind (to_manifest ?e) ''grpc'') = Inr ''/p.S/Run''"
      "dfind (to_manifest ?e) ''grpc'' \<noteq> JNull"
    by (simp_all add: to_manifest_def dict_merge_def demo_endpoint_def dump_endpoint_def dget_def dfind_def dump_grpc_def
      route_path_def format_value_def)
  have "\<exists>t. resolved_endpoint (demo_service 7 SvcActive (Some 2)) ?r ?x None = Inr t \<and>
      re_grpc t = dfind (to_manifest ?e) ''grpc'' \<and> re_revision t = rev_id ?r"
    by (simp add: resolved_endpoint_def manifest_items_of_revision if1 i io)
  then obtain t where t: "resolved_endpoint (demo_service 7 SvcActive (Some 2)) ?r ?x None = Inr t"
    and g: "re_grpc t = dfind (to_manifest ?e) ''grpc''" "re_revision t = rev_id ?r" by (elim exE conjE) (rule that)
  have rows: "endpoint_rows rpc_db = [(demo_service 7 SvcActive (Some 2), ?r, ?x, None)]"
    by (simp add: endpoint_rows_def rpc_db_def served_db_def active_rows_def demo_db_def empty_db_def demo_service_def
      demo_revision_def profiles_of_def or_null_def)
  have sup: "supports_current_interface ?r"
    by (simp add: supports_current_interface_def revision_manifest_def dfind_def dget_def)
  have l: "list_active_endpoints rpc_db = Inr [t]"
    by (simp add: list_active_endpoints_def rows sup t)
  have at: "at_path (\<lambda>_. []) t ''/p.S/Run''" using gr by (simp add: at_path_def g(1))
  obtain res g' where r: "refresh (\<lambda>_. []) rpc_db new_registry = (res, g')" by fastforce
  obtain n where n: "res = Inr n"
    using r l at by (auto simp: refresh_def replace_def Let_def at_path_def)
  have c: "g' = g' \<and> n = 1 \<and> rg_generation g' = n \<and> resolve ''/p.S/Run'' g' = Some \<lparr>gr_path = ''/p.S/Run'', gr_target = t\<rparr>"
    using refresh_atomic [OF r] at by (simp add: n l new_registry_def)
  have "re_revision t = 2" using g(2) by (simp add: demo_revision_def)
  with c show ?thesis by (simp add: r)
qed

end
