(* ===== verification/Invoke.thy ===== *)
theory Invoke
  imports Registry Validation
begin

text \<open>
  One invocation from its request to its answer: the REST handler \<open>invoke\<close> of \<open>api.py\<close> and the gRPC dispatcher of
  \<open>grpc_gateway/server.py\<close>. Each has a transaction that checks the caller and records the invocation, the call
  of the scheduler, whose outcome and whose effect on the database are arbitrary, and a transaction that ends
  the invocation. A second cancellation can cut that last transaction short, except where the code shields it.
\<close>

section \<open>What the scheduler returns\<close>

record 'v outcome =
  oc_succeeded :: bool
  oc_value :: 'v
  oc_logs :: captured_logs
  oc_error_type :: "string option"
  oc_error_message :: "string option"

datatype 'v run_result =
    Cancelled string
  | Overloaded string \<comment> \<open>\<open>PoolOverloadedError\<close> with its text\<close>
  | TimedOut string
  | Raised string \<comment> \<open>any other \<open>Exception\<close>\<close>
  | Raw 'v \<comment> \<open>a value that is no \<open>ExecutionOutcome\<close>\<close>
  | Returned "'v outcome"

definition empty_logs :: captured_logs where
  "empty_logs = \<lparr>cl_chunks = [], cl_bytes = 0, cl_truncated = False\<rparr>"

definition plain_outcome :: "'v \<Rightarrow> 'v outcome" where
  "plain_outcome v = \<lparr>oc_succeeded = True, oc_value = v, oc_logs = empty_logs, oc_error_type = None, oc_error_message = None\<rparr>"

definition error_text :: "'v outcome \<Rightarrow> string" where
  "error_text oc = take 4000 (join '': '' (filter (\<lambda>p. p \<noteq> [])
     (List.map_filter id [oc_error_type oc, oc_error_message oc])))"

section \<open>The text of a contract violation\<close>

definition reason_text :: "(json \<Rightarrow> string) \<Rightarrow> reject_reason \<Rightarrow> string" where
  "reason_text py_str r =
     (case r of
        ExpectedObject \<Rightarrow> ''expected an object''
      | FieldRequired \<Rightarrow> ''field is required''
      | UnknownField \<Rightarrow> ''unknown field''
      | ExpectedArray \<Rightarrow> ''expected an array''
      | ExpectedInteger k \<Rightarrow> ''expected '' @ k @ '' integer''
      | IntegerRange k \<Rightarrow> ''integer outside '' @ k @ '' range''
      | ExpectedNumber k \<Rightarrow> ''expected '' @ k @ '' number''
      | NumberRange k \<Rightarrow> ''number outside finite '' @ k @ '' range''
      | ExpectedBoolean \<Rightarrow> ''expected a boolean''
      | ExpectedString \<Rightarrow> ''expected a string''
      | Unsupported k \<Rightarrow> ''type '' @ format_value py_str k @ '' is not supported by the JSON transport; use gRPC'')"

definition violation_text :: "(json \<Rightarrow> string) \<Rightarrow> json list \<Rightarrow> reject_reason \<Rightarrow> string" where
  \<comment> \<open>\<open>str(ContractValidationError(location, message))\<close>\<close>
  "violation_text py_str loc r = join ''.'' (map (format_value py_str) loc) @ '': '' @ reason_text py_str r"

section \<open>Ending an invocation\<close>

datatype close_failure = Cut | Database repo_error

definition close_invocation ::
  "bool \<Rightarrow> call \<Rightarrow> uuid \<Rightarrow> invocation_status \<Rightarrow> string option \<Rightarrow> captured_logs \<Rightarrow> db \<Rightarrow> (close_failure + unit) \<times> db" where
  \<comment> \<open>\<open>async with session_scope(...)\<close>: an exception, also a cancellation (\<open>halt\<close>), rolls back\<close>
  "close_invocation halt e iid st err logs d =
     (if halt then (Inl Cut, d)
      else case finish_invocation e iid st err logs d of
        Inl x \<Rightarrow> (Inl (Database x), d)
      | Inr (u, d') \<Rightarrow> (Inr (), d'))"

datatype ('c, 'r) answer =
    Answer 'r
  | Refuse 'c \<comment> \<open>an error answer with this status\<close>
  | NoAnswer \<comment> \<open>the cancellation goes on\<close>

definition then_answer :: "(close_failure + unit) \<times> db \<Rightarrow> 'c \<Rightarrow> ('c, 'r) answer \<Rightarrow> ('c, 'r) answer \<times> db" where
  \<comment> \<open>what follows the transaction; an exception from it is answered with the server's error status\<close>
  "then_answer rd internal a =
     (case rd of
        (Inr u, d) \<Rightarrow> (a, d)
      | (Inl Cut, d) \<Rightarrow> (NoAnswer, d)
      | (Inl (Database x), d) \<Rightarrow> (Refuse internal, d))"

section \<open>REST\<close>

record started =
  st_target :: resolved_endpoint
  st_spec :: endpoint_spec
  st_id :: uuid

record invocation_response =
  ir_request :: uuid
  ir_service :: string
  ir_revision :: string
  ir_status :: string
  ir_error :: "string option"
  ir_result :: json
  ir_logs :: captured_logs

definition rest_begin ::
  "(json \<Rightarrow> pyfloat option) \<Rightarrow> (json \<Rightarrow> bool option) \<Rightarrow> (string \<Rightarrow> string) \<Rightarrow> call \<Rightarrow> string option \<Rightarrow> string \<Rightarrow> string \<Rightarrow> jdict \<Rightarrow>
   db \<Rightarrow> nat + started \<times> db" where
  "rest_begin pf pb hash e auth name eid params d =
     (case bearer_token auth of
        None \<Rightarrow> Inl 401
      | Some token \<Rightarrow>
          if \<not> validate_api_token (hash token) d then Inl 401
          else case resolve_endpoint name eid d of
            Inl (NotFound x) \<Rightarrow> Inl 404
          | Inl x \<Rightarrow> Inl 500
          | Inr t \<Rightarrow>
              if JStr ''rest'' \<notin> set (re_io t) then Inl 404
              else case item_of (re_endpoint t) (re_manifest t) of
                Inl x \<Rightarrow> Inl 500
              | Inr item \<Rightarrow>
                  (case from_manifest pf pb item of
                     None \<Rightarrow> Inl 500
                   | Some spec \<Rightarrow>
                       (case validate_value (JObj params) (es_request spec) [JStr ''body''] of
                          Inl (Reject loc r) \<Rightarrow> Inl 422
                        | Inl Malformed \<Rightarrow> Inl 500
                        | Inr u \<Rightarrow>
                            (case begin_invocation e t ''REST'' d of
                               Inl x \<Rightarrow> Inl 500
                             | Inr (i, d') \<Rightarrow> Inr (\<lparr>st_target = t, st_spec = spec, st_id = inv_id i\<rparr>, d')))))"

definition failed_response :: "started \<Rightarrow> string \<Rightarrow> json outcome \<Rightarrow> invocation_response" where
  "failed_response s text oc =
     \<lparr>ir_request = st_id s, ir_service = re_service_name (st_target s), ir_revision = re_revision_name (st_target s),
      ir_status = ''FAILED'', ir_error = Some text, ir_result = JNull, ir_logs = oc_logs oc\<rparr>"

definition succeeded_response :: "started \<Rightarrow> json outcome \<Rightarrow> invocation_response" where
  "succeeded_response s oc =
     \<lparr>ir_request = st_id s, ir_service = re_service_name (st_target s), ir_revision = re_revision_name (st_target s),
      ir_status = ''SUCCEEDED'', ir_error = None, ir_result = oc_value oc, ir_logs = oc_logs oc\<rparr>"

definition checked_outcome :: "(json \<Rightarrow> string) \<Rightarrow> endpoint_spec \<Rightarrow> json outcome \<Rightarrow> json outcome option" where
  \<comment> \<open>the check of the result against the contract; \<open>None\<close>: the schema is malformed and the check raises\<close>
  "checked_outcome py_str spec oc =
     (if \<not> oc_succeeded oc then Some oc
      else case validate_value (oc_value oc) (es_response spec) [JStr ''result''] of
        Inr u \<Rightarrow> Some oc
      | Inl (Reject loc r) \<Rightarrow>
          Some (oc\<lparr>oc_succeeded := False, oc_value := JNull, oc_error_type := Some ''ContractValidationError'',
                   oc_error_message := Some (violation_text py_str loc r)\<rparr>)
      | Inl Malformed \<Rightarrow> None)"

definition rest_outcome ::
  "(json \<Rightarrow> string) \<Rightarrow> bool \<Rightarrow> call \<Rightarrow> started \<Rightarrow> json outcome \<Rightarrow> db \<Rightarrow> (nat, invocation_response) answer \<times> db" where
  "rest_outcome py_str halt e s oc0 d =
     (case checked_outcome py_str (st_spec s) oc0 of
        None \<Rightarrow> (Refuse 500, d)
      | Some oc \<Rightarrow>
          if \<not> oc_succeeded oc
          then let text = (if error_text oc = [] then ''script execution failed'' else error_text oc)
               in then_answer (close_invocation halt e (st_id s) InvFailed (Some text) (oc_logs oc) d) 500
                    (Answer (failed_response s text oc))
          else then_answer (close_invocation halt e (st_id s) InvSucceeded None (oc_logs oc) d) 500
                 (Answer (succeeded_response s oc)))"

definition rest_end ::
  "(json \<Rightarrow> string) \<Rightarrow> bool \<Rightarrow> call \<Rightarrow> started \<Rightarrow> json run_result \<Rightarrow> db \<Rightarrow> (nat, invocation_response) answer \<times> db" where
  "rest_end py_str halt e s run d =
     (case run of
        Cancelled m \<Rightarrow> \<comment> \<open>shielded\<close>
          then_answer (close_invocation False e (st_id s) InvCancelled (Some ''request cancelled'') empty_logs d) 500 NoAnswer
      | Overloaded m \<Rightarrow>
          then_answer (close_invocation halt e (st_id s) InvFailed (Some (take 4000 m)) empty_logs d) 500 (Refuse 503)
      | TimedOut m \<Rightarrow>
          then_answer (close_invocation halt e (st_id s) InvTimedOut (Some ''execution timed out'') empty_logs d) 500 (Refuse 504)
      | Raised m \<Rightarrow>
          then_answer (close_invocation halt e (st_id s) InvFailed (Some (take 4000 m)) empty_logs d) 500 (Refuse 502)
      | Raw v \<Rightarrow> rest_outcome py_str halt e s (plain_outcome v) d
      | Returned oc \<Rightarrow> rest_outcome py_str halt e s oc d)"

section \<open>gRPC\<close>

datatype grpc_code = UNAUTHENTICATED | RESOURCE_EXHAUSTED | DEADLINE_EXCEEDED | INTERNAL
  | UNKNOWN \<comment> \<open>the server's answer to an exception of the handler\<close>

record grpc_answer =
  ga_body :: bytes
  ga_request :: uuid
  ga_revision :: string
  ga_status :: string

definition authorization_of :: "(string \<times> string) list \<Rightarrow> string option" where
  "authorization_of metadata = map_option snd (List.find (\<lambda>(k, v). lower k = ''authorization'') metadata)"

definition grpc_begin ::
  "(string \<Rightarrow> string) \<Rightarrow> call \<Rightarrow> resolved_endpoint \<Rightarrow> (string \<times> string) list \<Rightarrow> db \<Rightarrow> grpc_code + uuid \<times> db" where
  "grpc_begin hash e t metadata d =
     (case bearer_token (authorization_of metadata) of
        None \<Rightarrow> Inl UNAUTHENTICATED
      | Some token \<Rightarrow>
          if \<not> validate_api_token (hash token) d then Inl UNAUTHENTICATED
          else case begin_invocation e t ''GRPC'' d of
            Inl x \<Rightarrow> Inl UNKNOWN
          | Inr (i, d') \<Rightarrow> Inr (inv_id i, d'))"

definition generated_route :: "resolved_endpoint \<Rightarrow> bool" where
  \<comment> \<open>\<open>target.grpc is not None and target.grpc.get("generated") is True\<close>\<close>
  "generated_route t = (case re_grpc t of JObj g \<Rightarrow> dfind g ''generated'' = JBool True | _ \<Rightarrow> False)"

definition grpc_body :: "resolved_endpoint \<Rightarrow> uuid \<Rightarrow> string \<Rightarrow> bytes \<Rightarrow> grpc_answer" where
  "grpc_body t iid st b = \<lparr>ga_body = b, ga_request = iid, ga_revision = re_revision_name t, ga_status = st\<rparr>"

definition grpc_finish ::
  "bool \<Rightarrow> call \<Rightarrow> uuid \<Rightarrow> invocation_status \<Rightarrow> string option \<Rightarrow> bytes option outcome option \<Rightarrow> db \<Rightarrow> (close_failure + unit) \<times> db" where
  \<comment> \<open>\<open>_finish\<close>\<close>
  "grpc_finish halt e iid st err outcome d =
     (let text = (case outcome of
           None \<Rightarrow> map_option (take 4000) err
         | Some oc \<Rightarrow> if oc_succeeded oc then map_option (take 4000) err else Some (error_text oc))
      in close_invocation halt e iid st text (case outcome of None \<Rightarrow> empty_logs | Some oc \<Rightarrow> oc_logs oc) d)"

definition grpc_outcome ::
  "bool \<Rightarrow> call \<Rightarrow> resolved_endpoint \<Rightarrow> uuid \<Rightarrow> bytes option outcome \<Rightarrow> db \<Rightarrow> (grpc_code, grpc_answer) answer \<times> db" where
  "grpc_outcome halt e t iid oc d =
     (if \<not> oc_succeeded oc
      then then_answer (grpc_finish halt e iid InvFailed None (Some oc) d) UNKNOWN
             (case oc_value oc of
                Some b \<Rightarrow> if generated_route t then Answer (grpc_body t iid ''FAILED'' b) else Refuse INTERNAL
              | None \<Rightarrow> Refuse INTERNAL)
      else case oc_value oc of
        None \<Rightarrow>
          then_answer (grpc_finish halt e iid InvFailed (Some ''gRPC script returned a non-bytes result'') None d) UNKNOWN
            (Refuse INTERNAL)
      | Some b \<Rightarrow>
          then_answer (grpc_finish halt e iid InvSucceeded None (Some oc) d) UNKNOWN (Answer (grpc_body t iid ''SUCCEEDED'' b)))"

definition grpc_end ::
  "bool \<Rightarrow> call \<Rightarrow> resolved_endpoint \<Rightarrow> uuid \<Rightarrow> bytes option run_result \<Rightarrow> db \<Rightarrow> (grpc_code, grpc_answer) answer \<times> db" where
  "grpc_end halt e t iid run d =
     (case run of
        Cancelled m \<Rightarrow> then_answer (grpc_finish halt e iid InvCancelled (Some m) None d) UNKNOWN NoAnswer
      | Overloaded m \<Rightarrow> then_answer (grpc_finish halt e iid InvFailed (Some m) None d) UNKNOWN (Refuse RESOURCE_EXHAUSTED)
      | TimedOut m \<Rightarrow> then_answer (grpc_finish halt e iid InvTimedOut (Some m) None d) UNKNOWN (Refuse DEADLINE_EXCEEDED)
      | Raised m \<Rightarrow> then_answer (grpc_finish halt e iid InvFailed (Some m) None d) UNKNOWN (Refuse INTERNAL)
      | Raw v \<Rightarrow> grpc_outcome halt e t iid (plain_outcome v) d
      | Returned oc \<Rightarrow> grpc_outcome halt e t iid oc d)"

section \<open>An invocation in progress\<close>

text \<open>What the others do meanwhile: any method of the repository but ending this invocation.\<close>

definition other_step :: "packaging \<Rightarrow> (json \<Rightarrow> string) \<Rightarrow> uuid \<Rightarrow> db \<Rightarrow> db \<Rightarrow> bool" where
  "other_step pk py_str iid d d' =
     (repo_step pk py_str d d' \<and> (\<forall>e st err logs. finish_invocation e iid st err logs d \<noteq> Inr ((), d')))"

definition in_progress :: "uuid \<Rightarrow> invocation \<Rightarrow> db \<Rightarrow> bool" where
  "in_progress iid i d =
     (inv_at iid d = Some i \<and> inv_status i = InvRunning \<and> filter (\<lambda>l. il_inv l = iid) (inv_logs d) = [])"

lemma in_progress_same: "invs_same d d' \<Longrightarrow> in_progress iid i d' = in_progress iid i d"
  by (simp add: in_progress_def invs_same_def inv_at_def)

lemma rest_in_progress: "rest_same d d' \<Longrightarrow> in_progress iid i d \<Longrightarrow> in_progress iid i d'"
  using in_progress_same [of d d' iid i] by (simp add: rest_same_def)

lemma in_progress_prune:
  assumes "invocation_inv d" and "in_progress iid i d"
  shows "in_progress iid i (prune_endpoint_invocations sid eid keep d)"
proof -
  have "iid \<notin> set (stale_invocations sid eid keep d)"
    using stale_at(1) [of d iid sid eid keep] assms by (auto simp: in_progress_def invocation_inv_def prunable_def terminal_def)
  then show ?thesis using assms(2) by (simp add: in_progress_def prune_as_drop inv_at_drop logs_drop)
qed

lemma in_progress_finish:
  assumes "invocation_inv d" and "in_progress iid i d" and "finish_invocation e k st err logs d = Inr (u, d')" and "k \<noteq> iid"
  shows "in_progress iid i d'"
proof -
  obtain j d2 where "inv_at k d = Some j" and d2: "d2 = (mark_finished e k st err logs d)\<lparr>inv_logs := inv_logs d @ map (new_log e k) (enumerate 0 (cl_chunks logs))\<rparr>"
    and f: "foldE insert_log (map (new_log e k) (enumerate 0 (cl_chunks logs))) (mark_finished e k st err logs d) = Inr d2"
    and d': "d' = prune_endpoint_invocations (inv_service j) (inv_endpoint j) (retention_count (inv_service j) (inv_endpoint j) d) d2"
    by (rule finish_invocation_parts [OF assms(3)])
  have "invocation_inv d2"
    by (rule foldE_invariant [OF f]) (use mark_finished_inv [OF assms(1)] insert_log_inv in auto)
  moreover have "filter (\<lambda>l. il_inv l = iid) (map (new_log e k) (enumerate 0 (cl_chunks logs))) = []"
    using assms(4) by (auto simp: filter_empty_conv new_log_def)
  then have "in_progress iid i d2"
    using assms(2,4) mark_finished_at [of iid e k st err logs d] by (simp add: in_progress_def d2 inv_at_def)
  ultimately show ?thesis unfolding d' by (rule in_progress_prune)
qed

lemma other_step_in_progress:
  assumes "other_step pk py_str iid d d'" and "repo_inv d" and p: "in_progress iid i d"
  shows "in_progress iid i d'"
proof -
  have I: "invocation_inv d" using assms(2) by (simp add: repo_inv_def)
  have di: "distinct (map inv_id (invocations d))" using I by (simp add: invocation_inv_def)
  note R = rest_in_progress [OF _ p]
  from assms(1) have "repo_step pk py_str d d'" and other: "finish_invocation e iid st err logs d \<noteq> Inr ((), d')" for e st err logs
    by (simp_all add: other_step_def)
  from this(1) show ?thesis
  proof cases
    case (CreateService e cq s) then show ?thesis by (rule R [OF rest.ends_inD [OF _ create_service_rest(1)]])
  next
    case (DeleteService sid n)
    have same: "invocations d' = filter (\<lambda>i. inv_service i \<noteq> sid) (invocations d)"
      "inv_logs d' = filter (\<lambda>l. il_inv l \<notin> inv_id ` {i \<in> set (invocations d). inv_service i = sid}) (inv_logs d)"
      and free: "list_ex (\<lambda>i. inv_service i = sid \<and> inv_status i \<in> {InvAccepted, InvRunning}) (invocations d) = False"
      using DeleteService by (auto simp: delete_service_def result_simps delete_cascade_def Let_def split: if_splits)
    have i: "i \<in> set (invocations d)" "inv_id i = iid" "inv_status i = InvRunning"
      using p by (auto simp: in_progress_def inv_at_def dest: row_get_SomeD)
    have "inv_service i \<noteq> sid" using free i(1,3) by (auto simp: list_ex_iff)
    then have "inv_at iid d' = Some i"
      using i di by (simp add: inv_at_def same row_get_unique distinct_map_filter)
    then show ?thesis using p by (simp add: in_progress_def same filter_empty_conv)
  next
    case (UpdateService e sid uq s) then show ?thesis by (rule R [OF rest.ends_inD [OF _ service_data_rest(1)]])
  next
    case (ConfigureWebhook e sid h s) then show ?thesis by (rule R [OF rest.ends_inD [OF _ service_data_rest(3)]])
  next
    case (CreateRevision e sid rq cid prof r) then show ?thesis by (rule R [OF rest.ends_inD [OF _ create_revision_rest]])
  next
    case (ActivateRevision e sid rid r) then show ?thesis by (rule R [OF rest.ends_inD [OF _ service_rest(5)]])
  next
    case (StopService e sid s) then show ?thesis by (rule R [OF rest.ends_inD [OF _ service_rest(1)]])
  next
    case (StartService e sid s) then show ?thesis by (rule R [OF rest.ends_inD [OF _ service_rest(3)]])
  next
    case (StopUnsupported e ns) then show ?thesis by (rule R [OF rest.ends_inD [OF _ stop_unsupported_rest(1)]])
  next
    case (RegisterContract e sid q c) then show ?thesis by (rule R [OF rest.ends_inD [OF _ register_contract_rest]])
  next
    case (CreateLabel e name pq rec) then show ?thesis by (rule R [OF rest.ends_inD [OF _ profile_rest(1)]])
  next
    case (CreateVersion e lid pq rec) then show ?thesis by (rule R [OF rest.ends_inD [OF _ profile_rest(2)]])
  next
    case (CompleteValidation e vid res info env g rec)
    then show ?thesis by (rule R [OF rest.ends_inD [OF _ profile_rest(3)]])
  next
    case (FailValidation e vid msg u) then show ?thesis by (intro R [OF rest.ends_inD [OF _ profile_rest(4)]])
  next
    case (ActivateProfile e vid rec old n) then show ?thesis by (rule R [OF rest.ends_inD [OF _ activate_profile_rest]])
  next
    case (RetireProfile e vid fin rec) then show ?thesis by (rule R [OF rest.ends_inD [OF _ profile_rest(5)]])
  next
    case (UpdatePolicy e sid eid k q)
    then obtain d1 where d1: "core_same d d1" "rest_same d d1" "d' = prune_endpoint_invocations sid eid k d1"
      by (rule update_policy_ends)
    have "invocation_inv d1" using I d1(2) invs_same_inv [of d d1] by (simp add: rest_same_def)
    then show ?thesis unfolding d1(3) by (rule in_progress_prune) (rule R [OF d1(2)])
  next
    case (BeginInvocation e t transport j)
    have "iid \<noteq> call_ids e 0"
      using begin_invocation_tables(6) [OF BeginInvocation] p by (auto simp: in_progress_def inv_at_def row_get_None_iff [symmetric])
    then show ?thesis
      using p begin_invocation_tables(2,4) [OF BeginInvocation]
      by (simp add: in_progress_def inv_at_def row_get_add)
  next
    case (FinishInvocation e k st err logs u)
    then have "k \<noteq> iid" using other by (cases u) auto
    from in_progress_finish [OF I p FinishInvocation this] show ?thesis .
  next
    case (CreateAdmin e hash a) then show ?thesis using access_life(1) p in_progress_same by blast
  next
    case (UpdatePassword e user hash) then show ?thesis using access_life(5) p in_progress_same by metis
  next
    case (CreateToken e name hash prefix t) then show ?thesis using access_life(2) p in_progress_same by blast
  next
    case (RevokeToken e tid t) then show ?thesis using access_life(3) p in_progress_same by blast
  qed
qed

lemma other_steps_in_progress:
  "(other_step pk py_str iid)\<^sup>*\<^sup>* d d' \<Longrightarrow> repo_inv d \<Longrightarrow> in_progress iid i d \<Longrightarrow> repo_inv d' \<and> in_progress iid i d'"
proof (induction rule: rtranclp_induct)
  case (step b c)
  then have "repo_inv b" "in_progress iid i b" by blast+
  with step.hyps(2) other_step_in_progress repo_step_inv show ?case by (metis other_step_def)
qed simp

section \<open>How an invocation ends\<close>

text \<open>The reference: the status and the answer that each outcome of the scheduler stands for, and what is stored
  with it. The check of a result against a malformed schema has none.\<close>

type_synonym ending = "invocation_status \<times> string option \<times> captured_logs"

definition failed_ending :: "'v outcome \<Rightarrow> string \<Rightarrow> ending" where
  "failed_ending oc fallback = (InvFailed, Some (if error_text oc = [] then fallback else error_text oc), oc_logs oc)"

definition rest_ending ::
  "(json \<Rightarrow> string) \<Rightarrow> started \<Rightarrow> json run_result \<Rightarrow> (ending \<times> (nat, invocation_response) answer) option" where
  "rest_ending py_str s run =
     (case run of
        Cancelled m \<Rightarrow> Some ((InvCancelled, Some ''request cancelled'', empty_logs), NoAnswer)
      | Overloaded m \<Rightarrow> Some ((InvFailed, Some (take 4000 m), empty_logs), Refuse 503)
      | TimedOut m \<Rightarrow> Some ((InvTimedOut, Some ''execution timed out'', empty_logs), Refuse 504)
      | Raised m \<Rightarrow> Some ((InvFailed, Some (take 4000 m), empty_logs), Refuse 502)
      | _ \<Rightarrow>
          map_option (\<lambda>oc.
            if oc_succeeded oc then ((InvSucceeded, None, oc_logs oc), Answer (succeeded_response s oc))
            else (failed_ending oc ''script execution failed'',
                  Answer (failed_response s (the (fst (snd (failed_ending oc ''script execution failed'')))) oc)))
          (checked_outcome py_str (st_spec s) (case run of Raw v \<Rightarrow> plain_outcome v | Returned oc \<Rightarrow> oc)))"

definition grpc_ending :: "resolved_endpoint \<Rightarrow> uuid \<Rightarrow> bytes option run_result \<Rightarrow> ending \<times> (grpc_code, grpc_answer) answer" where
  "grpc_ending t iid run =
     (case run of
        Cancelled m \<Rightarrow> ((InvCancelled, Some (take 4000 m), empty_logs), NoAnswer)
      | Overloaded m \<Rightarrow> ((InvFailed, Some (take 4000 m), empty_logs), Refuse RESOURCE_EXHAUSTED)
      | TimedOut m \<Rightarrow> ((InvTimedOut, Some (take 4000 m), empty_logs), Refuse DEADLINE_EXCEEDED)
      | Raised m \<Rightarrow> ((InvFailed, Some (take 4000 m), empty_logs), Refuse INTERNAL)
      | _ \<Rightarrow>
          let oc = (case run of Raw v \<Rightarrow> plain_outcome v | Returned oc \<Rightarrow> oc) in
          if \<not> oc_succeeded oc
          then (failed_ending oc [],
                if oc_value oc \<noteq> None \<and> generated_route t then Answer (grpc_body t iid ''FAILED'' (the (oc_value oc)))
                else Refuse INTERNAL)
          else (case oc_value oc of
              None \<Rightarrow> ((InvFailed, Some ''gRPC script returned a non-bytes result'', empty_logs), Refuse INTERNAL)
            | Some b \<Rightarrow> ((InvSucceeded, None, oc_logs oc), Answer (grpc_body t iid ''SUCCEEDED'' b))))"

definition storable :: "ending \<Rightarrow> bool" where
  "storable = (\<lambda>(st, err, logs). list_all (\<lambda>x. pg_text (chunk_content x)) (cl_chunks logs) \<and> pred_option pg_string err)"

definition sequenced :: "ending \<Rightarrow> bool" where
  \<comment> \<open>the chunks are numbered as \<open>CaptureBuffer.snapshot\<close> numbers them\<close>
  "sequenced = (\<lambda>(st, err, logs). map chunk_sequence (cl_chunks logs) = [0..<length (cl_chunks logs)])"

definition fresh_call :: "call \<Rightarrow> db \<Rightarrow> bool" where
  \<comment> \<open>the random identifiers of a transaction are new\<close>
  "fresh_call e d = (inj (call_ids e) \<and> call_ids e ` UNIV \<inter> il_id ` set (inv_logs d) = {})"

definition ended_as :: "call \<Rightarrow> uuid \<Rightarrow> invocation \<Rightarrow> ending \<Rightarrow> db \<Rightarrow> bool" where
  \<comment> \<open>the stored invocation; where the endpoint keeps newer ones only, it is gone again\<close>
  "ended_as e iid i = (\<lambda>(st, err, logs) d.
     case inv_at iid d of
       Some x \<Rightarrow> x = end_invocation e st err i \<and> filter (\<lambda>l. il_inv l = iid) (inv_logs d) = map (new_log e iid) (enumerate 0 (cl_chunks logs))
     | None \<Rightarrow> terminal st \<and> (\<forall>x \<in> set (invocations d). prunable (inv_service i) (inv_endpoint i) x \<longrightarrow> start_order i < start_order x))"

lemma in_progress_logs: "in_progress iid i d \<Longrightarrow> l \<in> set (inv_logs d) \<Longrightarrow> il_inv l \<noteq> iid"
  by (auto simp: in_progress_def filter_empty_conv)

lemma close_in_progress:
  assumes "invocation_inv d" and "in_progress iid i d" and "fresh_call e d" and "sequenced (st, err, logs)"
  shows "if storable (st, err, logs)
    then \<exists>d'. close_invocation False e iid st err logs d = (Inr (), d') \<and> ended_as e iid i (st, err, logs) d'
    else close_invocation False e iid st err logs d = (Inl (Database DataError), d)"
proof -
  have i: "inv_at iid d = Some i" using assms(2) by (simp add: in_progress_def)
  have F: "if storable (st, err, logs) then \<exists>d'. finish_invocation e iid st err logs d = Inr ((), d')
      else finish_invocation e iid st err logs d = Inl DataError"
    unfolding storable_def prod.case
    by (rule finish_sequenced [OF i in_progress_logs [OF assms(2)]])
      (use assms(3,4) in \<open>auto simp: fresh_call_def sequenced_def\<close>)
  show ?thesis
  proof (cases "storable (st, err, logs)")
    case True
    then obtain d' where d': "finish_invocation e iid st err logs d = Inr ((), d')" using F by (simp only: if_True) blast
    have "ended_as e iid i (st, err, logs) d'"
      using finish_effect [OF assms(1) d'] assms(2) i
      by (auto simp: ended_as_def in_progress_def Let_def split: option.splits)
    with d' True show ?thesis by (simp add: close_invocation_def)
  next
    case False
    then show ?thesis using F by (simp add: close_invocation_def)
  qed
qed

lemma rest_end_ending:
  "rest_end py_str halt e s run d =
     (case rest_ending py_str s run of
        None \<Rightarrow> (Refuse 500, d)
      | Some ((st, err, logs), a) \<Rightarrow>
          then_answer (close_invocation (halt \<and> (\<forall>m. run \<noteq> Cancelled m)) e (st_id s) st err logs d) 500 a)"
  by (cases run)
    (auto simp: rest_end_def rest_ending_def rest_outcome_def failed_ending_def Let_def split: option.splits)

lemma grpc_end_ending:
  "grpc_end halt e t iid run d =
     (case grpc_ending t iid run of ((st, err, logs), a) \<Rightarrow> then_answer (close_invocation halt e iid st err logs d) UNKNOWN a)"
  by (cases run)
    (auto simp: grpc_end_def grpc_ending_def grpc_outcome_def grpc_finish_def failed_ending_def plain_outcome_def Let_def
      split: option.splits)

lemma begin_in_progress:
  assumes "begin_invocation e t tr d = Inr (i, d1)" and "invocation_inv d"
  shows "in_progress (inv_id i) i d1"
proof -
  note B = begin_invocation_tables [OF assms(1)]
  have "l \<in> set (inv_logs d) \<Longrightarrow> il_inv l \<noteq> call_ids e 0" for l
    using assms(2) B(6) by (metis invocation_inv_def)
  then show ?thesis
    using B(6) by (simp add: in_progress_def inv_at_def B(1,2,4) new_invocation_def row_get_add row_get_None_iff [THEN iffD2]
      filter_empty_conv)
qed

lemma rest_begin_started:
  assumes "rest_begin pf pb hash e auth name eid params d = Inr (s, d1)"
  shows "\<exists>i. begin_invocation e (st_target s) ''REST'' d = Inr (i, d1) \<and> st_id s = inv_id i"
  using assms
  by (auto simp: rest_begin_def split: option.splits sum.splits if_splits repo_error.splits validation_error.splits)

lemma grpc_begin_started:
  assumes "grpc_begin hash e t metadata d = Inr (iid, d1)"
  shows "\<exists>i. begin_invocation e t ''GRPC'' d = Inr (i, d1) \<and> iid = inv_id i"
  using assms by (auto simp: grpc_begin_def split: option.splits sum.splits if_splits)

lemma begun_in_progress:
  assumes "repo_reachable pk py_str d" and b: "begin_invocation e t tr d = Inr (i, d1)"
    and "(other_step pk py_str (inv_id i))\<^sup>*\<^sup>* d1 d2"
  shows "invocation_inv d2 \<and> in_progress (inv_id i) i d2"
proof -
  have "repo_inv d" by (rule repository.reach_inv [OF assms(1)])
  then have "repo_inv d1" "in_progress (inv_id i) i d1"
    using repo_step_inv [OF repo_step.BeginInvocation [OF b]] begin_in_progress [OF b] by (simp_all add: repo_inv_def)
  then show ?thesis using other_steps_in_progress [OF assms(3)] by (simp add: repo_inv_def)
qed

lemma ended_in_time:
  assumes "invocation_inv d2 \<and> in_progress iid i d2" and "fresh_call e d2" and "sequenced x"
  shows "case x of (st, err, logs) \<Rightarrow>
    if storable x
    then \<exists>d3. close_invocation False e iid st err logs d2 = (Inr (), d3) \<and> ended_as e iid i x d3
    else close_invocation False e iid st err logs d2 = (Inl (Database DataError), d2)"
proof -
  obtain st err logs where x: "x = (st, err, logs)" by (cases x)
  show ?thesis
    unfolding x prod.case
    by (rule close_in_progress [OF conjunct1 [OF assms(1)] conjunct2 [OF assms(1)] assms(2) assms(3) [unfolded x]])
qed

text \<open>C4. Every REST invocation that is recorded is accounted for: whatever the other requests do meanwhile, it
  is still running when the scheduler's outcome arrives, and then it is ended with the status, error and
  output of that outcome and answered accordingly. It stays running, and the caller is told of an internal
  error, only when the database refuses the text or the response schema is malformed; and it stays running
  without an answer when the request is cancelled during the last transaction, from which only the handler
  of a cancellation is shielded.\<close>

theorem rest_invocation_ends:
  assumes "repo_reachable pk py_str d"
    and "rest_begin pf pb hash e0 auth name eid params d = Inr (s, d1)"
    and "(other_step pk py_str (st_id s))\<^sup>*\<^sup>* d1 d2"
    and "fresh_call e d2" and "\<And>x a. rest_ending py_str s run = Some (x, a) \<Longrightarrow> sequenced x"
  shows "\<exists>i. in_progress (st_id s) i d2 \<and> inv_endpoint i = re_endpoint (st_target s) \<and>
    (case rest_ending py_str s run of
       None \<Rightarrow> \<forall>halt. rest_end py_str halt e s run d2 = (Refuse 500, d2)
     | Some (x, a) \<Rightarrow>
         (if storable x
          then \<exists>d3. rest_end py_str False e s run d2 = (a, d3) \<and> ended_as e (st_id s) i x d3
          else rest_end py_str False e s run d2 = (Refuse 500, d2)) \<and>
         rest_end py_str True e s run d2 =
           (if \<exists>m. run = Cancelled m then rest_end py_str False e s run d2 else (NoAnswer, d2)))"
proof -
  obtain i where i: "begin_invocation e0 (st_target s) ''REST'' d = Inr (i, d1)" "st_id s = inv_id i"
    using rest_begin_started [OF assms(2)] by blast
  have p: "invocation_inv d2 \<and> in_progress (st_id s) i d2"
    using begun_in_progress [OF assms(1) i(1)] assms(3) i(2) by simp
  have ep: "inv_endpoint i = re_endpoint (st_target s)"
    using begin_invocation_tables(1) [OF i(1)] by (simp add: new_invocation_def)
  show ?thesis
  proof (cases "rest_ending py_str s run")
    case None
    then show ?thesis using p ep by (intro exI [of _ i]) (simp add: rest_end_ending)
  next
    case (Some y)
    obtain st err logs a where y: "y = ((st, err, logs), a)" by (metis prod_cases3 surj_pair)
    note E = Some [unfolded y]
    have T: "rest_end py_str halt e s run d2 =
        then_answer (close_invocation (halt \<and> (\<forall>m. run \<noteq> Cancelled m)) e (st_id s) st err logs d2) 500 a" for halt
      by (simp add: rest_end_ending E)
    have "rest_end py_str True e s run d2 =
           (if \<exists>m. run = Cancelled m then rest_end py_str False e s run d2 else (NoAnswer, d2))"
      by (simp add: T) (simp add: close_invocation_def then_answer_def)
    moreover have "if storable (st, err, logs)
        then \<exists>d3. rest_end py_str False e s run d2 = (a, d3) \<and> ended_as e (st_id s) i (st, err, logs) d3
        else rest_end py_str False e s run d2 = (Refuse 500, d2)"
      using ended_in_time [OF p assms(4) assms(5) [OF E], unfolded prod.case]
      by (auto simp: T then_answer_def split: if_splits)
    ultimately show ?thesis using p ep by (intro exI [of _ i]) (simp add: E)
  qed
qed

text \<open>C5. The same of a gRPC invocation, with the status codes of gRPC; its last transaction is never
  shielded. A script that fails is answered with its generated response when the route is a generated one
  and with an internal error otherwise.\<close>

theorem grpc_invocation_ends:
  assumes "repo_reachable pk py_str d"
    and "grpc_begin hash e0 t metadata d = Inr (iid, d1)"
    and "(other_step pk py_str iid)\<^sup>*\<^sup>* d1 d2"
    and "fresh_call e d2" and "grpc_ending t iid run = (x, a)" and "sequenced x"
  shows "\<exists>i. in_progress iid i d2 \<and> inv_endpoint i = re_endpoint t \<and>
    (if storable x
     then \<exists>d3. grpc_end False e t iid run d2 = (a, d3) \<and> ended_as e iid i x d3
     else grpc_end False e t iid run d2 = (Refuse UNKNOWN, d2)) \<and>
    grpc_end True e t iid run d2 = (NoAnswer, d2)"
proof -
  obtain i where i: "begin_invocation e0 t ''GRPC'' d = Inr (i, d1)" "iid = inv_id i"
    using grpc_begin_started [OF assms(2)] by blast
  have p: "invocation_inv d2 \<and> in_progress iid i d2"
    using begun_in_progress [OF assms(1) i(1)] assms(3) i(2) by simp
  have ep: "inv_endpoint i = re_endpoint t"
    using begin_invocation_tables(1) [OF i(1)] by (simp add: new_invocation_def)
  obtain st err logs where x: "x = (st, err, logs)" by (metis prod_cases3)
  have T: "grpc_end halt e t iid run d2 = then_answer (close_invocation halt e iid st err logs d2) UNKNOWN a" for halt
    using assms(5) by (simp add: grpc_end_ending x)
  have "grpc_end True e t iid run d2 = (NoAnswer, d2)" by (simp add: T close_invocation_def then_answer_def)
  moreover have "if storable x
      then \<exists>d3. grpc_end False e t iid run d2 = (a, d3) \<and> ended_as e iid i x d3
      else grpc_end False e t iid run d2 = (Refuse UNKNOWN, d2)"
    using ended_in_time [OF p assms(4,6), unfolded x prod.case]
    by (auto simp: x T then_answer_def split: if_splits)
  ultimately show ?thesis using p ep by blast
qed

section \<open>A run\<close>

lemma live_reachable:
  "\<exists>d. repo_reachable pk py_str d \<and> services d = [live_service] \<and> revisions d = [live_revision] \<and>
     endpoints d = [new_endpoint (calls 200) (0, demo_endpoint ''days'')] \<and> bindings d = [] \<and>
     tokens d = [\<lparr>tok_id = 400, tok_name = ''ci'', tok_hash = ''h'', tok_prefix = ''pst_'', tok_created = 400, tok_revoked = None\<rparr>] \<and>
     invocations d = [] \<and> executions d = [] \<and> inv_logs d = [] \<and> policies d = []"
proof -
  obtain d where d: "repo_reachable pk py_str d" "services d = [live_service]" "revisions d = [live_revision]" "first_rest d"
    using first_reachable [of pk py_str] by (elim exE conjE) (rule that)
  let ?t = "\<lparr>tok_id = 400, tok_name = ''ci'', tok_hash = ''h'', tok_prefix = ''pst_'', tok_created = 400, tok_revoked = None\<rparr>"
  have c: "create_api_token (calls 400) ''ci'' ''h'' ''pst_'' d = Inr (?t, d\<lparr>tokens := [?t]\<rparr>)"
    using d(4) by (simp add: create_api_token_def Let_def insert_token_def guard_insert_def calls_def first_rest_def)
  have "repo_step pk py_str d (d\<lparr>tokens := [?t]\<rparr>)" by (rule repo_step.CreateToken [OF c])
  with d(1) have "repo_reachable pk py_str (d\<lparr>tokens := [?t]\<rparr>)" by (rule reachable.move)
  then show ?thesis using d(2-4) by (intro exI [of _ "d\<lparr>tokens := [?t]\<rparr>"] conjI) (simp_all add: first_rest_def)
qed

lemma live_resolves:
  assumes "services d = [live_service]" and "revisions d = [live_revision]" and "bindings d = []"
    and "endpoints d = [new_endpoint (calls 200) (0, demo_endpoint ''days'')]"
  shows "\<exists>t. resolve_endpoint ''shop'' ''run'' d = Inr t \<and> re_service t = 100 \<and> re_revision t = 200 \<and> re_version t = None \<and>
    re_io t = [JStr ''rest''] \<and> re_endpoint t = ''run'' \<and> re_manifest t = [to_manifest (demo_endpoint ''days'')] \<and>
    re_service_name t = ''shop''"
proof -
  let ?x = "new_endpoint (calls 200) (0, demo_endpoint ''days'')"
  have m: "rev_manifest live_revision = revision_manifest (one_endpoint ''days'') None" "rev_id live_revision = 200"
    "rev_status live_revision = RevActive"
    by (simp_all add: live_revision_def first_revision_def new_revision_def calls_def)
  have s: "svc_id live_service = 100" "svc_name live_service = ''shop''" "svc_status live_service = SvcActive"
    "svc_active_rev live_service = Some 200"
    by (simp_all add: live_service_def first_service_def)
  have x: "ep_rev ?x = 200" "ep_name ?x = ''run''" by (simp_all add: new_endpoint_def calls_def demo_endpoint_def)
  have i: "map_of (to_manifest (demo_endpoint ''days'')) ''id'' = Some (JStr ''run'')"
    and io: "dget (to_manifest (demo_endpoint ''days'')) ''io_type'' (JArr [JStr ''rest'']) = JArr [JStr ''rest'']"
    by (simp_all add: to_manifest_def dict_merge_def demo_endpoint_def dump_endpoint_def dget_def)
  have rows: "endpoint_rows d = [(live_service, live_revision, ?x, None)]"
    by (simp add: endpoint_rows_def active_rows_def assms m s x profiles_of_def or_null_def)
  have sup: "supports_current_interface live_revision"
    by (simp add: supports_current_interface_def m(1) revision_manifest_def dfind_def dget_def)
  show ?thesis
    by (simp add: resolve_endpoint_def rows one_or_none_def s x sup resolved_endpoint_def m manifest_items_of_revision
      served_endpoints i io)
qed

lemma live_begins_at:
  assumes "services d = [live_service]" and "revisions d = [live_revision]" and "invocations d = []" and "executions d = []"
    and "re_service t = 100" and "re_revision t = 200" and "re_version t = None"
  shows "\<exists>i d1. begin_invocation (calls 500) t tr d = Inr (i, d1)"
  using assms by (simp add: begin_invocation_def Let_def insert_invocation_def insert_execution_def guard_insert_def
    new_invocation_def new_execution_def row_get_Cons live_service_def first_service_def live_revision_def first_revision_def
    new_revision_def calls_def)

lemma live_begins:
  "\<exists>d t i d1. repo_reachable pk py_str d \<and> inv_logs d = [] \<and> validate_api_token ''h'' d \<and>
     begin_invocation (calls 500) t tr d = Inr (i, d1)"
proof -
  obtain d where d: "repo_reachable pk py_str d" "services d = [live_service]" "revisions d = [live_revision]"
    "endpoints d = [new_endpoint (calls 200) (0, demo_endpoint ''days'')]" "bindings d = []"
    "tokens d = [\<lparr>tok_id = 400, tok_name = ''ci'', tok_hash = ''h'', tok_prefix = ''pst_'', tok_created = 400, tok_revoked = None\<rparr>]"
    "invocations d = []" "executions d = []" "inv_logs d = []"
    using live_reachable [of pk py_str] by (elim exE conjE) (rule that)
  obtain t where "resolve_endpoint ''shop'' ''run'' d = Inr t" and f: "re_service t = 100" "re_revision t = 200"
    "re_version t = None" "re_io t = [JStr ''rest'']" "re_endpoint t = ''run''"
    "re_manifest t = [to_manifest (demo_endpoint ''days'')]" "re_service_name t = ''shop''"
    using live_resolves [OF d(2,3,5,4)] by (elim exE conjE) (rule that)
  obtain i d1 where "begin_invocation (calls 500) t tr d = Inr (i, d1)"
    using live_begins_at [OF d(2,3,7,8) f(1-3), of tr] by (elim exE) (rule that)
  moreover have "validate_api_token ''h'' d" by (simp add: validate_api_token_def d(6))
  ultimately show ?thesis using d(1,9) by (intro exI conjI)
qed

theorem rest_invocation_ends_witness:
  "\<exists>d s d1 d3 x. rest_begin lax_float lax_bool (\<lambda>_. ''h'') (calls 500) (Some ''bearer x'') ''shop'' ''run'' [(''days'', JInt 3)] d
       = Inr (s, d1) \<and>
     rest_end (\<lambda>_. []) False (calls 600) s (Raw (JInt 1)) d1 = (Answer x, d3) \<and> ir_status x = ''FAILED'' \<and>
     (\<forall>y. inv_at (st_id s) d3 = Some y \<longrightarrow> inv_status y = InvFailed)"
proof -
  obtain d where d: "repo_reachable demo_packaging (\<lambda>_. []) d" "services d = [live_service]" "revisions d = [live_revision]"
    "endpoints d = [new_endpoint (calls 200) (0, demo_endpoint ''days'')]" "bindings d = []"
    "tokens d = [\<lparr>tok_id = 400, tok_name = ''ci'', tok_hash = ''h'', tok_prefix = ''pst_'', tok_created = 400, tok_revoked = None\<rparr>]"
    "invocations d = []" "executions d = []" "inv_logs d = []"
    using live_reachable [of demo_packaging "\<lambda>_. []"] by (elim exE conjE) (rule that)
  obtain t where t: "resolve_endpoint ''shop'' ''run'' d = Inr t" and f: "re_service t = 100" "re_revision t = 200"
    "re_version t = None" "re_io t = [JStr ''rest'']" "re_endpoint t = ''run''"
    "re_manifest t = [to_manifest (demo_endpoint ''days'')]" "re_service_name t = ''shop''"
    using live_resolves [OF d(2,3,5,4)] by (elim exE conjE) (rule that)
  have i: "map_of (to_manifest (demo_endpoint ''days'')) ''id'' = Some (JStr ''run'')"
    by (simp add: to_manifest_def dict_merge_def demo_endpoint_def dump_endpoint_def)
  have auth: "bearer_token (Some ''bearer x'') = Some ''x''"
    by (simp add: bearer_token_def Let_def lower_def lower_char_def
      strip_def strip_by_def is_space_def)
  have tok: "validate_api_token ''h'' d" by (simp add: validate_api_token_def d(6))
  have val: "validate_value (JObj [(''days'', JInt 3)]) (es_request (demo_endpoint ''days'')) [JStr ''body''] = Inr ()"
    by (simp add: es_request_def demo_endpoint_def validate_value.simps validate_fields.simps kind_of_def dfind_def dget_def properties_of_def required_names_def
      extra_allowed_def validate_scalar_def int_bounds_def signed32_def signed64_def unsigned32_def unsigned64_def)
  obtain i d1 where b: "begin_invocation (calls 500) t ''REST'' d = Inr (i, d1)"
    using live_begins_at [OF d(2,3,7,8) f(1-3), of "''REST''"] by (elim exE) (rule that)
  let ?s = "\<lparr>st_target = t, st_spec = demo_endpoint ''days'', st_id = inv_id i\<rparr>"
  have r: "rest_begin lax_float lax_bool (\<lambda>_. ''h'') (calls 500) (Some ''bearer x'') ''shop'' ''run'' [(''days'', JInt 3)] d
       = Inr (?s, d1)"
    by (simp add: rest_begin_def auth tok t f i demo_endpoint_reads val b)
  have chk: "validate_value (JInt 1) [(''type'', JStr ''Bool'')] [JStr ''result''] = Inl (Reject [JStr ''result''] ExpectedBoolean)"
    by (simp add: validate_value.simps kind_of_def dfind_def dget_def validate_scalar_def signed32_def signed64_def unsigned32_def unsigned64_def)
  let ?oc = "(plain_outcome (JInt 1))\<lparr>oc_succeeded := False, oc_value := JNull, oc_error_type := Some ''ContractValidationError'',
      oc_error_message := Some (violation_text (\<lambda>_. []) [JStr ''result''] ExpectedBoolean)\<rparr>"
  have rs: "es_response (demo_endpoint ''days'') = [(''type'', JStr ''Bool'')]" by (simp add: demo_endpoint_def)
  have co: "checked_outcome (\<lambda>_. []) (demo_endpoint ''days'') (plain_outcome (JInt 1)) = Some ?oc"
    by (simp add: checked_outcome_def plain_outcome_def rs chk)
  have tx: "error_text ?oc = ''ContractValidationError: result: expected a boolean''"
    by (simp add: error_text_def violation_text_def reason_text_def format_value_def plain_outcome_def join_def List.map_filter_def)
  let ?e = "(InvFailed, Some ''ContractValidationError: result: expected a boolean'', empty_logs)"
  let ?x = "failed_response ?s ''ContractValidationError: result: expected a boolean'' ?oc"
  have E: "rest_ending (\<lambda>_. []) ?s (Raw (JInt 1)) = Some (?e, Answer ?x)"
    by (simp add: rest_ending_def co failed_ending_def tx) (simp add: plain_outcome_def)
  have "inv_logs d1 = []" using begin_invocation_tables(4) [OF b] d(9) by simp
  then have fr: "fresh_call (calls 600) d1" by (simp add: fresh_call_def calls_def inj_def)
  have st: "storable ?e" by (simp add: storable_def empty_logs_def pg_string_def)
  have "\<exists>d3. rest_end (\<lambda>_. []) False (calls 600) ?s (Raw (JInt 1)) d1 = (Answer ?x, d3) \<and>
      (\<exists>k. ended_as (calls 600) (st_id ?s) k ?e d3)"
    using rest_invocation_ends [OF d(1) r rtranclp.rtrancl_refl fr, where run = "Raw (JInt 1)"] E st
    by (auto simp: sequenced_def empty_logs_def)
  then obtain d3 k where d3: "rest_end (\<lambda>_. []) False (calls 600) ?s (Raw (JInt 1)) d1 = (Answer ?x, d3)"
    "ended_as (calls 600) (st_id ?s) k ?e d3" by (elim exE conjE) (rule that)
  have "inv_status y = InvFailed" if "inv_at (st_id ?s) d3 = Some y" for y using d3(2) that by (auto simp: ended_as_def)
  moreover have "ir_status ?x = ''FAILED''" by (simp add: failed_response_def)
  ultimately show ?thesis using r d3(1) by metis
qed

theorem grpc_invocation_ends_witness:
  "\<exists>d t iid d1 d3. grpc_begin (\<lambda>_. ''h'') (calls 500) t [(''authorization'', ''bearer x'')] d = Inr (iid, d1) \<and>
     grpc_end False (calls 600) t iid (Overloaded ''full'') d1 = (Refuse RESOURCE_EXHAUSTED, d3) \<and>
     (\<forall>y. inv_at iid d3 = Some y \<longrightarrow> inv_status y = InvFailed \<and> inv_error y = Some ''full'')"
proof -
  obtain d t i d1 where d: "repo_reachable demo_packaging (\<lambda>_. []) d" "inv_logs d = []" "validate_api_token ''h'' d"
    and b: "begin_invocation (calls 500) t ''GRPC'' d = Inr (i, d1)"
    using live_begins [of demo_packaging "\<lambda>_. []" "''GRPC''"] by (elim exE conjE) (rule that)
  have auth: "bearer_token (authorization_of [(''authorization'', ''bearer x'')]) = Some ''x''"
    by (simp add: authorization_of_def bearer_token_def Let_def lower_def lower_char_def strip_def strip_by_def is_space_def)
  have r: "grpc_begin (\<lambda>_. ''h'') (calls 500) t [(''authorization'', ''bearer x'')] d = Inr (inv_id i, d1)"
    by (simp add: grpc_begin_def auth d(3) b)
  let ?e = "(InvFailed, Some ''full'', empty_logs)"
  have "inv_logs d1 = []" using begin_invocation_tables(4) [OF b] d(2) by simp
  then have fr: "fresh_call (calls 600) d1" by (simp add: fresh_call_def calls_def inj_def)
  have E: "grpc_ending t (inv_id i) (Overloaded ''full'') = (?e, Refuse RESOURCE_EXHAUSTED)" by (simp add: grpc_ending_def)
  have st: "storable ?e" "sequenced ?e" by (simp_all add: storable_def sequenced_def empty_logs_def pg_string_def)
  obtain d3 k where d3: "grpc_end False (calls 600) t (inv_id i) (Overloaded ''full'') d1 = (Refuse RESOURCE_EXHAUSTED, d3)"
    "ended_as (calls 600) (inv_id i) k ?e d3"
    using grpc_invocation_ends [OF d(1) r rtranclp.rtrancl_refl fr E st(2)] st(1) by auto
  have "inv_status y = InvFailed \<and> inv_error y = Some ''full''" if "inv_at (inv_id i) d3 = Some y" for y
    using d3(2) that by (auto simp: ended_as_def end_invocation_def)
  then show ?thesis using r d3(1) by metis
qed

end
