(* ===== verification/Artifact.thy ===== *)
theory Artifact
  imports Schemas Output "HOL-Library.Word"
begin

text \<open>
  What a worker does with the artifact of a revision (\<open>runtime/loader.py\<close>): the node-local archive cache, the
  check of an archive's members, the imports of artifact code, the endpoint definitions read from a
  manifest, the runners they name, and how a runner is called. The SHA-256 digest, the transports and the
  imported modules are parameters.
\<close>

unbundle bit_operations_syntax

datatype load_error =
    BadDigest | NoArtifact | BadScheme | DigestMismatch | UnsafePath string | SymbolicLink string
  | InvalidEntrypoint string | NotCallable string | TaskTypeMismatch string | ImportFailed | CodecFailed
  | ManifestKey string | ManifestType

section \<open>The archive cache\<close>

definition removeprefix :: "string \<Rightarrow> string \<Rightarrow> string" where
  "removeprefix p s = (if starts_with p s then drop (length p) s else s)"

definition hex_char :: "char \<Rightarrow> bool" where
  "hex_char c = (c \<in> set ''0123456789abcdef'')"

definition normal_digest :: "string \<Rightarrow> string" where
  "normal_digest s = lower (removeprefix ''sha256:'' s)"

type_synonym archive_cache = "(string, bytes) dict" \<comment> \<open>the files \<open><digest>.zip\<close>\<close>

record transport =
  tp_scheme :: "string \<Rightarrow> string" \<comment> \<open>of a URI\<close>
  tp_file :: "string \<Rightarrow> bytes option"
  tp_http :: "string \<Rightarrow> bytes option"

definition download :: "transport \<Rightarrow> string \<Rightarrow> load_error + bytes" where
  "download tp uri =
     (if tp_scheme tp uri \<in> {[], ''file''} then of_opt NoArtifact (tp_file tp uri)
      else if tp_scheme tp uri \<in> {''http'', ''https''} then of_opt NoArtifact (tp_http tp uri)
      else Inl BadScheme)"

definition obtain_archive ::
  "(bytes \<Rightarrow> string) \<Rightarrow> transport \<Rightarrow> string \<Rightarrow> string \<Rightarrow> archive_cache \<Rightarrow> (load_error + bytes) \<times> archive_cache" where
  \<comment> \<open>under the exclusive lock of the digest's lock file\<close>
  "obtain_archive sha tp uri expected cache =
     (let digest = normal_digest expected in
      if length digest \<noteq> 64 \<or> list_ex (\<lambda>c. \<not> hex_char c) digest then (Inl BadDigest, cache)
      else
        let refill = (let cache1 = AList.delete digest cache in
               case download tp uri of
                 Inl x \<Rightarrow> (Inl x, cache1)
               | Inr b \<Rightarrow> if sha b \<noteq> digest then (Inl DigestMismatch, cache1) else (Inr b, AList.update digest b cache1))
        in case map_of cache digest of
             Some b \<Rightarrow> if sha b = digest then (Inr b, cache) else refill
           | None \<Rightarrow> refill)"

section \<open>The members of an archive\<close>

record zip_member =
  zm_name :: string
  zm_attr :: nat \<comment> \<open>\<open>external_attr\<close>; the upper half is the Unix mode\<close>

fun norm_path :: "string list \<Rightarrow> string list \<Rightarrow> string list" where
  \<comment> \<open>the lexical part of \<open>resolve()\<close>; the fresh directory holds no links\<close>
  "norm_path acc [] = acc"
| "norm_path acc (c # cs) =
     (if c = [] \<or> c = ''.'' then norm_path acc cs
      else if c = ''..'' then norm_path (butlast acc) cs
      else norm_path (acc @ [c]) cs)"

definition resolve_member :: "string list \<Rightarrow> string \<Rightarrow> string list" where
  \<comment> \<open>\<open>(destination / filename).resolve()\<close>: an absolute name replaces the destination\<close>
  "resolve_member dest name =
     norm_path (if starts_with ''/'' name then [] else dest) (split_on (CHR ''/'') name)"

definition is_prefix :: "'a list \<Rightarrow> 'a list \<Rightarrow> bool" where
  "is_prefix p s = (take (length p) s = p)"

definition validate_zip_member :: "string list \<Rightarrow> zip_member \<Rightarrow> load_error + unit" where
  "validate_zip_member dest m =
     (if \<not> is_prefix dest (resolve_member dest (zm_name m)) then Inl (UnsafePath (zm_name m))
      else if drop_bit 16 (zm_attr m) AND 0xF000 = 0xA000 then Inl (SymbolicLink (zm_name m))
      else Inr ())"

definition extracted_path :: "string list \<Rightarrow> string \<Rightarrow> string list" where
  \<comment> \<open>where \<open>ZipFile.extractall\<close> writes: empty, \<open>.\<close> and \<open>..\<close> components are dropped\<close>
  "extracted_path dest name = dest @ filter (\<lambda>c. c \<notin> {[], ''.'', ''..''}) (split_on (CHR ''/'') name)"

definition extract_archive :: "string list \<Rightarrow> zip_member list \<Rightarrow> load_error + string list list" where
  \<comment> \<open>every member is validated before the first is written\<close>
  "extract_archive dest ms =
     bindE (mapE (validate_zip_member dest) ms) (\<lambda>_. Inr (map (extracted_path dest \<circ> zm_name) ms))"

section \<open>Imports of artifact code\<close>

record import_scope =
  sc_prefix :: string
  sc_roots :: "string list"

record import_call =
  ic_name :: string
  ic_fromlist :: "string list"
  ic_level :: nat

datatype import_value =
    Imported import_call \<comment> \<open>the value of the original \<open>__import__\<close>\<close>
  | Module string \<comment> \<open>\<open>sys.modules[name]\<close> after the original import\<close>

definition root_name :: "string \<Rightarrow> string" where
  "root_name name = takeWhile (\<lambda>c. c \<noteq> CHR ''.'') name"

definition artifact_import :: "import_scope option \<Rightarrow> import_call \<Rightarrow> import_call \<times> import_value" where
  \<comment> \<open>the call of the original import, and what is returned\<close>
  "artifact_import scope c =
     (case scope of
        None \<Rightarrow> (c, Imported c)
      | Some s \<Rightarrow>
          if ic_level c \<noteq> 0 \<or> root_name (ic_name c) \<notin> set (sc_roots s) then (c, Imported c)
          else
            let translated = sc_prefix s @ ''.'' @ ic_name c in
            if ic_fromlist c \<noteq> []
            then (let c' = \<lparr>ic_name = translated, ic_fromlist = ic_fromlist c, ic_level = 0\<rparr> in (c', Imported c'))
            else (\<lparr>ic_name = translated, ic_fromlist = [''*''], ic_level = 0\<rparr>,
                  Module (sc_prefix s @ ''.'' @ root_name (ic_name c))))"

datatype dir_entry = FileEntry string | DirEntry string

definition is_identifier :: "string \<Rightarrow> bool" where
  \<comment> \<open>\<open>str.isidentifier\<close> of ASCII text\<close>
  "is_identifier s = (case s of [] \<Rightarrow> False | c # cs \<Rightarrow> start_char c \<and> list_all word_char cs)"

definition local_root :: "dir_entry \<Rightarrow> string option" where
  "local_root x =
     (case x of
        FileEntry n \<Rightarrow>
          if \<not> starts_with ''.'' n \<and> ends_with ''.py'' n \<and> is_identifier (take (length n - 3) n)
          then Some (take (length n - 3) n) else None
      | DirEntry n \<Rightarrow> if \<not> starts_with ''.'' n \<and> is_identifier n then Some n else None)"

definition local_import_roots :: "dir_entry list \<Rightarrow> string list" where
  "local_import_roots children = List.map_filter local_root children"

section \<open>Endpoint definitions\<close>

record grpc_definition =
  gd_service :: json
  gd_method :: json
  gd_descriptor :: json
  gd_generated :: bool
  gd_wrapped :: bool

record endpoint_definition =
  ed_id :: json
  ed_task :: json
  ed_entry :: json
  ed_grpc :: "grpc_definition option"
  ed_params :: "(string \<times> jdict) list"
  ed_response :: jdict
  ed_io :: "json list"

definition item_at :: "jdict \<Rightarrow> string \<Rightarrow> load_error + json" where
  \<comment> \<open>\<open>value[key]\<close>\<close>
  "item_at d k = of_opt (ManifestKey k) (map_of d k)"

definition grpc_definition_of :: "json \<Rightarrow> load_error + grpc_definition option" where
  "grpc_definition_of v =
     (if \<not> truthy v then Inr None
      else case v of
        JObj g \<Rightarrow>
          bindE (item_at g ''service'') (\<lambda>s. bindE (item_at g ''method'') (\<lambda>m.
            Inr (Some \<lparr>gd_service = s, gd_method = m, gd_descriptor = dget g ''descriptor_path'' (JStr ''descriptor.pb''),
                       gd_generated = truthy (dget g ''generated'' (JBool False)),
                       gd_wrapped = truthy (dget g ''response_wrapped'' (JBool False))\<rparr>)))
      | _ \<Rightarrow> Inl ManifestType)"

definition schema_params :: "jdict \<Rightarrow> (string \<times> jdict) list" where
  "schema_params value = List.map_filter
     (\<lambda>(n, v). if n \<in> set metadata_fields then None else case v of JObj s \<Rightarrow> Some (n, s) | _ \<Rightarrow> None) value"

definition definition_of :: "jdict \<Rightarrow> load_error + endpoint_definition" where
  \<comment> \<open>\<open>EndpointDefinition.from_manifest\<close>\<close>
  "definition_of value =
     bindE (grpc_definition_of (dfind value ''grpc'')) (\<lambda>g.
     bindE (item_at value ''id'') (\<lambda>i.
     bindE (item_at value ''task_type'') (\<lambda>t.
     bindE (item_at value ''entrypoint'') (\<lambda>ep.
     bindE (case dget value ''response_schema'' (JObj []) of JObj r \<Rightarrow> Inr r | JArr [] \<Rightarrow> Inr [] | JStr [] \<Rightarrow> Inr [] | _ \<Rightarrow> Inl ManifestType) (\<lambda>r.
     bindE (case dget value ''io_type'' (JArr [JStr ''rest'']) of
              JArr xs \<Rightarrow> Inr xs | JStr s \<Rightarrow> Inr (map (\<lambda>c. JStr [c]) s) | JObj d \<Rightarrow> Inr (map (JStr \<circ> fst) d)
            | _ \<Rightarrow> Inl ManifestType) (\<lambda>io.
       Inr \<lparr>ed_id = i, ed_task = t, ed_entry = ep, ed_grpc = g, ed_params = schema_params value, ed_response = r,
            ed_io = io\<rparr>))))))"

section \<open>Runners\<close>

record runner =
  rn_callable :: bool
  rn_remote :: "string option" \<comment> \<open>the task type of a \<open>RemoteFunc\<close>\<close>
  rn_coroutine :: bool \<comment> \<open>\<open>inspect.iscoroutinefunction\<close>\<close>
  rn_params :: "(string \<times> bool) list option"
    \<comment> \<open>the parameters of the signature and whether each takes a positional argument; \<open>None\<close>: no signature\<close>
  rn_awaits :: bool \<comment> \<open>calling it returns an awaitable\<close>

type_synonym modules = "string \<Rightarrow> (string \<Rightarrow> runner option) option"
  \<comment> \<open>what importing a module gives: its attributes, or an exception\<close>

definition split_entry :: "string \<Rightarrow> (string \<times> string) option" where
  \<comment> \<open>\<open>partition(":")\<close>; \<open>None\<close>: no separator\<close>
  "split_entry s =
     (let m = takeWhile (\<lambda>c. c \<noteq> CHR '':'') s
      in if length m = length s then None else Some (m, drop (Suc (length m)) s))"

definition load_runner :: "modules \<Rightarrow> string \<Rightarrow> endpoint_definition \<Rightarrow> load_error + runner" where
  "load_runner modules prefix ed =
     (case ed_entry ed of
        JStr entry \<Rightarrow>
          bindE (of_opt (InvalidEntrypoint entry) (split_entry entry)) (\<lambda>(m, attribute).
          bindE (of_opt ImportFailed (modules (prefix @ ''.'' @ m))) (\<lambda>attrs.
          bindE (of_opt (NotCallable entry) (attrs attribute)) (\<lambda>r.
            if \<not> rn_callable r then Inl (NotCallable entry)
            else if rn_remote r \<noteq> None \<and> map_option JStr (rn_remote r) \<noteq> Some (ed_task ed) then Inl (TaskTypeMismatch entry)
            else Inr r)))
      | _ \<Rightarrow> Inl ManifestType)"

type_synonym runners = "(json \<times> json \<times> runner) list" \<comment> \<open>by endpoint, with its task type\<close>

fun load_runners :: "modules \<Rightarrow> string \<Rightarrow> endpoint_definition list \<Rightarrow> runners \<Rightarrow> load_error + runners" where
  "load_runners modules prefix [] rs = Inr rs"
| "load_runners modules prefix (ed # eds) rs =
     bindE (load_runner modules prefix ed) (\<lambda>r.
       load_runners modules prefix eds (AList.update (ed_id ed) (ed_task ed, r) rs))"

definition declares_context :: "runner \<Rightarrow> bool" where
  "declares_context r = (case rn_params r of Some ((n, positional) # _) \<Rightarrow> n = ''context'' \<and> positional | _ \<Rightarrow> False)"

definition call_arguments :: "'a \<Rightarrow> 'a list \<Rightarrow> runner \<Rightarrow> 'a list" where
  \<comment> \<open>the positional arguments of the call\<close>
  "call_arguments context positional r = (if declares_context r then [context] else []) @ positional"

datatype place = OnLoop | IoThread | ComputeThread

datatype call_error = NoAwaitable | SyncRequired | ReturnedAwaitable

definition invoke_runner :: "json \<Rightarrow> runner \<Rightarrow> call_error + place" where
  \<comment> \<open>where \<open>_invoke_runner\<close> runs the call; an error after the call when its result has the wrong shape\<close>
  "invoke_runner task r =
     (if task = JStr ''io'' \<and> (rn_coroutine r \<or> rn_remote r \<noteq> None)
      then (if rn_awaits r then Inr OnLoop else Inl NoAwaitable)
      else if task = JStr ''compute'' \<and> rn_coroutine r then Inl SyncRequired
      else if rn_awaits r then Inl ReturnedAwaitable
      else Inr (if task = JStr ''io'' then IoThread else ComputeThread))"

section \<open>The cache holds what it names\<close>


definition demo_digest :: string where
  "demo_digest = replicate 64 (CHR ''a'')"

definition demo_sha :: "bytes \<Rightarrow> string" where
  "demo_sha b = (if b = [1, 2] then demo_digest else [])"

definition demo_transport :: transport where
  "demo_transport = \<lparr>tp_scheme = (\<lambda>_. ''file''), tp_file = (\<lambda>u. if u = ''/a.zip'' then Some [1, 2] else None), tp_http = (\<lambda>_. None)\<rparr>"


section \<open>The members stay inside\<close>

lemma extracted_inside:
  assumes "extract_archive dest ms = Inr paths"
  shows "list_all2 (\<lambda>m p. is_prefix dest p \<and> ''..'' \<notin> set (drop (length dest) p) \<and> is_prefix dest (resolve_member dest (zm_name m)) \<and>
      drop_bit 16 (zm_attr m) AND 0xF000 \<noteq> 0xA000) ms paths"
proof -
  obtain us where us: "mapE (validate_zip_member dest) ms = Inr us" and p: "paths = map (extracted_path dest \<circ> zm_name) ms"
    using assms by (auto simp: extract_archive_def bindE_eq_Inr)
  have "is_prefix dest (resolve_member dest (zm_name m)) \<and> drop_bit 16 (zm_attr m) AND 0xF000 \<noteq> 0xA000" if m: "m \<in> set ms" for m
  proof -
    obtain u where "validate_zip_member dest m = Inr u" using mapE_in [OF us m] by blast
    then show ?thesis by (auto simp: validate_zip_member_def split: if_splits)
  qed
  then show ?thesis
    unfolding p list_all2_map2 by (intro list_all2_same [THEN iffD2]) (simp add: is_prefix_def extracted_path_def)
qed

lemma norm_path_plain: "\<forall>c \<in> set cs. c \<noteq> ''..'' \<Longrightarrow> norm_path acc cs = acc @ filter (\<lambda>c. c \<notin> {[], ''.'', ''..''}) cs"
  by (induction acc cs rule: norm_path.induct) auto

lemma extracted_is_validated:
  \<comment> \<open>without \<open>..\<close> in its name a relative member is written to the path that was validated\<close>
  assumes "\<not> starts_with ''/'' name" and "''..'' \<notin> set (split_on (CHR ''/'') name)"
  shows "resolve_member dest name = extracted_path dest name"
proof -
  have "\<forall>c \<in> set (split_on (CHR ''/'') name). c \<noteq> ''..''" using assms(2) by metis
  then show ?thesis using assms(1) by (simp add: resolve_member_def extracted_path_def norm_path_plain)
qed

section \<open>The runtime reads what the API wrote\<close>

definition grpc_definition_from :: "grpc_spec \<Rightarrow> grpc_definition" where
  "grpc_definition_from g = \<lparr>gd_service = JStr (gs_service g), gd_method = JStr (gs_method g),
     gd_descriptor = JStr (gs_descriptor g), gd_generated = gs_generated g, gd_wrapped = gs_wrapped g\<rparr>"

definition definition_from :: "endpoint_spec \<Rightarrow> endpoint_definition" where
  "definition_from e = \<lparr>ed_id = JStr (es_id e), ed_task = JStr (es_task e), ed_entry = JStr (es_entry e),
     ed_grpc = map_option grpc_definition_from (es_grpc e), ed_params = es_params e, ed_response = es_response e,
     ed_io = map JStr (es_io e)\<rparr>"

lemma grpc_definition_dump: "grpc_definition_of (JObj (dump_grpc g)) = Inr (Some (grpc_definition_from g))"
  by (simp add: grpc_definition_of_def dump_grpc_def item_at_def dget_def grpc_definition_from_def)

lemma map_filter_append: "List.map_filter f (xs @ ys) = List.map_filter f xs @ List.map_filter f ys"
  by (simp add: List.map_filter_def)

lemma schema_params_fresh:
  assumes "distinct (map fst (es_params e))" and "fst ` set (es_params e) \<inter> set metadata_fields = {}"
  shows "schema_params (to_manifest e) = es_params e"
proof -
  have "List.map_filter (\<lambda>(n, v). if n \<in> set metadata_fields then None else case v of JObj s \<Rightarrow> Some (n, s) | _ \<Rightarrow> None)
      (map (\<lambda>(n, s). (n, JObj s)) ps) = ps" if "fst ` set ps \<inter> set metadata_fields = {}" for ps :: "(string \<times> jdict) list"
    using that by (induction ps) (auto simp: List.map_filter_simps)
  moreover have "List.map_filter (\<lambda>(n, v). if n \<in> set metadata_fields then None else case v of JObj s \<Rightarrow> Some (n, s) | _ \<Rightarrow> None)
      (dump_endpoint e) = []"
    by (auto simp: dump_endpoint_def metadata_fields_def List.map_filter_simps split: option.splits)
  ultimately show ?thesis
    using assms(2) by (simp add: schema_params_def to_manifest_fresh [OF assms] map_filter_append)
qed

lemma manifest_field:
  assumes "distinct (map fst (es_params e))" and "fst ` set (es_params e) \<inter> set metadata_fields = {}" and "k \<in> set metadata_fields"
  shows "map_of (to_manifest e) k = map_of (dump_endpoint e) k"
proof -
  have "k \<notin> fst ` set (es_params e)" using assms(2,3) by blast
  then have "map_of (map (\<lambda>(n, s). (n, JObj s)) (es_params e)) k = None" by (force simp: map_of_eq_None_iff)
  then show ?thesis by (simp add: to_manifest_fresh [OF assms(1,2)] map_add_def split: option.split)
qed

text \<open>C34. The runtime and the API agree on a manifest: from the entry that the API writes for an endpoint, the
  actor reads the same identifier, task type, entry point, gRPC method, parameters, response schema and
  transports, as long as no parameter has the name of a metadata field.\<close>

theorem runtime_reads_manifest:
  assumes "distinct (map fst (es_params e))" and "fst ` set (es_params e) \<inter> set metadata_fields = {}"
  shows "definition_of (to_manifest e) = Inr (definition_from e)"
proof -
  note F = manifest_field [OF assms]
  have f: "map_of (to_manifest e) ''id'' = Some (JStr (es_id e))" "map_of (to_manifest e) ''task_type'' = Some (JStr (es_task e))"
    "map_of (to_manifest e) ''entrypoint'' = Some (JStr (es_entry e))" "map_of (to_manifest e) ''response_schema'' = Some (JObj (es_response e))"
    "map_of (to_manifest e) ''io_type'' = Some (JArr (map JStr (es_io e)))"
    "map_of (to_manifest e) ''grpc'' = map_option (JObj \<circ> dump_grpc) (es_grpc e)"
    by (subst F; simp add: metadata_fields_def dump_endpoint_def split: option.split)+
  have g: "grpc_definition_of (dfind (to_manifest e) ''grpc'') = Inr (map_option grpc_definition_from (es_grpc e))"
    using grpc_definition_dump
    by (cases "es_grpc e") (simp_all add: dfind_def dget_def f(6), simp add: grpc_definition_of_def)
  show ?thesis
    by (simp add: definition_of_def g item_at_def f(1-5) dget_def schema_params_fresh [OF assms] definition_from_def)
qed

theorem runtime_reads_manifest_witness:
  "definition_of (to_manifest (demo_endpoint ''days'')) = Inr (definition_from (demo_endpoint ''days''))"
  by (rule runtime_reads_manifest) (simp_all add: demo_endpoint_def metadata_fields_def)

section \<open>Loaded runners have their type\<close>

lemma load_runner_ok:
  "load_runner modules prefix ed = Inr r \<Longrightarrow> rn_callable r \<and> (\<forall>k. rn_remote r = Some k \<longrightarrow> ed_task ed = JStr k)"
  by (auto simp: load_runner_def bindE_eq_Inr of_opt_eq split: json.splits if_splits)

lemma load_runners_from:
  assumes "load_runners modules prefix eds rs = Inr rs'"
  shows "map_of rs' i = (case find (\<lambda>ed. ed_id ed = i) (rev eds) of
      Some ed \<Rightarrow> (case load_runner modules prefix ed of Inr r \<Rightarrow> Some (ed_task ed, r) | Inl _ \<Rightarrow> None)
    | None \<Rightarrow> map_of rs i) \<and> (\<forall>ed \<in> set eds. \<exists>r. load_runner modules prefix ed = Inr r)"
  using assms
proof (induction eds arbitrary: rs)
  case (Cons ed eds)
  then obtain r where r: "load_runner modules prefix ed = Inr r"
    and l: "load_runners modules prefix eds (AList.update (ed_id ed) (ed_task ed, r) rs) = Inr rs'"
    by (auto simp: bindE_eq_Inr)
  have f: "find P (xs @ [x]) = (case find P xs of Some y \<Rightarrow> Some y | None \<Rightarrow> if P x then Some x else None)" for P x and xs :: "'b list"
    by (induction xs) auto
  from Cons.IH [OF l] r show ?case by (auto simp: f update_conv' split: option.splits)
qed simp

lemma find_SomeD: "find P xs = Some x \<Longrightarrow> x \<in> set xs \<and> P x"
  by (induction xs) (auto split: if_splits)

text \<open>C35. What a version runs is typed: once a revision has loaded, every endpoint of its manifest has a runner,
  and each runner is a callable of the artifact whose Hook task type is the task type of the manifest. A call
  runs on the event loop only if it is an IO call that awaits, and a computation never does.\<close>

theorem loaded_runners_typed:
  assumes "load_runners modules prefix eds [] = Inr rs"
  shows "(\<forall>ed \<in> set eds. map_of rs (ed_id ed) \<noteq> None) \<and>
    (\<forall>i t r. map_of rs i = Some (t, r) \<longrightarrow>
       (\<exists>ed \<in> set eds. ed_id ed = i \<and> ed_task ed = t \<and> load_runner modules prefix ed = Inr r) \<and>
       rn_callable r \<and> (\<forall>k. rn_remote r = Some k \<longrightarrow> t = JStr k) \<and>
       (invoke_runner t r = Inr OnLoop \<longrightarrow> t = JStr ''io'' \<and> rn_awaits r \<and> (rn_coroutine r \<or> rn_remote r = Some ''io'')) \<and>
       (invoke_runner t r = Inr IoThread \<longrightarrow> t = JStr ''io'' \<and> \<not> rn_coroutine r \<and> rn_remote r = None) \<and>
       (t = JStr ''compute'' \<longrightarrow> invoke_runner t r \<in> {Inr ComputeThread, Inl SyncRequired, Inl ReturnedAwaitable}))"
proof -
  have F: "map_of rs i = (case find (\<lambda>ed. ed_id ed = i) (rev eds) of
      Some ed \<Rightarrow> (case load_runner modules prefix ed of Inr r \<Rightarrow> Some (ed_task ed, r) | Inl _ \<Rightarrow> None) | None \<Rightarrow> None)" for i
    using load_runners_from [OF assms, of i] by (simp split: option.splits)
  have L: "\<forall>ed \<in> set eds. \<exists>r. load_runner modules prefix ed = Inr r"
    using load_runners_from [OF assms] by blast
  have A: "map_of rs (ed_id ed) \<noteq> None" if ed: "ed \<in> set eds" for ed
  proof -
    have "find (\<lambda>x. ed_id x = ed_id ed) (rev eds) \<noteq> None" using ed by (auto simp: find_None_iff)
    then obtain x where x: "find (\<lambda>x. ed_id x = ed_id ed) (rev eds) = Some x" by auto
    then have "x \<in> set eds" by (auto dest: find_SomeD)
    then show ?thesis using L x by (auto simp: F)
  qed
  have B: "(\<exists>ed \<in> set eds. ed_id ed = i \<and> ed_task ed = t \<and> load_runner modules prefix ed = Inr r) \<and>
       rn_callable r \<and> (\<forall>k. rn_remote r = Some k \<longrightarrow> t = JStr k)" if m: "map_of rs i = Some (t, r)" for i t r
  proof -
    obtain ed where ed: "find (\<lambda>ed. ed_id ed = i) (rev eds) = Some ed" "load_runner modules prefix ed = Inr r" "ed_task ed = t"
      using m by (auto simp: F split: option.splits sum.splits)
    from find_SomeD [OF ed(1)] have "ed \<in> set eds" "ed_id ed = i" by simp_all
    with ed load_runner_ok [OF ed(2)] show ?thesis by blast
  qed
  have C: "(invoke_runner t r = Inr OnLoop \<longrightarrow> t = JStr ''io'' \<and> rn_awaits r \<and> (rn_coroutine r \<or> rn_remote r = Some ''io'')) \<and>
       (invoke_runner t r = Inr IoThread \<longrightarrow> t = JStr ''io'' \<and> \<not> rn_coroutine r \<and> rn_remote r = None) \<and>
       (t = JStr ''compute'' \<longrightarrow> invoke_runner t r \<in> {Inr ComputeThread, Inl SyncRequired, Inl ReturnedAwaitable})"
    if "\<forall>k. rn_remote r = Some k \<longrightarrow> t = JStr k" for t r
    using that by (cases "rn_remote r") (simp_all add: invoke_runner_def)
  show ?thesis
  proof (intro conjI [OF _ allI [OF allI [OF allI [OF impI]]]] ballI)
    show "map_of rs (ed_id ed) \<noteq> None" if "ed \<in> set eds" for ed by (rule A [OF that])
    fix i t r assume m: "map_of rs i = Some (t, r)"
    have "rn_callable r" and k: "\<forall>k. rn_remote r = Some k \<longrightarrow> t = JStr k" using B [OF m] by blast+
    with B [OF m] C [OF k] show "(\<exists>ed \<in> set eds. ed_id ed = i \<and> ed_task ed = t \<and> load_runner modules prefix ed = Inr r) \<and>
       rn_callable r \<and> (\<forall>k. rn_remote r = Some k \<longrightarrow> t = JStr k) \<and>
       (invoke_runner t r = Inr OnLoop \<longrightarrow> t = JStr ''io'' \<and> rn_awaits r \<and> (rn_coroutine r \<or> rn_remote r = Some ''io'')) \<and>
       (invoke_runner t r = Inr IoThread \<longrightarrow> t = JStr ''io'' \<and> \<not> rn_coroutine r \<and> rn_remote r = None) \<and>
       (t = JStr ''compute'' \<longrightarrow> invoke_runner t r \<in> {Inr ComputeThread, Inl SyncRequired, Inl ReturnedAwaitable})"
      by (elim conjE) (intro conjI; assumption)
  qed
qed

definition demo_modules :: modules where
  "demo_modules m = (if m = ''p.app.main'' then Some (\<lambda>a. if a = ''run''
     then Some \<lparr>rn_callable = True, rn_remote = Some ''compute'', rn_coroutine = False, rn_params = None, rn_awaits = False\<rparr>
     else None) else None)"

theorem loaded_runners_typed_witness:
  "\<exists>rs r. load_runners demo_modules ''p'' [definition_from (demo_endpoint ''days'')] [] = Inr rs \<and>
     map_of rs (JStr ''run'') = Some (JStr ''compute'', r) \<and> rn_callable r \<and> rn_remote r = Some ''compute'' \<and>
     invoke_runner (JStr ''compute'') r = Inr ComputeThread"
proof -
  let ?r = "\<lparr>rn_callable = True, rn_remote = Some ''compute'', rn_coroutine = False, rn_params = None, rn_awaits = False\<rparr>"
  have s: "split_entry ''app.main:run'' = Some (''app.main'', ''run'')" by (simp add: split_entry_def Let_def)
  have l: "load_runners demo_modules ''p'' [definition_from (demo_endpoint ''days'')] [] = Inr [(JStr ''run'', JStr ''compute'', ?r)]"
    by (simp add: load_runner_def definition_from_def demo_endpoint_def s demo_modules_def)
  have m: "map_of [(JStr ''run'', JStr ''compute'', ?r)] (JStr ''run'') = Some (JStr ''compute'', ?r)" by simp
  have "rn_callable ?r \<and> invoke_runner (JStr ''compute'') ?r \<in> {Inr ComputeThread, Inl SyncRequired, Inl ReturnedAwaitable}"
    using conjunct2 [OF loaded_runners_typed [OF l]] m by blast
  then show ?thesis using l m by (auto simp: invoke_runner_def)
qed

end
