(* ===== verification/Loader.thy ===== *)
theory Loader
  imports Artifact
begin

text \<open>
  The versions a worker process holds (\<open>VersionedRuntime\<close> of \<open>runtime/loader.py\<close>) as a state machine. Everything
  between two suspensions of the event loop is one step: the bodies of the locks never suspend, so taking a
  free lock does not either. Loading runs in a thread, in two steps (the extraction and the imports), and so
  does the removal of a directory; requests, drains, load threads and removals interleave freely.
  A directory is named by the version (the truncated digests of \<open>_safe_token\<close> are taken to differ) and holds
  the archive it was extracted from.
\<close>

datatype vkey = VKey (vk_service: string) (vk_revision: string)

datatype version_state = READY | DRAINING

record version =
  vs_key :: vkey
  vs_state :: version_state
  vs_inflight :: int
  vs_runners :: runners
  vs_codecs :: "json list" \<comment> \<open>the endpoints with a gRPC codec\<close>

datatype load_stage = Fetching | Importing

record load =
  ld_key :: vkey
  ld_uri :: string
  ld_digest :: string
  ld_endpoints :: "endpoint_definition list"
  ld_stage :: load_stage

record artifacts =
  af_obtain :: "string \<Rightarrow> string \<Rightarrow> load_error + bytes" \<comment> \<open>the archive of a URI and a digest\<close>
  af_members :: "bytes \<Rightarrow> zip_member list"
  af_modules :: "bytes \<Rightarrow> modules"
  af_temp :: "vkey \<Rightarrow> string list" \<comment> \<open>the directory \<open>mkdtemp\<close> makes for an extraction\<close>
  af_codecs :: "bytes \<Rightarrow> endpoint_definition list \<Rightarrow> load_error + json list"

record directory =
  dr_marker :: string \<comment> \<open>\<open>.pyscripts-artifact.sha256\<close>\<close>
  dr_content :: bytes

record runtime =
  rt_retain :: bool \<comment> \<open>\<open>retain_extracted_on_unload\<close>\<close>
  rt_heap :: "version list" \<comment> \<open>the \<open>LoadedVersion\<close> objects, by address\<close>
  rt_versions :: "(vkey, nat) dict"
  rt_tasks :: "(vkey, nat) dict" \<comment> \<open>\<open>_load_tasks\<close>\<close>
  rt_loads :: "(nat, load) dict" \<comment> \<open>the load tasks under way\<close>
  rt_done :: "(nat, load_error + nat) dict" \<comment> \<open>the finished ones\<close>
  rt_waiting :: "(nat, nat) dict" \<comment> \<open>requests that await a load\<close>
  rt_running :: "(nat, nat) dict" \<comment> \<open>requests that run on a version\<close>
  rt_dirs :: "(vkey, directory) dict"
  rt_modules :: "vkey list" \<comment> \<open>the namespaces in \<open>sys.modules\<close>\<close>
  rt_deleting :: "vkey list" \<comment> \<open>removals under way\<close>

definition new_runtime :: "bool \<Rightarrow> runtime" where
  "new_runtime retain = \<lparr>rt_retain = retain, rt_heap = [], rt_versions = [], rt_tasks = [], rt_loads = [], rt_done = [],
     rt_waiting = [], rt_running = [], rt_dirs = [], rt_modules = [], rt_deleting = []\<rparr>"

section \<open>Requests\<close>

datatype request_error = VersionDraining | UnknownEndpoint | LoadFailed load_error

definition upd_version_at :: "nat \<Rightarrow> (version \<Rightarrow> version) \<Rightarrow> runtime \<Rightarrow> runtime" where
  "upd_version_at a f s = s\<lparr>rt_heap := (rt_heap s)[a := f (rt_heap s ! a)]\<rparr>"

definition admit :: "nat \<Rightarrow> nat \<Rightarrow> json \<Rightarrow> runtime \<Rightarrow> (request_error + unit) \<times> runtime" where
  \<comment> \<open>the body of \<open>loaded.lock\<close> in \<open>execute\<close>\<close>
  "admit q a endpoint s =
     (let v = rt_heap s ! a in
      if vs_state v \<noteq> READY then (Inl VersionDraining, s)
      else if map_of (vs_runners v) endpoint = None then (Inl UnknownEndpoint, s)
      else (Inr (), upd_version_at a (\<lambda>v. v\<lparr>vs_inflight := vs_inflight v + 1\<rparr>) s\<lparr>rt_running := AList.update q a (rt_running s)\<rparr>))"

definition admit_grpc :: "nat \<Rightarrow> nat \<Rightarrow> json \<Rightarrow> endpoint_definition list \<Rightarrow> runtime \<Rightarrow> (request_error + unit) \<times> runtime" where
  \<comment> \<open>the same in \<open>execute_grpc\<close>, with the check of the endpoint before it\<close>
  "admit_grpc q a endpoint eds s =
     (let v = rt_heap s ! a in
      if (case find (\<lambda>ed. ed_id ed = endpoint) eds of None \<Rightarrow> True | Some ed \<Rightarrow> ed_grpc ed = None) then (Inl UnknownEndpoint, s)
      else if vs_state v \<noteq> READY then (Inl VersionDraining, s)
      else if map_of (vs_runners v) endpoint = None \<or> endpoint \<notin> set (vs_codecs v) then (Inl UnknownEndpoint, s)
      else (Inr (), upd_version_at a (\<lambda>v. v\<lparr>vs_inflight := vs_inflight v + 1\<rparr>) s\<lparr>rt_running := AList.update q a (rt_running s)\<rparr>))"

definition fresh_task :: "runtime \<Rightarrow> nat" where
  "fresh_task s = length (rt_loads s) + length (rt_done s)"

definition ensure_loaded :: "vkey \<Rightarrow> string \<Rightarrow> string \<Rightarrow> endpoint_definition list \<Rightarrow> runtime \<Rightarrow> (nat + nat) \<times> runtime" where
  \<comment> \<open>the loaded version, or the task to await\<close>
  "ensure_loaded k uri digest eds s =
     (case map_of (rt_versions s) k of
        Some a \<Rightarrow> (Inl a, s)
      | None \<Rightarrow>
          (case map_of (rt_tasks s) k of
             Some t \<Rightarrow> (Inr t, s)
           | None \<Rightarrow>
               let t = fresh_task s;
                   l = \<lparr>ld_key = k, ld_uri = uri, ld_digest = digest, ld_endpoints = eds, ld_stage = Fetching\<rparr>
               in (Inr t, s\<lparr>rt_loads := AList.update t l (rt_loads s), rt_tasks := AList.update k t (rt_tasks s)\<rparr>)))"

type_synonym admission = "nat \<Rightarrow> nat \<Rightarrow> runtime \<Rightarrow> (request_error + unit) \<times> runtime"
  \<comment> \<open>\<open>admit\<close> or \<open>admit_grpc\<close> of an endpoint\<close>

definition start_request ::
  "admission \<Rightarrow> nat \<Rightarrow> vkey \<Rightarrow> string \<Rightarrow> string \<Rightarrow> endpoint_definition list \<Rightarrow> runtime \<Rightarrow> (request_error + unit) \<times> runtime" where
  "start_request adm q k uri digest eds s =
     (case ensure_loaded k uri digest eds s of
        (Inl a, s1) \<Rightarrow> adm q a s1
      | (Inr t, s1) \<Rightarrow> (Inr (), s1\<lparr>rt_waiting := AList.update q t (rt_waiting s1)\<rparr>))"

definition resume_request :: "admission \<Rightarrow> nat \<Rightarrow> runtime \<Rightarrow> (request_error + unit) \<times> runtime" where
  \<comment> \<open>\<open>await asyncio.shield(task)\<close> returns\<close>
  "resume_request adm q s =
     (case map_of (rt_waiting s) q of
        None \<Rightarrow> (Inr (), s)
      | Some t \<Rightarrow>
          (case map_of (rt_done s) t of
             None \<Rightarrow> (Inr (), s)
           | Some r \<Rightarrow>
               let s1 = s\<lparr>rt_waiting := AList.delete q (rt_waiting s)\<rparr>
               in case r of Inl x \<Rightarrow> (Inl (LoadFailed x), s1) | Inr a \<Rightarrow> adm q a s1))"

definition cancel_waiting :: "nat \<Rightarrow> runtime \<Rightarrow> runtime" where
  \<comment> \<open>a cancelled waiter leaves; the shield keeps the load\<close>
  "cancel_waiting q s = s\<lparr>rt_waiting := AList.delete q (rt_waiting s)\<rparr>"

section \<open>Unloading\<close>

definition unload :: "vkey \<Rightarrow> runtime \<Rightarrow> runtime" where
  "unload k s =
     (case map_of (rt_versions s) k of
        None \<Rightarrow> s
      | Some a \<Rightarrow>
          let s1 = upd_version_at a (\<lambda>v. v\<lparr>vs_runners := [], vs_codecs := []\<rparr>) (s\<lparr>rt_versions := AList.delete k (rt_versions s)\<rparr>);
              s2 = s1\<lparr>rt_modules := filter (\<lambda>m. m \<noteq> k) (rt_modules s1)\<rparr>
          in if rt_retain s then s2 else s2\<lparr>rt_deleting := rt_deleting s2 @ [k]\<rparr>)"

definition remove_directory :: "vkey \<Rightarrow> runtime \<Rightarrow> runtime" where
  \<comment> \<open>\<open>shutil.rmtree\<close> in its thread\<close>
  "remove_directory k s = s\<lparr>rt_dirs := AList.delete k (rt_dirs s), rt_deleting := remove1 k (rt_deleting s)\<rparr>"

definition release :: "nat \<Rightarrow> runtime \<Rightarrow> runtime" where
  \<comment> \<open>the end of a run, whatever its outcome\<close>
  "release q s =
     (case map_of (rt_running s) q of
        None \<Rightarrow> s
      | Some a \<Rightarrow>
          let s1 = upd_version_at a (\<lambda>v. v\<lparr>vs_inflight := vs_inflight v - 1\<rparr>) (s\<lparr>rt_running := AList.delete q (rt_running s)\<rparr>);
              v = rt_heap s1 ! a
          in if vs_state v = DRAINING \<and> vs_inflight v = 0 then unload (vs_key v) s1 else s1)"

definition drain :: "vkey \<Rightarrow> runtime \<Rightarrow> bool \<times> runtime" where
  "drain k s =
     (case map_of (rt_versions s) k of
        None \<Rightarrow> (True, s)
      | Some a \<Rightarrow>
          let s1 = upd_version_at a (\<lambda>v. v\<lparr>vs_state := DRAINING\<rparr>) s;
              can_unload = (vs_inflight (rt_heap s1 ! a) = 0)
          in (can_unload, if can_unload then unload k s1 else s1))"

section \<open>Loading\<close>

definition end_load :: "nat \<Rightarrow> vkey \<Rightarrow> load_error + nat \<Rightarrow> runtime \<Rightarrow> runtime" where
  \<comment> \<open>the \<open>finally\<close> of \<open>_load_and_register\<close>\<close>
  "end_load t k r s =
     s\<lparr>rt_loads := AList.delete t (rt_loads s), rt_done := AList.update t r (rt_done s),
       rt_tasks := (if map_of (rt_tasks s) k = Some t then AList.delete k (rt_tasks s) else rt_tasks s)\<rparr>"

definition reusable :: "load \<Rightarrow> runtime \<Rightarrow> bool" where
  "reusable l s = (rt_retain s \<and> (case map_of (rt_dirs s) (ld_key l) of
     None \<Rightarrow> False | Some dir \<Rightarrow> strip (dr_marker dir) = normal_digest (ld_digest l)))"

definition load_fetch :: "artifacts \<Rightarrow> nat \<Rightarrow> runtime \<Rightarrow> runtime" where
  "load_fetch env t s =
     (case map_of (rt_loads s) t of
        None \<Rightarrow> s
      | Some l \<Rightarrow>
          if ld_stage l \<noteq> Fetching then s
          else
            let importing = (\<lambda>s. s\<lparr>rt_loads := AList.update t (l\<lparr>ld_stage := Importing\<rparr>) (rt_loads s)\<rparr>) in
            if reusable l s then importing s
            else case af_obtain env (ld_uri l) (ld_digest l) of
              Inl x \<Rightarrow> end_load t (ld_key l) (Inl x) s
            | Inr b \<Rightarrow>
                let s1 = s\<lparr>rt_dirs := AList.delete (ld_key l) (rt_dirs s)\<rparr> in
                case extract_archive (af_temp env (ld_key l)) (af_members env b) of
                  Inl x \<Rightarrow> end_load t (ld_key l) (Inl x) s1
                | Inr ps \<Rightarrow>
                    importing (s1\<lparr>rt_dirs := AList.update (ld_key l)
                      \<lparr>dr_marker = normal_digest (ld_digest l), dr_content = b\<rparr> (rt_dirs s1)\<rparr>))"

definition module_prefix :: "vkey \<Rightarrow> string" where
  "module_prefix k = ''_pyscripts_runtime.s_'' @ vk_service k @ ''.r_'' @ vk_revision k"

definition import_version :: "artifacts \<Rightarrow> load \<Rightarrow> runtime \<Rightarrow> load_error + version" where
  "import_version env l s =
     bindE (of_opt ImportFailed (map_of (rt_dirs s) (ld_key l))) (\<lambda>dir.
     bindE (load_runners (af_modules env (dr_content dir)) (module_prefix (ld_key l)) (ld_endpoints l) []) (\<lambda>rs.
     bindE (af_codecs env (dr_content dir) (filter (\<lambda>ed. ed_grpc ed \<noteq> None) (ld_endpoints l))) (\<lambda>cs.
       Inr \<lparr>vs_key = ld_key l, vs_state = READY, vs_inflight = 0, vs_runners = rs, vs_codecs = cs\<rparr>)))"

definition load_import :: "artifacts \<Rightarrow> nat \<Rightarrow> runtime \<Rightarrow> runtime" where
  \<comment> \<open>the imports, and the registration that follows them\<close>
  "load_import env t s =
     (case map_of (rt_loads s) t of
        None \<Rightarrow> s
      | Some l \<Rightarrow>
          if ld_stage l \<noteq> Importing then s
          else case import_version env l s of
            Inl x \<Rightarrow> end_load t (ld_key l) (Inl x)
              (s\<lparr>rt_modules := filter (\<lambda>m. m \<noteq> ld_key l) (rt_modules s), rt_dirs := AList.delete (ld_key l) (rt_dirs s)\<rparr>)
          | Inr v \<Rightarrow>
              let a = length (rt_heap s) in
              end_load t (ld_key l) (Inr a)
                (s\<lparr>rt_heap := rt_heap s @ [v], rt_modules := List.insert (ld_key l) (rt_modules s),
                   rt_versions := AList.update (ld_key l) a (rt_versions s)\<rparr>))"

definition runtime_status :: "runtime \<Rightarrow> (vkey \<times> version_state \<times> int) list" where
  "runtime_status s = map (\<lambda>(k, a). let v = rt_heap s ! a in (vs_key v, vs_state v, vs_inflight v)) (rt_versions s)"

section \<open>The steps\<close>

definition is_admission :: "admission \<Rightarrow> bool" where
  "is_admission adm = (\<exists>endpoint eds. adm = (\<lambda>q a s. admit q a endpoint s) \<or> adm = (\<lambda>q a s. admit_grpc q a endpoint eds s))"

inductive runtime_step :: "artifacts \<Rightarrow> runtime \<Rightarrow> runtime \<Rightarrow> bool" for env where
  Start: "is_admission adm \<Longrightarrow> q \<notin> fst ` set (rt_waiting s) \<union> fst ` set (rt_running s) \<Longrightarrow>
    runtime_step env s (snd (start_request adm q k uri digest eds s))"
| Resume: "is_admission adm \<Longrightarrow> runtime_step env s (snd (resume_request adm q s))"
| Cancel: "runtime_step env s (cancel_waiting q s)"
| Release: "runtime_step env s (release q s)"
| Drain: "runtime_step env s (snd (drain k s))"
| Fetch: "runtime_step env s (load_fetch env t s)"
| Import: "runtime_step env s (load_import env t s)"
| Remove: "k \<in> set (rt_deleting s) \<Longrightarrow> runtime_step env s (remove_directory k s)"

section \<open>The invariant\<close>

abbreviation ver :: "runtime \<Rightarrow> nat \<Rightarrow> version" where
  "ver s a \<equiv> rt_heap s ! a"

definition running_on :: "runtime \<Rightarrow> nat \<Rightarrow> nat" where
  "running_on s a = length (filter (\<lambda>p. snd p = a) (rt_running s))"

text \<open>The invariant of the versions. While one is being released or drained, its clause about draining is
  suspended (\<open>X\<close>).\<close>

definition registered_ok :: "runtime \<Rightarrow> bool" where
  "registered_ok s = (\<forall>k a. map_of (rt_versions s) k = Some a \<longrightarrow> a < length (rt_heap s) \<and> vs_key (ver s a) = k)"

definition counted :: "runtime \<Rightarrow> bool" where
  "counted s = (\<forall>a < length (rt_heap s). vs_inflight (ver s a) = int (running_on s a))"

definition placed :: "runtime \<Rightarrow> bool" where
  "placed s = (\<forall>a \<in> snd ` set (rt_running s). a < length (rt_heap s) \<and> map_of (rt_versions s) (vs_key (ver s a)) = Some a)"

definition retired :: "runtime \<Rightarrow> bool" where
  "retired s = (\<forall>a < length (rt_heap s). vs_state (ver s a) = READY \<longrightarrow> map_of (rt_versions s) (vs_key (ver s a)) = Some a)"

definition draining_busy :: "vkey set \<Rightarrow> runtime \<Rightarrow> bool" where
  "draining_busy X s =
     (\<forall>k a. map_of (rt_versions s) k = Some a \<longrightarrow> k \<notin> X \<longrightarrow> vs_state (ver s a) = DRAINING \<longrightarrow> 0 < running_on s a)"

definition versions_inv :: "vkey set \<Rightarrow> runtime \<Rightarrow> bool" where
  "versions_inv X s =
     (distinct (map fst (rt_versions s)) \<and> distinct (map fst (rt_running s)) \<and>
      fst ` set (rt_waiting s) \<inter> fst ` set (rt_running s) = {} \<and>
      registered_ok s \<and> counted s \<and> placed s \<and> retired s \<and> draining_busy X s \<and>
      set (rt_modules s) = fst ` set (rt_versions s))"

definition task_ids :: "runtime \<Rightarrow> bool" where
  "task_ids s =
     (distinct (map fst (rt_loads s)) \<and> distinct (map fst (rt_done s)) \<and>
      fst ` set (rt_loads s) \<inter> fst ` set (rt_done s) = {} \<and>
      (\<forall>t \<in> fst ` set (rt_loads s) \<union> fst ` set (rt_done s). t < fresh_task s))"

definition task_of_key :: "runtime \<Rightarrow> bool" where
  "task_of_key s = (\<forall>k t. map_of (rt_tasks s) k = Some t \<longleftrightarrow> (\<exists>l. map_of (rt_loads s) t = Some l \<and> ld_key l = k))"

definition tasks_inv :: "runtime \<Rightarrow> bool" where
  "tasks_inv s =
     (task_ids s \<and> distinct (map fst (rt_tasks s)) \<and> task_of_key s \<and>
      fst ` set (rt_tasks s) \<inter> fst ` set (rt_versions s) = {} \<and>
      (\<forall>t a. map_of (rt_done s) t = Some (Inr a) \<longrightarrow> a < length (rt_heap s)))"

definition dirs_inv :: "runtime \<Rightarrow> bool" where
  "dirs_inv s = (rt_retain s \<longrightarrow> rt_deleting s = [] \<and> fst ` set (rt_versions s) \<subseteq> fst ` set (rt_dirs s))"

definition runtime_inv :: "runtime \<Rightarrow> bool" where
  "runtime_inv s = (versions_inv {} s \<and> tasks_inv s \<and> dirs_inv s)"

lemma upd_version_at_sel [simp]:
  "rt_retain (upd_version_at a f s) = rt_retain s" "rt_versions (upd_version_at a f s) = rt_versions s"
  "rt_tasks (upd_version_at a f s) = rt_tasks s" "rt_loads (upd_version_at a f s) = rt_loads s"
  "rt_done (upd_version_at a f s) = rt_done s" "rt_waiting (upd_version_at a f s) = rt_waiting s"
  "rt_running (upd_version_at a f s) = rt_running s" "rt_dirs (upd_version_at a f s) = rt_dirs s"
  "rt_modules (upd_version_at a f s) = rt_modules s" "rt_deleting (upd_version_at a f s) = rt_deleting s"
  "length (rt_heap (upd_version_at a f s)) = length (rt_heap s)"
  by (simp_all add: upd_version_at_def)

lemma ver_upd: "a < length (rt_heap s) \<Longrightarrow> ver (upd_version_at a f s) b = (if b = a then f (ver s a) else ver s b)"
  by (simp add: upd_version_at_def)

lemma keys_delete: "fst ` set (AList.delete k xs) = fst ` set xs - {k}"
  by (induction xs) auto

lemma keys_update: "fst ` set (AList.update k v xs) = insert k (fst ` set xs)"
  by (induction xs) auto

lemma update_new: "k \<notin> fst ` set xs \<Longrightarrow> AList.update k v xs = xs @ [(k, v)]"
  by (induction xs) auto

lemma count_delete:
  "distinct (map fst xs) \<Longrightarrow> map_of xs q = Some a \<Longrightarrow>
   length (filter (\<lambda>p. snd p = b) (AList.delete q xs)) + (if b = a then 1 else 0) = length (filter (\<lambda>p. snd p = b) xs)"
proof (induction xs)
  case (Cons x xs)
  obtain k v where x: "x = (k, v)" by (cases x)
  show ?case
  proof (cases "k = q")
    case True
    then have "AList.delete q (x # xs) = xs" using Cons.prems(1) by (simp add: x delete_id)
    then show ?thesis using Cons.prems(2) True by (simp add: x)
  next
    case False
    then show ?thesis using Cons by (simp add: x)
  qed
qed simp

lemma snd_delete: "snd ` set (AList.delete q xs) \<subseteq> snd ` set xs"
  by (auto simp: AList.delete_eq)

lemma registered_okD:
  "registered_ok s \<Longrightarrow> map_of (rt_versions s) k = Some a \<Longrightarrow> a < length (rt_heap s) \<and> vs_key (ver s a) = k"
  by (simp add: registered_ok_def)

lemma placedD:
  "placed s \<Longrightarrow> map_of (rt_running s) q = Some a \<Longrightarrow> a < length (rt_heap s) \<and> map_of (rt_versions s) (vs_key (ver s a)) = Some a"
  by (drule map_of_SomeD) (force simp: placed_def)

lemma admission_cases:
  assumes "is_admission adm"
  shows "snd (adm q a s) = s \<or> vs_state (ver s a) = READY \<and>
    snd (adm q a s) = upd_version_at a (\<lambda>v. v\<lparr>vs_inflight := vs_inflight v + 1\<rparr>) s\<lparr>rt_running := AList.update q a (rt_running s)\<rparr>"
  using assms unfolding is_admission_def by (elim exE disjE) (simp_all add: admit_def admit_grpc_def Let_def)

lemma admit_inv:
  assumes "is_admission adm" and "versions_inv {} s" and "a < length (rt_heap s)"
    and "q \<notin> fst ` set (rt_waiting s)" and "q \<notin> fst ` set (rt_running s)"
  shows "versions_inv {} (snd (adm q a s))"
proof (cases "snd (adm q a s) = s")
  case True
  then show ?thesis using assms(2) by simp
next
  case False
  then have 2: "vs_state (ver s a) = READY"
    "snd (adm q a s) = upd_version_at a (\<lambda>v. v\<lparr>vs_inflight := vs_inflight v + 1\<rparr>) s\<lparr>rt_running := AList.update q a (rt_running s)\<rparr>"
    using admission_cases [OF assms(1), of q a s] by blast+
  let ?s = "upd_version_at a (\<lambda>v. v\<lparr>vs_inflight := vs_inflight v + 1\<rparr>) s\<lparr>rt_running := AList.update q a (rt_running s)\<rparr>"
  note v = ver_upd [OF assms(3)]
  have r: "running_on ?s b = running_on s b + (if b = a then 1 else 0)" for b
    by (simp add: running_on_def update_new [OF assms(5)])
  have i: "registered_ok s" "counted s" "placed s" "retired s" "draining_busy {} s"
    using assms(2) by (simp_all add: versions_inv_def)
  have "registered_ok ?s" using i(1) by (auto simp: registered_ok_def v)
  moreover have "counted ?s" using i(2) by (auto simp: counted_def v r)
  moreover have "placed ?s"
    using i(3,4) 2(1) assms(3) by (auto simp: placed_def retired_def v update_new [OF assms(5)])
  moreover have "retired ?s" using i(4) by (auto simp: retired_def v)
  moreover have "draining_busy {} ?s" using i(5) by (auto simp: draining_busy_def v r)
  ultimately show ?thesis
    using assms(2,4,5) unfolding 2(2) versions_inv_def by (simp add: distinct_update keys_update)
qed

lemma unload_inv:
  assumes "versions_inv {k} s" and "map_of (rt_versions s) k = Some a" and "vs_state (ver s a) = DRAINING" and "running_on s a = 0"
  shows "versions_inv {} (unload k s)"
proof -
  have i: "registered_ok s" "counted s" "placed s" "retired s" "draining_busy {k} s" "distinct (map fst (rt_versions s))"
    using assms(1) by (simp_all add: versions_inv_def)
  have a: "a < length (rt_heap s)" "vs_key (ver s a) = k" using registered_okD [OF i(1) assms(2)] by simp_all
  let ?s = "unload k s"
  have v: "ver ?s b = (if b = a then (ver s a)\<lparr>vs_runners := [], vs_codecs := []\<rparr> else ver s b)" for b
    using a(1) by (simp add: unload_def assms(2) Let_def upd_version_at_def)
  have f: "rt_versions ?s = AList.delete k (rt_versions s)" "rt_running ?s = rt_running s" "rt_waiting ?s = rt_waiting s"
    "length (rt_heap ?s) = length (rt_heap s)" "rt_modules ?s = filter (\<lambda>m. m \<noteq> k) (rt_modules s)"
    by (simp_all add: unload_def assms(2) Let_def)
  have m: "map_of (rt_versions ?s) k' = (if k' = k then None else map_of (rt_versions s) k')" for k'
    by (simp add: f(1) delete_conv')
  have r: "running_on ?s b = running_on s b" for b by (simp add: running_on_def f(2))
  have free: "a \<notin> snd ` set (rt_running s)" using assms(4) by (auto simp: running_on_def filter_empty_conv)
  have "registered_ok ?s" using i(1) by (auto simp: registered_ok_def m v f(4))
  moreover have "counted ?s" using i(2) by (auto simp: counted_def v r f(4))
  moreover have "placed ?s"
    unfolding placed_def f(2,4)
  proof
    fix b assume b: "b \<in> snd ` set (rt_running s)"
    then have "b \<noteq> a" "b < length (rt_heap s)" "map_of (rt_versions s) (vs_key (ver s b)) = Some b"
      using free i(3) by (auto simp: placed_def)
    moreover from this have "vs_key (ver s b) \<noteq> k" using assms(2) by auto
    ultimately show "b < length (rt_heap s) \<and> map_of (rt_versions ?s) (vs_key (ver ?s b)) = Some b" by (simp add: m v)
  qed
  moreover have "retired ?s"
    unfolding retired_def f(4)
  proof (intro allI impI)
    fix b assume b: "b < length (rt_heap s)" "vs_state (ver ?s b) = READY"
    then have n: "b \<noteq> a" using assms(3) by (auto simp: v)
    then have at: "map_of (rt_versions s) (vs_key (ver s b)) = Some b" using b i(4) by (simp add: v retired_def)
    then have "vs_key (ver s b) \<noteq> k" using assms(2) n by auto
    then show "map_of (rt_versions ?s) (vs_key (ver ?s b)) = Some b" using at n by (simp add: m v)
  qed
  moreover have "draining_busy {} ?s"
    unfolding draining_busy_def r
  proof (intro allI impI)
    fix k' b assume b: "map_of (rt_versions ?s) k' = Some b" "vs_state (ver ?s b) = DRAINING"
    then have k': "k' \<noteq> k" "map_of (rt_versions s) k' = Some b" by (simp_all add: m split: if_splits)
    then have "b \<noteq> a" using a(2) registered_okD [OF i(1) k'(2)] by auto
    then show "0 < running_on s b" using b(2) k' i(5) by (simp add: v draining_busy_def)
  qed
  ultimately show ?thesis
    using assms(1) unfolding versions_inv_def f by (auto simp: distinct_delete keys_delete)
qed

lemma versions_inv_resume:
  assumes "versions_inv {k} s" and "map_of (rt_versions s) k = Some a"
    and "\<not> (vs_state (ver s a) = DRAINING \<and> running_on s a = 0)"
  shows "versions_inv {} s"
proof -
  have b: "draining_busy {k} s" using assms(1) by (simp add: versions_inv_def)
  have "draining_busy {} s"
    unfolding draining_busy_def
  proof (intro allI impI)
    fix k' b' assume k': "map_of (rt_versions s) k' = Some b'" "vs_state (ver s b') = DRAINING"
    show "0 < running_on s b'"
    proof (cases "k' = k")
      case True
      then show ?thesis using k' assms(2,3) by simp
    next
      case False
      then show ?thesis using k' b by (simp add: draining_busy_def)
    qed
  qed
  then show ?thesis using assms(1) by (simp add: versions_inv_def)
qed

lemma versions_inv_weaken: "versions_inv {} s \<Longrightarrow> versions_inv X s"
  by (simp add: versions_inv_def draining_busy_def)

lemma inflight_eq: "versions_inv X s \<Longrightarrow> a < length (rt_heap s) \<Longrightarrow> vs_inflight (ver s a) = int (running_on s a)"
  by (simp add: versions_inv_def counted_def)

lemma release_inv:
  assumes "versions_inv {} s"
  shows "versions_inv {} (release q s)"
proof (cases "map_of (rt_running s) q")
  case None
  then show ?thesis using assms by (simp add: release_def)
next
  case (Some a)
  have i: "registered_ok s" "counted s" "placed s" "retired s" "draining_busy {} s" "distinct (map fst (rt_running s))"
    using assms by (simp_all add: versions_inv_def)
  have a: "a < length (rt_heap s)" "map_of (rt_versions s) (vs_key (ver s a)) = Some a"
    using placedD [OF i(3) Some] by simp_all
  let ?k = "vs_key (ver s a)"
  let ?s = "upd_version_at a (\<lambda>v. v\<lparr>vs_inflight := vs_inflight v - 1\<rparr>) (s\<lparr>rt_running := AList.delete q (rt_running s)\<rparr>)"
  have v: "ver ?s b = (if b = a then (ver s a)\<lparr>vs_inflight := vs_inflight (ver s a) - 1\<rparr> else ver s b)" for b
    using a(1) by (simp add: upd_version_at_def)
  have r: "running_on ?s b + (if b = a then 1 else 0) = running_on s b" for b
    using count_delete [OF i(6) Some, of b] by (simp add: running_on_def)
  have "registered_ok ?s" using i(1) by (auto simp: registered_ok_def v)
  moreover have "counted ?s"
    unfolding counted_def
  proof (intro allI impI)
    fix b assume b: "b < length (rt_heap ?s)"
    have "vs_inflight (ver s b) = int (running_on s b)" using i(2) b by (simp add: counted_def)
    then show "vs_inflight (ver ?s b) = int (running_on ?s b)" using r [of b] by (auto simp: v split: if_splits)
  qed
  moreover have "placed ?s"
    unfolding placed_def
  proof
    fix b assume "b \<in> snd ` set (rt_running ?s)"
    then have "b \<in> snd ` set (rt_running s)" using subsetD [OF snd_delete, of b q "rt_running s"] by simp
    then have "b < length (rt_heap s) \<and> map_of (rt_versions s) (vs_key (ver s b)) = Some b" by (rule bspec [OF i(3) [unfolded placed_def]])
    then show "b < length (rt_heap ?s) \<and> map_of (rt_versions ?s) (vs_key (ver ?s b)) = Some b" by (cases "b = a") (simp_all add: v)
  qed
  moreover have "retired ?s" using i(4) by (auto simp: retired_def v)
  moreover have "draining_busy {?k} ?s"
    unfolding draining_busy_def
  proof (intro allI impI)
    fix k b assume b: "map_of (rt_versions ?s) k = Some b" "k \<notin> {?k}" "vs_state (ver ?s b) = DRAINING"
    then have "b \<noteq> a" using registered_okD [OF i(1), of k b] by auto
    then show "0 < running_on ?s b" using b i(5) r [of b] by (simp add: v draining_busy_def)
  qed
  ultimately have I: "versions_inv {?k} ?s"
    using assms by (auto simp: versions_inv_def distinct_delete keys_delete)
  have at: "map_of (rt_versions ?s) ?k = Some a" "vs_key (ver ?s a) = ?k" "a < length (rt_heap ?s)" using a by (simp_all add: v)
  have n: "vs_inflight (ver ?s a) = 0 \<longleftrightarrow> running_on ?s a = 0" using inflight_eq [OF I at(3)] by simp
  let ?c = "vs_state (ver ?s a) = DRAINING \<and> vs_inflight (ver ?s a) = 0"
  have e: "release q s = (if ?c then unload (vs_key (ver ?s a)) ?s else ?s)"
    by (simp only: release_def Some option.case Let_def)
  show ?thesis
  proof (cases ?c)
    case True
    then have "release q s = unload ?k ?s" using e at(2) by simp
    then show ?thesis using unload_inv [OF I at(1)] True n by simp
  next
    case False
    then have "release q s = ?s" using e by (rule trans [OF _ if_not_P, rotated])
    then show ?thesis using versions_inv_resume [OF I at(1)] False n by simp
  qed
qed

lemma drain_inv:
  assumes "versions_inv {} s"
  shows "versions_inv {} (snd (drain k s))"
proof (cases "map_of (rt_versions s) k")
  case None
  then show ?thesis using assms by (simp add: drain_def)
next
  case (Some a)
  have i: "registered_ok s" "counted s" "placed s" "retired s" "draining_busy {} s"
    using assms by (simp_all add: versions_inv_def)
  have a: "a < length (rt_heap s)" "vs_key (ver s a) = k" using registered_okD [OF i(1) Some] by simp_all
  let ?s = "upd_version_at a (\<lambda>v. v\<lparr>vs_state := DRAINING\<rparr>) s"
  note v = ver_upd [OF a(1)]
  have r: "running_on ?s b = running_on s b" for b by (simp add: running_on_def)
  have "registered_ok ?s" using i(1) by (auto simp: registered_ok_def v)
  moreover have "counted ?s" using i(2) by (auto simp: counted_def v r)
  moreover have "placed ?s" using i(3) by (auto simp: placed_def v)
  moreover have "retired ?s" using i(4) by (auto simp: retired_def v)
  moreover have "draining_busy {k} ?s"
    unfolding draining_busy_def r
  proof (intro allI impI)
    fix k' b assume b: "map_of (rt_versions ?s) k' = Some b" "k' \<notin> {k}" "vs_state (ver ?s b) = DRAINING"
    then have "b \<noteq> a" using registered_okD [OF i(1), of k' b] a(2) by auto
    then show "0 < running_on s b" using b i(5) by (simp add: v draining_busy_def)
  qed
  ultimately have I: "versions_inv {k} ?s" using assms by (simp add: versions_inv_def)
  have at: "map_of (rt_versions ?s) k = Some a" "a < length (rt_heap ?s)" using a Some by simp_all
  have n: "vs_inflight (ver ?s a) = 0 \<longleftrightarrow> running_on ?s a = 0" using inflight_eq [OF I at(2)] by simp
  show ?thesis
  proof (cases "vs_inflight (ver ?s a) = 0")
    case True
    then have "snd (drain k s) = unload k ?s" by (simp add: drain_def Some Let_def)
    then show ?thesis using unload_inv [OF I at(1)] True n v by simp
  next
    case False
    then have "snd (drain k s) = ?s" by (simp add: drain_def Some Let_def)
    then show ?thesis using versions_inv_resume [OF I at(1)] False n by simp
  qed
qed

section \<open>Steps that keep a part of the state\<close>

lemma versions_frame:
  assumes "versions_inv X s" and "rt_heap t = rt_heap s" "rt_versions t = rt_versions s" "rt_running t = rt_running s"
    "set (rt_modules t) = set (rt_modules s)" and "fst ` set (rt_waiting t) \<inter> fst ` set (rt_running s) = {}"
  shows "versions_inv X t"
proof -
  have "running_on t = running_on s" by (rule ext) (simp add: running_on_def assms(4))
  then have "registered_ok t = registered_ok s" "counted t = counted s" "placed t = placed s" "retired t = retired s"
    "draining_busy X t = draining_busy X s"
    by (simp_all only: registered_ok_def counted_def placed_def retired_def draining_busy_def assms(2,3,4))
  then show ?thesis using assms(1) by (simp only: versions_inv_def assms(3-6))
qed

lemma tasks_frame:
  assumes "tasks_inv s" and "rt_loads t = rt_loads s" "rt_done t = rt_done s" "rt_tasks t = rt_tasks s"
    and "fst ` set (rt_versions t) \<subseteq> fst ` set (rt_versions s)" and "length (rt_heap t) = length (rt_heap s)"
  shows "tasks_inv t"
proof -
  have "fst ` set (rt_tasks s) \<inter> fst ` set (rt_versions t) = {}" using assms(1,5) unfolding tasks_inv_def by blast
  then show ?thesis using assms by (simp add: tasks_inv_def task_ids_def task_of_key_def fresh_task_def)
qed

lemma dirs_frame:
  assumes "dirs_inv s" and "rt_retain t = rt_retain s" "rt_dirs t = rt_dirs s"
    and "rt_retain s \<Longrightarrow> rt_deleting t = rt_deleting s"
    and "fst ` set (rt_versions t) \<subseteq> fst ` set (rt_versions s)"
  shows "dirs_inv t"
  using assms by (auto simp: dirs_inv_def)

definition quiet :: "runtime \<Rightarrow> runtime \<Rightarrow> bool" where
  \<comment> \<open>the step neither loads nor registers\<close>
  "quiet s t = (rt_loads t = rt_loads s \<and> rt_done t = rt_done s \<and> rt_tasks t = rt_tasks s \<and> rt_retain t = rt_retain s \<and>
     rt_dirs t = rt_dirs s \<and> (rt_retain s \<longrightarrow> rt_deleting t = rt_deleting s) \<and>
     fst ` set (rt_versions t) \<subseteq> fst ` set (rt_versions s) \<and> length (rt_heap t) = length (rt_heap s))"

lemma quiet_inv: "quiet s t \<Longrightarrow> tasks_inv s \<Longrightarrow> dirs_inv s \<Longrightarrow> tasks_inv t \<and> dirs_inv t"
  unfolding quiet_def by (elim conjE) (intro conjI tasks_frame [of s t] dirs_frame [of s t]; simp)

lemma quiet_trans: "quiet s t \<Longrightarrow> quiet t u \<Longrightarrow> quiet s u"
  unfolding quiet_def by (elim conjE) (intro conjI; (rule subset_trans, assumption, assumption)?; simp)

lemma quiet_upd [simp]: "quiet s (upd_version_at a f s)"
  by (simp add: quiet_def)

lemma quiet_admission: "is_admission adm \<Longrightarrow> quiet s (snd (adm q a s))"
  by (drule admission_cases [of adm q a s], elim disjE conjE) (simp_all add: quiet_def)

lemma quiet_unload: "quiet s (unload k s)"
  by (cases "map_of (rt_versions s) k") (simp_all add: quiet_def unload_def Let_def keys_delete Diff_subset)

lemma quiet_release: "quiet s (release q s)"
proof (cases "map_of (rt_running s) q")
  case (Some a)
  have "quiet s (upd_version_at a f (s\<lparr>rt_running := AList.delete q (rt_running s)\<rparr>))" for f by (simp add: quiet_def)
  then show ?thesis using quiet_trans [OF _ quiet_unload] by (simp add: release_def Some Let_def)
qed (simp add: release_def quiet_def)

lemma quiet_drain: "quiet s (snd (drain k s))"
proof (cases "map_of (rt_versions s) k")
  case (Some a)
  then show ?thesis using quiet_trans [OF quiet_upd quiet_unload] by (simp add: drain_def Let_def)
qed (simp add: drain_def quiet_def)

lemma quiet_cancel: "quiet s (cancel_waiting q s)"
  by (simp add: quiet_def cancel_waiting_def)

section \<open>The invariant\<close>

lemma start_inv:
  assumes "is_admission adm" and I: "runtime_inv s" and q: "q \<notin> fst ` set (rt_waiting s) \<union> fst ` set (rt_running s)"
  shows "runtime_inv (snd (start_request adm q k uri digest eds s))"
proof -
  have V: "versions_inv {} s" and T: "tasks_inv s" and D: "dirs_inv s" using I by (simp_all add: runtime_inv_def)
  consider (loaded) a where "map_of (rt_versions s) k = Some a"
    | (pending) t where "map_of (rt_versions s) k = None" "map_of (rt_tasks s) k = Some t"
    | (fresh) "map_of (rt_versions s) k = None" "map_of (rt_tasks s) k = None" by fastforce
  then show ?thesis
  proof cases
    case loaded
    have "a < length (rt_heap s)" using V registered_okD [OF _ loaded] by (simp add: versions_inv_def)
    then have "versions_inv {} (snd (adm q a s))" using admit_inv [OF assms(1) V] q by blast
    then show ?thesis
      using quiet_inv [OF quiet_admission [OF assms(1)] T D, of q a] by (simp add: start_request_def ensure_loaded_def loaded runtime_inv_def)
  next
    case pending
    let ?t = "s\<lparr>rt_waiting := AList.update q t (rt_waiting s)\<rparr>"
    have "quiet s ?t" by (simp add: quiet_def)
    moreover have "versions_inv {} ?t"
      by (rule versions_frame [OF V]) (use q V in \<open>auto simp: versions_inv_def keys_update\<close>)
    ultimately show ?thesis
      using  quiet_inv [of s ?t] T D by (simp add: start_request_def ensure_loaded_def pending runtime_inv_def)
  next
    case fresh
    let ?n = "fresh_task s"
    let ?l = "\<lparr>ld_key = k, ld_uri = uri, ld_digest = digest, ld_endpoints = eds, ld_stage = Fetching\<rparr>"
    let ?t = "s\<lparr>rt_loads := AList.update ?n ?l (rt_loads s), rt_tasks := AList.update k ?n (rt_tasks s),
      rt_waiting := AList.update q ?n (rt_waiting s)\<rparr>"
    have T': "task_ids s" "task_of_key s" using T by (simp_all add: tasks_inv_def)
    have n: "?n \<notin> fst ` set (rt_loads s)" "?n \<notin> fst ` set (rt_done s)" using T'(1) by (auto simp: task_ids_def)
    have n': "map_of (rt_loads s) ?n = None" using n(1) by (simp add: map_of_eq_None_iff)
    have f: "fresh_task ?t = Suc ?n" by (simp add: fresh_task_def update_new [OF n(1), unfolded fresh_task_def])
    have "task_ids ?t"
      unfolding task_ids_def f using T'(1) n by (auto simp: task_ids_def distinct_update keys_update less_Suc_eq)
    moreover have "task_of_key ?t"
      unfolding task_of_key_def
    proof (intro allI)
      fix k' t
      show "map_of (rt_tasks ?t) k' = Some t \<longleftrightarrow> (\<exists>l. map_of (rt_loads ?t) t = Some l \<and> ld_key l = k')"
        using T'(2) [unfolded task_of_key_def, rule_format, of k' t] T'(2) [unfolded task_of_key_def, rule_format, of k' ?n]
          T'(2) [unfolded task_of_key_def, rule_format, of k t] fresh(2) n'
        by (cases "k' = k"; cases "t = ?n") (simp_all add: update_conv')
    qed
    moreover have "k \<notin> fst ` set (rt_versions s)" using fresh(1) by (simp add: map_of_eq_None_iff)
    ultimately have "tasks_inv ?t" using T by (simp add: tasks_inv_def distinct_update keys_update)
    moreover have "dirs_inv ?t" using D by (simp add: dirs_inv_def)
    moreover have "versions_inv {} ?t"
      by (rule versions_frame [OF V]) (use q V in \<open>auto simp: versions_inv_def keys_update\<close>)
    ultimately show ?thesis by (simp add: start_request_def ensure_loaded_def fresh Let_def runtime_inv_def)
  qed
qed

lemma resume_inv:
  assumes "is_admission adm" and I: "runtime_inv s"
  shows "runtime_inv (snd (resume_request adm q s))"
proof -
  have V: "versions_inv {} s" and T: "tasks_inv s" and D: "dirs_inv s" using I by (simp_all add: runtime_inv_def)
  let ?s = "s\<lparr>rt_waiting := AList.delete q (rt_waiting s)\<rparr>"
  have V1: "versions_inv {} ?s"
    by (rule versions_frame [OF V]) (use V in \<open>auto simp: versions_inv_def keys_delete\<close>)
  have "quiet s ?s" by (simp add: quiet_def)
  then have TD: "tasks_inv ?s" "dirs_inv ?s" using quiet_inv T D by blast+
  show ?thesis
  proof (cases "\<exists>t r. map_of (rt_waiting s) q = Some t \<and> map_of (rt_done s) t = Some r")
    case False
    then show ?thesis using I by (auto simp: resume_request_def split: option.splits)
  next
    case True
    then obtain t r where t: "map_of (rt_waiting s) q = Some t" "map_of (rt_done s) t = Some r" by blast
    show ?thesis
    proof (cases r)
      case (Inl x)
      then show ?thesis using V1 TD t by (simp add: resume_request_def Let_def runtime_inv_def)
    next
      case (Inr a)
      have "q \<in> fst ` set (rt_waiting s)" using t(1) map_of_SomeD by force
      then have "q \<notin> fst ` set (rt_running s)" using V unfolding versions_inv_def by blast
      moreover have "a < length (rt_heap s)" using T t(2) Inr by (simp add: tasks_inv_def)
      ultimately have "versions_inv {} (snd (adm q a ?s))" using admit_inv [OF assms(1) V1] by (simp add: keys_delete)
      then show ?thesis
        using t Inr quiet_inv [OF quiet_admission [OF assms(1)] TD, of q a] by (simp add: resume_request_def Let_def runtime_inv_def)
    qed
  qed
qed

lemma end_load_tasks:
  assumes T: "tasks_inv s" and l: "map_of (rt_loads s) t = Some l" and r: "\<And>a. r = Inr a \<Longrightarrow> a < length (rt_heap s')"
    and f: "rt_loads s' = rt_loads s" "rt_done s' = rt_done s" "rt_tasks s' = rt_tasks s" "length (rt_heap s) \<le> length (rt_heap s')"
    and v: "fst ` set (rt_versions s') \<subseteq> insert (ld_key l) (fst ` set (rt_versions s))"
  shows "tasks_inv (end_load t (ld_key l) r s')"
proof -
  let ?k = "ld_key l" and ?t = "end_load t (ld_key l) r s'"
  have i: "task_ids s" "task_of_key s" "distinct (map fst (rt_tasks s))" using T by (simp_all add: tasks_inv_def)
  have k: "map_of (rt_tasks s) ?k = Some t" using i(2) l by (simp add: task_of_key_def)
  have e: "rt_loads ?t = AList.delete t (rt_loads s)" "rt_done ?t = AList.update t r (rt_done s)" "rt_tasks ?t = AList.delete ?k (rt_tasks s)"
    "rt_versions ?t = rt_versions s'" "rt_heap ?t = rt_heap s'"
    by (simp_all add: end_load_def f k)
  have tl: "t \<in> fst ` set (rt_loads s)" using l map_of_SomeD by force
  then have td: "t \<notin> fst ` set (rt_done s)" using i(1) unfolding task_ids_def by blast
  have n: "fresh_task ?t = fresh_task s"
    using length_delete [OF _ tl] i(1) by (simp add: fresh_task_def e task_ids_def update_new [OF td])
  have "task_ids ?t"
    unfolding task_ids_def n using i(1) tl
    by (auto simp: e task_ids_def distinct_delete distinct_update keys_delete keys_update)
  moreover have "task_of_key ?t"
    unfolding task_of_key_def
  proof (intro allI)
    fix k' t'
    show "map_of (rt_tasks ?t) k' = Some t' \<longleftrightarrow> (\<exists>l. map_of (rt_loads ?t) t' = Some l \<and> ld_key l = k')"
      using i(2) [unfolded task_of_key_def, rule_format, of k' t'] k l
      by (cases "k' = ?k"; cases "t' = t") (auto simp: e delete_conv')
  qed
  moreover have "fst ` set (rt_tasks ?t) \<inter> fst ` set (rt_versions ?t) = {}"
    using T v unfolding tasks_inv_def e keys_delete by blast
  moreover have "\<forall>t' a. map_of (rt_done ?t) t' = Some (Inr a) \<longrightarrow> a < length (rt_heap ?t)"
  proof (intro allI impI)
    fix t' a assume a: "map_of (rt_done ?t) t' = Some (Inr a)"
    show "a < length (rt_heap ?t)"
    proof (cases "t' = t")
      case True
      then have "r = Inr a" using a by (simp add: e(2) update_conv')
      then have "a < length (rt_heap s')" by (rule r)
      then show ?thesis by (simp only: e(5))
    next
      case False
      then have "a < length (rt_heap s)" using a T by (simp add: e update_conv' tasks_inv_def)
      then show ?thesis using f(4) by (simp add: e)
    qed
  qed
  ultimately show ?thesis using i(3) unfolding tasks_inv_def by (simp add: e distinct_delete)
qed

lemma stage_tasks:
  assumes T: "tasks_inv s" and l: "map_of (rt_loads s) t = Some l"
  shows "tasks_inv (s\<lparr>rt_dirs := ds, rt_loads := AList.update t (l\<lparr>ld_stage := x\<rparr>) (rt_loads s)\<rparr>)" (is "tasks_inv ?t")
proof -
  have i: "task_ids s" "task_of_key s" using T by (simp_all add: tasks_inv_def)
  have tl: "t \<in> fst ` set (rt_loads s)" using l map_of_SomeD by force
  then have k: "fst ` set (AList.update t y (rt_loads s)) = fst ` set (rt_loads s)" for y by (auto simp: keys_update)
  have "length (AList.update t y (rt_loads s)) = length (rt_loads s)" for y
    using tl by (metis update_keys length_map imageE keys_update list.set_map)
  then have "fresh_task ?t = fresh_task s" by (simp add: fresh_task_def)
  then have "task_ids ?t" using i(1) k by (simp add: task_ids_def distinct_update)
  moreover have "task_of_key ?t"
    unfolding task_of_key_def
  proof (intro allI)
    fix k' t'
    show "map_of (rt_tasks ?t) k' = Some t' \<longleftrightarrow> (\<exists>l. map_of (rt_loads ?t) t' = Some l \<and> ld_key l = k')"
      using i(2) [unfolded task_of_key_def, rule_format, of k' t'] l by (cases "t' = t") (auto simp: update_conv')
  qed
  ultimately show ?thesis using T by (simp add: tasks_inv_def)
qed

lemma loading_not_registered:
  assumes "tasks_inv s" and "map_of (rt_loads s) t = Some l"
  shows "ld_key l \<notin> fst ` set (rt_versions s)"
proof -
  have "map_of (rt_tasks s) (ld_key l) = Some t" using assms by (auto simp: tasks_inv_def task_of_key_def)
  then have "ld_key l \<in> fst ` set (rt_tasks s)" by (rule image_eqI [rotated, OF map_of_SomeD]) simp
  then show ?thesis using assms(1) unfolding tasks_inv_def by blast
qed

lemma fetch_inv:
  assumes I: "runtime_inv s"
  shows "runtime_inv (load_fetch env t s)"
proof (cases "\<exists>l. map_of (rt_loads s) t = Some l \<and> ld_stage l = Fetching")
  case False
  then show ?thesis using I by (auto simp: load_fetch_def split: option.splits)
next
  case True
  then obtain l where l: "map_of (rt_loads s) t = Some l" "ld_stage l = Fetching" by blast
  have V: "versions_inv {} s" and T: "tasks_inv s" and D: "dirs_inv s" using I by (simp_all add: runtime_inv_def)
  have n: "ld_key l \<notin> fst ` set (rt_versions s)" by (rule loading_not_registered [OF T l(1)])
  have V': "versions_inv {} u" if "rt_heap u = rt_heap s \<and> rt_versions u = rt_versions s \<and> rt_running u = rt_running s \<and>
    rt_modules u = rt_modules s \<and> rt_waiting u = rt_waiting s" for u
    by (rule versions_frame [OF V]) (use that V in \<open>simp_all add: versions_inv_def\<close>)
  have D': "dirs_inv u" if "rt_retain u = rt_retain s \<and> rt_deleting u = rt_deleting s \<and> rt_versions u = rt_versions s \<and>
    fst ` set (rt_dirs s) - {ld_key l} \<subseteq> fst ` set (rt_dirs u)" for u
    unfolding dirs_inv_def
  proof (rule impI)
    assume "rt_retain u"
    then have "rt_deleting s = []" and v: "fst ` set (rt_versions s) \<subseteq> fst ` set (rt_dirs s)"
      using D that by (simp_all add: dirs_inv_def)
    moreover have "fst ` set (rt_versions s) \<subseteq> fst ` set (rt_dirs u)"
      using subset_Diff_insert [of "fst ` set (rt_versions s)" "fst ` set (rt_dirs s)" "ld_key l" "{}"] v n that
      by (metis Diff_empty subset_trans)
    ultimately show "rt_deleting u = [] \<and> fst ` set (rt_versions u) \<subseteq> fst ` set (rt_dirs u)" using that by simp
  qed
  have E: "tasks_inv (end_load t (ld_key l) (Inl x) (s\<lparr>rt_dirs := ds\<rparr>))" for x ds
    by (rule end_load_tasks [OF T l(1)]) (simp_all add: subset_insertI)
  have fail: "runtime_inv (end_load t (ld_key l) (Inl x) (s\<lparr>rt_dirs := ds\<rparr>))" (is "runtime_inv ?u")
    if "fst ` set (rt_dirs s) - {ld_key l} \<subseteq> fst ` set ds" for x ds
  proof -
    have "versions_inv {} ?u" by (rule V') (simp add: end_load_def)
    moreover have "dirs_inv ?u" by (rule D') (use that in \<open>simp add: end_load_def\<close>)
    ultimately show ?thesis using E by (simp add: runtime_inv_def)
  qed
  have go: "runtime_inv (s\<lparr>rt_dirs := ds, rt_loads := AList.update t (l\<lparr>ld_stage := Importing\<rparr>) (rt_loads s)\<rparr>)" (is "runtime_inv ?u")
    if "fst ` set (rt_dirs s) - {ld_key l} \<subseteq> fst ` set ds" for ds
  proof -
    have "versions_inv {} ?u" by (rule V') simp
    moreover have "dirs_inv ?u" by (rule D') (use that in simp)
    ultimately show ?thesis using stage_tasks [OF T l(1)] by (simp add: runtime_inv_def)
  qed
  have same: "s\<lparr>rt_dirs := rt_dirs s\<rparr> = s" by simp
  show ?thesis
  proof (cases "reusable l s")
    case True
    then show ?thesis using go [of "rt_dirs s"] by (simp add: load_fetch_def l Diff_subset)
  next
    case new: False
    show ?thesis
    proof (cases "af_obtain env (ld_uri l) (ld_digest l)")
      case (Inl x)
      then show ?thesis using fail [of "rt_dirs s" x] by (simp add: load_fetch_def l new Diff_subset)
    next
      case (Inr b)
      let ?gone = "AList.delete (ld_key l) (rt_dirs s)"
      show ?thesis
      proof (cases "extract_archive (af_temp env (ld_key l)) (af_members env b)")
        case x: (Inl x)
        then show ?thesis using fail [of ?gone x] by (simp add: load_fetch_def l new Inr Let_def keys_delete)
      next
        case ps: (Inr ps)
        let ?dir = "\<lparr>dr_marker = normal_digest (ld_digest l), dr_content = b\<rparr>"
        have "runtime_inv (s\<lparr>rt_dirs := AList.update (ld_key l) ?dir ?gone, rt_loads := AList.update t (l\<lparr>ld_stage := Importing\<rparr>) (rt_loads s)\<rparr>)"
          by (rule go) (simp add: keys_update keys_delete, blast)
        then show ?thesis by (simp add: load_fetch_def l new Inr ps Let_def)
      qed
    qed
  qed
qed

lemma register_inv:
  assumes V: "versions_inv {} s" and k: "k \<notin> fst ` set (rt_versions s)" and v: "vs_key v = k" "vs_state v = READY" "vs_inflight v = 0"
    and t: "rt_heap t = rt_heap s @ [v]" "rt_versions t = AList.update k (length (rt_heap s)) (rt_versions s)"
      "rt_modules t = List.insert k (rt_modules s)" "rt_running t = rt_running s" "rt_waiting t = rt_waiting s"
  shows "versions_inv {} t"
proof -
  let ?a = "length (rt_heap s)"
  have i: "registered_ok s" "counted s" "placed s" "retired s" "draining_busy {} s" using V by (simp_all add: versions_inv_def)
  have m: "map_of (rt_versions t) k' = (if k' = k then Some ?a else map_of (rt_versions s) k')" for k'
    by (simp add: t(2) update_conv')
  have kn: "map_of (rt_versions s) k = None" using k by (simp add: map_of_eq_None_iff)
  have w: "ver t b = (if b = ?a then v else ver s b)" if "b < Suc ?a" for b using that by (simp add: t(1) nth_append)
  have l: "length (rt_heap t) = Suc ?a" by (simp add: t(1))
  have r: "running_on t b = running_on s b" for b by (simp add: running_on_def t(4))
  have free: "running_on s ?a = 0" using i(3) by (auto simp: running_on_def placed_def filter_empty_conv)
  have old: "vs_key (ver s b) \<noteq> k" if "map_of (rt_versions s) (vs_key (ver s b)) = Some b" for b using that kn by auto
  have "registered_ok t"
    unfolding registered_ok_def
  proof (intro allI impI)
    fix k' b assume b: "map_of (rt_versions t) k' = Some b"
    show "b < length (rt_heap t) \<and> vs_key (ver t b) = k'"
    proof (cases "k' = k")
      case True
      then have "b = ?a" using b by (simp add: m)
      then show ?thesis using True by (simp add: l w v)
    next
      case False
      then have "b < ?a \<and> vs_key (ver s b) = k'" using b registered_okD [OF i(1)] by (simp add: m)
      then show ?thesis by (simp add: l w)
    qed
  qed
  moreover have "counted t"
    unfolding counted_def r l
  proof (intro allI impI)
    fix b assume b: "b < Suc ?a"
    show "vs_inflight (ver t b) = int (running_on s b)"
    proof (cases "b = ?a")
      case True
      then show ?thesis using free by (simp add: w v)
    next
      case False
      then show ?thesis using b i(2) by (simp add: w counted_def)
    qed
  qed
  moreover have "placed t"
    unfolding placed_def t(4) l
  proof
    fix b assume "b \<in> snd ` set (rt_running s)"
    then have b: "b < ?a \<and> map_of (rt_versions s) (vs_key (ver s b)) = Some b" by (rule bspec [OF i(3) [unfolded placed_def]])
    then show "b < Suc ?a \<and> map_of (rt_versions t) (vs_key (ver t b)) = Some b" using old [of b] by (simp add: w m)
  qed
  moreover have "retired t"
    unfolding retired_def l
  proof (intro allI impI)
    fix b assume b: "b < Suc ?a" "vs_state (ver t b) = READY"
    show "map_of (rt_versions t) (vs_key (ver t b)) = Some b"
    proof (cases "b = ?a")
      case True
      then show ?thesis by (simp add: w v m)
    next
      case False
      then have "map_of (rt_versions s) (vs_key (ver s b)) = Some b" using b i(4) by (simp add: w retired_def)
      then show ?thesis using False b(1) old [of b] by (simp add: w m)
    qed
  qed
  moreover have "draining_busy {} t"
    unfolding draining_busy_def r
  proof (intro allI impI)
    fix k' b assume b: "map_of (rt_versions t) k' = Some b" "vs_state (ver t b) = DRAINING"
    have "k' \<noteq> k"
    proof
      assume "k' = k"
      then have "b = ?a" using b(1) by (simp add: m)
      then show False using b(2) by (simp add: w v)
    qed
    then have "map_of (rt_versions s) k' = Some b" using b(1) by (simp add: m)
    moreover from this have "b < ?a" using registered_okD [OF i(1)] by blast
    ultimately show "0 < running_on s b" using b(2) i(5) by (simp add: w draining_busy_def)
  qed
  ultimately show ?thesis
    using V unfolding versions_inv_def t(2-5) by (simp add: distinct_update keys_update set_insert)
qed

lemma import_inv:
  assumes I: "runtime_inv s"
  shows "runtime_inv (load_import env t s)"
proof (cases "\<exists>l. map_of (rt_loads s) t = Some l \<and> ld_stage l = Importing")
  case False
  then show ?thesis using I by (auto simp: load_import_def split: option.splits)
next
  case True
  then obtain l where l: "map_of (rt_loads s) t = Some l" "ld_stage l = Importing" by blast
  have V: "versions_inv {} s" and T: "tasks_inv s" and D: "dirs_inv s" using I by (simp_all add: runtime_inv_def)
  let ?k = "ld_key l"
  have n: "?k \<notin> fst ` set (rt_versions s)" by (rule loading_not_registered [OF T l(1)])
  show ?thesis
  proof (cases "import_version env l s")
    case (Inl x)
    let ?s = "s\<lparr>rt_modules := filter (\<lambda>m. m \<noteq> ?k) (rt_modules s), rt_dirs := AList.delete ?k (rt_dirs s)\<rparr>"
    let ?t = "end_load t ?k (Inl x) ?s"
    have "?k \<notin> set (rt_modules s)" using V n by (simp add: versions_inv_def)
    then have m: "set (rt_modules ?t) = set (rt_modules s)" by (auto simp: end_load_def)
    have "versions_inv {} ?t"
      by (rule versions_frame [OF V]) (use V in \<open>simp_all add: m\<close>, simp_all add: versions_inv_def end_load_def)
    moreover have "tasks_inv ?t" by (rule end_load_tasks [OF T l(1)]) (simp_all add: subset_insertI)
    moreover have "dirs_inv ?t" using D n by (simp add: dirs_inv_def end_load_def keys_delete subset_Diff_insert)
    ultimately show ?thesis by (simp add: load_import_def l Inl runtime_inv_def)
  next
    case (Inr v)
    let ?s = "s\<lparr>rt_heap := rt_heap s @ [v], rt_modules := List.insert ?k (rt_modules s),
      rt_versions := AList.update ?k (length (rt_heap s)) (rt_versions s)\<rparr>"
    let ?t = "end_load t ?k (Inr (length (rt_heap s))) ?s"
    have v: "vs_key v = ?k" "vs_state v = READY" "vs_inflight v = 0" and d: "?k \<in> fst ` set (rt_dirs s)"
      using Inr by (auto simp: import_version_def bindE_eq_Inr of_opt_def dest!: map_of_SomeD intro: rev_image_eqI split: option.splits)
    have "versions_inv {} ?t" by (rule register_inv [OF V n v]) (simp_all add: end_load_def)
    moreover have "tasks_inv ?t" by (rule end_load_tasks [OF T l(1)]) (simp_all add: keys_update)
    moreover have "dirs_inv ?t" using D d by (simp add: dirs_inv_def end_load_def keys_update)
    ultimately show ?thesis by (simp add: load_import_def l Inr Let_def runtime_inv_def)
  qed
qed

lemma remove_inv:
  assumes I: "runtime_inv s" and k: "k \<in> set (rt_deleting s)"
  shows "runtime_inv (remove_directory k s)"
proof -
  have V: "versions_inv {} s" and T: "tasks_inv s" and D: "dirs_inv s" using I by (simp_all add: runtime_inv_def)
  have "versions_inv {} (remove_directory k s)"
    by (rule versions_frame [OF V]) (use V in \<open>simp_all add: remove_directory_def versions_inv_def\<close>)
  moreover have "tasks_inv (remove_directory k s)" by (rule tasks_frame [OF T]) (simp_all add: remove_directory_def)
  moreover have "\<not> rt_retain s" using D k by (auto simp: dirs_inv_def)
  ultimately show ?thesis by (simp add: runtime_inv_def dirs_inv_def remove_directory_def)
qed

lemma quiet_step_inv: "versions_inv {} t \<Longrightarrow> quiet s t \<Longrightarrow> runtime_inv s \<Longrightarrow> runtime_inv t"
  using quiet_inv by (simp add: runtime_inv_def)

lemma runtime_step_inv: "runtime_step env s t \<Longrightarrow> runtime_inv s \<Longrightarrow> runtime_inv t"
proof (induction rule: runtime_step.induct)
  case (Start adm q s k uri digest eds)
  then show ?case by (intro start_inv)
next
  case (Cancel s q)
  then have V: "versions_inv {} s" by (simp add: runtime_inv_def)
  have "versions_inv {} (cancel_waiting q s)"
    by (rule versions_frame [OF V]) (use V in \<open>auto simp: cancel_waiting_def versions_inv_def keys_delete\<close>)
  then show ?case using quiet_cancel Cancel by (rule quiet_step_inv)
next
  case (Release s q)
  then show ?case using quiet_step_inv [OF release_inv quiet_release] by (simp add: runtime_inv_def)
next
  case (Drain s k)
  then show ?case using quiet_step_inv [OF drain_inv quiet_drain] by (simp add: runtime_inv_def)
qed (simp_all only: resume_inv fetch_inv import_inv remove_inv)

definition runtime_init :: "runtime \<Rightarrow> bool" where
  "runtime_init s = (\<exists>retain. s = new_runtime retain)"

lemma new_runtime_inv: "runtime_inv (new_runtime retain)"
  by (simp add: runtime_inv_def versions_inv_def registered_ok_def counted_def placed_def retired_def draining_busy_def
      tasks_inv_def task_ids_def task_of_key_def dirs_inv_def new_runtime_def)

interpretation worker: inductive_invariant runtime_init "runtime_step env" runtime_inv for env
proof
  show "runtime_inv s" if "runtime_init s" for s using that new_runtime_inv by (auto simp: runtime_init_def)
  show "runtime_inv t" if "runtime_inv s" "runtime_step env s t" for s t using runtime_step_inv that by blast
qed

section \<open>What the versions of a worker promise\<close>

text \<open>C6. Whatever requests, loads, drains and removals interleave: a registered version is the one of its key, its
  modules are present, it is not being loaded again, its count of requests in flight is the number of requests that
  run on it, and while it drains some request still runs; where extracted directories are kept, its directory is
  there. A running request never loses its version or its modules.\<close>

theorem loaded_versions_consistent:
  assumes "reachable runtime_init (runtime_step env) s"
  shows "(\<forall>k a. map_of (rt_versions s) k = Some a \<longrightarrow>
       a < length (rt_heap s) \<and> vs_key (rt_heap s ! a) = k \<and> k \<in> set (rt_modules s) \<and> map_of (rt_tasks s) k = None \<and>
       vs_inflight (rt_heap s ! a) = int (length (filter (\<lambda>p. snd p = a) (rt_running s))) \<and>
       (vs_state (rt_heap s ! a) = DRAINING \<longrightarrow> 0 < vs_inflight (rt_heap s ! a)) \<and>
       (rt_retain s \<longrightarrow> map_of (rt_dirs s) k \<noteq> None)) \<and>
     (\<forall>q a. map_of (rt_running s) q = Some a \<longrightarrow>
       map_of (rt_versions s) (vs_key (rt_heap s ! a)) = Some a \<and> vs_key (rt_heap s ! a) \<in> set (rt_modules s))"
proof -
  have I: "runtime_inv s" by (rule worker.reach_inv [OF assms])
  have V: "versions_inv {} s" and T: "tasks_inv s" and D: "dirs_inv s" using I by (simp_all add: runtime_inv_def)
  have i: "registered_ok s" "counted s" "placed s" "draining_busy {} s" "set (rt_modules s) = fst ` set (rt_versions s)"
    using V by (simp_all add: versions_inv_def)
  have m: "k \<in> fst ` set (rt_versions s)" if "map_of (rt_versions s) k = Some a" for k a
    by (rule image_eqI [OF _ map_of_SomeD [OF that]]) simp
  show ?thesis
  proof (intro conjI allI impI)
    fix k a assume k: "map_of (rt_versions s) k = Some a"
    show a: "a < length (rt_heap s)" "vs_key (ver s a) = k" using registered_okD [OF i(1) k] by simp_all
    show "k \<in> set (rt_modules s)" using m [OF k] i(5) by simp
    have "k \<notin> fst ` set (rt_tasks s)" using m [OF k] T unfolding tasks_inv_def by blast
    then show "map_of (rt_tasks s) k = None" by (simp add: map_of_eq_None_iff)
    show n: "vs_inflight (ver s a) = int (length (filter (\<lambda>p. snd p = a) (rt_running s)))"
      using a i(2) by (simp add: counted_def running_on_def)
    show "0 < vs_inflight (ver s a)" if "vs_state (ver s a) = DRAINING"
      using that k i(4) n unfolding draining_busy_def running_on_def by simp
    show "map_of (rt_dirs s) k \<noteq> None" if "rt_retain s"
      using that m [OF k] D unfolding dirs_inv_def map_of_eq_None_iff by blast
  next
    fix q a assume "map_of (rt_running s) q = Some a"
    from placedD [OF i(3) this] show p: "map_of (rt_versions s) (vs_key (ver s a)) = Some a" by blast
    show "vs_key (ver s a) \<in> set (rt_modules s)" using m [OF p] i(5) by simp
  qed
qed

definition on :: "runtime \<Rightarrow> nat \<Rightarrow> nat set" where
  "on s a = {q. map_of (rt_running s) q = Some a}"

definition retires :: "nat \<Rightarrow> runtime \<Rightarrow> runtime \<Rightarrow> bool" where
  "retires a s t = (a < length (rt_heap t) \<and> vs_state (ver t a) = DRAINING \<and> on t a \<subseteq> on s a)"

lemma retires_unload: "a < length (rt_heap s) \<Longrightarrow> vs_state (ver s a) = DRAINING \<Longrightarrow> registered_ok s \<Longrightarrow> retires a s (unload k s)"
  by (cases "map_of (rt_versions s) k")
    (auto simp: retires_def on_def unload_def Let_def upd_version_at_def nth_list_update registered_ok_def)

lemma retires_trans: "retires a s t \<Longrightarrow> retires a t u \<Longrightarrow> retires a s u"
  unfolding retires_def by blast

lemma retires_same:
  "a < length (rt_heap s) \<Longrightarrow> vs_state (ver s a) = DRAINING \<Longrightarrow> rt_heap t = rt_heap s \<Longrightarrow> rt_running t = rt_running s \<Longrightarrow> retires a s t"
  by (simp add: retires_def on_def)

lemma retires_admission:
  assumes "is_admission adm" and "a < length (rt_heap s)" and "vs_state (ver s a) = DRAINING" and "b < length (rt_heap s)"
  shows "retires a s (snd (adm q b s))"
  using admission_cases [OF assms(1), of q b s]
proof (elim disjE conjE)
  assume r: "vs_state (ver s b) = READY"
    and e: "snd (adm q b s) = upd_version_at b (\<lambda>v. v\<lparr>vs_inflight := vs_inflight v + 1\<rparr>) s\<lparr>rt_running := AList.update q b (rt_running s)\<rparr>"
  have n: "b \<noteq> a" using r assms(3) by auto
  have "on (snd (adm q b s)) a \<subseteq> on s a" using n by (auto simp: on_def e update_conv' split: if_splits)
  then show ?thesis using n assms by (simp add: retires_def e ver_upd)
qed (use assms in \<open>simp add: retires_def\<close>)

lemma retires_release:
  assumes I: "versions_inv {} s" and a: "a < length (rt_heap s)" "vs_state (ver s a) = DRAINING"
  shows "retires a s (release q s)"
proof (cases "map_of (rt_running s) q")
  case (Some b)
  let ?s = "upd_version_at b (\<lambda>v. v\<lparr>vs_inflight := vs_inflight v - 1\<rparr>) (s\<lparr>rt_running := AList.delete q (rt_running s)\<rparr>)"
  have i: "registered_ok s" "placed s" using I by (simp_all add: versions_inv_def)
  have b: "b < length (rt_heap s)" using placedD [OF i(2) Some] by simp
  have v: "ver ?s c = (if c = b then (ver s b)\<lparr>vs_inflight := vs_inflight (ver s b) - 1\<rparr> else ver s c)" for c
    using b by (simp add: upd_version_at_def)
  have s: "retires a s ?s" using a by (auto simp: retires_def v on_def delete_conv' split: if_splits)
  have "registered_ok ?s" using i(1) by (auto simp: registered_ok_def v)
  then have "retires a ?s (unload k ?s)" for k using s by (intro retires_unload) (simp_all add: retires_def)
  then show ?thesis using s retires_trans by (simp add: release_def Some Let_def) 
qed (use a in \<open>simp add: release_def retires_same\<close>)

lemma retires_drain:
  assumes I: "versions_inv {} s" and a: "a < length (rt_heap s)" "vs_state (ver s a) = DRAINING"
  shows "retires a s (snd (drain k s))"
proof (cases "map_of (rt_versions s) k")
  case (Some b)
  let ?s = "upd_version_at b (\<lambda>v. v\<lparr>vs_state := DRAINING\<rparr>) s"
  have i: "registered_ok s" using I by (simp add: versions_inv_def)
  have v: "ver ?s c = (if c = b then (ver s b)\<lparr>vs_state := DRAINING\<rparr> else ver s c)" for c
    using registered_okD [OF i Some] by (simp add: upd_version_at_def)
  have s: "retires a s ?s" using a by (simp add: retires_def v on_def)
  have "registered_ok ?s" using i by (auto simp: registered_ok_def v)
  then have "retires a ?s (unload k ?s)" using s by (intro retires_unload) (simp_all add: retires_def)
  then show ?thesis using s retires_trans by (simp add: drain_def Some Let_def)
qed (use a in \<open>simp add: drain_def retires_same\<close>)

lemma load_fetch_same: "rt_heap (load_fetch env t s) = rt_heap s \<and> rt_running (load_fetch env t s) = rt_running s"
  by (simp add: load_fetch_def end_load_def Let_def split: option.splits sum.splits)

lemma load_import_old:
  "a < length (rt_heap s) \<Longrightarrow> ver (load_import env t s) a = ver s a \<and> a < length (rt_heap (load_import env t s)) \<and>
   rt_running (load_import env t s) = rt_running s"
  by (simp add: load_import_def end_load_def Let_def nth_append split: option.splits sum.splits)

lemma runtime_step_retires:
  assumes "runtime_step env s t" and I: "runtime_inv s" and a: "a < length (rt_heap s)" "vs_state (ver s a) = DRAINING"
  shows "retires a s t"
  using assms(1)
proof cases
  case (Start adm q k uri digest eds)
  show ?thesis
  proof (cases "map_of (rt_versions s) k")
    case None
    then show ?thesis
      unfolding Start(1) by (intro retires_same [OF a]) (simp_all add: start_request_def ensure_loaded_def Let_def split: option.splits)
  next
    case (Some b)
    then have "b < length (rt_heap s)" using I registered_okD by (auto simp: runtime_inv_def versions_inv_def)
    then show ?thesis using retires_admission [OF Start(2) a] by (simp add: Start(1) start_request_def ensure_loaded_def Some)
  qed
next
  case (Resume adm q)
  let ?s = "s\<lparr>rt_waiting := AList.delete q (rt_waiting s)\<rparr>"
  have "retires a s (snd (adm q b ?s))" if "b < length (rt_heap s)" for b
    using retires_admission [OF Resume(2), of a ?s b q] a that by (simp add: retires_def on_def)
  moreover have "b < length (rt_heap s)" if "map_of (rt_done s) d = Some (Inr b)" for d b
    using I that by (simp add: runtime_inv_def tasks_inv_def)
  ultimately show ?thesis
    using a unfolding Resume(1)
    by (auto simp: resume_request_def Let_def retires_def on_def split: option.splits sum.splits)
next
  case (Release q)
  then show ?thesis using I a retires_release by (simp add: runtime_inv_def)
next
  case (Drain k)
  then show ?thesis using I a retires_drain by (simp add: runtime_inv_def)
next
  case (Import d)
  then show ?thesis using load_import_old [OF a(1), of env d] a by (simp add: retires_def on_def)
qed (use a in \<open>simp_all add: retires_same cancel_waiting_def load_fetch_same remove_directory_def\<close>)

text \<open>C12. A drained version retires: from any reachable state on, it never returns to READY, admits no request, and once
  the requests it had are over it is no longer registered under any key.\<close>

theorem drained_version_retires:
  assumes "reachable runtime_init (runtime_step env) s" and "a < length (rt_heap s)" and "vs_state (rt_heap s ! a) = DRAINING"
    and "(runtime_step env)\<^sup>*\<^sup>* s t"
  shows "vs_state (rt_heap t ! a) = DRAINING \<and>
    {q. map_of (rt_running t) q = Some a} \<subseteq> {q. map_of (rt_running s) q = Some a} \<and>
    ({q. map_of (rt_running t) q = Some a} = {} \<longrightarrow> (\<forall>k. map_of (rt_versions t) k \<noteq> Some a))"
proof -
  have "retires a s t \<and> runtime_inv t"
    using assms(4)
  proof (induction rule: rtranclp_induct)
    case base
    then show ?case using assms(1-3) worker.reach_inv retires_same by blast
  next
    case (step t u)
    then show ?case
      using runtime_step_retires [of env t u a] runtime_step_inv [of env t u] retires_trans by (auto simp: retires_def)
  qed
  then have r: "retires a s t" and I: "versions_inv {} t" by (simp_all add: runtime_inv_def)
  have "map_of (rt_versions t) k \<noteq> Some a" if "on t a = {}" for k
  proof
    assume "map_of (rt_versions t) k = Some a"
    then have "0 < running_on t a" using I r by (simp add: versions_inv_def draining_busy_def retires_def)
    then obtain p where p: "p \<in> set (rt_running t)" "snd p = a" by (auto simp: running_on_def filter_empty_conv)
    have "map_of (rt_running t) (fst p) = Some a" using I p by (intro map_of_is_SomeI) (auto simp: versions_inv_def)
    then show False using that by (auto simp: on_def)
  qed
  then show ?thesis using r by (simp add: retires_def on_def)
qed

section \<open>A worker that loads, drains and loads again\<close>

definition demo_artifacts :: artifacts where
  "demo_artifacts = \<lparr>af_obtain = (\<lambda>_ _. Inr [7, 2]), af_members = (\<lambda>_. []),
     af_modules = (\<lambda>_ m. if m = ''_pyscripts_runtime.s_a.r_1.main'' then Some (\<lambda>x. if x = ''run''
       then Some \<lparr>rn_callable = True, rn_remote = Some ''compute'', rn_coroutine = False, rn_params = None, rn_awaits = False\<rparr>
       else None) else None),
     af_temp = (\<lambda>_. [''tmp'']), af_codecs = (\<lambda>_ _. Inr [])\<rparr>"

definition demo_endpoints :: "endpoint_definition list" where
  "demo_endpoints = [\<lparr>ed_id = JStr ''run'', ed_task = JStr ''compute'', ed_entry = JStr ''main:run'', ed_grpc = None, ed_params = [],
     ed_response = [], ed_io = []\<rparr>]"

definition demo_runners :: runners where
  "demo_runners = [(JStr ''run'', JStr ''compute'',
     \<lparr>rn_callable = True, rn_remote = Some ''compute'', rn_coroutine = False, rn_params = None, rn_awaits = False\<rparr>)]"

definition demo_key :: vkey where
  "demo_key = VKey ''a'' ''1''"

definition demo_admit :: admission where
  "demo_admit = (\<lambda>q a s. admit q a (JStr ''run'') s)"

definition demo_version :: version where
  "demo_version = \<lparr>vs_key = demo_key, vs_state = READY, vs_inflight = 0, vs_runners = demo_runners, vs_codecs = []\<rparr>"

definition demo_directory :: directory where
  "demo_directory = \<lparr>dr_marker = [], dr_content = [7, 2]\<rparr>"

definition demo_loaded :: "bool \<Rightarrow> runtime" where
  \<comment> \<open>one version, loaded\<close>
  "demo_loaded retain = \<lparr>rt_retain = retain, rt_heap = [demo_version], rt_versions = [(demo_key, 0)], rt_tasks = [], rt_loads = [],
     rt_done = [(0, Inr 0)], rt_waiting = [(0, 0)], rt_running = [], rt_dirs = [(demo_key, demo_directory)],
     rt_modules = [demo_key], rt_deleting = []\<rparr>"

lemma demo_load_runners:
  "load_runners (af_modules demo_artifacts [7, 2]) (module_prefix demo_key) demo_endpoints [] = Inr demo_runners"
proof -
  have "split_entry ''main:run'' = Some (''main'', ''run'')" by (simp add: split_entry_def Let_def)
  then show ?thesis
    by (simp add: demo_endpoints_def demo_artifacts_def load_runner_def demo_runners_def module_prefix_def demo_key_def)
qed

lemma demo_extract: "extract_archive (af_temp demo_artifacts demo_key) (af_members demo_artifacts [7, 2]) = Inr []"
  by (simp add: extract_archive_def demo_artifacts_def)

lemma demo_obtain: "af_obtain demo_artifacts u d = Inr [7, 2]" "af_codecs demo_artifacts b eds = Inr []"
  by (simp_all add: demo_artifacts_def)

lemma demo_digest_empty: "normal_digest [] = []"
  by (simp add: normal_digest_def removeprefix_def starts_with_def lower_def)

lemma demo_steps: "(runtime_step demo_artifacts)\<^sup>*\<^sup>* (new_runtime retain) (demo_loaded retain)"
proof -
  let ?l = "\<lparr>ld_key = demo_key, ld_uri = [], ld_digest = [], ld_endpoints = demo_endpoints, ld_stage = Fetching\<rparr>"
  let ?a = "(new_runtime retain)\<lparr>rt_loads := [(0, ?l)], rt_tasks := [(demo_key, 0)], rt_waiting := [(0, 0)]\<rparr>"
  let ?b = "?a\<lparr>rt_loads := [(0, ?l\<lparr>ld_stage := Importing\<rparr>)], rt_dirs := [(demo_key, demo_directory)]\<rparr>"
  have adm: "is_admission demo_admit" by (auto simp: is_admission_def demo_admit_def)
  have "snd (start_request demo_admit 0 demo_key [] [] demo_endpoints (new_runtime retain)) = ?a"
    by (simp add: start_request_def ensure_loaded_def new_runtime_def fresh_task_def Let_def)
  then have 1: "runtime_step demo_artifacts (new_runtime retain) ?a"
    using runtime_step.Start [OF adm, of 0 "new_runtime retain" demo_artifacts demo_key "[]" "[]" demo_endpoints]
    by (simp add: new_runtime_def)
  have "load_fetch demo_artifacts 0 ?a = ?b"
    by (simp add: load_fetch_def reusable_def new_runtime_def Let_def demo_extract demo_obtain demo_directory_def demo_digest_empty)
  then have 2: "runtime_step demo_artifacts ?a ?b" using runtime_step.Fetch [of demo_artifacts ?a 0] by simp
  have "import_version demo_artifacts (?l\<lparr>ld_stage := Importing\<rparr>) ?b = Inr demo_version"
    by (simp add: import_version_def demo_directory_def demo_load_runners demo_version_def demo_obtain)
  then have "load_import demo_artifacts 0 ?b = demo_loaded retain"
    by (simp add: load_import_def end_load_def demo_loaded_def new_runtime_def Let_def)
  then have 3: "runtime_step demo_artifacts ?b (demo_loaded retain)" using runtime_step.Import [of demo_artifacts ?b 0] by simp
  show ?thesis using 1 2 3 by (meson converse_rtranclp_into_rtranclp rtranclp.rtrancl_refl)
qed

lemma demo_loaded_reachable: "reachable runtime_init (runtime_step demo_artifacts) (demo_loaded retain)"
proof -
  have "reachable runtime_init (runtime_step demo_artifacts) t" if "(runtime_step demo_artifacts)\<^sup>*\<^sup>* (new_runtime retain) t" for t
    using that by (induction rule: rtranclp_induct) (auto simp: runtime_init_def intro: reachable.intros)
  then show ?thesis using demo_steps by blast
qed

theorem loaded_versions_consistent_witness:
  "map_of (rt_versions (demo_loaded True)) demo_key = Some 0 \<and> demo_key \<in> set (rt_modules (demo_loaded True)) \<and>
   map_of (rt_dirs (demo_loaded True)) demo_key \<noteq> None"
proof -
  have "map_of (rt_versions (demo_loaded True)) demo_key = Some 0" "rt_retain (demo_loaded True)" by (simp_all add: demo_loaded_def)
  then show ?thesis using loaded_versions_consistent [OF demo_loaded_reachable [of True], THEN conjunct1] by blast
qed

definition demo_draining :: runtime where
  \<comment> \<open>a drained version with one request on it\<close>
  "demo_draining = (demo_loaded True)\<lparr>rt_heap := [demo_version\<lparr>vs_inflight := 1, vs_state := DRAINING\<rparr>],
     rt_waiting := [], rt_running := [(0, 0)]\<rparr>"

lemma demo_draining_reachable: "reachable runtime_init (runtime_step demo_artifacts) demo_draining"
proof -
  let ?a = "(demo_loaded True)\<lparr>rt_heap := [demo_version\<lparr>vs_inflight := 1\<rparr>], rt_waiting := [], rt_running := [(0, 0)]\<rparr>"
  have adm: "is_admission demo_admit" by (auto simp: is_admission_def demo_admit_def)
  have "snd (resume_request demo_admit 0 (demo_loaded True)) = ?a"
    by (simp add: resume_request_def demo_loaded_def demo_admit_def admit_def demo_version_def demo_runners_def upd_version_at_def Let_def)
  then have 1: "runtime_step demo_artifacts (demo_loaded True) ?a"
    using runtime_step.Resume [OF adm, of demo_artifacts "demo_loaded True" 0] by simp
  have "snd (drain demo_key ?a) = demo_draining"
    by (simp add: drain_def demo_loaded_def demo_draining_def demo_version_def upd_version_at_def Let_def)
  then have 2: "runtime_step demo_artifacts ?a demo_draining" using runtime_step.Drain [of demo_artifacts ?a demo_key] by simp
  show ?thesis using demo_loaded_reachable 1 2 by (meson reachable.move)
qed

theorem drained_version_retires_witness:
  "map_of (rt_versions demo_draining) demo_key = Some 0 \<and> rt_running (release 0 demo_draining) = [] \<and>
   map_of (rt_versions (release 0 demo_draining)) demo_key \<noteq> Some 0"
proof -
  have s: "(runtime_step demo_artifacts)\<^sup>*\<^sup>* demo_draining (release 0 demo_draining)"
    using runtime_step.Release by blast
  have d: "0 < length (rt_heap demo_draining)" "vs_state (rt_heap demo_draining ! 0) = DRAINING"
    by (simp_all add: demo_draining_def)
  have "rt_running (release 0 demo_draining) = []"
    by (simp add: release_def demo_draining_def demo_loaded_def demo_version_def upd_version_at_def unload_def Let_def)
  moreover have "map_of (rt_versions demo_draining) demo_key = Some 0" by (simp add: demo_draining_def demo_loaded_def)
  ultimately show ?thesis using drained_version_retires [OF demo_draining_reachable d s] by auto
qed

text \<open>C33. Without the kept directories a version may lose the files of its artifact: a drain leaves the removal to a thread
  and forgets the version, a request loads the same revision again meanwhile, and the removal then takes the directory
  of the new version, which stays READY.\<close>

theorem reload_loses_directory:
  "\<exists>env s k a. reachable runtime_init (runtime_step env) s \<and> map_of (rt_versions s) k = Some a \<and>
     vs_state (rt_heap s ! a) = READY \<and> map_of (rt_dirs s) k = None \<and> rt_deleting s = []"
proof -
  let ?v = "demo_version\<lparr>vs_state := DRAINING, vs_runners := [], vs_codecs := []\<rparr>"
  let ?a = "(demo_loaded False)\<lparr>rt_heap := [?v], rt_versions := [], rt_modules := [], rt_deleting := [demo_key]\<rparr>"
  let ?l = "\<lparr>ld_key = demo_key, ld_uri = [], ld_digest = [], ld_endpoints = demo_endpoints, ld_stage = Fetching\<rparr>"
  let ?b = "?a\<lparr>rt_loads := [(1, ?l)], rt_tasks := [(demo_key, 1)], rt_waiting := [(0, 0), (7, 1)]\<rparr>"
  let ?c = "?b\<lparr>rt_loads := [(1, ?l\<lparr>ld_stage := Importing\<rparr>)]\<rparr>"
  let ?d = "?c\<lparr>rt_heap := [?v, demo_version], rt_versions := [(demo_key, 1)], rt_modules := [demo_key], rt_loads := [], rt_tasks := [],
    rt_done := [(0, Inr 0), (1, Inr 1)]\<rparr>"
  let ?e = "?d\<lparr>rt_dirs := [], rt_deleting := []\<rparr>"
  let ?step = "runtime_step demo_artifacts"
  have adm: "is_admission demo_admit" by (auto simp: is_admission_def demo_admit_def)
  have "snd (drain demo_key (demo_loaded False)) = ?a"
    by (simp add: drain_def demo_loaded_def demo_version_def upd_version_at_def unload_def Let_def)
  then have 1: "?step (demo_loaded False) ?a" using runtime_step.Drain [of demo_artifacts "demo_loaded False" demo_key] by simp
  have "snd (start_request demo_admit 7 demo_key [] [] demo_endpoints ?a) = ?b"
    by (simp add: start_request_def ensure_loaded_def demo_loaded_def fresh_task_def Let_def)
  then have 2: "?step ?a ?b"
    using runtime_step.Start [OF adm, of 7 ?a demo_artifacts demo_key "[]" "[]" demo_endpoints] by (simp add: demo_loaded_def)
  have "load_fetch demo_artifacts 1 ?b = ?c"
    by (simp add: load_fetch_def reusable_def demo_loaded_def Let_def demo_extract demo_obtain demo_directory_def demo_digest_empty)
  then have 3: "?step ?b ?c" using runtime_step.Fetch [of demo_artifacts ?b 1] by simp
  have "import_version demo_artifacts (?l\<lparr>ld_stage := Importing\<rparr>) ?c = Inr demo_version"
    by (simp add: import_version_def demo_loaded_def demo_directory_def demo_load_runners demo_version_def demo_obtain)
  then have "load_import demo_artifacts 1 ?c = ?d"
    by (simp add: load_import_def end_load_def demo_loaded_def Let_def)
  then have 4: "?step ?c ?d" using runtime_step.Import [of demo_artifacts ?c 1] by simp
  have "remove_directory demo_key ?d = ?e" by (simp add: remove_directory_def demo_loaded_def)
  then have 5: "?step ?d ?e" using runtime_step.Remove [of demo_key ?d demo_artifacts] by simp
  have r: "reachable runtime_init ?step ?e" using demo_loaded_reachable 1 2 3 4 5 by (meson reachable.move)
  show ?thesis
    by (intro exI [of _ demo_artifacts] exI [of _ ?e] exI [of _ demo_key] exI [of _ 1] conjI r) (simp_all add: demo_version_def)
qed

end
