(* ===== verification/Actor.thy ===== *)
theory Actor
  imports Admission Loader Invoke
begin

text \<open>
  The IO actor (\<open>runtime/actor.py\<close>): admission, the versions of its worker and the executions under way, composed
  as \<open>UnifiedActor\<close> composes them, and the calls that artifact code makes to other endpoints of its revision
  (\<open>ActorRemoteCallBackend\<close>). An execution is a coroutine; everything between two of its suspensions is one step.
  It suspends while its version loads, while artifact code runs, and while the directory of a version it was the
  last to use is removed.
\<close>

section \<open>The actor\<close>

datatype actor_error =
    ComputeOnActor
  | LeaseError admission_error
  | BadManifest load_error
  | NoSuchEndpoint
  | LeaseTypeMismatch
  | RuntimeError request_error

record actor =
  ac_profile :: string
  ac_admission :: Admission.admission
  ac_runtime :: runtime
  ac_executions :: "(string, nat) dict" \<comment> \<open>\<open>_executions\<close>: the task of a lease, by the request it makes of the runtime\<close>

record execute_call =
  xq_grpc :: bool
  xq_endpoint :: string
  xq_uri :: string
  xq_digest :: string
  xq_manifest :: "jdict list"

definition new_actor :: "string \<Rightarrow> int \<Rightarrow> time \<Rightarrow> time \<Rightarrow> actor_error + actor" where
  \<comment> \<open>an actor keeps no extracted directory of an unloaded version\<close>
  "new_actor profile mx ttl now =
     (case new_controller mx ttl now of
        Inl x \<Rightarrow> Inl (LeaseError x)
      | Inr ad \<Rightarrow> Inr \<lparr>ac_profile = profile, ac_admission = ad, ac_runtime = new_runtime False, ac_executions = []\<rparr>)"

definition reserve_actor :: "string \<Rightarrow> time \<Rightarrow> time \<Rightarrow> string \<Rightarrow> string \<Rightarrow> string \<Rightarrow> string \<Rightarrow> actor \<Rightarrow>
    (actor_error + string option) \<times> actor" where
  "reserve_actor lid now rel request_id task_type service revision a =
     (if task_type \<noteq> ''io'' then (Inl ComputeOnActor, a)
      else case try_reserve lid now rel request_id task_type service revision (ac_admission a) of
        (Inl x, ad) \<Rightarrow> (Inl (LeaseError x), a\<lparr>ac_admission := ad\<rparr>)
      | (Inr r, ad) \<Rightarrow> (Inr r, a\<lparr>ac_admission := ad\<rparr>))"

definition lease_version :: "lease \<Rightarrow> vkey" where
  "lease_version l = VKey (l_service l) (l_revision l)"

definition settle :: "time \<Rightarrow> string \<Rightarrow> actor \<Rightarrow> actor" where
  \<comment> \<open>the \<open>finally\<close> of \<open>execute\<close>\<close>
  "settle rel lid a = a\<lparr>ac_executions := AList.delete lid (ac_executions a),
     ac_admission := snd (finish_lease rel lid (ac_admission a))\<rparr>"

definition endpoint_checked :: "execute_call \<Rightarrow> lease \<Rightarrow> actor_error + endpoint_definition list" where
  "endpoint_checked x l =
     (case mapE definition_of (xq_manifest x) of
        Inl e \<Rightarrow> Inl (BadManifest e)
      | Inr eds \<Rightarrow>
          (case find (\<lambda>ed. ed_id ed = JStr (xq_endpoint x)) eds of
             None \<Rightarrow> Inl NoSuchEndpoint
           | Some ed \<Rightarrow>
               if xq_grpc x \<and> ed_grpc ed = None then Inl NoSuchEndpoint
               else if ed_task ed \<noteq> JStr (l_task_type l) then Inl LeaseTypeMismatch
               else Inr eds))"

definition admission_of :: "execute_call \<Rightarrow> endpoint_definition list \<Rightarrow> Loader.admission" where
  "admission_of x eds =
     (if xq_grpc x then (\<lambda>q a s. admit_grpc q a (JStr (xq_endpoint x)) eds s) else (\<lambda>q a s. admit q a (JStr (xq_endpoint x)) s))"

definition execute :: "time \<Rightarrow> time \<Rightarrow> string \<Rightarrow> nat \<Rightarrow> execute_call \<Rightarrow> actor \<Rightarrow> (actor_error + unit) \<times> actor" where
  \<comment> \<open>\<open>execute\<close> and \<open>execute_grpc\<close> up to their first suspension; \<open>q\<close> is the new task\<close>
  "execute now rel lid q x a =
     (case start_lease now rel lid (ac_admission a) of
        (Inl e, ad) \<Rightarrow> (Inl (LeaseError e), a\<lparr>ac_admission := ad\<rparr>)
      | (Inr l, ad) \<Rightarrow>
          let a1 = a\<lparr>ac_admission := ad, ac_executions := AList.update lid q (ac_executions a)\<rparr> in
          case endpoint_checked x l of
            Inl e \<Rightarrow> (Inl e, settle rel lid a1)
          | Inr eds \<Rightarrow>
              (case start_request (admission_of x eds) q (lease_version l) (xq_uri x) (xq_digest x) eds (ac_runtime a1) of
                 (Inl e, rt) \<Rightarrow> (Inl (RuntimeError e), settle rel lid (a1\<lparr>ac_runtime := rt\<rparr>))
               | (Inr _, rt) \<Rightarrow> (Inr (), a1\<lparr>ac_runtime := rt\<rparr>)))"

definition continue_execution :: "Loader.admission \<Rightarrow> time \<Rightarrow> string \<Rightarrow> actor \<Rightarrow> actor" where
  \<comment> \<open>the load it waits for has ended\<close>
  "continue_execution adm rel lid a =
     (case map_of (ac_executions a) lid of
        None \<Rightarrow> a
      | Some q \<Rightarrow>
          (case resume_request adm q (ac_runtime a) of
             (Inl _, rt) \<Rightarrow> settle rel lid (a\<lparr>ac_runtime := rt\<rparr>)
           | (Inr _, rt) \<Rightarrow> a\<lparr>ac_runtime := rt\<rparr>))"

definition end_execution :: "time \<Rightarrow> string \<Rightarrow> actor \<Rightarrow> actor" where
  \<comment> \<open>artifact code returned, raised or was cancelled; the last user of a draining version awaits the removal of its directory\<close>
  "end_execution rel lid a =
     (case map_of (ac_executions a) lid of
        None \<Rightarrow> a
      | Some q \<Rightarrow>
          if q \<notin> fst ` set (rt_running (ac_runtime a)) then a
          else
            let rt = release q (ac_runtime a); a1 = a\<lparr>ac_runtime := rt\<rparr> in
            if rt_deleting rt \<noteq> rt_deleting (ac_runtime a) then a1 else settle rel lid a1)"

definition idle_request :: "nat \<Rightarrow> runtime \<Rightarrow> bool" where
  "idle_request q s = (q \<notin> fst ` set (rt_waiting s) \<union> fst ` set (rt_running s))"

definition close_execution :: "time \<Rightarrow> string \<Rightarrow> actor \<Rightarrow> actor" where
  \<comment> \<open>that removal is over, or was cancelled\<close>
  "close_execution rel lid a =
     (case map_of (ac_executions a) lid of
        None \<Rightarrow> a
      | Some q \<Rightarrow> if idle_request q (ac_runtime a) then settle rel lid a else a)"

definition cancel_execution :: "time \<Rightarrow> string \<Rightarrow> actor \<Rightarrow> bool option \<times> actor" where
  \<comment> \<open>\<open>None\<close>: it awaits the end of the cancelled task, an \<open>end_execution\<close> or \<open>close_execution\<close>, and then answers \<open>True\<close>\<close>
  "cancel_execution rel lid a =
     (case map_of (ac_executions a) lid of
        None \<Rightarrow> (let (b, ad) = cancel_reservation rel lid (ac_admission a) in (Some b, a\<lparr>ac_admission := ad\<rparr>))
      | Some q \<Rightarrow>
          if q \<in> fst ` set (rt_waiting (ac_runtime a))
          then (Some True, settle rel lid (a\<lparr>ac_runtime := cancel_waiting q (ac_runtime a)\<rparr>))
          else (None, a))"

definition drain_whole_actor :: "actor \<Rightarrow> actor" where
  "drain_whole_actor a = a\<lparr>ac_admission := drain_actor (ac_admission a)\<rparr>"

definition unified_status :: "time \<Rightarrow> time \<Rightarrow> actor \<Rightarrow> (actor_status \<times> (vkey \<times> version_state \<times> int) list \<times> string) \<times> actor" where
  "unified_status now rel a =
     (let (st, ad) = status now rel (ac_admission a)
      in ((st, runtime_status (ac_runtime a), ac_profile a), a\<lparr>ac_admission := ad\<rparr>))"

text \<open>
  The steps of an actor. The runtime also serves the calls between endpoints, whose requests are no executions,
  runs its load threads and removals, and drains a version when asked to (\<open>Inner\<close>).
\<close>

abbreviation executions_of :: "actor \<Rightarrow> nat set" where
  "executions_of a \<equiv> snd ` set (ac_executions a)"

inductive inner_step :: "artifacts \<Rightarrow> nat set \<Rightarrow> runtime \<Rightarrow> runtime \<Rightarrow> bool" for env Q where
  InStart: "is_admission adm \<Longrightarrow> idle_request q s \<Longrightarrow> q \<notin> Q \<Longrightarrow>
    inner_step env Q s (snd (start_request adm q k uri digest eds s))"
| InResume: "is_admission adm \<Longrightarrow> q \<notin> Q \<Longrightarrow> inner_step env Q s (snd (resume_request adm q s))"
| InCancel: "q \<notin> Q \<Longrightarrow> inner_step env Q s (cancel_waiting q s)"
| InRelease: "q \<notin> Q \<Longrightarrow> inner_step env Q s (release q s)"
| InDrain: "inner_step env Q s (snd (drain k s))"
| InFetch: "inner_step env Q s (load_fetch env t s)"
| InImport: "inner_step env Q s (load_import env t s)"
| InRemove: "k \<in> set (rt_deleting s) \<Longrightarrow> inner_step env Q s (remove_directory k s)"

inductive actor_step :: "artifacts \<Rightarrow> actor \<Rightarrow> actor \<Rightarrow> bool" for env where
  Reserve: "lid \<notin> fst ` set (leases (ac_admission a)) \<Longrightarrow> actor_step env a (snd (reserve_actor lid now rel rq tt sv rv a))"
| Execute: "idle_request q (ac_runtime a) \<Longrightarrow> q \<notin> executions_of a \<Longrightarrow> actor_step env a (snd (execute now rel lid q x a))"
| Continue: "is_admission adm \<Longrightarrow> actor_step env a (continue_execution adm rel lid a)"
| End: "actor_step env a (end_execution rel lid a)"
| Close: "actor_step env a (close_execution rel lid a)"
| CancelExecution: "actor_step env a (snd (cancel_execution rel lid a))"
| CancelReservation: "actor_step env a (a\<lparr>ac_admission := snd (cancel_reservation rel lid (ac_admission a))\<rparr>)"
| DrainActor: "actor_step env a (drain_whole_actor a)"
| Status: "actor_step env a (snd (unified_status now rel a))"
| Inner: "inner_step env (executions_of a) (ac_runtime a) rt \<Longrightarrow> actor_step env a (a\<lparr>ac_runtime := rt\<rparr>)"

definition actor_init :: "actor \<Rightarrow> bool" where
  "actor_init a = (\<exists>profile mx ttl now. new_actor profile mx ttl now = Inr a)"

section \<open>What a request of the runtime is for\<close>

text \<open>A request runs, or waits to run, on a version of one service and revision.\<close>

definition load_for :: "vkey \<Rightarrow> runtime \<Rightarrow> nat \<Rightarrow> bool" where
  "load_for k s t =
     (case map_of (rt_loads s) t of
        Some l \<Rightarrow> ld_key l = k
      | None \<Rightarrow>
          (case map_of (rt_done s) t of
             None \<Rightarrow> False
           | Some (Inl _) \<Rightarrow> True
           | Some (Inr a) \<Rightarrow> a < length (rt_heap s) \<and> vs_key (ver s a) = k))"

definition request_at :: "nat \<Rightarrow> vkey \<Rightarrow> runtime \<Rightarrow> bool" where
  "request_at q k s =
     ((\<forall>a. map_of (rt_running s) q = Some a \<longrightarrow> a < length (rt_heap s) \<and> vs_key (ver s a) = k) \<and>
      (\<forall>t. map_of (rt_waiting s) q = Some t \<longrightarrow> load_for k s t))"

definition keys_kept :: "runtime \<Rightarrow> runtime \<Rightarrow> bool" where
  "keys_kept s s' =
     (length (rt_heap s) \<le> length (rt_heap s') \<and> (\<forall>a < length (rt_heap s). vs_key (ver s' a) = vs_key (ver s a)))"

definition loads_kept :: "runtime \<Rightarrow> runtime \<Rightarrow> bool" where
  "loads_kept s s' = (\<forall>k t. load_for k s t \<longrightarrow> load_for k s' t)"

definition request_kept :: "nat \<Rightarrow> runtime \<Rightarrow> runtime \<Rightarrow> bool" where
  "request_kept q s s' =
     (map_of (rt_running s') q = map_of (rt_running s) q \<and> map_of (rt_waiting s') q = map_of (rt_waiting s) q)"

definition kept :: "nat \<Rightarrow> runtime \<Rightarrow> runtime \<Rightarrow> bool" where
  "kept q s s' = (keys_kept s s' \<and> loads_kept s s' \<and> request_kept q s s')"

lemma request_at_kept: "request_at q k s \<Longrightarrow> kept q s s' \<Longrightarrow> request_at q k s'"
  by (fastforce simp: kept_def request_at_def keys_kept_def loads_kept_def request_kept_def)

lemma kept_refl [simp]: "kept q s s"
  by (simp add: kept_def keys_kept_def loads_kept_def request_kept_def)

lemma kept_trans: "kept q s t \<Longrightarrow> kept q t u \<Longrightarrow> kept q s u"
  by (simp add: kept_def keys_kept_def loads_kept_def request_kept_def)

lemma loads_kept_same:
  "rt_loads s' = rt_loads s \<Longrightarrow> rt_done s' = rt_done s \<Longrightarrow> keys_kept s s' \<Longrightarrow> loads_kept s s'"
  by (auto simp: loads_kept_def load_for_def keys_kept_def split: option.splits sum.splits)

lemma kept_same:
  "rt_loads s' = rt_loads s \<Longrightarrow> rt_done s' = rt_done s \<Longrightarrow> rt_heap s' = rt_heap s \<Longrightarrow> request_kept q s s' \<Longrightarrow> kept q s s'"
  using loads_kept_same [of s' s] by (simp add: kept_def keys_kept_def)

lemma kept_upd:
  assumes "\<And>v. vs_key (f v) = vs_key v"
  shows "kept q s (upd_version_at a f s)"
proof -
  have "vs_key ((rt_heap s)[a := f (ver s a)] ! b) = vs_key (ver s b)" if "b < length (rt_heap s)" for b
    using that assms by (cases "b = a") auto
  then have k: "keys_kept s (upd_version_at a f s)" by (simp add: keys_kept_def upd_version_at_def)
  show ?thesis using loads_kept_same [OF _ _ k] by (simp add: kept_def k request_kept_def)
qed

lemma admission_kept:
  assumes "is_admission adm" and "q' \<noteq> q"
  shows "kept q' s (snd (adm q a s))"
proof -
  let ?u = "upd_version_at a (\<lambda>v. v\<lparr>vs_inflight := vs_inflight v + 1\<rparr>) s"
  have "kept q' s (?u\<lparr>rt_running := AList.update q a (rt_running s)\<rparr>)"
    by (rule kept_trans [OF kept_upd kept_same]) (use assms(2) in \<open>simp_all add: request_kept_def update_conv'\<close>)
  then show ?thesis using admission_cases [OF assms(1), of q a s] by (elim disjE conjE) (simp_all only: kept_refl)
qed

lemma unload_kept: "kept q s (unload k s)"
proof (cases "map_of (rt_versions s) k")
  case (Some a)
  let ?u = "upd_version_at a (\<lambda>v. v\<lparr>vs_runners := [], vs_codecs := []\<rparr>) s"
  have u: "kept q s ?u" by (rule kept_upd) simp
  have "kept q ?u (unload k s)"
    by (rule kept_same) (simp_all add: unload_def Some Let_def request_kept_def upd_version_at_def)
  with u show ?thesis by (rule kept_trans)
qed (simp add: unload_def)

lemma release_kept:
  assumes "q' \<noteq> q" shows "kept q' s (release q s)"
proof (cases "map_of (rt_running s) q")
  case (Some a)
  let ?r = "s\<lparr>rt_running := AList.delete q (rt_running s)\<rparr>"
  let ?u = "upd_version_at a (\<lambda>v. v\<lparr>vs_inflight := vs_inflight v - 1\<rparr>) ?r"
  have "kept q' s ?r" by (rule kept_same) (use assms in \<open>simp_all add: request_kept_def delete_conv'\<close>)
  moreover have "kept q' ?r ?u" by (rule kept_upd) simp
  ultimately have u: "kept q' s ?u" by (rule kept_trans)
  show ?thesis using u kept_trans [OF u unload_kept] by (simp add: release_def Some Let_def)
qed (simp add: release_def)

lemma drain_actor_kept: "kept q s (snd (drain k s))"
proof (cases "map_of (rt_versions s) k")
  case (Some a)
  let ?u = "upd_version_at a (\<lambda>v. v\<lparr>vs_state := DRAINING\<rparr>) s"
  have u: "kept q s ?u" by (rule kept_upd) simp
  show ?thesis using u kept_trans [OF u unload_kept] by (simp add: drain_def Some Let_def)
qed (simp add: drain_def)

lemma end_load_kept:
  assumes "map_of (rt_loads s) t = Some l" and "case r of Inl _ \<Rightarrow> True | Inr a \<Rightarrow> a < length (rt_heap s) \<and> vs_key (ver s a) = ld_key l"
  shows "kept q s (end_load t k r s)"
proof -
  have "load_for k' (end_load t k r s) t'" if "load_for k' s t'" for k' t'
    using that assms by (cases "t' = t") (auto simp: load_for_def end_load_def delete_conv' update_conv' split: option.splits sum.splits)
  then show ?thesis by (simp add: kept_def loads_kept_def keys_kept_def request_kept_def end_load_def)
qed

lemma fetch_kept: "kept q s (load_fetch env t s)"
proof (cases "map_of (rt_loads s) t")
  case None
  then show ?thesis by (simp add: load_fetch_def)
next
  case (Some l)
  have imp: "kept q s (s\<lparr>rt_dirs := D, rt_loads := AList.update t (l\<lparr>ld_stage := Importing\<rparr>) (rt_loads s)\<rparr>)" for D
    using Some by (auto simp: kept_def keys_kept_def loads_kept_def request_kept_def load_for_def update_conv' split: option.splits sum.splits)
  have dirs: "kept q s (s\<lparr>rt_dirs := D\<rparr>)" for D by (rule kept_same) (simp_all add: request_kept_def)
  have fail: "kept q s (end_load t (ld_key l) (Inl x) s)" for x by (rule end_load_kept [OF Some]) simp
  have fail': "kept q s (end_load t (ld_key l) (Inl x) (s\<lparr>rt_dirs := D\<rparr>))" for x D
    by (rule kept_trans [OF dirs end_load_kept]) (use Some in simp_all)
  have imp0: "kept q s (s\<lparr>rt_loads := AList.update t (l\<lparr>ld_stage := Importing\<rparr>) (rt_loads s)\<rparr>)"
    using imp [of "rt_dirs s"] by simp
  show ?thesis
    by (auto simp: load_fetch_def Some Let_def imp imp0 fail fail' split: sum.splits)
qed

lemma import_kept: "kept q s (load_import env t s)"
proof (cases "map_of (rt_loads s) t")
  case None
  then show ?thesis by (simp add: load_import_def)
next
  case (Some l)
  show ?thesis
  proof (cases "ld_stage l \<noteq> Importing")
    case True
    then show ?thesis by (simp add: load_import_def Some)
  next
    case False
    show ?thesis
    proof (cases "import_version env l s")
      case (Inl x)
      let ?s = "s\<lparr>rt_modules := filter (\<lambda>m. m \<noteq> ld_key l) (rt_modules s), rt_dirs := AList.delete (ld_key l) (rt_dirs s)\<rparr>"
      have "kept q s ?s" by (rule kept_same) (simp_all add: request_kept_def)
      then have "kept q s (end_load t (ld_key l) (Inl x) ?s)" by (rule kept_trans [OF _ end_load_kept]) (use Some in simp_all)
      then show ?thesis using False by (simp add: load_import_def Some Inl)
    next
      case (Inr v)
      let ?s = "s\<lparr>rt_heap := rt_heap s @ [v], rt_modules := List.insert (ld_key l) (rt_modules s),
                   rt_versions := AList.update (ld_key l) (length (rt_heap s)) (rt_versions s)\<rparr>"
      have k: "keys_kept s ?s" by (simp add: keys_kept_def nth_append)
      have "kept q s ?s" using loads_kept_same [OF _ _ k] k by (simp add: kept_def request_kept_def)
      moreover have "vs_key v = ld_key l" using Inr by (auto simp: import_version_def bindE_eq_Inr)
      then have "kept q ?s (end_load t (ld_key l) (Inr (length (rt_heap s))) ?s)"
        by (intro end_load_kept) (use Some in simp_all)
      ultimately have "kept q s (end_load t (ld_key l) (Inr (length (rt_heap s))) ?s)" by (rule kept_trans)
      then show ?thesis using False by (simp add: load_import_def Some Inr Let_def)
    qed
  qed
qed

lemma remove_kept: "kept q s (remove_directory k s)"
  by (rule kept_same) (simp_all add: remove_directory_def request_kept_def)

lemma cancel_kept: "q' \<noteq> q \<Longrightarrow> kept q' s (cancel_waiting q s)"
  by (rule kept_same) (simp_all add: cancel_waiting_def request_kept_def delete_conv')

lemma fresh_task_new: "tasks_inv s \<Longrightarrow> map_of (rt_loads s) (fresh_task s) = None \<and> map_of (rt_done s) (fresh_task s) = None"
  by (auto simp: tasks_inv_def task_ids_def map_of_eq_None_iff)

lemma ensure_loaded_kept:
  assumes "runtime_inv s" and "ensure_loaded k uri digest eds s = (r, s')"
  shows "kept q s s' \<and> rt_running s' = rt_running s \<and> rt_waiting s' = rt_waiting s \<and>
    (case r of Inl a \<Rightarrow> a < length (rt_heap s') \<and> vs_key (ver s' a) = k | Inr t \<Rightarrow> load_for k s' t)"
proof -
  have V: "registered_ok s" and T: "tasks_inv s" using assms(1) by (simp_all add: runtime_inv_def versions_inv_def)
  consider (loaded) a where "map_of (rt_versions s) k = Some a"
    | (pending) t where "map_of (rt_versions s) k = None" "map_of (rt_tasks s) k = Some t"
    | (fresh) "map_of (rt_versions s) k = None" "map_of (rt_tasks s) k = None" by fastforce
  then show ?thesis
  proof cases
    case loaded
    then show ?thesis using assms(2) registered_okD [OF V loaded] by (auto simp: ensure_loaded_def)
  next
    case pending
    then obtain l where "map_of (rt_loads s) t = Some l" "ld_key l = k"
      using T by (auto simp: tasks_inv_def task_of_key_def)
    then show ?thesis using assms(2) pending by (auto simp: ensure_loaded_def load_for_def)
  next
    case fresh
    let ?t = "fresh_task s"
    have n: "map_of (rt_loads s) ?t = None" "map_of (rt_done s) ?t = None" using fresh_task_new [OF T] by simp_all
    have e: "r = Inr ?t"
      "s' = s\<lparr>rt_loads := AList.update ?t \<lparr>ld_key = k, ld_uri = uri, ld_digest = digest, ld_endpoints = eds, ld_stage = Fetching\<rparr> (rt_loads s),
            rt_tasks := AList.update k ?t (rt_tasks s)\<rparr>"
      using assms(2) fresh by (simp_all add: ensure_loaded_def Let_def)
    have "loads_kept s s'"
      unfolding loads_kept_def
    proof (intro allI impI)
      fix k' t assume l: "load_for k' s t"
      then have "t \<noteq> ?t" using n by (auto simp: load_for_def)
      with l show "load_for k' s' t" by (auto simp: load_for_def e(2) update_conv' split: option.splits sum.splits)
    qed
    then show ?thesis by (simp add: kept_def keys_kept_def request_kept_def e load_for_def update_conv')
  qed
qed

lemma request_at_idle: "idle_request q s \<Longrightarrow> request_at q k s"
  by (auto simp: request_at_def idle_request_def map_of_eq_None_iff dest: map_of_SomeD) (force dest: map_of_SomeD)+

text \<open>Admission of a request to a version of its key.\<close>

lemma admission_at:
  assumes "is_admission adm" and "a < length (rt_heap s)" and "vs_key (ver s a) = k" and "idle_request q s"
  shows "request_at q k (snd (adm q a s)) \<and> (\<forall>e. fst (adm q a s) = Inl e \<longrightarrow> snd (adm q a s) = s)"
proof -
  have "map_of (rt_waiting s) q = None" using assms(4) by (simp add: idle_request_def map_of_eq_None_iff)
  then have "request_at q k (upd_version_at a (\<lambda>v. v\<lparr>vs_inflight := vs_inflight v + 1\<rparr>) s\<lparr>rt_running := AList.update q a (rt_running s)\<rparr>)"
    using assms(2,3) by (simp add: request_at_def update_conv' upd_version_at_def)
  moreover have "snd (adm q a s) = s" if "fst (adm q a s) = Inl e" for e
    using that assms(1) unfolding is_admission_def
    by (elim exE disjE) (auto simp: admit_def admit_grpc_def Let_def split: if_splits)
  ultimately show ?thesis using admission_cases [OF assms(1), of q a s] request_at_idle [OF assms(4)] by auto
qed

lemma start_at:
  assumes "is_admission adm" and "runtime_inv s" and "idle_request q s" and "start_request adm q k uri digest eds s = (r, s')"
  shows "request_at q k s' \<and> (q' \<noteq> q \<longrightarrow> kept q' s s') \<and> (\<forall>e. r = Inl e \<longrightarrow> idle_request q s')"
proof -
  obtain r1 s1 where e: "ensure_loaded k uri digest eds s = (r1, s1)" by fastforce
  have i: "idle_request q s1" and E: "kept p s s1"
    "case r1 of Inl a \<Rightarrow> a < length (rt_heap s1) \<and> vs_key (ver s1 a) = k | Inr t \<Rightarrow> load_for k s1 t" for p
    using ensure_loaded_kept [OF assms(2) e] assms(3) by (simp_all add: idle_request_def)
  show ?thesis
  proof (cases r1)
    case (Inl a)
    then have "(r, s') = adm q a s1" using assms(4) e by (simp add: start_request_def)
    moreover have "request_at q k (snd (adm q a s1)) \<and> (\<forall>e. fst (adm q a s1) = Inl e \<longrightarrow> snd (adm q a s1) = s1)"
      using E(2) Inl by (intro admission_at [OF assms(1) _ _ i]) simp_all
    moreover have "kept q' s (snd (adm q a s1))" if "q' \<noteq> q"
      by (rule kept_trans [OF E(1) admission_kept [OF assms(1) that]])
    ultimately show ?thesis using i by (metis fst_conv snd_conv)
  next
    case (Inr t)
    then have s': "r = Inr ()" "s' = s1\<lparr>rt_waiting := AList.update q t (rt_waiting s1)\<rparr>"
      using assms(4) e by (simp_all add: start_request_def)
    have "map_of (rt_running s1) q = None" using i by (simp add: idle_request_def map_of_eq_None_iff)
    moreover have "load_for k s' t" using E(2) Inr by (auto simp: s' load_for_def split: option.splits sum.splits)
    ultimately have "request_at q k s'" by (simp add: s' request_at_def update_conv')
    moreover have "kept q' s1 s'" if "q' \<noteq> q" by (rule kept_same) (use that in \<open>simp_all add: s' request_kept_def update_conv'\<close>)
    ultimately show ?thesis using s'(1) kept_trans [OF E(1)] by blast
  qed
qed

lemma cancel_idle:
  assumes "versions_inv {} s" and "q \<in> fst ` set (rt_waiting s)" shows "idle_request q (cancel_waiting q s)"
proof -
  have "q \<notin> fst ` set (rt_running s)" using assms by (auto simp: versions_inv_def)
  then show ?thesis by (simp add: idle_request_def cancel_waiting_def keys_delete)
qed

lemma key_of_entry: "map_of xs k = Some v \<Longrightarrow> k \<in> fst ` set xs"
  by (simp add: dom_map_of_conv_image_fst [symmetric] domI)

lemma resume_cases:
  assumes "resume_request adm q s = (r, s')"
  obtains "r = Inr ()" "s' = s"
  | x where "r = Inl (LoadFailed x)" "s' = cancel_waiting q s" "q \<in> fst ` set (rt_waiting s)"
  | a t where "(r, s') = adm q a (cancel_waiting q s)" "map_of (rt_waiting s) q = Some t" "map_of (rt_done s) t = Some (Inr a)"
proof (cases "\<exists>t r0. map_of (rt_waiting s) q = Some t \<and> map_of (rt_done s) t = Some r0")
  case False
  then have "r = Inr () \<and> s' = s" using assms by (auto simp: resume_request_def split: option.splits)
  with that(1) show ?thesis by (elim conjE)
next
  case True
  then obtain t r0 where t: "map_of (rt_waiting s) q = Some t" "map_of (rt_done s) t = Some r0" by (elim exE conjE)
  show ?thesis
  proof (cases r0)
    case (Inl x)
    then have "r = Inl (LoadFailed x)" "s' = cancel_waiting q s"
      using assms t by (simp_all add: resume_request_def Let_def cancel_waiting_def)
    then show ?thesis using key_of_entry [OF t(1)] by (rule that(2))
  next
    case (Inr a)
    then have "(r, s') = adm q a (cancel_waiting q s)" using assms t by (simp add: resume_request_def Let_def cancel_waiting_def)
    then show ?thesis using t(1) t(2) [unfolded Inr] by (rule that(3))
  qed
qed

lemma resume_kept:
  assumes "is_admission adm" and "q' \<noteq> q" and "resume_request adm q s = (r, s')"
  shows "kept q' s s'"
  using assms(3)
proof (cases rule: resume_cases)
  case (3 a t)
  then have "s' = snd (adm q a (cancel_waiting q s))" by (metis snd_conv)
  then show ?thesis using kept_trans [OF cancel_kept admission_kept] assms(1,2) by simp
qed (use cancel_kept [OF assms(2)] in simp_all)

lemma resume_at:
  assumes "is_admission adm" and "runtime_inv s" and "request_at q k s" and "resume_request adm q s = (r, s')"
  shows "request_at q k s' \<and> (\<forall>e. r = Inl e \<longrightarrow> idle_request q s')"
proof -
  have V: "versions_inv {} s" and ids: "task_ids s" using assms(2) by (simp_all add: runtime_inv_def tasks_inv_def)
  from assms(4) show ?thesis
  proof (cases rule: resume_cases)
    case 1
    then show ?thesis using assms(3) by simp
  next
    case (2 x)
    have "idle_request q s'" unfolding 2(2) by (rule cancel_idle [OF V 2(3)])
    then show ?thesis using request_at_idle by simp
  next
    case (3 a t)
    have i: "idle_request q (cancel_waiting q s)" by (rule cancel_idle [OF V key_of_entry [OF 3(2)]])
    have "t \<notin> fst ` set (rt_loads s)" using ids key_of_entry [OF 3(3)] by (auto simp: task_ids_def)
    then have "map_of (rt_loads s) t = None" by (simp add: map_of_eq_None_iff)
    then have "a < length (rt_heap s) \<and> vs_key (ver s a) = k" using assms(3) 3(2,3) by (simp add: request_at_def load_for_def)
    then have "request_at q k (snd (adm q a (cancel_waiting q s))) \<and>
        (\<forall>e. fst (adm q a (cancel_waiting q s)) = Inl e \<longrightarrow> snd (adm q a (cancel_waiting q s)) = cancel_waiting q s)"
      by (intro admission_at [OF assms(1) _ _ i]) (simp_all add: cancel_waiting_def)
    moreover have "r = fst (adm q a (cancel_waiting q s))" "s' = snd (adm q a (cancel_waiting q s))" using 3(1) by (metis fst_conv, metis snd_conv)
    ultimately show ?thesis using i by simp
  qed
qed

lemma inner_kept:
  assumes "inner_step env Q s s'" and "runtime_inv s" and "q' \<in> Q"
  shows "kept q' s s'"
  using assms
proof (induction rule: inner_step.induct)
  case (InStart adm q s k uri digest eds)
  then have "q' \<noteq> q" by blast
  then show ?case using start_at [OF InStart(1) InStart.prems(1) InStart(2) surjective_pairing] by blast
next
  case (InResume adm q s)
  then have "q' \<noteq> q" by blast
  then show ?case by (rule resume_kept [OF InResume(1) _ surjective_pairing])
next
  case (InCancel q s)
  then show ?case by (intro cancel_kept) blast
next
  case (InRelease q s)
  then show ?case by (intro release_kept) blast
qed (rule drain_actor_kept fetch_kept import_kept remove_kept)+

lemma inner_runtime: "inner_step env Q s s' \<Longrightarrow> runtime_step env s s'"
  by (induction rule: inner_step.induct) (auto intro: runtime_step.intros simp: idle_request_def)

section \<open>The leases that run\<close>

definition running_lease :: "Admission.admission \<Rightarrow> string \<Rightarrow> lease option" where
  "running_lease ad lid = (case map_of (leases ad) lid of Some l \<Rightarrow> if l_state l = RUNNING then Some l else None | None \<Rightarrow> None)"

lemma running_expire: "admission_inv ad \<Longrightarrow> running_lease (expire now rel ad) = running_lease ad"
  by (rule ext) (simp add: running_lease_def expire_get expired_def split: option.split)

lemma running_reserve:
  assumes "admission_inv ad" and "lid \<notin> fst ` set (leases ad)"
  shows "running_lease (snd (try_reserve lid now rel rq tt sv rv ad)) = running_lease ad"
proof -
  let ?e = "expire now rel ad"
  have "map_of (leases ad) lid = None" using assms(2) by (simp add: map_of_eq_None_iff)
  then have n: "running_lease ?e lid = None" using assms(1) by (simp add: running_expire) (simp add: running_lease_def)
  have "running_lease (?e\<lparr>idle_since := i, active_io := n, leases := AList.update lid l (leases ?e)\<rparr>) = running_lease ?e"
    if "l_state l = RESERVED" for i n l
    using n that by (auto simp: running_lease_def update_conv' fun_eq_iff)
  then show ?thesis using running_expire [OF assms(1)] by (simp add: try_reserve_def Let_def)
qed

lemma running_start:
  assumes "admission_inv ad" and "start_lease now rel lid ad = (r, ad')"
  shows "case r of
      Inl _ \<Rightarrow> running_lease ad' = running_lease ad
    | Inr l \<Rightarrow> running_lease ad lid = None \<and> running_lease ad' = (running_lease ad)(lid \<mapsto> l)"
proof -
  let ?e = "expire now rel ad"
  have e: "running_lease ?e = running_lease ad" using assms(1) by (rule running_expire)
  show ?thesis
  proof (cases "map_of (leases ?e) lid")
    case None
    then show ?thesis using assms(2) e by (auto simp: start_lease_def Let_def)
  next
    case (Some l)
    show ?thesis
    proof (cases "l_state l = RESERVED")
      case True
      then have "running_lease ?e lid = None" by (simp add: running_lease_def Some)
      moreover have "running_lease (?e\<lparr>leases := AList.update lid l' (leases ?e)\<rparr>) = (running_lease ?e)(lid \<mapsto> l')"
        if "l_state l' = RUNNING" for l'
        using that by (auto simp: running_lease_def update_conv' fun_eq_iff)
      ultimately show ?thesis using assms(2) e True Some by (auto simp: start_lease_def Let_def)
    next
      case False
      then show ?thesis using assms(2) e Some by (auto simp: start_lease_def Let_def)
    qed
  qed
qed

lemma running_drop: "running_lease (drop_lease rel lid ad) = (running_lease ad)(lid := None)"
  by (auto simp: running_lease_def delete_conv' fun_eq_iff)

lemma running_finish: "running_lease (snd (finish_lease rel lid ad)) = (running_lease ad)(lid := None)"
proof (cases "map_of (leases ad) lid")
  case None
  then have "running_lease ad lid = None" by (simp add: running_lease_def)
  then show ?thesis by (simp add: finish_lease_def None fun_upd_idem)
qed (simp add: finish_lease_def running_drop)

lemma running_cancel: "running_lease (snd (cancel_reservation rel lid ad)) = running_lease ad"
proof (cases "map_of (leases ad) lid")
  case None
  then show ?thesis by (simp add: cancel_reservation_def)
next
  case (Some l)
  show ?thesis
  proof (cases "l_state l = RESERVED")
    case True
    then have "running_lease ad lid = None" by (simp add: running_lease_def Some)
    then show ?thesis by (simp add: cancel_reservation_def Some True running_drop fun_upd_idem)
  qed (simp add: cancel_reservation_def Some)
qed

lemma running_drain: "running_lease (drain_actor ad) = running_lease ad"
  by (simp add: running_lease_def drain_actor_def fun_eq_iff)

lemma running_status: "admission_inv ad \<Longrightarrow> running_lease (snd (status now rel ad)) = running_lease ad"
  by (simp add: status_def Let_def running_expire)

section \<open>The invariant of an actor\<close>

definition executions_pinned :: "actor \<Rightarrow> bool" where
  "executions_pinned a = (\<forall>lid q l. (lid, q) \<in> set (ac_executions a) \<longrightarrow> running_lease (ac_admission a) lid = Some l \<longrightarrow>
     request_at q (lease_version l) (ac_runtime a))"

definition actor_inv :: "actor \<Rightarrow> bool" where
  "actor_inv a =
     (admission_inv (ac_admission a) \<and> runtime_inv (ac_runtime a) \<and>
      distinct (map fst (ac_executions a)) \<and> distinct (map snd (ac_executions a)) \<and>
      dom (running_lease (ac_admission a)) = fst ` set (ac_executions a) \<and> executions_pinned a)"

lemma actor_inv_admission:
  assumes "actor_inv a" and "admission_inv ad" and "running_lease ad = running_lease (ac_admission a)"
  shows "actor_inv (a\<lparr>ac_admission := ad\<rparr>)"
  using assms by (simp add: actor_inv_def executions_pinned_def)

lemma actor_inv_runtime:
  assumes "actor_inv a" and "runtime_inv rt"
    and "\<And>lid q l. (lid, q) \<in> set (ac_executions a) \<Longrightarrow> running_lease (ac_admission a) lid = Some l \<Longrightarrow>
      request_at q (lease_version l) (ac_runtime a) \<Longrightarrow> request_at q (lease_version l) rt"
  shows "actor_inv (a\<lparr>ac_runtime := rt\<rparr>)"
  using assms by (simp add: actor_inv_def executions_pinned_def)

lemma settle_inv:
  assumes "actor_inv a" shows "actor_inv (settle rel lid a)"
proof -
  have "distinct (map snd (AList.delete lid xs))" if "distinct (map snd xs)" for xs :: "(string, nat) dict"
    using that by (simp add: AList.delete_eq distinct_map_filter)
  then show ?thesis
    using assms by (auto simp: actor_inv_def settle_def finish_lease_inv distinct_delete running_finish keys_delete
        executions_pinned_def set_delete split: if_splits)
qed

text \<open>The request of one execution moves on; the others keep theirs.\<close>

lemma execution_moves:
  assumes I: "actor_inv a" and e: "map_of (ac_executions a) lid = Some q" and "runtime_inv rt"
    and "\<And>k. request_at q k (ac_runtime a) \<Longrightarrow> request_at q k rt"
    and "\<And>q'. q' \<noteq> q \<Longrightarrow> kept q' (ac_runtime a) rt"
  shows "actor_inv (a\<lparr>ac_runtime := rt\<rparr>)"
proof (rule actor_inv_runtime [OF I assms(3)])
  fix lid' q' l
  assume "(lid', q') \<in> set (ac_executions a)" and r: "request_at q' (lease_version l) (ac_runtime a)"
  show "request_at q' (lease_version l) rt"
    using r assms(4) request_at_kept [OF r assms(5)] by (cases "q' = q") simp_all
qed

lemma executions_inv_unpack:
  assumes "actor_inv a"
  shows "runtime_inv (ac_runtime a)" "admission_inv (ac_admission a)"
    "map_of (ac_executions a) lid = Some q \<Longrightarrow> \<exists>l. running_lease (ac_admission a) lid = Some l \<and> request_at q (lease_version l) (ac_runtime a)"
proof -
  show "runtime_inv (ac_runtime a)" "admission_inv (ac_admission a)" using assms by (simp_all add: actor_inv_def)
  show "\<exists>l. running_lease (ac_admission a) lid = Some l \<and> request_at q (lease_version l) (ac_runtime a)"
    if q: "map_of (ac_executions a) lid = Some q"
  proof -
    have "lid \<in> dom (running_lease (ac_admission a))" using key_of_entry [OF q] assms by (simp add: actor_inv_def)
    then obtain l where "running_lease (ac_admission a) lid = Some l" by blast
    then show ?thesis using assms map_of_SomeD [OF q] by (auto simp: actor_inv_def executions_pinned_def)
  qed
qed

lemma execute_inv:
  assumes I: "actor_inv a" and q: "idle_request q (ac_runtime a)" "q \<notin> executions_of a"
    and x: "execute now rel lid q x a = (r, b)"
  shows "actor_inv b"
proof -
  obtain r1 ad where st: "start_lease now rel lid (ac_admission a) = (r1, ad)" by fastforce
  have A: "admission_inv (ac_admission a)" and R: "runtime_inv (ac_runtime a)" using executions_inv_unpack [OF I] by blast+
  have ad: "admission_inv ad" using start_lease_inv [OF A, of now rel lid] by (simp add: st)
  note run = running_start [OF A st]
  show ?thesis
  proof (cases r1)
    case (Inl e)
    then have "b = a\<lparr>ac_admission := ad\<rparr>" using x st by (simp add: execute_def)
    then show ?thesis using actor_inv_admission [OF I ad] run Inl by simp
  next
    case (Inr l)
    then have none: "running_lease (ac_admission a) lid = None" and some: "running_lease ad = (running_lease (ac_admission a))(lid \<mapsto> l)"
      using run by simp_all
    have d: "dom (running_lease (ac_admission a)) = fst ` set (ac_executions a)" using I by (simp add: actor_inv_def)
    then have new: "lid \<notin> fst ` set (ac_executions a)" using none by blast
    let ?a = "\<lambda>rt. a\<lparr>ac_admission := ad, ac_executions := AList.update lid q (ac_executions a), ac_runtime := rt\<rparr>"
    have P: "actor_inv (?a rt)" if rt: "runtime_inv rt" "request_at q (lease_version l) rt"
      "\<And>q'. q' \<noteq> q \<Longrightarrow> kept q' (ac_runtime a) rt" for rt
    proof -
      have "request_at q' (lease_version l') rt"
        if e: "(lid', q') \<in> set (ac_executions a @ [(lid, q)])" and l': "running_lease ad lid' = Some l'" for lid' q' l'
      proof (cases "(lid', q') = (lid, q)")
        case True
        then show ?thesis using rt(2) l' some by simp
      next
        case False
        then have old: "(lid', q') \<in> set (ac_executions a)" using e by auto
        then have "q' \<noteq> q" "lid' \<noteq> lid" using q(2) new by force+
        then have "request_at q' (lease_version l') (ac_runtime a)" using I old l' some by (simp add: actor_inv_def executions_pinned_def)
        then show ?thesis by (rule request_at_kept [OF _ rt(3) [OF \<open>q' \<noteq> q\<close>]])
      qed
      then have "executions_pinned (?a rt)" unfolding executions_pinned_def by (simp add: update_new [OF new])
      then show ?thesis using I ad rt(1) q(2) new d by (auto simp: actor_inv_def some update_new [OF new])
    qed
    have P0: "actor_inv (a\<lparr>ac_admission := ad, ac_executions := AList.update lid q (ac_executions a)\<rparr>)"
      using P [of "ac_runtime a"] R request_at_idle [OF q(1)] by simp
    show ?thesis
    proof (cases "endpoint_checked x l")
      case (Inl e)
      then show ?thesis using x st \<open>r1 = Inr l\<close> settle_inv [OF P0] by (auto simp: execute_def Let_def)
    next
      case (Inr eds)
      obtain r2 rt where rt: "start_request (admission_of x eds) q (lease_version l) (xq_uri x) (xq_digest x) eds (ac_runtime a) = (r2, rt)"
        by fastforce
      have adm: "is_admission (admission_of x eds)" unfolding is_admission_def admission_of_def by (cases "xq_grpc x") auto
      have "runtime_inv rt" using start_inv [OF adm R, of q] q(1) rt by (metis idle_request_def snd_conv)
      then have "actor_inv (?a rt)" using P start_at [OF adm R q(1) rt] by blast
      then show ?thesis using x st \<open>r1 = Inr l\<close> Inr rt settle_inv by (auto simp: execute_def Let_def split: sum.splits)
    qed
  qed
qed

lemma continue_inv:
  assumes I: "actor_inv a" and adm: "is_admission adm" shows "actor_inv (continue_execution adm rel lid a)"
proof (cases "map_of (ac_executions a) lid")
  case (Some q)
  obtain r rt where rt: "resume_request adm q (ac_runtime a) = (r, rt)" by fastforce
  have R: "runtime_inv (ac_runtime a)" using executions_inv_unpack [OF I] by blast
  have "actor_inv (a\<lparr>ac_runtime := rt\<rparr>)"
  proof (rule execution_moves [OF I Some])
    show "runtime_inv rt" using resume_inv [OF adm R, of q] by (simp add: rt)
    show "request_at q k rt" if "request_at q k (ac_runtime a)" for k using resume_at [OF adm R that rt] by blast
    show "kept q' (ac_runtime a) rt" if "q' \<noteq> q" for q' by (rule resume_kept [OF adm that rt])
  qed
  then show ?thesis using settle_inv by (auto simp: continue_execution_def Some rt split: sum.splits)
qed (simp add: continue_execution_def I)

lemma release_inv': "runtime_inv s \<Longrightarrow> runtime_inv (release q s)"
  by (rule runtime_step_inv [OF runtime_step.Release])

lemma cancel_inv': "runtime_inv s \<Longrightarrow> runtime_inv (cancel_waiting q s)"
  by (rule runtime_step_inv [OF runtime_step.Cancel])

lemma release_idle:
  assumes "versions_inv {} s" and "q \<in> fst ` set (rt_running s)" shows "idle_request q (release q s)"
proof -
  obtain a where a: "map_of (rt_running s) q = Some a" using assms(2) by (metis map_of_eq_None_iff option.exhaust)
  have u: "rt_waiting (unload k t) = rt_waiting t" "rt_running (unload k t) = rt_running t" for k t
    by (simp_all add: unload_def Let_def split: option.split)
  have "rt_waiting (release q s) = rt_waiting s" "rt_running (release q s) = AList.delete q (rt_running s)"
    by (simp_all add: release_def a Let_def u)
  moreover have "q \<notin> fst ` set (rt_waiting s)" using assms by (auto simp: versions_inv_def)
  ultimately show ?thesis by (simp add: idle_request_def keys_delete)
qed

lemma end_inv: assumes I: "actor_inv a" shows "actor_inv (end_execution rel lid a)"
proof (cases "map_of (ac_executions a) lid")
  case (Some q)
  have R: "runtime_inv (ac_runtime a)" using executions_inv_unpack [OF I] by blast
  have "actor_inv (a\<lparr>ac_runtime := release q (ac_runtime a)\<rparr>)" if q: "q \<in> fst ` set (rt_running (ac_runtime a))"
  proof (rule execution_moves [OF I Some release_inv' [OF R]])
    have "idle_request q (release q (ac_runtime a))" using R q by (intro release_idle) (simp_all add: runtime_inv_def)
    then show "request_at q k (release q (ac_runtime a))" for k by (rule request_at_idle)
  qed (rule release_kept)
  then show ?thesis using settle_inv I by (simp add: end_execution_def Some Let_def)
qed (simp add: end_execution_def I)

lemma cancel_execution_inv: assumes I: "actor_inv a" shows "actor_inv (snd (cancel_execution rel lid a))"
proof (cases "map_of (ac_executions a) lid")
  case None
  have "admission_inv (snd (cancel_reservation rel lid (ac_admission a)))"
    using executions_inv_unpack(2) [OF I] by (rule cancel_reservation_inv)
  then show ?thesis using actor_inv_admission [OF I _ running_cancel] by (simp add: cancel_execution_def None case_prod_unfold Let_def)
next
  case (Some q)
  have R: "runtime_inv (ac_runtime a)" using executions_inv_unpack [OF I] by blast
  have "actor_inv (a\<lparr>ac_runtime := cancel_waiting q (ac_runtime a)\<rparr>)" if q: "q \<in> fst ` set (rt_waiting (ac_runtime a))"
  proof (rule execution_moves [OF I Some cancel_inv' [OF R]])
    have "idle_request q (cancel_waiting q (ac_runtime a))" using R q by (intro cancel_idle) (simp_all add: runtime_inv_def)
    then show "request_at q k (cancel_waiting q (ac_runtime a))" for k by (rule request_at_idle)
  qed (rule cancel_kept)
  then show ?thesis using settle_inv I by (simp add: cancel_execution_def Some)
qed

lemma actor_step_inv: "actor_step env a b \<Longrightarrow> actor_inv a \<Longrightarrow> actor_inv b"
proof (induction rule: actor_step.induct)
  case (Reserve lid a now rel rq tt sv rv)
  have A: "admission_inv (ac_admission a)" using executions_inv_unpack [OF Reserve(2)] by blast
  have "actor_inv (a\<lparr>ac_admission := snd (try_reserve lid now rel rq tt sv rv (ac_admission a))\<rparr>)"
    by (rule actor_inv_admission [OF Reserve(2) try_reserve_inv [OF A Reserve(1)] running_reserve [OF A Reserve(1)]])
  then show ?case using Reserve(2) by (auto simp: reserve_actor_def split: prod.splits sum.splits)
next
  case (Execute q a now rel lid x)
  then show ?case using execute_inv [OF _ _ _ surjective_pairing] by blast
next
  case (CancelReservation a rel lid)
  have A: "admission_inv (ac_admission a)" using executions_inv_unpack [OF CancelReservation] by blast
  show ?case by (rule actor_inv_admission [OF CancelReservation cancel_reservation_inv [OF A] running_cancel])
next
  case (DrainActor a)
  have A: "admission_inv (ac_admission a)" using executions_inv_unpack [OF DrainActor] by blast
  show ?case unfolding drain_whole_actor_def by (rule actor_inv_admission [OF DrainActor drain_actor_inv [OF A] running_drain])
next
  case (Status a now rel)
  have A: "admission_inv (ac_admission a)" using executions_inv_unpack [OF Status] by blast
  show ?case
    using actor_inv_admission [OF Status status_inv [OF A] running_status [OF A]]
    by (simp add: unified_status_def case_prod_unfold Let_def)
next
  case (Inner a rt)
  have R: "runtime_inv (ac_runtime a)" using executions_inv_unpack [OF Inner(2)] by blast
  show ?case
  proof (rule actor_inv_runtime [OF Inner(2) runtime_step_inv [OF inner_runtime [OF Inner(1)] R]])
    fix lid q l
    assume "(lid, q) \<in> set (ac_executions a)" and r: "request_at q (lease_version l) (ac_runtime a)"
    then have "q \<in> executions_of a" by force
    then show "request_at q (lease_version l) rt" by (rule request_at_kept [OF r inner_kept [OF Inner(1) R]])
  qed
qed (auto simp: close_execution_def continue_inv end_inv cancel_execution_inv settle_inv split: option.split)

lemma actor_init_inv: "actor_init a \<Longrightarrow> actor_inv a"
proof -
  assume "actor_init a"
  then obtain profile mx ttl now where n: "new_actor profile mx ttl now = Inr a" by (auto simp: actor_init_def)
  then obtain ad where ad: "new_controller mx ttl now = Inr ad"
    and a: "a = \<lparr>ac_profile = profile, ac_admission = ad, ac_runtime = new_runtime False, ac_executions = []\<rparr>"
    by (cases "new_controller mx ttl now") (simp_all add: new_actor_def)
  have "admission_inv ad" using ad fresh_controller_inv by (auto simp: fresh_controller_def)
  moreover have "leases ad = []" using ad by (auto simp: new_controller_def split: if_splits)
  then have "running_lease ad = Map.empty" by (simp add: running_lease_def fun_eq_iff)
  ultimately show ?thesis by (simp add: actor_inv_def a new_runtime_inv executions_pinned_def)
qed

interpretation actor: inductive_invariant actor_init "actor_step env" actor_inv for env
  by unfold_locales (auto intro: actor_init_inv actor_step_inv)

section \<open>What an actor promises\<close>

lemma executions_settle: "lid' \<noteq> lid \<Longrightarrow> map_of (ac_executions (settle rel lid a)) lid' = map_of (ac_executions a) lid'"
  by (simp add: settle_def delete_conv')

lemma lease_settled: "admission_inv (ac_admission a) \<Longrightarrow> map_of (leases (ac_admission (settle rel lid a))) lid = None"
  by (simp add: settle_def finish_lease_def dict_get_delete split: option.split)

lemma execute_others:
  assumes I: "actor_inv a" and "map_of (ac_executions a) lid = Some q"
  shows "map_of (ac_executions (snd (execute now rel lid' q' x a))) lid = Some q"
proof -
  obtain r1 ad where st: "start_lease now rel lid' (ac_admission a) = (r1, ad)" by fastforce
  have A: "admission_inv (ac_admission a)" using executions_inv_unpack [OF I] by blast
  obtain l where "running_lease (ac_admission a) lid = Some l" using executions_inv_unpack(3) [OF I assms(2)] by blast
  then have n: "lid' \<noteq> lid" if "r1 = Inr l'" for l' using running_start [OF A st] that by auto
  show ?thesis
  proof (cases r1)
    case (Inl e)
    then show ?thesis using assms(2) st by (simp add: execute_def)
  next
    case (Inr l')
    then show ?thesis
      using assms(2) st n [OF Inr] by (auto simp: execute_def Let_def executions_settle update_conv' split: sum.splits prod.splits)
  qed
qed

lemma lease_ends_idle:
  assumes "actor_step env a b" and "actor_inv a" and "map_of (ac_executions a) lid = Some q" and "map_of (ac_executions b) lid = None"
  shows "idle_request q (ac_runtime b) \<and> map_of (leases (ac_admission b)) lid = None"
  using assms
proof (induction rule: actor_step.induct)
  case (Reserve lid' a now rel rq tt sv rv)
  then show ?case by (auto simp: reserve_actor_def split: prod.splits sum.splits if_splits)
next
  case (Execute q' a now rel lid' x)
  then show ?case using execute_others by simp
next
  case (Continue adm a rel lid')
  have A: "admission_inv (ac_admission a)" and R: "runtime_inv (ac_runtime a)" using executions_inv_unpack [OF Continue(2)] by blast+
  have same: "lid' = lid"
  proof (rule ccontr)
    assume n: "lid' \<noteq> lid"
    show False using Continue.prems(2,3) executions_settle [OF n [symmetric]]
      by (simp add: continue_execution_def split: option.splits prod.splits sum.splits)
  qed
  obtain r rt where rt: "resume_request adm q (ac_runtime a) = (r, rt)" by fastforce
  obtain e where e: "r = Inl e"
    using Continue.prems(2,3) rt by (cases r) (simp_all add: continue_execution_def same)
  obtain l where "request_at q (lease_version l) (ac_runtime a)" using executions_inv_unpack(3) [OF Continue.prems(1,2)] by blast
  then have "idle_request q rt" using resume_at [OF Continue(1) R _ rt] e by blast
  then show ?case using lease_settled [of "a\<lparr>ac_runtime := rt\<rparr>"] A Continue.prems(2) rt e
    by (simp add: continue_execution_def same) (simp add: settle_def)
next
  case (End a rel lid')
  have A: "admission_inv (ac_admission a)" and R: "runtime_inv (ac_runtime a)" using executions_inv_unpack [OF End(1)] by blast+
  have same: "lid' = lid"
  proof (rule ccontr)
    assume n: "lid' \<noteq> lid"
    show False using End.prems(2,3) executions_settle [OF n [symmetric]]
      by (simp add: end_execution_def Let_def split: option.splits if_splits)
  qed
  have q: "q \<in> fst ` set (rt_running (ac_runtime a))" using End.prems(2,3) by (auto simp: end_execution_def same split: if_splits)
  have "idle_request q (release q (ac_runtime a))" using R q by (intro release_idle) (simp_all add: runtime_inv_def)
  then show ?case using lease_settled [of "a\<lparr>ac_runtime := release q (ac_runtime a)\<rparr>"] A End.prems(2,3) q
    by (simp add: end_execution_def same Let_def split: if_splits) (simp add: settle_def)
next
  case (Close a rel lid')
  have A: "admission_inv (ac_admission a)" using executions_inv_unpack [OF Close(1)] by blast
  have same: "lid' = lid"
  proof (rule ccontr)
    assume n: "lid' \<noteq> lid"
    show False using Close.prems(2,3) executions_settle [OF n [symmetric]]
      by (simp add: close_execution_def split: option.splits if_splits)
  qed
  have q: "idle_request q (ac_runtime a)" using Close.prems(2,3) by (auto simp: close_execution_def same split: if_splits)
  then show ?case using lease_settled [of a] A Close.prems(2) by (simp add: close_execution_def same) (simp add: settle_def)
next
  case (CancelExecution a rel lid')
  have A: "admission_inv (ac_admission a)" and R: "runtime_inv (ac_runtime a)" using executions_inv_unpack [OF CancelExecution(1)] by blast+
  have same: "lid' = lid"
  proof (rule ccontr)
    assume n: "lid' \<noteq> lid"
    show False using CancelExecution.prems(2,3) executions_settle [OF n [symmetric]]
      by (simp add: cancel_execution_def case_prod_unfold Let_def split: option.splits if_splits)
  qed
  have q: "q \<in> fst ` set (rt_waiting (ac_runtime a))" using CancelExecution.prems(2,3) by (auto simp: cancel_execution_def same split: if_splits)
  have "idle_request q (cancel_waiting q (ac_runtime a))" using R q by (intro cancel_idle) (simp_all add: runtime_inv_def)
  then show ?case using lease_settled [of "a\<lparr>ac_runtime := cancel_waiting q (ac_runtime a)\<rparr>"] A CancelExecution.prems(2) q
    by (simp add: cancel_execution_def same) (simp add: settle_def)
qed (simp_all add: drain_whole_actor_def unified_status_def case_prod_unfold Let_def)

lemma executions_counted:
  assumes "actor_inv a"
  shows "int (length (ac_executions a)) + int (reserved_count (ac_admission a)) = active_io (ac_admission a)"
proof -
  let ?ls = "leases (ac_admission a)"
  have d: "distinct (map fst ?ls)" "active_io (ac_admission a) = int (length ?ls)"
    using assms by (simp_all add: actor_inv_def admission_inv_def)
  have run: "running_lease (ac_admission a) k = Some l \<longleftrightarrow> (k, l) \<in> set ?ls \<and> l_state l = RUNNING" for k l
    unfolding map_of_distinct_iff [OF d(1), symmetric] by (auto simp: running_lease_def split: option.split)
  have "k \<in> dom (running_lease (ac_admission a)) \<longleftrightarrow> k \<in> fst ` set (filter (\<lambda>(k, l). l_state l = RUNNING) ?ls)" for k
  proof -
    have "k \<in> dom (running_lease (ac_admission a)) \<longleftrightarrow> (\<exists>l. (k, l) \<in> set ?ls \<and> l_state l = RUNNING)" by (simp add: dom_def run)
    then show ?thesis by (auto simp: image_iff)
  qed
  then have "dom (running_lease (ac_admission a)) = fst ` set (filter (\<lambda>(k, l). l_state l = RUNNING) ?ls)" by (rule set_eqI)
  then have "set (map fst (ac_executions a)) = set (map fst (filter (\<lambda>(k, l). l_state l = RUNNING) ?ls))"
    using assms by (simp add: actor_inv_def)
  moreover have "distinct (map fst (ac_executions a))" using assms by (simp add: actor_inv_def)
  moreover have "distinct (map fst (filter (\<lambda>(k, l). l_state l = RUNNING) ?ls))" using d(1) by (rule distinct_map_filter)
  ultimately have "length (ac_executions a) = length (filter (\<lambda>(k, l). l_state l = RUNNING) ?ls)"
    by (metis distinct_card length_map)
  moreover have "length (filter (\<lambda>(k, l). l_state l = RUNNING) ?ls) + reserved_count (ac_admission a) = length ?ls"
  proof -
    have "(\<lambda>(k, l). l_state l = RESERVED) = (\<lambda>p :: string \<times> lease. \<not> (case p of (k, l) \<Rightarrow> l_state l = RUNNING))"
      by (auto simp: fun_eq_iff) (metis lease_state.exhaust lease_state.distinct)+
    then show ?thesis unfolding reserved_count_def by (simp only: sum_length_filter_compl)
  qed
  ultimately show ?thesis using d(2) by simp
qed

text \<open>C2. The capacity of an actor is exactly its executions and pending reservations, however requests, loads, failures,
  cancellations, drains and calls between endpoints interleave: every lease that runs is an execution under way and
  the other way round, they are at most \<open>max_io\<close>, an execution runs on the version registered for the service and
  revision of its lease, whose modules are present, and a lease ends only when its request no longer runs or waits.\<close>

theorem actor_consistent:
  assumes "reachable actor_init (actor_step env) a"
  shows "int (length (ac_executions a)) + int (reserved_count (ac_admission a)) = active_io (ac_admission a) \<and>
    active_io (ac_admission a) \<le> max_io (ac_admission a) \<and>
    (\<forall>lid. lid \<in> fst ` set (ac_executions a) \<longleftrightarrow> (\<exists>l. map_of (leases (ac_admission a)) lid = Some l \<and> l_state l = RUNNING)) \<and>
    (\<forall>lid q v l. map_of (ac_executions a) lid = Some q \<longrightarrow> map_of (rt_running (ac_runtime a)) q = Some v \<longrightarrow>
       map_of (leases (ac_admission a)) lid = Some l \<longrightarrow>
       map_of (rt_versions (ac_runtime a)) (VKey (l_service l) (l_revision l)) = Some v \<and>
       VKey (l_service l) (l_revision l) \<in> set (rt_modules (ac_runtime a))) \<and>
    (\<forall>b lid q. actor_step env a b \<longrightarrow> map_of (ac_executions a) lid = Some q \<longrightarrow> map_of (ac_executions b) lid = None \<longrightarrow>
       map_of (leases (ac_admission b)) lid = None \<and> map_of (rt_running (ac_runtime b)) q = None \<and> map_of (rt_waiting (ac_runtime b)) q = None)"
proof -
  have I: "actor_inv a" using assms by (rule actor.reach_inv)
  have R: "runtime_inv (ac_runtime a)" using executions_inv_unpack [OF I] by blast
  have m: "active_io (ac_admission a) \<le> max_io (ac_admission a)" using I by (simp add: actor_inv_def admission_inv_def)
  have run: "running_lease (ac_admission a) lid = Some l \<longleftrightarrow> map_of (leases (ac_admission a)) lid = Some l \<and> l_state l = RUNNING" for lid l
    by (auto simp: running_lease_def split: option.split)
  have d: "dom (running_lease (ac_admission a)) = fst ` set (ac_executions a)" using I by (simp add: actor_inv_def)
  have iff: "lid \<in> fst ` set (ac_executions a) \<longleftrightarrow> (\<exists>l. map_of (leases (ac_admission a)) lid = Some l \<and> l_state l = RUNNING)" for lid
    unfolding d [symmetric] dom_def using run by auto
  have on: "map_of (rt_versions (ac_runtime a)) (VKey (l_service l) (l_revision l)) = Some v \<and>
       VKey (l_service l) (l_revision l) \<in> set (rt_modules (ac_runtime a))"
    if q: "map_of (ac_executions a) lid = Some q" and v: "map_of (rt_running (ac_runtime a)) q = Some v"
      and l: "map_of (leases (ac_admission a)) lid = Some l" for lid q v l
  proof -
    obtain l' where "running_lease (ac_admission a) lid = Some l'" and at: "request_at q (lease_version l') (ac_runtime a)"
      using executions_inv_unpack(3) [OF I q] by blast
    then have "l' = l" using l run by simp
    then have k: "vs_key (ver (ac_runtime a) v) = VKey (l_service l) (l_revision l)"
      using at v by (simp add: request_at_def lease_version_def)
    have "placed (ac_runtime a)" and mods: "set (rt_modules (ac_runtime a)) = fst ` set (rt_versions (ac_runtime a))"
      using R by (simp_all add: runtime_inv_def versions_inv_def)
    then have "map_of (rt_versions (ac_runtime a)) (VKey (l_service l) (l_revision l)) = Some v" using placedD [OF _ v] k by simp
    then show ?thesis using mods key_of_entry by simp
  qed
  have ends: "map_of (leases (ac_admission b)) lid = None \<and> map_of (rt_running (ac_runtime b)) q = None \<and> map_of (rt_waiting (ac_runtime b)) q = None"
    if "actor_step env a b" and "map_of (ac_executions a) lid = Some q" and "map_of (ac_executions b) lid = None" for b lid q
    using lease_ends_idle [OF that(1) I that(2,3)] by (simp add: idle_request_def map_of_eq_None_iff)
  show ?thesis using executions_counted [OF I] m iff on ends by blast
qed

text \<open>One reservation that is executed, on a version that must load first, and its cancellation.\<close>

definition demo_execution :: execute_call where
  "demo_execution = \<lparr>xq_grpc = False, xq_endpoint = ''run'', xq_uri = [], xq_digest = [],
     xq_manifest = [[(''id'', JStr ''run''), (''task_type'', JStr ''io''), (''entrypoint'', JStr ''main:run''), (''io_type'', JArr [])]]\<rparr>"

definition demo_lease :: "lease_state \<Rightarrow> time option \<Rightarrow> lease" where
  "demo_lease st t = \<lparr>l_id = ''L'', l_request_id = ''r'', l_task_type = ''io'', l_service = ''a'', l_revision = ''1'', l_state = st, l_expires_at = t\<rparr>"

definition demo_admitted :: "lease_state \<Rightarrow> time option \<Rightarrow> Admission.admission" where
  "demo_admitted st t = \<lparr>max_io = 5, lease_ttl_seconds = 10, active_io = 1, actor_draining = False,
     leases = [(''L'', demo_lease st t)], idle_since = None\<rparr>"

definition demo_actor :: "Admission.admission \<Rightarrow> runtime \<Rightarrow> (string \<times> nat) list \<Rightarrow> actor" where
  "demo_actor ad rt xs = \<lparr>ac_profile = ''p'', ac_admission = ad, ac_runtime = rt, ac_executions = xs\<rparr>"

definition demo_waiting :: runtime where
  "demo_waiting = snd (start_request (admission_of demo_execution []) 0 demo_key [] []
     [\<lparr>ed_id = JStr ''run'', ed_task = JStr ''io'', ed_entry = JStr ''main:run'', ed_grpc = None, ed_params = [], ed_response = [], ed_io = []\<rparr>]
     (new_runtime False))"

lemma demo_execute:
  "execute 1 1 ''L'' 0 demo_execution (demo_actor (demo_admitted RESERVED (Some 10)) (new_runtime False) []) =
    (Inr (), demo_actor (demo_admitted RUNNING None) demo_waiting [(''L'', 0)])"
proof -
  let ?eds = "[\<lparr>ed_id = JStr ''run'', ed_task = JStr ''io'', ed_entry = JStr ''main:run'', ed_grpc = None, ed_params = [], ed_response = [], ed_io = []\<rparr>]"
  have st: "start_lease 1 1 ''L'' (demo_admitted RESERVED (Some 10)) = (Inr (demo_lease RUNNING None), demo_admitted RUNNING None)"
    by (simp add: start_lease_def expire_def demo_admitted_def demo_lease_def expired_def Let_def)
  have m: "mapE definition_of (xq_manifest demo_execution) = Inr ?eds"
    by (simp add: demo_execution_def definition_of_def grpc_definition_of_def item_at_def dget_def dfind_def
        schema_params_def metadata_fields_def List.map_filter_simps)
  have ck: "endpoint_checked demo_execution (demo_lease RUNNING None) = Inr ?eds"
    by (simp add: endpoint_checked_def m) (simp add: demo_execution_def demo_lease_def)
  have sr: "start_request adm 0 demo_key [] [] ?eds (new_runtime False) = (Inr (), demo_waiting)" for adm
    by (simp add: demo_waiting_def start_request_def ensure_loaded_def new_runtime_def Let_def)
  have k: "lease_version (demo_lease RUNNING None) = demo_key" "xq_uri demo_execution = []" "xq_digest demo_execution = []"
    by (simp_all add: lease_version_def demo_lease_def demo_key_def demo_execution_def)
  have a: "ac_admission (demo_actor ad rt xs) = ad" for ad rt xs by (simp add: demo_actor_def)
  have b: "(demo_actor ad rt [])\<lparr>ac_admission := ad', ac_executions := AList.update ''L'' 0 (ac_executions (demo_actor ad rt []))\<rparr> = demo_actor ad' rt [(''L'', 0)]"
    for ad rt ad' by (simp add: demo_actor_def)
  have c: "ac_runtime (demo_actor ad rt xs) = rt" "(demo_actor ad rt xs)\<lparr>ac_runtime := rt'\<rparr> = demo_actor ad rt' xs" for ad rt rt' xs
    by (simp_all add: demo_actor_def)
  show ?thesis by (simp only: execute_def a st prod.case sum.case Let_def b ck c k sr)
qed

theorem actor_consistent_witness:
  "\<exists>a b. reachable actor_init (actor_step demo_artifacts) a \<and> ac_executions a = [(''L'', 0)] \<and> active_io (ac_admission a) = 1 \<and>
     reserved_count (ac_admission a) = 0 \<and>
     actor_step demo_artifacts a b \<and> ac_executions b = [] \<and> map_of (leases (ac_admission b)) ''L'' = None \<and> map_of (rt_waiting (ac_runtime b)) 0 = None"
proof -
  let ?step = "actor_step demo_artifacts"
  let ?ad = "\<lparr>max_io = 5, lease_ttl_seconds = 10, active_io = 0, actor_draining = False, leases = [], idle_since = Some 0\<rparr>"
  let ?new = "demo_actor ?ad (new_runtime False) []" and ?res = "demo_actor (demo_admitted RESERVED (Some 10)) (new_runtime False) []"
  let ?a = "demo_actor (demo_admitted RUNNING None) demo_waiting [(''L'', 0)]"
  have "new_actor ''p'' 5 10 0 = Inr ?new" by (simp add: new_actor_def new_controller_def demo_actor_def)
  then have 0: "reachable actor_init ?step ?new" by (intro reachable.start) (auto simp: actor_init_def)
  have "snd (reserve_actor ''L'' 0 0 ''r'' ''io'' ''a'' ''1'' ?new) = ?res"
    by (simp add: reserve_actor_def demo_actor_def try_reserve_def expire_def demo_admitted_def demo_lease_def Let_def)
  then have 1: "?step ?new ?res"
    using actor_step.Reserve [of "''L''" ?new demo_artifacts 0 0 "''r''" "''io''" "''a''" "''1''"] by (simp add: demo_actor_def)
  have "idle_request 0 (ac_runtime ?res)" "0 \<notin> executions_of ?res" by (simp_all add: idle_request_def demo_actor_def new_runtime_def)
  then have 2: "?step ?res ?a" using actor_step.Execute [of 0 ?res demo_artifacts 1 1 "''L''" demo_execution] by (simp add: demo_execute)
  have R: "reachable actor_init ?step ?a" by (rule reachable.move [OF reachable.move [OF 0 1] 2])
  let ?b = "snd (cancel_execution 2 ''L'' ?a)"
  have 3: "?step ?a ?b" by (rule actor_step.CancelExecution)
  have w: "map_of (rt_waiting demo_waiting) 0 = Some 0"
    by (simp add: demo_waiting_def start_request_def ensure_loaded_def new_runtime_def Let_def fresh_task_def)
  have x: "map_of (ac_executions ?a) ''L'' = Some 0" by (simp add: demo_actor_def)
  have b: "ac_executions ?b = []"
    using key_of_entry [OF w] by (simp add: cancel_execution_def demo_actor_def settle_def)
  then have n: "map_of (ac_executions ?b) ''L'' = None" by simp
  have "map_of (leases (ac_admission ?b)) ''L'' = None \<and> map_of (rt_running (ac_runtime ?b)) 0 = None \<and> map_of (rt_waiting (ac_runtime ?b)) 0 = None"
    using actor_consistent [OF R] 3 x n by blast
  moreover have "active_io (ac_admission ?a) = 1" "reserved_count (ac_admission ?a) = 0"
    by (simp_all add: demo_actor_def demo_admitted_def reserved_count_def demo_lease_def)
  ultimately show ?thesis
    using R 3 b by (intro exI [of _ ?a] exI [of _ ?b] conjI) (simp_all add: demo_actor_def)
qed

end
