(* ===== verification/Calls.thy ===== *)
theory Calls
  imports Loader Invoke
begin

text \<open>
  Calls that artifact code makes to endpoints of its own revision: the Hook package (\<open>sc_hook/hook.py\<close>), which
  decides whether a call is local, refused or handed to a backend, and the backend of an IO actor
  (\<open>ActorRemoteCallBackend\<close> of \<open>runtime/actor.py\<close>), which runs it in the actor or as a Ray task. Artifact code
  is a parameter: a program that returns, raises or calls and goes on with what the call gave. The worker that
  runs a Ray task (\<open>runtime/compute.py\<close>) is at the end.
\<close>

section \<open>The Hook package\<close>

datatype task_type = IO | COMPUTE

record remote_func =
  rf_endpoint :: string
  rf_io_types :: "string list"
  rf_task :: task_type
  rf_cpus :: "rat option"
  rf_gpus :: "rat option"

datatype hook_error = IoTypeNeeded | IoTypeInvalid | IoTypesNotUnique | EmptyEndpointId | ResourcesOnIo | BadCpus | BadGpus

definition blank :: "string \<Rightarrow> bool" where
  \<comment> \<open>\<open>not s.strip()\<close> of ASCII text\<close>
  "blank s = list_all (\<lambda>c. c \<in> set [CHR '' '', CHR 0x09, CHR 0x0A, CHR 0x0B, CHR 0x0C, CHR 0x0D, CHR 0x1C, CHR 0x1D, CHR 0x1E, CHR 0x1F]) s"

definition hook :: "string list \<Rightarrow> string option \<Rightarrow> rat option \<Rightarrow> rat option \<Rightarrow> string \<Rightarrow> bool \<Rightarrow> hook_error + remote_func" where
  \<comment> \<open>the decorator on a function of this name, \<open>async\<close> or not; the checks of its annotations are not modelled\<close>
  "hook io_types endpoint_id num_cpus num_gpus name is_async =
     (if io_types = [] then Inl IoTypeNeeded
      else if \<not> set io_types \<subseteq> {''rest'', ''grpc'', ''inner''} then Inl IoTypeInvalid
      else if \<not> distinct io_types then Inl IoTypesNotUnique
      else
        let i = (case endpoint_id of None \<Rightarrow> name | Some i \<Rightarrow> i); task = (if is_async then IO else COMPUTE) in
        if i = [] \<or> blank i then Inl EmptyEndpointId
        else if task = IO \<and> (num_cpus \<noteq> None \<or> num_gpus \<noteq> None) then Inl ResourcesOnIo
        else if (\<exists>n \<in> set_option num_cpus. n \<le> 0) then Inl BadCpus
        else if (\<exists>n \<in> set_option num_gpus. n < 0) then Inl BadGpus
        else Inr \<lparr>rf_endpoint = i, rf_io_types = io_types, rf_task = task, rf_cpus = num_cpus, rf_gpus = num_gpus\<rparr>)"

record scope =
  sp_task :: "task_type option" \<comment> \<open>\<open>_CURRENT_TASK_TYPE\<close>\<close>
  sp_backend :: bool \<comment> \<open>a backend is bound\<close>

datatype hook_route = ContextError | ArgumentError | RunIo | RunCompute | ToBackend

definition call_route :: "scope \<Rightarrow> task_type \<Rightarrow> hook_route" where
  \<comment> \<open>\<open>RemoteFunc.__call__\<close>\<close>
  "call_route sp task =
     (if task = IO then RunIo
      else if sp_task sp = Some IO \<and> sp_backend sp then ContextError
      else RunCompute)"

definition remote_route :: "scope \<Rightarrow> task_type \<Rightarrow> bool \<Rightarrow> hook_route" where
  \<comment> \<open>\<open>RemoteFunc.remote_call\<close>; the last argument: the arguments fit the signature\<close>
  "remote_route sp task fits =
     (if sp_task sp \<noteq> Some IO then ContextError
      else if \<not> fits then ArgumentError
      else if \<not> sp_backend sp then (if task = IO then RunIo else RunCompute)
      else ToBackend)"

definition inside :: "task_type \<Rightarrow> scope \<Rightarrow> scope" where
  \<comment> \<open>the scope in which the function of an endpoint runs\<close>
  "inside task sp = sp\<lparr>sp_task := Some task\<rparr>"

lemma compute_makes_no_remote_call: "remote_route (inside COMPUTE sp) task fits = ContextError"
  by (simp add: remote_route_def inside_def)

lemma compute_goes_through_the_backend:
  "sp_backend sp \<Longrightarrow> call_route (inside IO sp) COMPUTE = ContextError \<and> remote_route (inside IO sp) COMPUTE True = ToBackend"
  by (simp add: call_route_def remote_route_def inside_def)

section \<open>The backend of an IO actor\<close>

record call_settings =
  cs_cpus :: json
  cs_gpus :: json
  cs_pool :: "string option"
  cs_selector :: bool
  cs_label :: string

record backend =
  bk_context :: jdict
  bk_endpoints :: "endpoint_definition list"
  bk_manifest :: "jdict list"
  bk_settings :: call_settings

record endpoint_call =
  rc_endpoint :: string
  rc_task :: string
  rc_bound :: "jdict option" \<comment> \<open>the bound arguments with their defaults; \<open>None\<close>: they do not fit\<close>

datatype remote_error =
    NotInRevision string
  | RemoteTypeMismatch
  | NoDepth
  | TooDeep
  | CannotBind
  | Refused request_error \<comment> \<open>the runtime does not run it\<close>
  | NoManifest
  | Failed string
  | LogNotEncodable encode_error \<comment> \<open>a lone surrogate in the output of the callee\<close>

definition max_call_depth :: int where
  "max_call_depth = 16"

definition call_depth :: "jdict \<Rightarrow> remote_error + int" where
  \<comment> \<open>the scheduler puts an integer there\<close>
  "call_depth context = (case dget context ''internal_call_depth'' (JInt 0) of JInt i \<Rightarrow> Inr i | _ \<Rightarrow> Inl NoDepth)"

definition child_context :: "endpoint_definition \<Rightarrow> int \<Rightarrow> jdict \<Rightarrow> jdict" where
  "child_context ed depth context =
     dict_merge context [(''endpoint'', ed_id ed), (''transport'', JStr ''internal''), (''internal_call_depth'', JInt depth)]"

definition prepare_call :: "backend \<Rightarrow> endpoint_call \<Rightarrow> remote_error + endpoint_definition \<times> jdict \<times> jdict" where
  "prepare_call b c =
     bindE (of_opt (NotInRevision (rc_endpoint c)) (find (\<lambda>ed. ed_id ed = JStr (rc_endpoint c)) (bk_endpoints b))) (\<lambda>ed.
       if ed_task ed \<noteq> JStr (rc_task c) then Inl RemoteTypeMismatch
       else bindE (call_depth (bk_context b)) (\<lambda>d.
         let depth = d + 1 in
         if depth > max_call_depth then Inl TooDeep
         else bindE (of_opt CannotBind (rc_bound c)) (\<lambda>payload.
           Inr (ed, child_context ed depth (bk_context b), payload))))"

definition with_context :: "backend \<Rightarrow> jdict \<Rightarrow> backend" where
  "with_context b context = b\<lparr>bk_context := context\<rparr>"

record task_options =
  to_cpus :: json
  to_gpus :: json
  to_selector :: "(string \<times> string) option"

definition task_options_of :: "call_settings \<Rightarrow> jdict \<Rightarrow> task_options" where
  "task_options_of cs manifest =
     \<lparr>to_cpus = (if truthy (dfind manifest ''num_cpus'') then dfind manifest ''num_cpus'' else cs_cpus cs),
      to_gpus = (if dfind manifest ''num_gpus'' \<noteq> JNull then dfind manifest ''num_gpus'' else cs_gpus cs),
      to_selector = (if cs_selector cs then map_option (Pair (cs_label cs)) (cs_pool cs) else None)\<rparr>"

definition call_value :: "'v + 'v outcome \<Rightarrow> remote_error + 'v" where
  \<comment> \<open>the end of \<open>remote_call\<close>; a plain value is passed on\<close>
  "call_value r =
     (case r of
        Inl v \<Rightarrow> Inr v
      | Inr oc \<Rightarrow>
          if oc_succeeded oc then Inr (oc_value oc)
          else
            let detail = join '': '' (filter (\<lambda>p. p \<noteq> []) (List.map_filter id [oc_error_type oc, oc_error_message oc]))
            in Inl (Failed (if detail = [] then ''internal endpoint failed'' else detail)))"

primrec replay_captured_output :: "log_chunk list \<Rightarrow> time \<Rightarrow> capture \<Rightarrow> ((encode_error + unit) \<times> capture) option" where
  \<comment> \<open>into the capture of the caller\<close>
  "replay_captured_output [] now c = Some (Inr (), c)"
| "replay_captured_output (x # xs) now c =
     (case write_at (chunk_stream x) (chunk_content x) (chunk_emitted x) now c of
        None \<Rightarrow> None
      | Some (Inl e, c') \<Rightarrow> Some (Inl e, c')
      | Some (Inr _, c') \<Rightarrow> replay_captured_output xs now c')"

section \<open>Artifact code that calls\<close>

datatype program =
    Return json
  | Raise string string \<comment> \<open>an exception: its type and its text\<close>
  | Print log_stream ustr time "encode_error + unit \<Rightarrow> program"
  | Call endpoint_call "remote_error + json \<Rightarrow> program"

record code_world =
  wd_code :: "string \<Rightarrow> jdict \<Rightarrow> jdict \<Rightarrow> program" \<comment> \<open>an endpoint on a context and parameters\<close>
  wd_refusal :: "jdict \<Rightarrow> request_error option" \<comment> \<open>the runtime's answer to a request with this context\<close>
  wd_task :: "task_options \<Rightarrow> jdict \<Rightarrow> jdict \<Rightarrow> json + json outcome" \<comment> \<open>a Ray task\<close>
  wd_max_bytes :: int
  wd_chunk_bytes :: int
  wd_stderr :: bool
  wd_now :: time

definition new_output :: "code_world \<Rightarrow> capture" where
  "new_output w = new_capture (wd_max_bytes w) (wd_chunk_bytes w) (wd_stderr w)"

definition outcome_of :: "code_world \<Rightarrow> (string \<times> string) + json \<Rightarrow> capture \<Rightarrow> json outcome" where
  \<comment> \<open>\<open>ExecutionOutcome.success\<close> and \<open>failure\<close>; the traceback is left out\<close>
  "outcome_of w r c =
     (let (chunks, n, tr) = fst (snapshot (wd_now w) c); logs = \<lparr>cl_chunks = chunks, cl_bytes = n, cl_truncated = tr\<rparr> in
      case r of
        Inr v \<Rightarrow> \<lparr>oc_succeeded = True, oc_value = v, oc_logs = logs, oc_error_type = None, oc_error_message = None\<rparr>
      | Inl (t, m) \<Rightarrow> \<lparr>oc_succeeded = False, oc_value = JNull, oc_logs = logs, oc_error_type = Some t, oc_error_message = Some (take 4000 m)\<rparr>)"

definition task_result :: "code_world \<Rightarrow> backend \<Rightarrow> endpoint_definition \<Rightarrow> jdict \<Rightarrow> jdict \<Rightarrow> remote_error + (json + json outcome)" where
  \<comment> \<open>the call of a computation\<close>
  "task_result w b ed context payload =
     bindE (of_opt NoManifest (find (\<lambda>m. dfind m ''id'' = ed_id ed) (bk_manifest b))) (\<lambda>m.
       Inr (wd_task w (task_options_of (bk_settings b) m) context payload))"

definition logs_of :: "json + json outcome \<Rightarrow> log_chunk list" where
  "logs_of r = (case r of Inl _ \<Rightarrow> [] | Inr oc \<Rightarrow> cl_chunks (oc_logs oc))"

type_synonym trace = "(string \<times> int) list" \<comment> \<open>the endpoints called, with their depths\<close>

definition deliver ::
  "time \<Rightarrow> capture \<Rightarrow> remote_error + (json + json outcome) \<Rightarrow> ((remote_error + json) \<times> capture) option" where
  \<comment> \<open>what the caller gets, once the output of the callee is in its own\<close>
  "deliver now c r =
     (case r of
        Inl e \<Rightarrow> Some (Inl e, c)
      | Inr out \<Rightarrow>
          (case replay_captured_output (logs_of out) now c of
             None \<Rightarrow> None
           | Some (Inl e, c') \<Rightarrow> Some (Inl (LogNotEncodable e), c')
           | Some (Inr _, c') \<Rightarrow> Some (call_value out, c')))"

function run_program ::
  "code_world \<Rightarrow> backend \<Rightarrow> program \<Rightarrow> capture \<Rightarrow> (((string \<times> string) + json) \<times> capture \<times> trace) option" where
  \<comment> \<open>\<open>None\<close>: the capture of a write does not end\<close>
  "run_program w b (Return v) c = Some (Inr v, c, [])"
| "run_program w b (Raise t m) c = Some (Inl (t, m), c, [])"
| "run_program w b (Print st s ts k) c =
     (case write_at st s ts (wd_now w) c of
        None \<Rightarrow> None
      | Some (r, c') \<Rightarrow> run_program w b (k (map_sum id (\<lambda>_. ()) r)) c')"
| "run_program w b (Call rc k) c =
     (case prepare_call b rc of
        Inl e \<Rightarrow> run_program w b (k (Inl e)) c
      | Inr (ed, context, payload) \<Rightarrow>
          (case (if ed_task ed = JStr ''io''
                 then (case wd_refusal w context of
                         Some e \<Rightarrow> Some (Inl (Refused e), [])
                       | None \<Rightarrow>
                           (case run_program w (with_context b context) (wd_code w (rc_endpoint rc) context payload) (new_output w) of
                              None \<Rightarrow> None
                            | Some (r, c1, tr) \<Rightarrow> Some (Inr (Inr (outcome_of w r c1)), tr)))
                 else Some (task_result w b ed context payload, []))
           of None \<Rightarrow> None
            | Some (out, tr) \<Rightarrow>
                (case deliver (wd_now w) c out of
                   None \<Rightarrow> None
                 | Some (res, c') \<Rightarrow>
                     (case run_program w b (k res) c' of
                        None \<Rightarrow> None
                      | Some (r, c2, tr2) \<Rightarrow>
                          Some (r, c2, (rc_endpoint rc, case call_depth context of Inr d \<Rightarrow> d | Inl _ \<Rightarrow> 0) # tr @ tr2)))))"
  by pat_completeness auto

text \<open>A program goes on to a part of itself, or enters a callee one level deeper: at most sixteen times.\<close>

inductive continuation :: "program \<Rightarrow> program \<Rightarrow> bool" where
  "continuation (k r) (Print st s ts k)"
| "continuation (k' r') (Call rc k')"

inductive_simps continuation_simps:
  "continuation p (Return v)" "continuation p (Raise t m)" "continuation p (Print st s ts k)" "continuation p (Call rc k')"

lemma continuation_wf: "wfP continuation"
proof -
  have "Wellfounded.accp continuation p" for p
  proof (induction p)
    case (Print st s ts k)
    show ?case
    proof (rule accp.accI)
      fix q assume "continuation q (Print st s ts k)"
      then obtain r where "q = k r" unfolding continuation_simps by (elim exE)
      then show "Wellfounded.accp continuation q" using Print [of "k r"] by simp
    qed
  next
    case (Call rc k)
    show ?case
    proof (rule accp.accI)
      fix q assume "continuation q (Call rc k)"
      then obtain r where "q = k r" unfolding continuation_simps by (elim exE)
      then show "Wellfounded.accp continuation q" using Call [of "k r"] by simp
    qed
  qed (rule accp.accI, simp add: continuation_simps)+
  then show ?thesis by (intro accp_wfpI allI)
qed

definition levels_left :: "jdict \<Rightarrow> nat" where
  "levels_left context = (case call_depth context of Inr d \<Rightarrow> nat (max_call_depth - d) | Inl _ \<Rightarrow> 0)"

lemma dfind_child: "call_depth (child_context ed d context) = Inr d"
  by (simp add: call_depth_def child_context_def dict_merge_def dget_def dict_get_update)

lemma prepare_call_cases:
  assumes "prepare_call b rc = Inr (ed, context, payload)"
  obtains d where "call_depth (bk_context b) = Inr d" and "d + 1 \<le> max_call_depth" and "context = child_context ed (d + 1) (bk_context b)"
    and "ed \<in> set (bk_endpoints b)" and "ed_id ed = JStr (rc_endpoint rc)" and "ed_task ed = JStr (rc_task rc)" and "rc_bound rc = Some payload"
proof -
  obtain ed' where ed': "find (\<lambda>ed. ed_id ed = JStr (rc_endpoint rc)) (bk_endpoints b) = Some ed'"
    using assms by (cases "find (\<lambda>ed. ed_id ed = JStr (rc_endpoint rc)) (bk_endpoints b)") (simp_all add: prepare_call_def)
  have t: "ed_task ed' = JStr (rc_task rc)" using assms by (auto simp: prepare_call_def ed' split: if_splits)
  obtain d where d: "call_depth (bk_context b) = Inr d"
    using assms t by (cases "call_depth (bk_context b)") (simp_all add: prepare_call_def ed')
  have m: "d + 1 \<le> max_call_depth" using assms t d by (simp add: prepare_call_def ed' Let_def split: if_splits)
  obtain p where p: "rc_bound rc = Some p" using assms t d m by (cases "rc_bound rc") (simp_all add: prepare_call_def ed' Let_def)
  have e: "ed = ed'" "context = child_context ed' (d + 1) (bk_context b)" "payload = p"
    using assms t d m p by (auto simp: prepare_call_def ed' Let_def)
  show ?thesis
  proof (rule that [OF d m])
    show "context = child_context ed (d + 1) (bk_context b)" unfolding e(1) by (rule e(2))
    show "ed \<in> set (bk_endpoints b)" "ed_id ed = JStr (rc_endpoint rc)" using find_SomeD [OF ed'] unfolding e(1) by simp_all
    show "ed_task ed = JStr (rc_task rc)" unfolding e(1) by (rule t)
    show "rc_bound rc = Some payload" unfolding e(3) by (rule p)
  qed
qed

termination run_program
proof (relation "inv_image (less_than <*lex*> {(x, y). continuation x y}) (\<lambda>(w, b, p, c). (levels_left (bk_context b), p))")
  show "wf (inv_image (less_than <*lex*> {(x, y). continuation x y}) (\<lambda>(w :: code_world, b, p, c :: capture). (levels_left (bk_context b), p)))"
    using continuation_wf by (intro wf_inv_image wf_lex_prod) (auto simp: wfp_def)
qed (auto intro: continuation.intros simp: with_context_def levels_left_def dfind_child elim!: prepare_call_cases)

section \<open>Nested calls end\<close>

primrec clean :: "program \<Rightarrow> bool" where
  \<comment> \<open>it prints no lone surrogate\<close>
  "clean (Return v) = True"
| "clean (Raise t m) = True"
| "clean (Print st s ts k) = (list_all scalar s \<and> (\<forall>r. clean (k r)))"
| "clean (Call rc k) = (\<forall>r. clean (k r))"

definition clean_logs :: "log_chunk list \<Rightarrow> bool" where
  "clean_logs xs = (\<forall>x \<in> set xs. list_all scalar (chunk_content x))"

lemma replay_ends:
  "cap_inv c \<Longrightarrow> clean_logs xs \<Longrightarrow> \<exists>c'. replay_captured_output xs now c = Some (Inr (), c') \<and> cap_inv c' \<and> max_bytes c' = max_bytes c"
proof (induction xs arbitrary: c)
  case (Cons x xs)
  have x: "list_all scalar (chunk_content x)" and "clean_logs xs" using Cons.prems(2) by (simp_all add: clean_logs_def)
  then obtain c1 where c1:
    "write_at (chunk_stream x) (chunk_content x) (chunk_emitted x) now c = Some (Inr (length (chunk_content x)), c1)" "cap_inv c1"
    "max_bytes c1 = max_bytes c"
    using write_ends [OF Cons.prems(1) x, of "chunk_stream x" "chunk_emitted x" now] by (elim exE conjE)
  with Cons.IH [OF c1(2) \<open>clean_logs xs\<close>] show ?case by auto
qed simp

lemma snapshot_clean:
  assumes "cap_inv c" shows "clean_logs (fst (fst (snapshot now c)))"
proof -
  obtain chunks n tr c' where s: "snapshot now c = ((chunks, n, tr), c')" by (metis prod.exhaust)
  have "cap_inv (flush_pending now c)" using assms by (rule flush_inv)
  then have t: "list_all scalar (concat (map chunk_content chunks))"
    unfolding snapshot_chunks(2) [OF s] chunks_log_text [symmetric] by (simp add: cap_inv_def cap_log_def)
  have "list_all scalar (chunk_content x)" if "x \<in> set chunks" for x
    using t that by (auto simp: list_all_iff)
  then show ?thesis by (simp add: s clean_logs_def)
qed

definition clean_world :: "code_world \<Rightarrow> bool" where
  \<comment> \<open>all artifact code prints encodable text, in the actor and in Ray tasks\<close>
  "clean_world w =
     (1 \<le> wd_chunk_bytes w \<and> (\<forall>i context payload. clean (wd_code w i context payload)) \<and>
      (\<forall>options context payload. clean_logs (logs_of (wd_task w options context payload))))"

definition depth_below :: "backend \<Rightarrow> trace \<Rightarrow> bool" where
  \<comment> \<open>calls to endpoints of the revision, deeper than the caller and at most sixteen deep\<close>
  "depth_below b tr =
     (\<forall>(i, d) \<in> set tr. (\<exists>d0. call_depth (bk_context b) = Inr d0 \<and> d0 < d) \<and> d \<le> 16 \<and>
        (\<exists>ed \<in> set (bk_endpoints b). ed_id ed = JStr i))"

lemma deliver_ends:
  assumes "cap_inv c" and "\<And>out. r = Inr out \<Longrightarrow> clean_logs (logs_of out)"
  shows "\<exists>res c'. deliver now c r = Some (res, c') \<and> cap_inv c' \<and> max_bytes c' = max_bytes c"
proof (cases r)
  case (Inr out)
  then show ?thesis using replay_ends [OF assms(1), of "logs_of out" now] assms(2) by (auto simp: deliver_def)
qed (simp add: deliver_def assms(1))

lemma outcome_clean: "cap_inv c \<Longrightarrow> clean_logs (logs_of (Inr (outcome_of w r c)))"
  using snapshot_clean [of c "wd_now w"]
  by (auto simp: logs_of_def outcome_of_def Let_def case_prod_unfold split: sum.split)

lemma child_depths:
  assumes p: "prepare_call b rc = Inr (ed, context, payload)" and tr: "depth_below (with_context b context) tr"
    and more: "depth_below b tr2"
  shows "depth_below b ((rc_endpoint rc, case call_depth context of Inr d \<Rightarrow> d | Inl _ \<Rightarrow> 0) # tr @ tr2)"
proof -
  obtain d where d: "call_depth (bk_context b) = Inr d" "d + 1 \<le> max_call_depth" "context = child_context ed (d + 1) (bk_context b)"
    "ed \<in> set (bk_endpoints b)" "ed_id ed = JStr (rc_endpoint rc)"
    using prepare_call_cases [OF p] by blast
  have c: "call_depth context = Inr (d + 1)" unfolding d(3) by (rule dfind_child)
  have "d < d'" if "(i, d') \<in> set tr" for i d' using tr that c by (fastforce simp: depth_below_def with_context_def)
  then show ?thesis using d more tr c by (fastforce simp: depth_below_def max_call_depth_def with_context_def)
qed

lemma run_ends:
  assumes "clean_world w" and "clean p" and "cap_inv c"
  shows "\<exists>r c' tr. run_program w b p c = Some (r, c', tr) \<and> cap_inv c' \<and> max_bytes c' = max_bytes c \<and> depth_below b tr"
  using assms
proof (induction w b p c rule: run_program.induct)
  case (3 w b st s ts k c)
  have s: "list_all scalar s" "\<And>r. clean (k r)" using 3 by simp_all
  obtain c1 where c1: "write_at st s ts (wd_now w) c = Some (Inr (length s), c1)" "cap_inv c1" "max_bytes c1 = max_bytes c"
    using write_ends [OF 3(4) s(1), of st ts "wd_now w"] by (elim exE conjE)
  show ?case using 3(1) [OF c1(1) refl] 3(2) s(2) c1 by simp
next
  case (4 w b rc k c)
  have k: "\<And>r. clean (k r)" using "4.prems" by simp
  show ?case
  proof (cases "prepare_call b rc")
    case (Inl e)
    then show ?thesis using 4 by simp
  next
    case (Inr p)
    obtain ed cx payload where p: "p = (ed, cx, payload)" by (metis prod.exhaust)
    note P = Inr [unfolded p]
    have new: "cap_inv (new_output w)" using "4.prems"(1) by (simp add: clean_world_def new_output_def new_capture_inv)
    let ?called = "if ed_task ed = JStr ''io''
                 then (case wd_refusal w cx of
                         Some e \<Rightarrow> Some (Inl (Refused e), [])
                       | None \<Rightarrow>
                           (case run_program w (with_context b cx) (wd_code w (rc_endpoint rc) cx payload) (new_output w) of
                              None \<Rightarrow> None
                            | Some (r, c1, tr) \<Rightarrow> Some (Inr (Inr (outcome_of w r c1)), tr)))
                 else Some (task_result w b ed cx payload, [])"
    have nil: "depth_below b []" for b by (simp add: depth_below_def)
    have task: "clean_logs (logs_of out)" if "task_result w b ed cx payload = Inr out" for out
      using that "4.prems"(1) by (auto simp: task_result_def bindE_eq_Inr clean_world_def)
    have "\<exists>out tr. ?called = Some (out, tr) \<and> depth_below (with_context b cx) tr \<and> (\<forall>o'. out = Inr o' \<longrightarrow> clean_logs (logs_of o'))"
    proof (cases "ed_task ed = JStr ''io''")
      case False
      then show ?thesis using task nil by auto
    next
      case io: True
      show ?thesis
      proof (cases "wd_refusal w cx")
        case None
        have "clean (wd_code w (rc_endpoint rc) cx payload)" using "4.prems"(1) by (simp add: clean_world_def)
        then obtain r c1 tr where "run_program w (with_context b cx) (wd_code w (rc_endpoint rc) cx payload) (new_output w) = Some (r, c1, tr)"
          "cap_inv c1" "depth_below (with_context b cx) tr"
          using "4.IH"(2) [OF P refl refl io None] "4.prems"(1) new by blast
        then show ?thesis using io None outcome_clean by auto
      next
        case (Some e)
        then show ?thesis using io nil by simp
      qed
    qed
    then obtain out tr where called: "?called = Some (out, tr)" "depth_below (with_context b cx) tr"
      and logs: "\<And>o'. out = Inr o' \<Longrightarrow> clean_logs (logs_of o')" by blast
    obtain res c' where dl: "deliver (wd_now w) c out = Some (res, c')" "cap_inv c'" "max_bytes c' = max_bytes c"
      using deliver_ends [OF "4.prems"(3) logs] by blast
    obtain r c2 tr2 where "run_program w b (k res) c' = Some (r, c2, tr2)" "cap_inv c2" "max_bytes c2 = max_bytes c'" "depth_below b tr2"
      using "4.IH"(3) [OF P refl refl called(1) refl dl(1) refl] "4.prems"(1) k dl(2) by blast
    then show ?thesis using child_depths [OF P called(2)] dl(3) by (simp add: P called(1) dl(1) del: if_split)
  qed
qed (simp_all add: depth_below_def)


text \<open>An endpoint that calls itself for ever, and returns one more than the callee, or zero when the call fails.\<close>

definition demo_self_call :: endpoint_call where
  "demo_self_call = \<lparr>rc_endpoint = ''run'', rc_task = ''io'', rc_bound = Some []\<rparr>"

definition demo_forever :: program where
  "demo_forever = Call demo_self_call (\<lambda>r. Return (case r of Inr (JInt n) \<Rightarrow> JInt (n + 1) | _ \<Rightarrow> JInt 0))"

definition demo_code :: code_world where
  "demo_code = \<lparr>wd_code = (\<lambda>_ _ _. demo_forever), wd_refusal = (\<lambda>_. None), wd_task = (\<lambda>_ _ _. Inl JNull),
     wd_max_bytes = 100, wd_chunk_bytes = 10, wd_stderr = True, wd_now = 0\<rparr>"

definition demo_backend :: "jdict \<Rightarrow> backend" where
  "demo_backend cx = \<lparr>bk_context = cx,
     bk_endpoints = [\<lparr>ed_id = JStr ''run'', ed_task = JStr ''io'', ed_entry = JStr ''m:run'', ed_grpc = None, ed_params = [],
       ed_response = [], ed_io = []\<rparr>],
     bk_manifest = [],
     bk_settings = \<lparr>cs_cpus = JInt 1, cs_gpus = JInt 0, cs_pool = None, cs_selector = False, cs_label = []\<rparr>\<rparr>"

lemma demo_run:
  assumes "call_depth cx = Inr d" and "n = nat (16 - d)" and "d \<le> 16"
  shows "run_program demo_code (demo_backend cx) demo_forever (new_output demo_code) =
    Some (Inr (JInt (int n)), new_output demo_code, map (Pair ''run'') [d + 1..16])"
  using assms
proof (induction n arbitrary: cx d)
  case 0
  then have "prepare_call (demo_backend cx) demo_self_call = Inl TooDeep"
    by (simp add: prepare_call_def demo_backend_def demo_self_call_def max_call_depth_def)
  with 0 show ?case by (simp add: demo_forever_def)
next
  case (Suc n)
  let ?ed = "\<lparr>ed_id = JStr ''run'', ed_task = JStr ''io'', ed_entry = JStr ''m:run'', ed_grpc = None, ed_params = [],
       ed_response = [], ed_io = []\<rparr>"
  let ?cx = "child_context ?ed (d + 1) cx"
  have c: "call_depth ?cx = Inr (d + 1)" by (rule dfind_child)
  have p: "prepare_call (demo_backend cx) demo_self_call = Inr (?ed, ?cx, [])"
    using Suc.prems by (simp add: prepare_call_def demo_backend_def demo_self_call_def max_call_depth_def)
  have b: "with_context (demo_backend cx) ?cx = demo_backend ?cx" by (simp add: with_context_def demo_backend_def)
  have n: "n = nat (16 - (d + 1))" "d + 1 \<le> 16" using Suc.prems by linarith+
  note run = Suc.IH [OF c n]
  have w: "wd_refusal demo_code ?cx = None" "wd_code demo_code i cx' pl = demo_forever" for i cx' pl
    by (simp_all add: demo_code_def)
  have l: "logs_of (Inr (outcome_of demo_code (Inr v) (new_output demo_code))) = []"
      "oc_succeeded (outcome_of demo_code (Inr v) (new_output demo_code))"
      "oc_value (outcome_of demo_code (Inr v) (new_output demo_code)) = v" for v
    by (simp_all add: logs_of_def outcome_of_def new_output_def new_capture_def snapshot_def flush_pending_def Let_def)
  have e: "rc_endpoint demo_self_call = ''run''" by (simp add: demo_self_call_def)
  have dl: "deliver t c0 (Inr (Inr (outcome_of demo_code (Inr v) (new_output demo_code)))) = Some (Inr v, c0)" for t c0 v
    by (simp add: deliver_def l call_value_def)
  have u: "[d + 1..16] = (d + 1) # [d + 1 + 1..16]" using n(2) by (rule upto_rec1)
  have "run_program demo_code (demo_backend cx) demo_forever (new_output demo_code) =
    Some (Inr (JInt (int n + 1)), new_output demo_code, (''run'', d + 1) # map (Pair ''run'') [d + 1 + 1..16])"
    by (subst demo_forever_def) (simp add: p b w run dl c e del: upto.simps)
  then show ?case unfolding u by simp
qed


section \<open>The worker of a computation\<close>

text \<open>
  A Ray worker runs one task at a time on the runtime it keeps for an environment: the event loop runs until the
  operation ends, its load included, and then drains the version. Extracted directories are kept.
\<close>

record task_spec =
  ts_grpc :: bool
  ts_mapping :: bool \<comment> \<open>the payload is a mapping; otherwise bytes\<close>
  ts_version :: vkey
  ts_endpoint :: string
  ts_uri :: string
  ts_digest :: string
  ts_manifest :: "jdict list"

datatype task_error = TaskManifest load_error | PayloadType | TaskFailed request_error

type_synonym worker_key = "string \<times> string \<times> int \<times> int \<times> bool"
  \<comment> \<open>cache root, environment digest, the two log limits, \<open>capture_stderr\<close>\<close>

type_synonym workers = "(worker_key, runtime) dict" \<comment> \<open>\<open>_runtimes\<close>\<close>

definition worker_runtime :: "worker_key \<Rightarrow> workers \<Rightarrow> runtime" where
  "worker_runtime k ws = (case map_of ws k of Some s \<Rightarrow> s | None \<Rightarrow> new_runtime True)"

definition task_admission :: "task_spec \<Rightarrow> endpoint_definition list \<Rightarrow> Loader.admission" where
  "task_admission ts eds =
     (if ts_grpc ts then (\<lambda>q a s. admit_grpc q a (JStr (ts_endpoint ts)) eds s) else (\<lambda>q a s. admit q a (JStr (ts_endpoint ts)) s))"

definition run_operation :: "artifacts \<Rightarrow> task_spec \<Rightarrow> endpoint_definition list \<Rightarrow> runtime \<Rightarrow> (task_error + unit) \<times> runtime" where
  \<comment> \<open>\<open>run_until_complete(operation)\<close>: request 0, the load it waits for, the run and its release\<close>
  "run_operation env ts eds s =
     (let adm = task_admission ts eds in
      case start_request adm 0 (ts_version ts) (ts_uri ts) (ts_digest ts) eds s of
        (Inl e, s1) \<Rightarrow> (Inl (TaskFailed e), s1)
      | (Inr _, s1) \<Rightarrow>
          (case map_of (rt_waiting s1) 0 of
             None \<Rightarrow> (Inr (), release 0 s1)
           | Some t \<Rightarrow>
               (case resume_request adm 0 (load_import env t (load_fetch env t s1)) of
                  (Inl e, s2) \<Rightarrow> (Inl (TaskFailed e), s2)
                | (Inr _, s2) \<Rightarrow> (Inr (), release 0 s2))))"

definition run_task :: "artifacts \<Rightarrow> task_spec \<Rightarrow> runtime \<Rightarrow> (task_error + unit) \<times> runtime" where
  "run_task env ts s =
     (case mapE definition_of (ts_manifest ts) of
        Inl e \<Rightarrow> (Inl (TaskManifest e), s)
      | Inr eds \<Rightarrow>
          let (r, s1) = (if ts_grpc ts = ts_mapping ts then (Inl PayloadType, s) else run_operation env ts eds s)
          in (r, snd (drain (ts_version ts) s1)))"

definition run_compute_task :: "artifacts \<Rightarrow> worker_key \<Rightarrow> task_spec \<Rightarrow> workers \<Rightarrow> (task_error + unit) \<times> workers" where
  "run_compute_task env k ts ws =
     (let (r, s) = run_task env ts (worker_runtime k ws) in (r, AList.update k s ws))"

text \<open>Between two tasks a worker holds no version, no module, no load and no request.\<close>

definition at_rest :: "runtime \<Rightarrow> bool" where
  "at_rest s =
     (rt_retain s \<and> rt_versions s = [] \<and> rt_modules s = [] \<and> rt_tasks s = [] \<and> rt_loads s = [] \<and> rt_waiting s = [] \<and>
      rt_running s = [] \<and> rt_deleting s = [])"

lemma at_rest_drained: "at_rest s \<Longrightarrow> snd (drain k s) = s"
  by (simp add: at_rest_def drain_def)

lemma task_is_admission: "is_admission (task_admission ts eds)"
  unfolding is_admission_def task_admission_def by (cases "ts_grpc ts") auto

text \<open>What the load leaves: an error, or the version at a new address.\<close>

definition loaded_for :: "vkey \<Rightarrow> nat \<Rightarrow> runtime \<Rightarrow> bool" where
  "loaded_for k t s =
     (rt_retain s \<and> rt_tasks s = [] \<and> rt_loads s = [] \<and> rt_waiting s = [(0, t)] \<and> rt_running s = [] \<and> rt_deleting s = [] \<and>
      (case map_of (rt_done s) t of
         None \<Rightarrow> False
       | Some (Inl _) \<Rightarrow> rt_versions s = [] \<and> rt_modules s = []
       | Some (Inr a) \<Rightarrow> a < length (rt_heap s) \<and> vs_inflight (ver s a) = 0 \<and> vs_state (ver s a) = READY \<and> vs_key (ver s a) = k \<and>
           rt_versions s = [(k, a)] \<and> rt_modules s = [k]))"

lemma load_at_rest:
  assumes R: "at_rest s" and l: "l = \<lparr>ld_key = k, ld_uri = uri, ld_digest = digest, ld_endpoints = eds, ld_stage = Fetching\<rparr>"
  shows "loaded_for k t (load_import env t (load_fetch env t (s\<lparr>rt_loads := [(t, l)], rt_tasks := [(k, t)], rt_waiting := [(0, t)]\<rparr>)))"
proof -
  let ?s = "s\<lparr>rt_loads := [(t, l)], rt_tasks := [(k, t)], rt_waiting := [(0, t)]\<rparr>"
  have imp: "loaded_for k t (load_import env t (?s\<lparr>rt_dirs := D, rt_loads := [(t, l\<lparr>ld_stage := Importing\<rparr>)]\<rparr>))" for D
  proof (cases "import_version env (l\<lparr>ld_stage := Importing\<rparr>) (?s\<lparr>rt_dirs := D, rt_loads := [(t, l\<lparr>ld_stage := Importing\<rparr>)]\<rparr>)")
    case (Inl x)
    then show ?thesis using R by (simp add: load_import_def l end_load_def loaded_for_def at_rest_def update_conv')
  next
    case (Inr v)
    then have "vs_inflight v = 0 \<and> vs_state v = READY \<and> vs_key v = k" by (auto simp: import_version_def bindE_eq_Inr l)
    with Inr show ?thesis
      using R by (simp add: load_import_def l end_load_def loaded_for_def at_rest_def update_conv' Let_def)
  qed
  have imp0: "loaded_for k t (load_import env t (?s\<lparr>rt_loads := [(t, l\<lparr>ld_stage := Importing\<rparr>)]\<rparr>))"
    using imp [of "rt_dirs s"] by simp
  have err: "loaded_for k t (load_import env t (end_load t k (Inl x) (?s\<lparr>rt_dirs := D\<rparr>)))" for x D
    using R by (simp add: load_import_def end_load_def loaded_for_def at_rest_def update_conv')
  have err0: "loaded_for k t (load_import env t (end_load t k (Inl x) ?s))" for x using err [of x "rt_dirs s"] by simp
  have stage: "ld_stage l = Fetching" "ld_key l = k" "map_of (rt_loads ?s) t = Some l" "ld_uri l = uri" "ld_digest l = digest" by (simp_all add: l)
  consider "load_fetch env t ?s = ?s\<lparr>rt_loads := [(t, l\<lparr>ld_stage := Importing\<rparr>)]\<rparr>"
    | x where "load_fetch env t ?s = end_load t k (Inl x) ?s"
    | x D where "load_fetch env t ?s = end_load t k (Inl x) (?s\<lparr>rt_dirs := D\<rparr>)"
    | D where "load_fetch env t ?s = ?s\<lparr>rt_dirs := D, rt_loads := [(t, l\<lparr>ld_stage := Importing\<rparr>)]\<rparr>"
  proof (cases "reusable l ?s")
    case True
    then have "load_fetch env t ?s = ?s\<lparr>rt_loads := [(t, l\<lparr>ld_stage := Importing\<rparr>)]\<rparr>" by (simp add: load_fetch_def stage Let_def)
    then show ?thesis by (rule that(1))
  next
    case fresh: False
    show ?thesis
    proof (cases "af_obtain env uri digest")
      case (Inl x)
      then have "load_fetch env t ?s = end_load t k (Inl x) ?s" using fresh by (simp add: load_fetch_def stage Let_def)
      then show ?thesis by (rule that(2))
    next
      case (Inr b)
      show ?thesis
      proof (cases "extract_archive (af_temp env k) (af_members env b)")
        case (Inl x)
        then have "load_fetch env t ?s = end_load t k (Inl x) (?s\<lparr>rt_dirs := AList.delete k (rt_dirs s)\<rparr>)"
          using fresh \<open>af_obtain env uri digest = Inr b\<close> by (simp add: load_fetch_def stage Let_def)
        then show ?thesis by (rule that(3))
      next
        case ok: (Inr ps)
        have "load_fetch env t ?s = ?s\<lparr>rt_dirs := AList.update k \<lparr>dr_marker = normal_digest digest, dr_content = b\<rparr> (AList.delete k (rt_dirs s)),
            rt_loads := [(t, l\<lparr>ld_stage := Importing\<rparr>)]\<rparr>"
          using fresh \<open>af_obtain env uri digest = Inr b\<close> ok by (simp add: load_fetch_def stage Let_def)
        then show ?thesis by (rule that(4))
      qed
    qed
  qed
  then show ?thesis by cases (simp_all only: imp imp0 err err0)
qed

lemma drain_one:
  assumes "rt_versions s = [(k, a)]" and "a < length (rt_heap s)" and "vs_inflight (ver s a) = 0" and "rt_modules s = [k]"
    and "rt_retain s" and "rt_tasks s = []" and "rt_loads s = []" and "rt_waiting s = []" and "rt_running s = []" and "rt_deleting s = []"
  shows "at_rest (snd (drain k s))"
  using assms by (simp add: drain_def unload_def Let_def at_rest_def upd_version_at_def)

lemma operation_inv:
  assumes R: "at_rest s" and I: "runtime_inv s" and o: "run_operation env ts eds s = (r, s')"
  shows "runtime_inv s'"
proof -
  let ?adm = "task_admission ts eds"
  note adm = task_is_admission [of ts eds]
  obtain r1 s1 where st: "start_request ?adm 0 (ts_version ts) (ts_uri ts) (ts_digest ts) eds s = (r1, s1)" by fastforce
  have "0 \<notin> fst ` set (rt_waiting s) \<union> fst ` set (rt_running s)" using R by (simp add: at_rest_def)
  then have I1: "runtime_inv s1" using start_inv [OF adm I, of 0 "ts_version ts" "ts_uri ts" "ts_digest ts" eds] by (simp add: st)
  have I2: "runtime_inv (load_import env t (load_fetch env t s1))" for t by (rule import_inv [OF fetch_inv [OF I1]])
  have I3: "runtime_inv (snd (resume_request ?adm 0 (load_import env t (load_fetch env t s1))))" for t
    by (rule resume_inv [OF adm I2])
  have rel: "runtime_inv (release 0 u)" if "runtime_inv u" for u by (rule runtime_step_inv [OF runtime_step.Release that])
  have res: "runtime_inv s3" if "resume_request ?adm 0 (load_import env t (load_fetch env t s1)) = (r3, s3)" for t r3 s3
    using I3 [of t] by (simp add: that)
  show ?thesis
    using o st I1 by (auto simp: run_operation_def Let_def rel res split: sum.splits option.splits prod.splits)
qed

lemma operation_rests:
  assumes R: "at_rest s" and o: "run_operation env ts eds s = (r, s')"
  shows "at_rest (snd (drain (ts_version ts) s'))"
proof -
  let ?k = "ts_version ts" and ?t = "fresh_task s" and ?adm = "task_admission ts eds"
  let ?l = "\<lparr>ld_key = ?k, ld_uri = ts_uri ts, ld_digest = ts_digest ts, ld_endpoints = eds, ld_stage = Fetching\<rparr>"
  let ?s1 = "s\<lparr>rt_loads := [(?t, ?l)], rt_tasks := [(?k, ?t)], rt_waiting := [(0, ?t)]\<rparr>"
  have st: "start_request ?adm 0 ?k (ts_uri ts) (ts_digest ts) eds s = (Inr (), ?s1)"
    using R by (simp add: start_request_def ensure_loaded_def at_rest_def Let_def)
  define s2 where "s2 = load_import env ?t (load_fetch env ?t ?s1)"
  have L: "loaded_for ?k ?t s2" unfolding s2_def by (rule load_at_rest [OF R refl])
  obtain r3 s3 where rs: "resume_request ?adm 0 s2 = (r3, s3)" by fastforce
  have s': "s' = (case r3 of Inl _ \<Rightarrow> s3 | Inr _ \<Rightarrow> release 0 s3)"
    using o st rs by (auto simp: run_operation_def Let_def s2_def split: sum.splits)
  have w: "map_of (rt_waiting s2) 0 = Some ?t" using L by (simp add: loaded_for_def)
  let ?s2 = "s2\<lparr>rt_waiting := []\<rparr>"
  show ?thesis
  proof (cases "map_of (rt_done s2) ?t")
    case None
    then show ?thesis using L by (simp add: loaded_for_def)
  next
    case (Some d)
    show ?thesis
    proof (cases d)
      case (Inl x)
      then have "r3 = Inl (LoadFailed x)" "s3 = ?s2" using rs w Some L by (simp_all add: resume_request_def Let_def loaded_for_def)
      moreover have "at_rest ?s2" using L Some Inl by (simp add: loaded_for_def at_rest_def)
      ultimately show ?thesis by (simp add: s' at_rest_drained)
    next
      case (Inr a)
      have a: "a < length (rt_heap s2)" "vs_inflight (ver s2 a) = 0" "vs_state (ver s2 a) = READY" "vs_key (ver s2 a) = ?k"
        "rt_versions s2 = [(?k, a)]" "rt_modules s2 = [?k]"
        and q: "rt_retain s2" "rt_tasks s2 = []" "rt_loads s2 = []" "rt_running s2 = []" "rt_deleting s2 = []" "rt_waiting s2 = [(0, ?t)]"
        using L Some Inr by (simp_all add: loaded_for_def)
      let ?u = "upd_version_at a (\<lambda>v. v\<lparr>vs_inflight := vs_inflight v + 1\<rparr>) ?s2\<lparr>rt_running := [(0, a)]\<rparr>"
      have e: "(r3, s3) = ?adm 0 a ?s2" using rs w Some Inr q(6) by (simp add: resume_request_def Let_def)
      have c: "(\<exists>x. r3 = Inl x) \<and> s3 = ?s2 \<or> r3 = Inr () \<and> s3 = ?u"
        using e q(4) unfolding task_admission_def by (auto simp: admit_def admit_grpc_def Let_def split: if_splits)
      have failed: "at_rest (snd (drain ?k ?s2))" by (rule drain_one [of _ _ a]) (use a q in simp_all)
      have ran: "at_rest (snd (drain ?k (release 0 ?u)))"
        by (rule drain_one [of _ _ a]) (use a q in \<open>simp_all add: release_def upd_version_at_def Let_def\<close>)
      from c show ?thesis
      proof (elim disjE conjE exE)
        fix x assume "r3 = Inl x" "s3 = ?s2"
        then show ?thesis using failed by (simp add: s')
      next
        assume "r3 = Inr ()" and s3: "s3 = ?u"
        then have "s' = release 0 ?u" by (simp only: s' sum.case)
        then show ?thesis using ran by (simp only:)
      qed
    qed
  qed
qed

text \<open>C38. A worker forgets a computation: whatever becomes of a Ray task - its manifest, its payload, its archive, its
  imports or its endpoint may be wrong - the runtime of the worker is at rest again when the task is over, without
  versions, modules, loads or requests, only its extracted directories stay; and the runtimes of other
  environments are untouched.\<close>

theorem compute_worker_rests:
  assumes "\<forall>k. at_rest (worker_runtime k ws) \<and> runtime_inv (worker_runtime k ws)" and "run_compute_task env k ts ws = (r, ws')"
  shows "(\<forall>k'. at_rest (worker_runtime k' ws') \<and> runtime_inv (worker_runtime k' ws')) \<and>
    (\<forall>k'. k' \<noteq> k \<longrightarrow> worker_runtime k' ws' = worker_runtime k' ws)"
proof -
  let ?s = "worker_runtime k ws"
  have R: "at_rest ?s" and I: "runtime_inv ?s" using assms(1) by blast+
  obtain r1 s1 where t: "run_task env ts ?s = (r1, s1)" by fastforce
  then have ws': "ws' = AList.update k s1 ws" using assms(2) by (simp add: run_compute_task_def)
  have "at_rest s1 \<and> runtime_inv s1"
  proof (cases "mapE definition_of (ts_manifest ts)")
    case (Inl e)
    then show ?thesis using t R I by (simp add: run_task_def)
  next
    case (Inr eds)
    obtain r2 s2 where o: "run_operation env ts eds ?s = (r2, s2)" by fastforce
    have d: "runtime_inv (snd (drain (ts_version ts) s2))" by (rule runtime_step_inv [OF runtime_step.Drain operation_inv [OF R I o]])
    show ?thesis
      using t Inr at_rest_drained [OF R] R I d operation_rests [OF R o] by (auto simp: run_task_def o split: if_splits)
  qed
  then show ?thesis using assms(1) by (auto simp: ws' worker_runtime_def update_conv')
qed

definition demo_task :: "string \<Rightarrow> task_spec" where
  "demo_task i = \<lparr>ts_grpc = False, ts_mapping = True, ts_version = demo_key, ts_endpoint = i, ts_uri = [], ts_digest = [],
     ts_manifest = [[(''id'', JStr ''run''), (''task_type'', JStr ''compute''), (''entrypoint'', JStr ''main:run''), (''io_type'', JArr [])]]\<rparr>"

lemma demo_manifest: "mapE definition_of (ts_manifest (demo_task i)) = Inr demo_endpoints"
  by (simp add: demo_task_def definition_of_def grpc_definition_of_def item_at_def dget_def dfind_def demo_endpoints_def
      schema_params_def metadata_fields_def List.map_filter_simps)

lemma demo_operation:
  "run_operation demo_artifacts (demo_task i) demo_endpoints (new_runtime True) =
    (if i = ''run'' then (Inr (), (demo_loaded True)\<lparr>rt_waiting := []\<rparr>)
     else (Inl (TaskFailed UnknownEndpoint), (demo_loaded True)\<lparr>rt_waiting := []\<rparr>))"
proof -
  let ?n = "new_runtime True"
  let ?l = "\<lparr>ld_key = demo_key, ld_uri = [], ld_digest = [], ld_endpoints = demo_endpoints, ld_stage = Fetching\<rparr>"
  let ?a = "?n\<lparr>rt_loads := [(0, ?l)], rt_tasks := [(demo_key, 0)], rt_waiting := [(0, 0)]\<rparr>"
  let ?b = "?a\<lparr>rt_loads := [(0, ?l\<lparr>ld_stage := Importing\<rparr>)], rt_dirs := [(demo_key, demo_directory)]\<rparr>"
  have 1: "start_request adm 0 demo_key [] [] demo_endpoints ?n = (Inr (), ?a)" for adm
    by (simp add: start_request_def ensure_loaded_def new_runtime_def fresh_task_def Let_def)
  have 2: "load_fetch demo_artifacts 0 ?a = ?b"
    by (simp add: load_fetch_def reusable_def new_runtime_def Let_def demo_extract demo_obtain demo_directory_def demo_digest_empty)
  have "import_version demo_artifacts (?l\<lparr>ld_stage := Importing\<rparr>) ?b = Inr Loader.demo_version"
    by (simp add: import_version_def demo_directory_def demo_load_runners Loader.demo_version_def demo_obtain)
  then have 3: "load_import demo_artifacts 0 ?b = demo_loaded True"
    by (simp add: load_import_def end_load_def demo_loaded_def new_runtime_def Let_def)
  have w: "map_of (rt_waiting ?a) 0 = Some 0" by simp
  have v: "ts_version (demo_task i) = demo_key" "ts_uri (demo_task i) = []" "ts_digest (demo_task i) = []" by (simp_all add: demo_task_def)
  have "run_operation demo_artifacts (demo_task i) demo_endpoints (new_runtime True) =
      (case resume_request (task_admission (demo_task i) demo_endpoints) 0 (demo_loaded True) of
         (Inl e, s2) \<Rightarrow> (Inl (TaskFailed e), s2)
       | (Inr _, s2) \<Rightarrow> (Inr (), release 0 s2))"
    by (simp only: run_operation_def v 1 w 2 3 Let_def prod.case sum.case option.case)
  then show ?thesis
    by (simp add: resume_request_def task_admission_def demo_loaded_def Let_def)
      (simp add: demo_task_def demo_loaded_def admit_def Let_def Loader.demo_version_def demo_runners_def release_def upd_version_at_def)
qed

theorem compute_worker_rests_witness:
  "\<exists>ws1 ws2. run_compute_task demo_artifacts (''c'', ''e'', 10, 1, True) (demo_task ''run'') [] = (Inr (), ws1) \<and>
     run_compute_task demo_artifacts (''c'', ''e'', 10, 1, True) (demo_task ''gone'') [] = (Inl (TaskFailed UnknownEndpoint), ws2) \<and>
     (\<forall>k. at_rest (worker_runtime k ws1)) \<and> (\<forall>k. at_rest (worker_runtime k ws2))"
proof -
  let ?k = "(''c'', ''e'', 10, 1, True)"
  have n: "worker_runtime k [] = new_runtime True" for k by (simp add: worker_runtime_def)
  have R: "\<forall>k. at_rest (worker_runtime k []) \<and> runtime_inv (worker_runtime k [])"
    by (simp add: n new_runtime_inv) (simp add: at_rest_def new_runtime_def)
  have g: "ts_grpc (demo_task i) = False" "ts_mapping (demo_task i) = True" for i by (simp_all add: demo_task_def)
  let ?ws = "\<lambda>i. snd (run_compute_task demo_artifacts ?k (demo_task i) [])"
  have 1: "run_compute_task demo_artifacts ?k (demo_task ''run'') [] = (Inr (), ?ws ''run'')"
    by (simp add: run_compute_task_def n run_task_def demo_manifest g demo_operation)
  have 2: "run_compute_task demo_artifacts ?k (demo_task ''gone'') [] = (Inl (TaskFailed UnknownEndpoint), ?ws ''gone'')"
    by (simp add: run_compute_task_def n run_task_def demo_manifest g demo_operation)
  have "\<forall>k. at_rest (worker_runtime k (?ws ''run''))" "\<forall>k. at_rest (worker_runtime k (?ws ''gone''))"
    using compute_worker_rests [OF R 1] compute_worker_rests [OF R 2] by simp_all
  with 1 2 show ?thesis by (intro exI [of _ "?ws ''run''"] exI [of _ "?ws ''gone''"] conjI)
qed

end
