(* ===== verification/Store.thy ===== *)
theory Store
  imports Artifact
begin

text \<open>
  The artifact stores of \<open>storage.py\<close>: the local directory and the S3 bucket, both addressed by the SHA-256 digest of
  what they hold, behind one interface (\<open>ArtifactStore\<close>). Strings are the UTF-8 bytes of their text; categories and
  suffixes, which the callers write as literals, are ASCII. The digest,
  the transports, the presigned URLs and the failures of the S3 client are parameters; a bucket is written by this
  code only.
\<close>

datatype store_error =
    BadBlobDigest
  | BadCategory
  | BadSuffix
  | SourceMissing
  | SourceFailed
  | SourceScheme
  | BlobMismatch
  | UploadFailed
  | InspectFailed
  | ForeignReference
  | SignFailed

section \<open>Digests, categories and suffixes\<close>

definition normalize_digest :: "string \<Rightarrow> store_error + string" where
  "normalize_digest value =
     (let digest = normal_digest value in
      if length digest \<noteq> 64 \<or> list_ex (\<lambda>c. \<not> hex_char c) digest then Inl BadBlobDigest else Inr digest)"

definition alnum_text :: "string \<Rightarrow> bool" where
  \<comment> \<open>\<open>str.isalnum\<close> of ASCII text\<close>
  "alnum_text s = (s \<noteq> [] \<and> list_all (\<lambda>c. is_alpha c \<or> is_digit c) s)"

definition safe_segment :: "string \<Rightarrow> bool" where
  "safe_segment p = (p \<noteq> [] \<and> p \<notin> {''.'', ''..''} \<and> alnum_text (filter (\<lambda>c. c \<noteq> CHR ''-'') p))"

definition normalize_category :: "string \<Rightarrow> store_error + string" where
  "normalize_category value =
     (let parts = split_on (CHR ''/'') (strip_by (\<lambda>c. c = CHR ''/'') value) in
      if parts = [] \<or> list_ex (\<lambda>p. \<not> safe_segment p) parts then Inl BadCategory else Inr (join ''/'' parts))"

definition normalize_suffix :: "string \<Rightarrow> store_error + string" where
  "normalize_suffix value =
     (if \<not> starts_with ''.'' value \<or> CHR ''/'' \<in> set value \<or> CHR 0x5C \<in> set value \<or> 16 < length value \<or>
         \<not> alnum_text (filter (\<lambda>c. c \<noteq> CHR ''.'') (drop 1 value))
      then Inl BadSuffix else Inr value)"

section \<open>URIs\<close>

definition unreserved :: "char \<Rightarrow> bool" where
  \<comment> \<open>what \<open>quote(key, safe="/")\<close> keeps\<close>
  "unreserved c = (is_alpha c \<or> is_digit c \<or> c \<in> set ''_.-~/'')"

definition hex_digit :: "nat \<Rightarrow> char" where
  "hex_digit n = (if n < 10 then char_of (48 + n) else char_of (55 + n))"

definition quote_char :: "char \<Rightarrow> string" where
  "quote_char c = (if unreserved c then [c] else [CHR ''%'', hex_digit (of_char c div 16), hex_digit (of_char c mod 16)])"

definition quote :: "string \<Rightarrow> string" where
  "quote s = concat (map quote_char s)"

definition unhex :: "char \<Rightarrow> nat option" where
  "unhex c =
     (let n = of_char c in
      if 48 \<le> n \<and> n < 58 then Some (n - 48) else if 65 \<le> n \<and> n < 71 then Some (n - 55)
      else if 97 \<le> n \<and> n < 103 then Some (n - 87) else None)"

fun unquote :: "string \<Rightarrow> string" where
  "unquote [] = []"
| "unquote (c # cs) =
     (if c \<noteq> CHR ''%'' then c # unquote cs
      else case cs of
        a # b # rest \<Rightarrow>
          (case (unhex a, unhex b) of
             (Some x, Some y) \<Rightarrow> char_of (16 * x + y) # unquote rest
           | _ \<Rightarrow> c # unquote cs)
      | _ \<Rightarrow> c # unquote cs)"

record parsed_uri =
  pu_scheme :: string
  pu_netloc :: string
  pu_path :: string

definition scheme_char :: "char \<Rightarrow> bool" where
  "scheme_char c = (is_alpha c \<or> is_digit c \<or> c \<in> set ''+-.'')"

definition urlparse :: "string \<Rightarrow> parsed_uri" where
  \<comment> \<open>of a URI without control characters, IPv6 hosts and path parameters; query and fragment are dropped\<close>
  "urlparse uri =
     (let head = takeWhile (\<lambda>c. c \<noteq> CHR '':'') uri;
          has = (head \<noteq> [] \<and> length head < length uri \<and> is_alpha (hd head) \<and> list_all scheme_char head);
          scheme = (if has then lower head else []);
          rest = (if has then drop (Suc (length head)) uri else uri);
          auth = starts_with ''//'' rest;
          netloc = (if auth then takeWhile (\<lambda>c. c \<notin> set ''/?#'') (drop 2 rest) else []);
          tail = (if auth then drop (2 + length netloc) rest else rest)
      in \<lparr>pu_scheme = scheme, pu_netloc = netloc, pu_path = takeWhile (\<lambda>c. c \<notin> set ''?#'') tail\<rparr>)"

section \<open>The local store\<close>

type_synonym path = "string list"

type_synonym files = "(path, bytes) dict"

record local_env =
  le_sha :: "bytes \<Rightarrow> string"
  le_path :: "string \<Rightarrow> path" \<comment> \<open>\<open>Path(url2pathname(parsed.path or uri))\<close>\<close>
  le_uri :: "path \<Rightarrow> string" \<comment> \<open>\<open>as_uri()\<close>\<close>
  le_http :: "string \<Rightarrow> bytes option" \<comment> \<open>\<open>None\<close>: an \<open>OSError\<close>\<close>
  le_root :: path

definition source_bytes :: "local_env \<Rightarrow> string \<Rightarrow> files \<Rightarrow> store_error + bytes" where
  \<comment> \<open>\<open>_download_file_or_http\<close>\<close>
  "source_bytes env uri fs =
     (let scheme = pu_scheme (urlparse uri) in
      if scheme \<in> {[], ''file''} then of_opt SourceMissing (map_of fs (le_path env uri))
      else if scheme \<in> {''http'', ''https''} then of_opt SourceFailed (le_http env uri)
      else Inl SourceScheme)"

definition blob_path :: "path \<Rightarrow> string \<Rightarrow> string \<Rightarrow> string \<Rightarrow> path" where
  "blob_path base category digest suffix =
     base @ (if category = ''artifacts'' then [] else split_on (CHR ''/'') category) @ [''sha256'', take 2 digest, digest @ suffix]"

definition publish_local :: "local_env \<Rightarrow> string \<Rightarrow> string \<Rightarrow> string \<Rightarrow> string \<Rightarrow> files \<Rightarrow> (store_error + string) \<times> files" where
  \<comment> \<open>\<open>PassthroughArtifactStore.publish_blob\<close>; the temporary file is gone when it ends\<close>
  "publish_local env uri expected category suffix fs =
     (case bindE (normalize_digest expected) (\<lambda>d. bindE (normalize_category category) (\<lambda>c.
             bindE (normalize_suffix suffix) (\<lambda>s. Inr (d, c, s)))) of
        Inl e \<Rightarrow> (Inl e, fs)
      | Inr (digest, safe_category, safe_suffix) \<Rightarrow>
          let destination = blob_path (le_root env) safe_category digest safe_suffix in
          if (case map_of fs destination of Some b \<Rightarrow> le_sha env b = digest | None \<Rightarrow> False)
          then (Inr (le_uri env destination), fs)
          else case source_bytes env uri fs of
            Inl e \<Rightarrow> (Inl e, fs)
          | Inr b \<Rightarrow>
              if le_sha env b \<noteq> digest then (Inl BlobMismatch, fs)
              else (Inr (le_uri env destination), AList.update destination b fs))"

definition publish_zip_local :: "local_env \<Rightarrow> string \<Rightarrow> string \<Rightarrow> files \<Rightarrow> (store_error + string) \<times> files" where
  \<comment> \<open>\<open>PassthroughArtifactStore.publish\<close>\<close>
  "publish_zip_local env uri expected fs = publish_local env uri expected ''artifacts'' ''.zip'' fs"

section \<open>The S3 store\<close>

record s3_object =
  so_content :: bytes
  so_sha :: "string option" \<comment> \<open>\<open>Metadata["sha256"]\<close>\<close>
  so_type :: string

type_synonym objects = "(string, s3_object) dict"

record s3_env =
  s3_sha :: "bytes \<Rightarrow> string"
  s3_bucket :: string
  s3_prefix :: string \<comment> \<open>without slashes at its ends\<close>
  s3_file :: "string \<Rightarrow> bytes option"
  s3_http :: "string \<Rightarrow> bytes option"
  s3_sign :: "string \<Rightarrow> string option" \<comment> \<open>the presigned URL of a key, no \<open>s3\<close> URL itself; \<open>None\<close>: the client fails\<close>
  s3_head_fails :: "string \<Rightarrow> bool"
  s3_upload_fails :: "string \<Rightarrow> bool"

definition blob_key :: "s3_env \<Rightarrow> string \<Rightarrow> string \<Rightarrow> string \<Rightarrow> store_error + string" where
  "blob_key env category digest suffix =
     bindE (normalize_category category) (\<lambda>c. bindE (normalize_suffix suffix) (\<lambda>s.
       let path = (if c = ''artifacts'' then [] else c @ ''/'') @ ''sha256/'' @ take 2 digest @ ''/'' @ digest @ s
       in Inr (if s3_prefix env \<noteq> [] then s3_prefix env @ ''/'' @ path else path)))"

definition stored_uri :: "s3_env \<Rightarrow> string \<Rightarrow> string" where
  "stored_uri env key = ''s3://'' @ s3_bucket env @ ''/'' @ quote key"

definition lstrip_char :: "char \<Rightarrow> string \<Rightarrow> string" where
  "lstrip_char c s = dropWhile (\<lambda>x. x = c) s"

definition distribution_uri :: "s3_env \<Rightarrow> string \<Rightarrow> store_error + string" where
  "distribution_uri env uri =
     (let parsed = urlparse uri in
      if pu_scheme parsed \<noteq> ''s3'' then Inr uri
      else
        let key = unquote (lstrip_char (CHR ''/'') (pu_path parsed)) in
        if pu_netloc parsed \<noteq> s3_bucket env \<or> key = [] then Inl ForeignReference
        else of_opt SignFailed (s3_sign env key))"

definition fetch_plain :: "s3_env \<Rightarrow> string \<Rightarrow> store_error + bytes" where
  "fetch_plain env uri =
     (let scheme = pu_scheme (urlparse uri) in
      if scheme \<in> {[], ''file''} then of_opt SourceMissing (s3_file env uri)
      else if scheme \<in> {''http'', ''https''} then of_opt SourceFailed (s3_http env uri)
      else Inl SourceScheme)"

definition download_source :: "s3_env \<Rightarrow> string \<Rightarrow> store_error + bytes" where
  "download_source env uri =
     (if pu_scheme (urlparse uri) = ''s3'' then bindE (distribution_uri env uri) (fetch_plain env) else fetch_plain env uri)"

definition head_object :: "s3_env \<Rightarrow> string \<Rightarrow> objects \<Rightarrow> store_error + s3_object option" where
  "head_object env key os = (if s3_head_fails env key then Inl InspectFailed else Inr (map_of os key))"

definition publish_s3 :: "s3_env \<Rightarrow> string \<Rightarrow> string \<Rightarrow> string \<Rightarrow> string \<Rightarrow> string \<Rightarrow> objects \<Rightarrow> (store_error + string) \<times> objects" where
  "publish_s3 env uri expected category suffix content_type os =
     (case bindE (normalize_digest expected) (\<lambda>d. bindE (blob_key env category d suffix) (\<lambda>k.
             bindE (head_object env k os) (\<lambda>x. Inr (d, k, x)))) of
        Inl e \<Rightarrow> (Inl e, os)
      | Inr (digest, key, existing) \<Rightarrow>
          if (case existing of Some x \<Rightarrow> so_sha x = Some digest | None \<Rightarrow> False) then (Inr (stored_uri env key), os)
          else case download_source env uri of
            Inl e \<Rightarrow> (Inl e, os)
          | Inr b \<Rightarrow>
              if s3_sha env b \<noteq> digest then (Inl BlobMismatch, os)
              else if s3_upload_fails env key then (Inl UploadFailed, os)
              else (Inr (stored_uri env key), AList.update key \<lparr>so_content = b, so_sha = Some digest, so_type = content_type\<rparr> os))"

definition publish_zip_s3 :: "s3_env \<Rightarrow> string \<Rightarrow> string \<Rightarrow> objects \<Rightarrow> (store_error + string) \<times> objects" where
  "publish_zip_s3 env uri expected os = publish_s3 env uri expected ''artifacts'' ''.zip'' ''application/zip'' os"

section \<open>The interface of a store\<close>

text \<open>
  What the code that publishes relies on (\<open>ArtifactStore\<close>): \<open>bs_content\<close> is what a reference leads to, \<open>bs_names\<close>
  the references a store gives out for a digest. A request carries what may differ from call to call: the source
  and the failures met on the way.
\<close>

locale blob_store =
  fixes bs_publish :: "'r \<Rightarrow> 's \<Rightarrow> (store_error + string) \<times> 's"
    and bs_content :: "string \<Rightarrow> 's \<Rightarrow> bytes option"
    and bs_sha :: "bytes \<Rightarrow> string"
    and bs_digest :: "'r \<Rightarrow> string"
    and bs_names :: "string \<Rightarrow> string \<Rightarrow> bool"
    and bs_ok :: "'s \<Rightarrow> bool"
  assumes publish_ok: "bs_ok s \<Longrightarrow> bs_publish r s = (x, s') \<Longrightarrow> bs_ok s'"
    and publish_holds: "bs_ok s \<Longrightarrow> bs_publish r s = (Inr u, s') \<Longrightarrow>
      bs_names u (bs_digest r) \<and> (\<exists>b. bs_content u s' = Some b \<and> bs_sha b = bs_digest r)"
    and publish_keeps: "bs_ok s \<Longrightarrow> bs_publish r s = (x, s') \<Longrightarrow> bs_names u d \<Longrightarrow>
      \<exists>b. bs_content u s = Some b \<and> bs_sha b = d \<Longrightarrow> \<exists>b. bs_content u s' = Some b \<and> bs_sha b = d"
begin

definition publishes :: "'r list \<Rightarrow> 's \<Rightarrow> 's" where
  "publishes rs s = fold (\<lambda>r s. snd (bs_publish r s)) rs s"

lemma publishes_ok: "bs_ok s \<Longrightarrow> bs_ok (publishes rs s)"
proof (induction rs arbitrary: s)
  case (Cons r rs)
  then show ?case using publish_ok [OF Cons.prems surjective_pairing] by (simp add: publishes_def)
qed (simp add: publishes_def)

lemma publishes_keep:
  "bs_ok s \<Longrightarrow> bs_names u d \<Longrightarrow> \<exists>b. bs_content u s = Some b \<and> bs_sha b = d \<Longrightarrow>
   \<exists>b. bs_content u (publishes rs s) = Some b \<and> bs_sha b = d"
proof (induction rs arbitrary: s)
  case (Cons r rs)
  have "publishes (r # rs) s = publishes rs (snd (bs_publish r s))" by (simp add: publishes_def)
  then show ?case
    using Cons.IH [OF publish_ok [OF Cons.prems(1) surjective_pairing] Cons.prems(2)
        publish_keeps [OF Cons.prems(1) surjective_pairing Cons.prems(2,3)]] by simp
qed (simp add: publishes_def)

lemma published_lasts:
  assumes "bs_ok s" and "bs_publish r (publishes before s) = (Inr u, s')"
  shows "\<exists>b. bs_content u (publishes after s') = Some b \<and> bs_sha b = bs_digest r"
proof -
  have ok: "bs_ok (publishes before s)" using assms(1) by (rule publishes_ok)
  note h = publish_holds [OF ok assms(2)]
  show ?thesis by (rule publishes_keep [OF publish_ok [OF ok assms(2)] conjunct1 [OF h] conjunct2 [OF h]])
qed

end

section \<open>The local store is one\<close>

record blob_request =
  br_uri :: string
  br_digest :: string
  br_category :: string
  br_suffix :: string
  br_type :: string

definition local_publish :: "local_env \<Rightarrow> blob_request \<times> (string \<Rightarrow> bytes option) \<Rightarrow> files \<Rightarrow> (store_error + string) \<times> files" where
  "local_publish env = (\<lambda>(r, http) fs.
     publish_local (env\<lparr>le_http := http\<rparr>) (br_uri r) (br_digest r) (br_category r) (br_suffix r) fs)"

definition requested_digest :: "blob_request \<times> 'a \<Rightarrow> string" where
  "requested_digest r = normal_digest (br_digest (fst r))"

definition local_content :: "local_env \<Rightarrow> string \<Rightarrow> files \<Rightarrow> bytes option" where
  "local_content env u fs = map_of fs (le_path env u)"

definition local_names :: "local_env \<Rightarrow> string \<Rightarrow> string \<Rightarrow> bool" where
  "local_names env u d = (\<exists>c s. u = le_uri env (blob_path (le_root env) c d s) \<and> length d = 64)"

definition local_ok :: "local_env \<Rightarrow> files \<Rightarrow> bool" where
  \<comment> \<open>\<open>as_uri\<close> and \<open>url2pathname\<close> are inverse\<close>
  "local_ok env fs = (\<forall>p. le_path env (le_uri env p) = p)"

lemma normalize_digest_eq: "normalize_digest v = Inr d \<longleftrightarrow> d = normal_digest v \<and> length d = 64 \<and> list_all hex_char d"
  by (auto simp: normalize_digest_def Let_def list_ex_iff list_all_iff)

lemma publish_local_cases:
  assumes "publish_local env uri expected category suffix fs = (x, fs')"
  obtains e where "x = Inl e" "fs' = fs"
  | d c s where "normalize_digest expected = Inr d" "normalize_category category = Inr c" "normalize_suffix suffix = Inr s"
      "x = Inr (le_uri env (blob_path (le_root env) c d s))" "fs' = fs"
      "\<exists>b. map_of fs (blob_path (le_root env) c d s) = Some b \<and> le_sha env b = d"
  | d c s b where "normalize_digest expected = Inr d" "normalize_category category = Inr c" "normalize_suffix suffix = Inr s"
      "x = Inr (le_uri env (blob_path (le_root env) c d s))" "fs' = AList.update (blob_path (le_root env) c d s) b fs" "le_sha env b = d"
      "source_bytes env uri fs = Inr b"
proof (cases "bindE (normalize_digest expected) (\<lambda>d. bindE (normalize_category category) (\<lambda>c.
             bindE (normalize_suffix suffix) (\<lambda>s. Inr (d, c, s))))")
  case (Inl e)
  then have "x = Inl e" "fs' = fs" using assms by (simp_all add: publish_local_def)
  then show ?thesis by (rule that(1))
next
  case bound: (Inr p)
  obtain d c s where p: "p = (d, c, s)" by (metis prod.exhaust)
  have n: "normalize_digest expected = Inr d" "normalize_category category = Inr c" "normalize_suffix suffix = Inr s"
    using bound by (auto simp: p bindE_eq_Inr)
  let ?dst = "blob_path (le_root env) c d s"
  show ?thesis
  proof (cases "case map_of fs ?dst of Some b \<Rightarrow> le_sha env b = d | None \<Rightarrow> False")
    case True
    then have "\<exists>b. map_of fs ?dst = Some b \<and> le_sha env b = d" by (simp split: option.splits)
    moreover have "x = Inr (le_uri env ?dst)" "fs' = fs" using assms bound p True by (simp_all add: publish_local_def Let_def)
    ultimately show ?thesis using that(2) [OF n] by blast
  next
    case miss: False
    show ?thesis
    proof (cases "source_bytes env uri fs")
      case (Inl e)
      then have "x = Inl e" "fs' = fs" using assms bound p miss by (simp_all add: publish_local_def Let_def)
      then show ?thesis by (rule that(1))
    next
      case src: (Inr b)
      show ?thesis
      proof (cases "le_sha env b = d")
        case True
        then have "x = Inr (le_uri env ?dst)" "fs' = AList.update ?dst b fs"
          using assms bound p miss src by (simp_all add: publish_local_def Let_def)
        then show ?thesis using that(3) [OF n] True src by blast
      next
        case False
        then have "x = Inl BlobMismatch" "fs' = fs" using assms bound p miss src by (simp_all add: publish_local_def Let_def)
        then show ?thesis by (rule that(1))
      qed
    qed
  qed
qed

lemma blob_path_digest:
  assumes "blob_path base c d s = blob_path base c' d' s'" and "length d = 64" and "length d' = 64"
  shows "d = d'"
proof -
  have "last (blob_path base c d s) = d @ s" "last (blob_path base c' d' s') = d' @ s'" by (simp_all add: blob_path_def)
  then show ?thesis using assms by (metis append_eq_append_conv)
qed

interpretation local: blob_store "local_publish env" "local_content env" "le_sha env" requested_digest
  "local_names env" "local_ok env" for env
proof
  fix s s' :: files and r :: "blob_request \<times> (string \<Rightarrow> bytes option)" and x u d
  assume ok: "local_ok env s"
  have turn: "le_path env (le_uri env p) = p" for p using ok by (simp add: local_ok_def)
  obtain q http where r: "r = (q, http)" by (metis prod.exhaust)
  let ?env = "env\<lparr>le_http := http\<rparr>"
  show "local_ok env s'" using ok by (simp add: local_ok_def)
  show "local_names env u (requested_digest r) \<and>
      (\<exists>b. local_content env u s' = Some b \<and> le_sha env b = requested_digest r)"
    if p: "local_publish env r s = (Inr u, s')"
  proof -
    have "publish_local ?env (br_uri q) (br_digest q) (br_category q) (br_suffix q) s = (Inr u, s')"
      using p by (simp add: local_publish_def r)
    then show ?thesis
      by (cases rule: publish_local_cases)
        (auto simp: r requested_digest_def local_names_def local_content_def turn normalize_digest_eq update_conv')
  qed
  show "\<exists>b. local_content env u s' = Some b \<and> le_sha env b = d"
    if p: "local_publish env r s = (x, s')" and n: "local_names env u d"
      and b: "\<exists>b. local_content env u s = Some b \<and> le_sha env b = d"
  proof -
    obtain c t where u: "u = le_uri env (blob_path (le_root env) c d t)" "length d = 64" using n by (auto simp: local_names_def)
    have "publish_local ?env (br_uri q) (br_digest q) (br_category q) (br_suffix q) s = (x, s')"
      using p by (simp add: local_publish_def r)
    then show ?thesis
    proof (cases rule: publish_local_cases)
      case (3 d' c' t' b')
      have d': "length d' = 64" using 3(1) unfolding normalize_digest_eq by (elim conjE)
      show ?thesis
      proof (cases "blob_path (le_root env) c d t = blob_path (le_root env) c' d' t'")
        case True
        have "d = d'" by (rule blob_path_digest [OF True u(2) d'])
        then show ?thesis using 3 True by (simp add: local_content_def u(1) turn update_conv')
      next
        case False
        then show ?thesis using 3 b by (simp add: local_content_def u(1) turn update_conv')
      qed
    qed (use b in simp_all)
  qed
qed

section \<open>References to a bucket\<close>

lemma unhex_hex: "n < 16 \<Longrightarrow> unhex (hex_digit n) = Some n"
  by (auto simp: unhex_def hex_digit_def Let_def of_char_of)

lemma high_digit: "(of_char c :: nat) div 16 < 16"
  by (simp add: div_less_iff_less_mult)

lemma unquote_char: "unquote (quote_char c @ s) = c # unquote s"
proof (cases "unreserved c")
  case True
  then have "c \<noteq> CHR ''%''" by (auto simp: unreserved_def is_alpha_def is_lower_def is_upper_def is_digit_def)
  then show ?thesis using True by (simp add: quote_char_def)
next
  case False
  have c: "(of_char c :: nat) div 16 < 16" by (rule high_digit)
  then have "unhex (hex_digit (of_char c div 16)) = Some (of_char c div 16)" "unhex (hex_digit (of_char c mod 16)) = Some (of_char c mod 16)"
    using c by (simp_all add: unhex_hex)
  then show ?thesis using False by (simp add: quote_char_def)
qed

lemma unquote_quote [simp]: "unquote (quote s) = s"
  by (induction s) (simp_all add: quote_def unquote_char)

lemma quote_chars: "c \<in> set (quote s) \<Longrightarrow> unreserved c \<or> c = CHR ''%''"
proof -
  have h: "unreserved (hex_digit n)" if "n < 16" for n
    using that by (auto simp: hex_digit_def unreserved_def is_alpha_def is_upper_def is_digit_def less_eq_char_def of_char_of)
  have q: "unreserved c \<or> c = CHR ''%''" if "c \<in> set (quote_char x)" for c x
    using that h [OF high_digit [of x]] h [of "of_char x mod 16"] by (auto simp: quote_char_def split: if_splits)
  show "c \<in> set (quote s) \<Longrightarrow> unreserved c \<or> c = CHR ''%''" using q by (auto simp: quote_def)
qed

definition bucket_ok :: "s3_env \<Rightarrow> bool" where
  "bucket_ok env = (s3_bucket env \<noteq> [] \<and> list_all (\<lambda>c. c \<notin> set ''/?#'') (s3_bucket env) \<and> \<not> starts_with ''/'' (s3_prefix env))"

lemma parse_stored:
  assumes "bucket_ok env"
  shows "urlparse (stored_uri env key) = \<lparr>pu_scheme = ''s3'', pu_netloc = s3_bucket env, pu_path = CHR ''/'' # quote key\<rparr>"
proof -
  let ?rest = "s3_bucket env @ CHR ''/'' # quote key"
  have n: "takeWhile (\<lambda>c. c \<notin> set ''/?#'') ?rest = s3_bucket env"
    using assms by (subst takeWhile_append2) (auto simp: bucket_ok_def list_all_iff)
  have "c \<notin> set ''?#''" if "c \<in> set (CHR ''/'' # quote key)" for c
    using that quote_chars [of c key]
    by (auto simp: unreserved_def is_alpha_def is_lower_def is_upper_def is_digit_def less_eq_char_def)
  then have t: "takeWhile (\<lambda>c. c \<notin> set ''?#'') (CHR ''/'' # quote key) = CHR ''/'' # quote key" by (simp only: takeWhile_eq_all_conv) blast
  have l: "lower ''s3'' = ''s3''" by (simp add: lower_def lower_char_def)
  show ?thesis
    unfolding urlparse_def stored_uri_def
    using n t l by (simp add: Let_def starts_with_def scheme_char_def is_alpha_def is_lower_def is_digit_def less_eq_char_def)
qed

lemma lstrip_quoted:
  assumes "key \<noteq> []" and "hd key \<noteq> CHR ''/''"
  shows "lstrip_char (CHR ''/'') (CHR ''/'' # quote key) = quote key"
proof -
  obtain k ks where k: "key = k # ks" using assms(1) by (cases key) auto
  then have "quote key \<noteq> [] \<and> hd (quote key) \<noteq> CHR ''/''" using assms(2) by (simp add: quote_def quote_char_def)
  then show ?thesis by (cases "quote key") (simp_all add: lstrip_char_def)
qed

lemma hd_strip_by: "strip_by p s \<noteq> [] \<Longrightarrow> \<not> p (hd (strip_by p s))"
proof -
  assume ne: "strip_by p s \<noteq> []"
  let ?t = "dropWhile p s"
  obtain u where u: "?t = strip_by p s @ u"
    unfolding strip_by_def by (metis takeWhile_dropWhile_id rev_append rev_rev_ident)
  then have "?t \<noteq> []" and "hd ?t = hd (strip_by p s)" using ne by (auto simp: hd_append)
  then show ?thesis using hd_dropWhile [of p s] by simp
qed

lemma normalize_category_eq:
  assumes "normalize_category v = Inr c"
  shows "c \<noteq> []" and "hd c \<noteq> CHR ''/''" and "\<forall>p \<in> set (split_on (CHR ''/'') c). safe_segment p"
proof -
  let ?t = "strip_by (\<lambda>c. c = CHR ''/'') v"
  have c: "c = ?t" and seg: "list_all safe_segment (split_on (CHR ''/'') ?t)"
    using assms join_split_on [of "CHR ''/''" ?t]
    by (auto simp: normalize_category_def Let_def list_ex_iff list_all_iff split: if_splits)
  show "\<forall>p \<in> set (split_on (CHR ''/'') c). safe_segment p" using seg by (simp add: c list_all_iff)
  show ne: "c \<noteq> []"
  proof
    assume "c = []"
    then have "safe_segment []" using seg by (simp add: c)
    then show False by (simp add: safe_segment_def)
  qed
  show "hd c \<noteq> CHR ''/''" using hd_strip_by [of "\<lambda>c. c = CHR ''/''" v] ne by (simp add: c)
qed

lemma split_on_append: "split_on x (zs @ x # ys) = split_on x zs @ split_on x ys"
proof (induction zs)
  case (Cons z zs)
  then show ?case by (cases "split_on x zs") auto
qed simp

lemma last_split: "x \<notin> set ys \<Longrightarrow> last (split_on x (zs @ x # ys)) = ys"
proof -
  assume "x \<notin> set ys"
  then have "split_on x ys = [ys]" by (induction ys) auto
  then show ?thesis by (simp add: split_on_append)
qed

lemma hex_no_slash: "list_all hex_char d \<Longrightarrow> CHR ''/'' \<notin> set d"
  by (auto simp: list_all_iff hex_char_def)

lemma normalize_suffix_eq: "normalize_suffix v = Inr s \<longleftrightarrow> s = v \<and> starts_with ''.'' v \<and> CHR ''/'' \<notin> set v \<and> CHR 0x5C \<notin> set v \<and>
    length v \<le> 16 \<and> alnum_text (filter (\<lambda>c. c \<noteq> CHR ''.'') (drop 1 v))"
  by (auto simp: normalize_suffix_def)

lemma blob_key_facts:
  assumes "bucket_ok env" and "blob_key env category d suffix = Inr k" and "list_all hex_char d"
  shows "k \<noteq> []" and "hd k \<noteq> CHR ''/''" and "last (split_on (CHR ''/'') k) = d @ suffix"
proof -
  obtain c where c: "normalize_category category = Inr c" and s: "normalize_suffix suffix = Inr suffix"
    and k: "k = (if s3_prefix env \<noteq> [] then s3_prefix env @ ''/'' else []) @
      (if c = ''artifacts'' then [] else c @ ''/'') @ ''sha256/'' @ take 2 d @ CHR ''/'' # (d @ suffix)"
    using assms(2) by (auto simp: blob_key_def bindE_eq_Inr Let_def normalize_suffix_eq split: if_splits)
  show "k \<noteq> []" by (simp add: k)
  have p: "s3_prefix env \<noteq> [] \<Longrightarrow> hd (s3_prefix env) \<noteq> CHR ''/''"
    using assms(1) by (cases "s3_prefix env") (simp_all add: bucket_ok_def starts_with_def)
  show "hd k \<noteq> CHR ''/''" using p normalize_category_eq(1,2) [OF c] by (auto simp: k hd_append)
  have "CHR ''/'' \<notin> set (d @ suffix)" using hex_no_slash [OF assms(3)] s by (simp add: normalize_suffix_eq)
  then show "last (split_on (CHR ''/'') k) = d @ suffix"
    unfolding k append_assoc [symmetric] by (rule last_split)
qed

section \<open>The S3 store is one too\<close>

record s3_call =
  sc_file :: "string \<Rightarrow> bytes option"
  sc_http :: "string \<Rightarrow> bytes option"
  sc_sign :: "string \<Rightarrow> string option"
  sc_head_fails :: "string \<Rightarrow> bool"
  sc_upload_fails :: "string \<Rightarrow> bool"

definition env_of :: "s3_env \<Rightarrow> s3_call \<Rightarrow> s3_env" where
  "env_of env c = env\<lparr>s3_file := sc_file c, s3_http := sc_http c, s3_sign := sc_sign c, s3_head_fails := sc_head_fails c,
     s3_upload_fails := sc_upload_fails c\<rparr>"

definition s3_publish :: "s3_env \<Rightarrow> blob_request \<times> s3_call \<Rightarrow> objects \<Rightarrow> (store_error + string) \<times> objects" where
  "s3_publish env = (\<lambda>(r, c) os.
     publish_s3 (env_of env c) (br_uri r) (br_digest r) (br_category r) (br_suffix r) (br_type r) os)"

definition key_of :: "s3_env \<Rightarrow> string \<Rightarrow> string option" where
  \<comment> \<open>the key that \<open>distribution_uri\<close> signs\<close>
  "key_of env u =
     (let parsed = urlparse u; key = unquote (lstrip_char (CHR ''/'') (pu_path parsed)) in
      if pu_scheme parsed = ''s3'' \<and> pu_netloc parsed = s3_bucket env \<and> key \<noteq> [] then Some key else None)"

definition s3_content :: "s3_env \<Rightarrow> string \<Rightarrow> objects \<Rightarrow> bytes option" where
  "s3_content env u os = (case key_of env u of None \<Rightarrow> None | Some k \<Rightarrow> map_option so_content (map_of os k))"

definition s3_names :: "s3_env \<Rightarrow> string \<Rightarrow> string \<Rightarrow> bool" where
  "s3_names env u d = (\<exists>category suffix k. blob_key env category d suffix = Inr k \<and> u = stored_uri env k \<and>
     length d = 64 \<and> list_all hex_char d)"

definition s3_ok :: "s3_env \<Rightarrow> objects \<Rightarrow> bool" where
  "s3_ok env os = (bucket_ok env \<and> (\<forall>k x d. map_of os k = Some x \<longrightarrow> so_sha x = Some d \<longrightarrow> s3_sha env (so_content x) = d))"

lemma key_of_stored: "bucket_ok env \<Longrightarrow> k \<noteq> [] \<Longrightarrow> hd k \<noteq> CHR ''/'' \<Longrightarrow> key_of env (stored_uri env k) = Some k"
  by (simp add: key_of_def parse_stored lstrip_quoted)

lemma publish_s3_cases:
  assumes "publish_s3 env uri expected category suffix ct os = (x, os')"
  obtains e where "x = Inl e" "os' = os"
  | d k y where "normalize_digest expected = Inr d" "blob_key env category d suffix = Inr k" "x = Inr (stored_uri env k)" "os' = os"
      "map_of os k = Some y" "so_sha y = Some d"
  | d k b where "normalize_digest expected = Inr d" "blob_key env category d suffix = Inr k" "x = Inr (stored_uri env k)"
      "os' = AList.update k \<lparr>so_content = b, so_sha = Some d, so_type = ct\<rparr> os" "s3_sha env b = d"
proof (cases "bindE (normalize_digest expected) (\<lambda>d. bindE (blob_key env category d suffix) (\<lambda>k.
             bindE (head_object env k os) (\<lambda>x. Inr (d, k, x))))")
  case (Inl e)
  then have "x = Inl e" "os' = os" using assms by (simp_all add: publish_s3_def)
  then show ?thesis by (rule that(1))
next
  case bound: (Inr p)
  obtain d k y where p: "p = (d, k, y)" by (metis prod.exhaust)
  have n: "normalize_digest expected = Inr d" "blob_key env category d suffix = Inr k" and y: "y = map_of os k"
    using bound by (auto simp: p bindE_eq_Inr head_object_def split: if_splits)
  show ?thesis
  proof (cases "case y of Some x \<Rightarrow> so_sha x = Some d | None \<Rightarrow> False")
    case True
    then obtain z where z: "map_of os k = Some z" "so_sha z = Some d" by (auto simp: y split: option.splits)
    moreover have "x = Inr (stored_uri env k)" "os' = os" using assms bound p True by (simp_all add: publish_s3_def)
    ultimately show ?thesis using that(2) [OF n] by blast
  next
    case miss: False
    show ?thesis
    proof (cases "download_source env uri")
      case (Inl e)
      then have "x = Inl e" "os' = os" using assms bound p miss by (simp_all add: publish_s3_def)
      then show ?thesis by (rule that(1))
    next
      case src: (Inr b)
      show ?thesis
      proof (cases "s3_sha env b = d \<and> \<not> s3_upload_fails env k")
        case True
        then have "x = Inr (stored_uri env k)" "os' = AList.update k \<lparr>so_content = b, so_sha = Some d, so_type = ct\<rparr> os"
          using assms bound p miss src by (simp_all add: publish_s3_def)
        then show ?thesis using that(3) [OF n] True by blast
      next
        case False
        then have "\<exists>e. x = Inl e \<and> os' = os"
          using assms bound p miss src by (auto simp: publish_s3_def split: if_splits)
        then show ?thesis using that(1) by blast
      qed
    qed
  qed
qed

lemma env_of_bucket [simp]:
  "s3_sha (env_of env c) = s3_sha env" "s3_prefix (env_of env c) = s3_prefix env" "s3_bucket (env_of env c) = s3_bucket env"
  by (simp_all add: env_of_def)

lemma env_of_sel [simp]: "blob_key (env_of env c) x y z = blob_key env x y z" "stored_uri (env_of env c) k = stored_uri env k"
  by (simp_all only: blob_key_def stored_uri_def env_of_bucket)

interpretation s3: blob_store "s3_publish env" "s3_content env" "s3_sha env" requested_digest "s3_names env" "s3_ok env" for env
proof
  fix s s' :: objects and r :: "blob_request \<times> s3_call" and x u d
  assume ok: "s3_ok env s"
  have B: "bucket_ok env" and O: "\<And>k y d. map_of s k = Some y \<Longrightarrow> so_sha y = Some d \<Longrightarrow> s3_sha env (so_content y) = d"
    using ok unfolding s3_ok_def by blast+
  obtain q c where r: "r = (q, c)" by (metis prod.exhaust)
  have parts: "publish_s3 (env_of env c) (br_uri q) (br_digest q) (br_category q) (br_suffix q) (br_type q) s = (z, s')"
    if "s3_publish env r s = (z, s')" for z using that by (simp add: s3_publish_def r)
  show "s3_ok env s'" if p: "s3_publish env r s = (x, s')"
    using parts [OF p]
  proof (cases rule: publish_s3_cases)
    case (3 d k b)
    then have "s3_sha env (so_content y) = d'" if "map_of s' k' = Some y" "so_sha y = Some d'" for k' y d'
      using that O by (auto simp: update_conv' split: if_splits)
    then show ?thesis unfolding s3_ok_def using B by blast
  qed (use ok in simp_all)
  have named: "length d = 64 \<and> list_all hex_char d \<and> k \<noteq> [] \<and> hd k \<noteq> CHR ''/'' \<and> key_of env (stored_uri env k) = Some k \<and> d = requested_digest r"
    if d: "normalize_digest (br_digest q) = Inr d" and k: "blob_key env (br_category q) d (br_suffix q) = Inr k" for d k
  proof -
    have h: "d = normal_digest (br_digest q)" "length d = 64" "list_all hex_char d" using d unfolding normalize_digest_eq by blast+
    note f = blob_key_facts [OF B k h(3)]
    show ?thesis using h f(1,2) key_of_stored [OF B f(1,2)] by (simp add: requested_digest_def r)
  qed
  show "s3_names env u (requested_digest r) \<and> (\<exists>b. s3_content env u s' = Some b \<and> s3_sha env b = requested_digest r)"
    if p: "s3_publish env r s = (Inr u, s')"
    using parts [OF p]
  proof (cases rule: publish_s3_cases)
    case (2 d k y)
    have k: "blob_key env (br_category q) d (br_suffix q) = Inr k" using 2(2) by simp
    note N = named [OF 2(1) k]
    have u: "u = stored_uri env k" using 2(3) by simp
    have "s3_content env u s' = Some (so_content y)" using N 2(4,5) by (simp add: s3_content_def u)
    moreover have "s3_sha env (so_content y) = requested_digest r" using O [OF 2(5,6)] N by simp
    ultimately show ?thesis unfolding s3_names_def using N k u by blast
  next
    case (3 d k b)
    have k: "blob_key env (br_category q) d (br_suffix q) = Inr k" using 3(2) by simp
    note N = named [OF 3(1) k]
    have u: "u = stored_uri env k" using 3(3) by simp
    have "s3_content env u s' = Some b" using N 3(4) by (simp add: s3_content_def u update_conv')
    moreover have "s3_sha env b = requested_digest r" using 3(5) N by simp
    ultimately show ?thesis unfolding s3_names_def using N k u by blast
  qed simp
  show "\<exists>b. s3_content env u s' = Some b \<and> s3_sha env b = d"
    if p: "s3_publish env r s = (x, s')" and n: "s3_names env u d" and b: "\<exists>b. s3_content env u s = Some b \<and> s3_sha env b = d"
  proof -
    obtain category suffix k where k: "blob_key env category d suffix = Inr k" "u = stored_uri env k" "length d = 64" "list_all hex_char d"
      using n by (auto simp: s3_names_def)
    note f = blob_key_facts [OF B k(1,4)]
    have at: "key_of env u = Some k" unfolding k(2) by (rule key_of_stored [OF B f(1,2)])
    show ?thesis
      using parts [OF p]
    proof (cases rule: publish_s3_cases)
      case (3 d' k' b')
      have k': "blob_key env (br_category q) d' (br_suffix q) = Inr k'" using 3(2) by simp
      show ?thesis
      proof (cases "k = k'")
        case True
        have "list_all hex_char d'" using named [OF 3(1) k'] by (elim conjE)
        then have "d @ suffix = d' @ br_suffix q" using f(3) blob_key_facts(3) [OF B k'] True by simp
        moreover have "length d' = 64" using named [OF 3(1) k'] by (elim conjE)
        ultimately have "d = d'" using k(3) by simp
        then show ?thesis using 3(4,5) True by (simp add: s3_content_def at update_conv')
      next
        case False
        then show ?thesis using 3(4) b by (simp add: s3_content_def at update_conv')
      qed
    qed (use b in simp_all)
  qed
qed

section \<open>What the stores promise\<close>

text \<open>C17. A blob in the bucket lasts: whatever was published before and is published afterwards, with whatever
  failures of the client and the sources, the reference that a publication returned still leads to content whose
  SHA-256 digest is the requested one, and it is the key of that very reference that is signed for its readers.\<close>

theorem s3_blobs_last:
  assumes "bucket_ok env" and "s3_publish env (r, c) (s3.publishes env before []) = (Inr u, os)"
  shows "\<exists>b k. s3_content env u (s3.publishes env after os) = Some b \<and> s3_sha env b = normal_digest (br_digest r) \<and>
    length (s3_sha env b) = 64 \<and> distribution_uri (env_of env c') u = of_opt SignFailed (sc_sign c' k) \<and>
    map_option so_content (map_of (s3.publishes env after os) k) = Some b"
proof -
  have ok: "s3_ok env []" using assms(1) by (simp add: s3_ok_def)
  obtain b where b: "s3_content env u (s3.publishes env after os) = Some b" "s3_sha env b = normal_digest (br_digest r)"
    using s3.published_lasts [OF ok assms(2), of after] by (auto simp: requested_digest_def)
  have "s3_names env u (normal_digest (br_digest r))"
    using s3.publish_holds [OF s3.publishes_ok [OF ok] assms(2)] by (simp add: requested_digest_def)
  then have len: "length (normal_digest (br_digest r)) = 64" by (auto simp: s3_names_def)
  obtain k where k: "key_of env u = Some k" using b(1) by (auto simp: s3_content_def split: option.splits)
  then have "distribution_uri (env_of env c') u = of_opt SignFailed (sc_sign c' k)"
    by (auto simp: key_of_def distribution_uri_def Let_def env_of_def split: if_splits)
  then show ?thesis using b k len by (intro exI [of _ b] exI [of _ k]) (simp add: s3_content_def)
qed

definition demo_bucket :: s3_env where
  "demo_bucket = \<lparr>s3_sha = demo_sha, s3_bucket = ''pkg'', s3_prefix = ''live'', s3_file = (\<lambda>_. None), s3_http = (\<lambda>_. None),
     s3_sign = (\<lambda>_. None), s3_head_fails = (\<lambda>_. False), s3_upload_fails = (\<lambda>_. False)\<rparr>"

definition demo_call :: s3_call where
  "demo_call = \<lparr>sc_file = (\<lambda>_. None), sc_http = (\<lambda>u. if u = ''http://h/a'' then Some [1, 2] else None), sc_sign = (\<lambda>k. Some k),
     sc_head_fails = (\<lambda>_. False), sc_upload_fails = (\<lambda>_. False)\<rparr>"

definition demo_blob :: blob_request where
  "demo_blob = \<lparr>br_uri = ''http://h/a'', br_digest = demo_digest, br_category = ''artifacts'', br_suffix = ''.zip'', br_type = []\<rparr>"

lemma demo_digest_normal: "normalize_digest demo_digest = Inr demo_digest" "normal_digest demo_digest = demo_digest"
proof -
  show n: "normal_digest demo_digest = demo_digest"
    by (simp add: normal_digest_def demo_digest_def removeprefix_def starts_with_def lower_def lower_char_def numeral_eq_Suc)
  have "length demo_digest = 64" "list_all hex_char demo_digest" by (simp_all add: demo_digest_def hex_char_def list_all_iff)
  then show "normalize_digest demo_digest = Inr demo_digest" by (simp add: normalize_digest_eq n)
qed

lemma demo_blob_names: "normalize_category ''artifacts'' = Inr ''artifacts''" "normalize_suffix ''.zip'' = Inr ''.zip''"
  by code_simp+

theorem s3_blobs_last_witness:
  "\<exists>u b k. fst (s3_publish demo_bucket (demo_blob, demo_call) []) = Inr u \<and>
     s3_content demo_bucket u (s3.publishes demo_bucket [(demo_blob, demo_call)] (snd (s3_publish demo_bucket (demo_blob, demo_call) []))) = Some b \<and>
     s3_sha demo_bucket b = demo_digest \<and> distribution_uri (env_of demo_bucket demo_call) u = Inr k"
proof -
  have ok: "bucket_ok demo_bucket" by (simp add: bucket_ok_def demo_bucket_def starts_with_def)
  obtain key where k: "blob_key demo_bucket ''artifacts'' demo_digest ''.zip'' = Inr key"
    by (simp add: blob_key_def demo_blob_names demo_bucket_def)
  let ?env = "env_of demo_bucket demo_call"
  have u: "urlparse ''http://h/a'' = \<lparr>pu_scheme = ''http'', pu_netloc = ''h'', pu_path = ''/a''\<rparr>" by code_simp
  have d: "download_source ?env ''http://h/a'' = Inr [1, 2]"
    by (simp add: download_source_def fetch_plain_def u env_of_def demo_call_def)
  have "head_object ?env key [] = Inr None" by (simp add: head_object_def env_of_def demo_call_def)
  moreover have "\<not> s3_upload_fails ?env key" by (simp add: env_of_def demo_call_def)
  moreover have "s3_sha demo_bucket [1, 2] = demo_digest" by (simp add: demo_bucket_def demo_sha_def)
  ultimately obtain v os where q: "s3_publish demo_bucket (demo_blob, demo_call) [] = (Inr v, os)"
    by (simp add: s3_publish_def publish_s3_def demo_blob_def demo_digest_normal k d del: One_nat_def)
  have "s3.publishes demo_bucket [] [] = []" by (simp add: s3.publishes_def)
  then have p: "s3_publish demo_bucket (demo_blob, demo_call) (s3.publishes demo_bucket [] []) = (Inr v, os)" using q by simp
  show ?thesis
    using s3_blobs_last [OF ok p, of "[(demo_blob, demo_call)]" demo_call] q
  proof (elim exE conjE)
    fix b k
    assume c: "s3_content demo_bucket v (s3.publishes demo_bucket [(demo_blob, demo_call)] os) = Some b"
      and h: "s3_sha demo_bucket b = normal_digest (br_digest demo_blob)"
      and u: "distribution_uri ?env v = of_opt SignFailed (sc_sign demo_call k)"
    have "s3_sha demo_bucket b = demo_digest" using h by (simp add: demo_blob_def demo_digest_normal)
    moreover have "distribution_uri ?env v = Inr k" using u by (simp add: demo_call_def)
    ultimately show ?thesis using c unfolding q fst_conv snd_conv by blast
  qed
qed

lemma safe_segment_char: "safe_segment p \<Longrightarrow> p \<noteq> [] \<and> p \<noteq> ''..'' \<and> p \<noteq> ''.''"
  by (simp add: safe_segment_def)

text \<open>C39. The local store is content-addressed and stays in its directory: a publication writes at most the one file it
  returns, below the root and with no \<open>..\<close> in its path; that file has the requested digest, a damaged file of that
  name is replaced, every other file is as before, and a second publication of the digest needs no source.\<close>

theorem local_publish_sound:
  assumes "publish_local env uri expected category suffix fs = (Inr u, fs')"
  shows "\<exists>p b. u = le_uri env (le_root env @ p) \<and> map_of fs' (le_root env @ p) = Some b \<and> le_sha env b = normal_digest expected \<and>
    (\<forall>x \<in> set p. x \<noteq> [] \<and> x \<noteq> ''.'' \<and> x \<noteq> ''..'' \<and> CHR ''/'' \<notin> set x) \<and>
    (\<forall>q. q \<noteq> le_root env @ p \<longrightarrow> map_of fs' q = map_of fs q) \<and>
    (\<forall>uri' http. publish_local (env\<lparr>le_http := http\<rparr>) uri' expected category suffix fs' = (Inr u, fs'))"
proof -
  obtain d c s where n: "normalize_digest expected = Inr d" "normalize_category category = Inr c" "normalize_suffix suffix = Inr s"
    and u: "u = le_uri env (blob_path (le_root env) c d s)"
    and b: "\<exists>b. map_of fs' (blob_path (le_root env) c d s) = Some b \<and> le_sha env b = d"
    and same: "\<forall>q. q \<noteq> blob_path (le_root env) c d s \<longrightarrow> map_of fs' q = map_of fs q"
    using assms by (cases rule: publish_local_cases) (auto simp: update_conv')
  let ?p = "(if c = ''artifacts'' then [] else split_on (CHR ''/'') c) @ [''sha256'', take 2 d, d @ s]"
  have path: "blob_path (le_root env) c d s = le_root env @ ?p" by (simp add: blob_path_def)
  have d: "d = normal_digest expected" "length d = 64" "list_all hex_char d" using n(1) unfolding normalize_digest_eq by blast+
  have hex: "c \<noteq> CHR ''.'' \<and> c \<noteq> CHR ''/''" if "hex_char c" for c using that by (auto simp: hex_char_def)
  obtain d0 d1 ds where dd: "d = d0 # d1 # ds" using d(2) by (auto simp: numeral_eq_Suc length_Suc_conv)
  have h0: "d0 \<noteq> CHR ''.''" "CHR ''/'' \<notin> set d" using d(3) dd hex by (auto simp: list_all_iff)
  have s: "CHR ''/'' \<notin> set s" using n(3) unfolding normalize_suffix_eq by simp
  have cat: "x \<noteq> [] \<and> x \<noteq> ''.'' \<and> x \<noteq> ''..'' \<and> CHR ''/'' \<notin> set x" if "x \<in> set (split_on (CHR ''/'') c)" for x
    using normalize_category_eq(3) [OF n(2)] that split_on_no_sep [OF that] safe_segment_char by auto
  have fin: "x \<noteq> [] \<and> x \<noteq> ''.'' \<and> x \<noteq> ''..'' \<and> CHR ''/'' \<notin> set x" if "x \<in> {''sha256'', take 2 d, d @ s}" for x
    using that h0 s by (auto simp: dd)
  have safe: "\<forall>x \<in> set ?p. x \<noteq> [] \<and> x \<noteq> ''.'' \<and> x \<noteq> ''..'' \<and> CHR ''/'' \<notin> set x"
  proof
    fix x assume "x \<in> set ?p"
    then consider "x \<in> set (split_on (CHR ''/'') c)" | "x \<in> {''sha256'', take 2 d, d @ s}" by (auto split: if_splits)
    then show "x \<noteq> [] \<and> x \<noteq> ''.'' \<and> x \<noteq> ''..'' \<and> CHR ''/'' \<notin> set x" by cases (rule cat fin, assumption)+
  qed
  have again: "publish_local (env\<lparr>le_http := http\<rparr>) uri' expected category suffix fs' = (Inr u, fs')" for uri' http
    using b by (auto simp: publish_local_def n u Let_def)
  from b obtain b' where b0: "map_of fs' (blob_path (le_root env) c d s) = Some b'" "le_sha env b' = d" by (elim exE conjE)
  have b': "map_of fs' (le_root env @ ?p) = Some b'" using b0(1) unfolding path .
  have sha: "le_sha env b' = normal_digest expected" using b0(2) d(1) by (rule trans)
  have u': "u = le_uri env (le_root env @ ?p)" using u unfolding path .
  have same': "\<forall>q. q \<noteq> le_root env @ ?p \<longrightarrow> map_of fs' q = map_of fs q" using same unfolding path .
  show ?thesis
    by (rule exI [of _ ?p], rule exI [of _ b'], intro conjI) (rule u' b' sha safe same' again allI)+
qed

definition demo_local :: local_env where
  "demo_local = \<lparr>le_sha = demo_sha, le_path = (\<lambda>u. [u]), le_uri = (\<lambda>p. join ''/'' p), le_http = (\<lambda>_. Some [1, 2]), le_root = [''var'']\<rparr>"

theorem local_publish_sound_witness:
  "\<exists>u fs p. publish_local demo_local ''http://h/a'' demo_digest ''artifacts'' ''.zip'' [] = (Inr u, fs) \<and> map_of fs (''var'' # p) = Some [1, 2]"
proof -
  have u: "urlparse ''http://h/a'' = \<lparr>pu_scheme = ''http'', pu_netloc = ''h'', pu_path = ''/a''\<rparr>" by code_simp
  have s: "source_bytes demo_local ''http://h/a'' [] = Inr [1, 2]" by (simp add: source_bytes_def u demo_local_def)
  have h: "le_sha demo_local [1, 2] = demo_digest" by (simp add: demo_local_def demo_sha_def)
  have b: "b = [1, 2]" if "le_sha demo_local b = demo_digest" for b
    using that by (auto simp: demo_local_def demo_sha_def demo_digest_def split: if_splits)
  obtain v fs where p: "publish_local demo_local ''http://h/a'' demo_digest ''artifacts'' ''.zip'' [] = (Inr v, fs)"
    by (simp add: publish_local_def demo_digest_normal demo_blob_names s h Let_def del: One_nat_def)
  have r: "le_root demo_local = [''var'']" by (simp add: demo_local_def)
  obtain p' b' where "map_of fs (''var'' # p') = Some b'" "le_sha demo_local b' = demo_digest"
    using local_publish_sound [OF p] unfolding r demo_digest_normal by auto
  then show ?thesis using p b by blast
qed

end
