(* ===== verification/Interface.thy ===== *)
theory Interface
  imports Calls Store
begin

text \<open>
  What publication reads from an artifact (\<open>interface_metadata.py\<close>): the project settings of \<open>pyproject.toml\<close>, and the
  endpoints that its Hook modules declare, with the annotations that the Hook package turns into types
  (\<open>sc_hook/hook.py\<close>, \<open>sc_hook/datatype.py\<close>). What importing a module does to the interpreter is arbitrary; the ZIP and
  TOML readers, SHA-256 and the parsers of \<open>packaging\<close> are parameters. A TOML date is neither text, a table, a list nor
  a number; \<open>JFloat FNan\<close> stands for one.
\<close>

datatype metadata_error =
    NoProjectTable \<comment> \<open>\<open>[tool.pyscript]\<close> is missing\<close>
  | UnknownFields "string list"
  | BadSpecVersion
  | BadRuntime
  | ModuleAndModules
  | BadModules
  | ModulesNotUnique
  | NoPythonProject \<comment> \<open>\<open>[project]\<close> is missing\<close>
  | BadRequiresPython
  | BadDependencies
  | FetchFailed
  | BadArtifactDigest
  | ArtifactMismatch
  | NotAZip
  | NotOnePyproject
  | PyprojectTooLarge
  | BadToml
  | UnsafeMember load_error
  | ModuleImportFailed string
  | NoEndpoints
  | DuplicateIds "string list"
  | BadInterface
  | DiscoveryTimedOut
  | DiscoveryFailed
  | MetadataChanged

datatype discovery_error =
    Metadata metadata_error \<comment> \<open>an \<open>InterfaceMetadataError\<close>\<close>
  | InvalidSpec \<comment> \<open>a \<open>ValidationError\<close> of pydantic\<close>

section \<open>The settings of a project\<close>

record project =
  pj_runtime :: string
  pj_modules :: "string list"
  pj_requires :: string
  pj_dependencies :: "string list"

definition valid_module_name :: "string \<Rightarrow> bool" where
  "valid_module_name s = (s \<noteq> [] \<and> list_all is_identifier (split_on (CHR ''.'') s))"

fun as_table :: "json \<Rightarrow> jdict option" where
  "as_table (JObj d) = Some d"
| "as_table v = None"

fun as_text :: "json \<Rightarrow> string option" where
  "as_text (JStr s) = Some s"
| "as_text v = None"

fun as_texts :: "json \<Rightarrow> string list option" where
  \<comment> \<open>a list of strings\<close>
  "as_texts (JArr xs) = (if None \<in> set (map as_text xs) then None else Some (List.map_filter as_text xs))"
| "as_texts v = None"

definition project_fields :: "string list" where
  "project_fields = [''spec_version'', ''runtime'', ''module'', ''modules'']"

definition chosen_modules :: "jdict \<Rightarrow> metadata_error + json" where
  "chosen_modules metadata =
     (let m = dfind metadata ''module''; ms = dfind metadata ''modules'' in
      if m \<noteq> JNull \<and> ms \<noteq> JNull then Inl ModuleAndModules
      else Inr (if m \<noteq> JNull then JArr [m] else ms))"

definition parse_interface_document :: "jdict \<Rightarrow> metadata_error + project" where
  "parse_interface_document document =
     bindE (of_opt NoProjectTable (as_table (dfind document ''tool''))) (\<lambda>tool.
     bindE (of_opt NoProjectTable (as_table (dfind tool ''pyscript''))) (\<lambda>metadata.
       let unknown = filter (\<lambda>k. k \<notin> set project_fields) (map fst metadata) in
       if unknown \<noteq> [] then Inl (UnknownFields (sort unknown))
       else if \<not> eq_int (dfind metadata ''spec_version'') 2 then Inl BadSpecVersion
       else
     bindE (case as_text (dfind metadata ''runtime'') of Some r \<Rightarrow> if strip r = [] then Inl BadRuntime else Inr r | None \<Rightarrow> Inl BadRuntime) (\<lambda>runtime.
     bindE (chosen_modules metadata) (\<lambda>chosen.
     bindE (of_opt BadModules (as_texts chosen)) (\<lambda>modules.
       if modules = [] \<or> \<not> list_all valid_module_name modules then Inl BadModules
       else if \<not> distinct modules then Inl ModulesNotUnique
       else
     bindE (of_opt NoPythonProject (as_table (dfind document ''project''))) (\<lambda>project.
     bindE (of_opt BadRequiresPython (as_text (dfind project ''requires-python''))) (\<lambda>requires.
     bindE (of_opt BadDependencies (as_texts (dget project ''dependencies'' (JArr [])))) (\<lambda>dependencies.
       Inr \<lparr>pj_runtime = runtime, pj_modules = modules, pj_requires = requires, pj_dependencies = dependencies\<rparr>))))))))"

section \<open>The archive of an artifact\<close>

record zip_entry =
  ze_member :: zip_member
  ze_size :: nat \<comment> \<open>\<open>file_size\<close> of the directory of the archive\<close>
  ze_data :: "bytes option" \<comment> \<open>\<open>None\<close>: reading it raises\<close>

record artifact_reader =
  rd_file :: "string \<Rightarrow> bytes option"
  rd_http :: "string \<Rightarrow> bytes option"
  rd_sha :: "bytes \<Rightarrow> string"
  rd_zip :: "bytes \<Rightarrow> zip_entry list option" \<comment> \<open>\<open>None\<close>: \<open>BadZipFile\<close>\<close>
  rd_toml :: "bytes \<Rightarrow> jdict option" \<comment> \<open>of the decoded text; \<open>None\<close>: no UTF-8 or no TOML\<close>

definition download_artifact :: "artifact_reader \<Rightarrow> string \<Rightarrow> metadata_error + bytes" where
  "download_artifact rd uri =
     (let scheme = pu_scheme (urlparse uri) in
      if scheme \<in> {[], ''file''} then of_opt FetchFailed (rd_file rd uri)
      else if scheme \<in> {''http'', ''https''} then of_opt FetchFailed (rd_http rd uri)
      else Inl FetchFailed)"

definition verify_digest :: "artifact_reader \<Rightarrow> bytes \<Rightarrow> string \<Rightarrow> metadata_error + unit" where
  "verify_digest rd content expected_digest =
     (let expected = normal_digest expected_digest in
      if length expected \<noteq> 64 \<or> list_ex (\<lambda>c. \<not> hex_char c) expected then Inl BadArtifactDigest
      else if rd_sha rd content \<noteq> expected then Inl ArtifactMismatch
      else Inr ())"

definition pyproject_max_bytes :: nat where
  "pyproject_max_bytes = 1024 * 1024"

definition read_pyproject :: "artifact_reader \<Rightarrow> bytes \<Rightarrow> metadata_error + jdict" where
  "read_pyproject rd content =
     bindE (of_opt NotAZip (rd_zip rd content)) (\<lambda>entries.
       case filter (\<lambda>x. zm_name (ze_member x) = ''pyproject.toml'' \<and> \<not> ends_with ''/'' (zm_name (ze_member x))) entries of
         [entry] \<Rightarrow>
           if pyproject_max_bytes < ze_size entry then Inl PyprojectTooLarge
           else bindE (of_opt NotAZip (ze_data entry)) (\<lambda>source. of_opt BadToml (rd_toml rd source))
       | _ \<Rightarrow> Inl NotOnePyproject)"

definition unpack_archive :: "artifact_reader \<Rightarrow> bytes \<Rightarrow> string list \<Rightarrow> metadata_error + string list list" where
  \<comment> \<open>\<open>_extract_archive\<close>: the paths written\<close>
  "unpack_archive rd content destination =
     bindE (of_opt NotAZip (rd_zip rd content)) (\<lambda>entries.
       case extract_archive destination (map ze_member entries) of
         Inl e \<Rightarrow> Inl (UnsafeMember e)
       | Inr paths \<Rightarrow> if \<exists>x \<in> set entries. ze_data x = None then Inl NotAZip else Inr paths)"

definition parse_artifact_project :: "artifact_reader \<Rightarrow> string \<Rightarrow> string \<Rightarrow> metadata_error + project" where
  "parse_artifact_project rd uri expected =
     bindE (download_artifact rd uri) (\<lambda>content.
     bindE (verify_digest rd content expected) (\<lambda>_.
     bindE (read_pyproject rd content) parse_interface_document))"

section \<open>Annotations\<close>

datatype annotation =
    TypedDict "(string \<times> annotation) list"
  | ListOf annotation
  | Annotated "base_type option list" \<comment> \<open>the metadata; \<open>None\<close>: no \<open>BaseType\<close>\<close>
  | OtherType

datatype annotation_error =
    BadMetadata | NotABaseType | NotAccepted | NoReturnType | NoParameters | ContextReserved | Unsupported "string list"
  | Unannotated "string list" | Hooked hook_error

fun get_type :: "annotation \<Rightarrow> annotation_error + hook_type"
  and get_fields :: "(string \<times> annotation) list \<Rightarrow> annotation_error + (string \<times> hook_type) list" where
  "get_type (TypedDict items) = bindE (get_fields items) (\<lambda>fs. Inr (HStruct fs))"
| "get_type (ListOf t) = bindE (get_type t) (\<lambda>h. Inr (HList h))"
| "get_type (Annotated metadata) =
     (case metadata of
        [Some b] \<Rightarrow> Inr (HBase b)
      | [None] \<Rightarrow> Inl NotABaseType
      | _ \<Rightarrow> Inl BadMetadata)"
| "get_type OtherType = Inl NotAccepted"
| "get_fields [] = Inr []"
| "get_fields ((n, t) # fs) = bindE (get_type t) (\<lambda>h. bindE (get_fields fs) (\<lambda>hs. Inr ((n, h) # hs)))"

datatype parameter_kind = PositionalOnly | PositionalOrKeyword | VarPositional | KeywordOnly | VarKeyword

record parameter =
  pm_name :: string
  pm_kind :: parameter_kind
  pm_annotation :: "annotation option"

record python_function =
  pf_name :: string
  pf_module :: string
  pf_async :: bool
  pf_parameters :: "parameter list"
  pf_return :: "annotation option"

definition get_func_annote :: "python_function \<Rightarrow> annotation_error + (string \<times> hook_type) list \<times> hook_type" where
  "get_func_annote f =
     (let ps = pf_parameters f;
          unsupported = filter (\<lambda>p. pm_kind p \<in> {PositionalOnly, VarPositional, VarKeyword}) ps;
          missing = filter (\<lambda>p. pm_annotation p = None) ps in
      bindE (of_opt NoReturnType (pf_return f)) (\<lambda>ret.
        if ps = [] then Inl NoParameters
        else if ''context'' \<in> set (map pm_name ps) then Inl ContextReserved
        else if unsupported \<noteq> [] then Inl (Unsupported (map pm_name unsupported))
        else if missing \<noteq> [] then Inl (Unannotated (map pm_name missing))
        else
          bindE (get_type ret) (\<lambda>return_type.
          bindE (get_fields (List.map_filter (\<lambda>p. map_option (\<lambda>t. (pm_name p, t)) (pm_annotation p)) ps)) (\<lambda>params_type.
            Inr (params_type, return_type)))))"

record hooked =
  hk_remote :: remote_func
  hk_module :: string \<comment> \<open>\<open>func.__module__\<close>\<close>
  hk_async :: bool
  hk_params :: "(string \<times> hook_type) list"
  hk_return :: hook_type

definition decorate ::
  "string list \<Rightarrow> string option \<Rightarrow> rat option \<Rightarrow> rat option \<Rightarrow> python_function \<Rightarrow> annotation_error + hooked" where
  \<comment> \<open>the decorator \<open>hook\<close> on a function; the annotations are read after the checks of the id and before those of the resources\<close>
  "decorate io_types endpoint_id num_cpus num_gpus f =
     (case hook io_types endpoint_id None None (pf_name f) (pf_async f) of
        Inl e \<Rightarrow> Inl (Hooked e)
      | Inr _ \<Rightarrow>
          bindE (get_func_annote f) (\<lambda>(params, ret).
            case hook io_types endpoint_id num_cpus num_gpus (pf_name f) (pf_async f) of
              Inl e \<Rightarrow> Inl (Hooked e)
            | Inr r \<Rightarrow> Inr \<lparr>hk_remote = r, hk_module = pf_module f, hk_async = pf_async f, hk_params = params, hk_return = ret\<rparr>))"

section \<open>The discovery of endpoints\<close>

datatype attribute = Remote hooked | OtherValue

type_synonym hook_module = "(string, attribute) dict" \<comment> \<open>\<open>vars(module)\<close>\<close>

datatype module_file = NoFile | BadPath | FileAt "string list"

record interpreter =
  ip_path :: "string list" \<comment> \<open>\<open>sys.path\<close>\<close>
  ip_modules :: "(string, module_file) dict" \<comment> \<open>\<open>sys.modules\<close>, with the resolved \<open>__file__\<close>\<close>

record hook_source =
  hs_modules :: "string \<Rightarrow> hook_module option" \<comment> \<open>what an import of the module gives; \<open>None\<close>: it raises\<close>
  hs_effect :: "string \<Rightarrow> interpreter \<Rightarrow> interpreter" \<comment> \<open>what it does to the interpreter, also when it raises\<close>

definition task_name :: "task_type \<Rightarrow> string" where
  "task_name t = (case t of IO \<Rightarrow> ''io'' | COMPUTE \<Rightarrow> ''compute'')"

definition spec_of :: "string \<Rightarrow> string \<Rightarrow> hooked \<Rightarrow> endpoint_spec" where
  "spec_of module_name attribute h =
     \<lparr>es_id = rf_endpoint (hk_remote h), es_task = task_name (rf_task (hk_remote h)), es_entry = module_name @ '':'' @ attribute,
      es_io = rf_io_types (hk_remote h), es_params = map (\<lambda>(n, t). (n, to_schema t)) (hk_params h),
      es_response = to_schema (hk_return h), es_grpc = None,
      es_cpus = map_option Fin (rf_cpus (hk_remote h)), es_gpus = map_option Fin (rf_gpus (hk_remote h))\<rparr>"

definition endpoint_at :: "string \<Rightarrow> string \<times> attribute \<Rightarrow> discovery_error + endpoint_spec option" where
  "endpoint_at module_name =
     (\<lambda>(attribute, value). case value of
        Remote h \<Rightarrow>
          if hk_module h \<noteq> module_name then Inr None
          else bindE (of_opt InvalidSpec (validate_endpoint True (spec_of module_name attribute h))) (\<lambda>e. Inr (Some e))
      | OtherValue \<Rightarrow> Inr None)"

definition endpoints_of_module :: "string \<Rightarrow> hook_module \<Rightarrow> discovery_error + endpoint_spec list" where
  "endpoints_of_module module_name m =
     bindE (mapE (endpoint_at module_name) (sort_key fst m)) (\<lambda>xs. Inr (List.map_filter id xs))"

fun import_modules :: "hook_source \<Rightarrow> string list \<Rightarrow> interpreter \<Rightarrow> (discovery_error + endpoint_spec list) \<times> interpreter" where
  "import_modules hs [] ip = (Inr [], ip)"
| "import_modules hs (m # ms) ip =
     (let ip1 = hs_effect hs m ip in
      case bindE (of_opt (Metadata (ModuleImportFailed m)) (hs_modules hs m)) (endpoints_of_module m) of
        Inl e \<Rightarrow> (Inl e, ip1)
      | Inr es \<Rightarrow>
          (case import_modules hs ms ip1 of
             (Inl e, ip2) \<Rightarrow> (Inl e, ip2)
           | (Inr rest, ip2) \<Rightarrow> (Inr (es @ rest), ip2)))"

definition belongs_to :: "string list \<Rightarrow> module_file \<Rightarrow> bool" where
  "belongs_to source_root f = (case f of FileAt p \<Rightarrow> is_prefix source_root p | _ \<Rightarrow> False)"

definition clean_interpreter :: "string list \<Rightarrow> string \<Rightarrow> interpreter \<Rightarrow> interpreter" where
  \<comment> \<open>the \<open>finally\<close> of \<open>_discover_hook_endpoints\<close>\<close>
  "clean_interpreter source_root source_text ip =
     (let ip1 = (if ip_path ip \<noteq> [] \<and> hd (ip_path ip) = source_text then ip\<lparr>ip_path := tl (ip_path ip)\<rparr> else ip)
      in ip1\<lparr>ip_modules := filter (\<lambda>(n, f). \<not> belongs_to source_root f) (ip_modules ip1)\<rparr>)"

definition duplicates :: "string list \<Rightarrow> string list" where
  "duplicates ids = sort (remdups (filter (\<lambda>i. 1 < count_list ids i) ids))"

definition discover_hook_endpoints ::
  "hook_source \<Rightarrow> string list \<Rightarrow> string \<Rightarrow> string list \<Rightarrow> interpreter \<Rightarrow> (discovery_error + endpoint_spec list) \<times> interpreter" where
  "discover_hook_endpoints hs source_root source_text names ip =
     (let (r, ip1) = import_modules hs names (ip\<lparr>ip_path := source_text # ip_path ip\<rparr>);
          ip2 = clean_interpreter source_root source_text ip1 in
      (bindE r (\<lambda>es.
         if es = [] then Inl (Metadata NoEndpoints)
         else if duplicates (map es_id es) \<noteq> [] then Inl (Metadata (DuplicateIds (duplicates (map es_id es))))
         else Inr es), ip2))"

record packaging =
  pa_specifier :: "string \<Rightarrow> bool"
  pa_requirement :: "string \<Rightarrow> bool"

definition build_interface :: "packaging \<Rightarrow> project \<Rightarrow> endpoint_spec list \<Rightarrow> metadata_error + interface_spec" where
  "build_interface pa project es =
     (let i = \<lparr>if_endpoints = es, if_contract = None, if_profile = pj_runtime project, if_requires = pj_requires project,
               if_dependencies = pj_dependencies project\<rparr>
      in if interface_ok (pa_specifier pa) (pa_requirement pa) i then Inr i else Inl BadInterface)"

definition parse_artifact_interface ::
  "artifact_reader \<Rightarrow> packaging \<Rightarrow> (bytes \<Rightarrow> hook_source) \<Rightarrow> string list \<Rightarrow> string \<Rightarrow> string \<Rightarrow> string \<Rightarrow> interpreter \<Rightarrow>
   (discovery_error + interface_spec) \<times> interpreter" where
  \<comment> \<open>\<open>code\<close>: the modules of the extracted archive; the directory is fresh\<close>
  "parse_artifact_interface rd pa code source_root source_text uri expected ip =
     (case bindE (download_artifact rd uri) (\<lambda>content.
             bindE (verify_digest rd content expected) (\<lambda>_.
             bindE (bindE (read_pyproject rd content) parse_interface_document) (\<lambda>project.
             bindE (unpack_archive rd content source_root) (\<lambda>_. Inr (content, project))))) of
        Inl e \<Rightarrow> (Inl (Metadata e), ip)
      | Inr (content, project) \<Rightarrow>
          let (r, ip') = discover_hook_endpoints (code content) source_root source_text (pj_modules project) ip
          in (bindE r (\<lambda>es. case build_interface pa project es of Inl e \<Rightarrow> Inl (Metadata e) | Inr i \<Rightarrow> Inr i), ip'))"

section \<open>Inspection in a Ray task\<close>

datatype task_end = TaskTimedOut | TaskRaised | TaskPayload jdict

definition inspect_ray :: "(jdict \<Rightarrow> interface_spec option) \<Rightarrow> project \<Rightarrow> task_end \<Rightarrow> discovery_error + interface_spec" where
  \<comment> \<open>\<open>RayArtifactInterfaceInspector.inspect\<close> on what became of its task; \<open>read\<close> is \<open>model_validate\<close>\<close>
  "inspect_ray read project t =
     (case t of
        TaskTimedOut \<Rightarrow> Inl (Metadata DiscoveryTimedOut)
      | TaskRaised \<Rightarrow> Inl (Metadata DiscoveryFailed)
      | TaskPayload payload \<Rightarrow>
          bindE (of_opt InvalidSpec (read payload)) (\<lambda>i.
            if if_profile i \<noteq> pj_runtime project \<or> if_requires i \<noteq> pj_requires project \<or> if_dependencies i \<noteq> pj_dependencies project
            then Inl (Metadata MetadataChanged) else Inr i))"

section \<open>Where an endpoint comes from\<close>

lemma spec_of_valid:
  "validate_endpoint True (spec_of m a h) = Some e \<longleftrightarrow> e = spec_of m a h \<and> endpoint_fields_ok (spec_of m a h)"
  by (auto simp: validate_endpoint_def spec_of_def Let_def split: if_splits)

lemma endpoint_at_Some:
  "endpoint_at m x = Inr (Some e) \<longleftrightarrow>
     (\<exists>a h. x = (a, Remote h) \<and> hk_module h = m \<and> e = spec_of m a h \<and> endpoint_fields_ok e)"
  by (auto simp: endpoint_at_def bindE_eq_Inr of_opt_eq spec_of_valid split: prod.splits attribute.splits)

lemma endpoints_of_module_from:
  assumes "endpoints_of_module m attrs = Inr es" and "e \<in> set es"
  shows "\<exists>a h. (a, Remote h) \<in> set attrs \<and> hk_module h = m \<and> e = spec_of m a h \<and> endpoint_fields_ok e"
proof -
  obtain xs where xs: "mapE (endpoint_at m) (sort_key fst attrs) = Inr xs" and es: "es = List.map_filter id xs"
    using assms(1) by (auto simp: endpoints_of_module_def bindE_eq_Inr)
  have "Some e \<in> set xs" using assms(2) by (auto simp: es List.map_filter_def)
  then have "\<exists>x \<in> set attrs. endpoint_at m x = Inr (Some e)" using mapE_source [OF xs] by simp
  then show ?thesis by (auto simp: endpoint_at_Some)
qed

lemma import_modules_from:
  "import_modules hs ms ip = (Inr es, ip') \<Longrightarrow> e \<in> set es \<Longrightarrow>
     \<exists>m \<in> set ms. \<exists>attrs a h. hs_modules hs m = Some attrs \<and> (a, Remote h) \<in> set attrs \<and> hk_module h = m \<and>
       e = spec_of m a h \<and> endpoint_fields_ok e"
proof (induction ms arbitrary: ip es)
  case (Cons m ms)
  then obtain attrs es1 rest where m: "hs_modules hs m = Some attrs" "endpoints_of_module m attrs = Inr es1"
    and rest: "import_modules hs ms (hs_effect hs m ip) = (Inr rest, ip')" and es: "es = es1 @ rest"
    by (auto simp: Let_def bindE_eq_Inr of_opt_eq split: sum.splits prod.splits)
  show ?case
  proof (cases "e \<in> set es1")
    case True
    then show ?thesis using endpoints_of_module_from [OF m(2)] m(1) by (metis list.set_intros(1))
  next
    case False
    then have "e \<in> set rest" using Cons.prems(2) by (simp add: es)
    then show ?thesis using Cons.IH [OF rest] by (metis list.set_intros(2))
  qed
qed simp

lemma duplicates_Nil: "duplicates ids = [] \<longleftrightarrow> distinct ids"
proof -
  have "duplicates ids = [] \<longleftrightarrow> (\<forall>i \<in> set ids. count_list ids i \<le> 1)" 
  proof -
    have "duplicates ids = [] \<longleftrightarrow> set (duplicates ids) = {}" by (simp only: set_empty)
    then show ?thesis by (auto simp: duplicates_def not_less)
  qed
  also have "\<dots> \<longleftrightarrow> distinct ids"
  proof (induction ids)
    case (Cons i ids)
    have "(\<forall>j \<in> set (i # ids). count_list (i # ids) j \<le> 1) \<longleftrightarrow> i \<notin> set ids \<and> (\<forall>j \<in> set ids. count_list ids j \<le> 1)"
      by (auto simp: count_list_0_iff)
    then show ?case using Cons.IH by simp
  qed simp
  finally show ?thesis .
qed

lemma discover_cases:
  assumes "discover_hook_endpoints hs source_root source_text ms ip = (Inr es, ip')"
  shows "es \<noteq> []" and "distinct (map es_id es)"
    and "\<exists>ip0. import_modules hs ms (ip\<lparr>ip_path := source_text # ip_path ip\<rparr>) = (Inr es, ip0) \<and>
      ip' = clean_interpreter source_root source_text ip0"
  using assms
  by (auto simp: discover_hook_endpoints_def Let_def bindE_eq_Inr duplicates_Nil split: prod.splits if_splits)

lemma interpreter_cleaned:
  "(n, FileAt p) \<in> set (ip_modules (snd (discover_hook_endpoints hs source_root source_text ms ip))) \<Longrightarrow> \<not> is_prefix source_root p"
  by (auto simp: discover_hook_endpoints_def Let_def clean_interpreter_def belongs_to_def split: prod.splits if_splits)

lemma path_restored:
  assumes "\<And>m ip. ip_path (hs_effect hs m ip) = ip_path ip"
  shows "ip_path (snd (discover_hook_endpoints hs source_root source_text ms ip)) = ip_path ip"
proof -
  have "ip_path (snd (import_modules hs ms ip)) = ip_path ip" for ip
  proof (induction ms arbitrary: ip)
    case (Cons m ms)
    have "ip_path (snd (import_modules hs ms (hs_effect hs m ip))) = ip_path ip" using Cons assms by simp
    then show ?case by (auto simp: assms Let_def split: sum.splits prod.splits)
  qed simp
  then show ?thesis
    by (auto simp: discover_hook_endpoints_def Let_def clean_interpreter_def split: prod.splits)
      (metis interpreter.select_convs(1) interpreter.surjective interpreter.update_convs(1) list.sel(1,3) list.distinct(1) snd_conv)+
qed

lemma split_spec_entry:
  assumes "endpoint_fields_ok (spec_of m a h)"
  shows "split_entry (es_entry (spec_of m a h)) = Some (m, a)"
proof -
  have "entrypoint_ok (m @ CHR '':'' # a)" using assms by (simp add: endpoint_fields_ok_def spec_of_def)
  then have "length (split_on (CHR '':'') m @ split_on (CHR '':'') a) = 2"
    unfolding entrypoint_ok_def split_on_append by (auto split: list.splits simp del: length_append)
  then have "length (split_on (CHR '':'') m) = 1"
    by (cases "split_on (CHR '':'') m"; cases "split_on (CHR '':'') a") auto
  then obtain p where p: "split_on (CHR '':'') m = [p]" by (auto simp: length_Suc_conv)
  then have "m = p" using join_split_on [of "CHR '':''" m] by (simp add: join_def)
  then have "CHR '':'' \<notin> set m" using split_on_no_sep [of p "CHR '':''" m] p by simp
  then have "takeWhile (\<lambda>c. c \<noteq> CHR '':'') (m @ CHR '':'' # a) = m" by (subst takeWhile_append2) auto
  then show ?thesis by (simp add: split_entry_def Let_def spec_of_def)
qed

section \<open>What is discovered can be loaded\<close>

definition workers_agree :: "hook_source \<Rightarrow> Artifact.modules \<Rightarrow> string \<Rightarrow> bool" where
  \<comment> \<open>a worker, which imports the modules below a prefix of its own, gets the decorated functions that publication got\<close>
  "workers_agree hs modules prefix =
     (\<forall>m attrs a h. hs_modules hs m = Some attrs \<and> (a, Remote h) \<in> set attrs \<longrightarrow>
        (\<exists>f r. modules (prefix @ ''.'' @ m) = Some f \<and> f a = Some r \<and> rn_callable r \<and>
           rn_remote r = Some (task_name (rf_task (hk_remote h)))))"

lemma load_runners_total:
  "\<forall>ed \<in> set eds. \<exists>r. load_runner modules prefix ed = Inr r \<Longrightarrow> \<exists>rs'. load_runners modules prefix eds rs = Inr rs'"
  by (induction eds arbitrary: rs) (auto simp: bindE_eq_Inr)

lemma spec_loads:
  assumes "workers_agree hs modules prefix" and "hs_modules hs m = Some attrs" and "(a, Remote h) \<in> set attrs"
    and "endpoint_fields_ok (spec_of m a h)"
  shows "\<exists>r. load_runner modules prefix (definition_from (spec_of m a h)) = Inr r \<and> rn_remote r = Some (es_task (spec_of m a h))"
proof -
  obtain f r where r: "modules (prefix @ ''.'' @ m) = Some f" "f a = Some r" "rn_callable r"
      "rn_remote r = Some (task_name (rf_task (hk_remote h)))"
    using assms(1-3) unfolding workers_agree_def by blast
  have t: "es_task (spec_of m a h) = task_name (rf_task (hk_remote h))" by (simp add: spec_of_def)
  show ?thesis
    using split_spec_entry [OF assms(4)] r by (simp add: load_runner_def definition_from_def t)
qed

lemma build_interface_fields:
  assumes "build_interface pa project es = Inr i"
  shows "if_endpoints i = es \<and> if_contract i = None \<and> if_profile i = pj_runtime project \<and> if_requires i = pj_requires project \<and>
    if_dependencies i = pj_dependencies project \<and> interface_ok (pa_specifier pa) (pa_requirement pa) i"
proof -
  let ?i = "\<lparr>if_endpoints = es, if_contract = None, if_profile = pj_runtime project, if_requires = pj_requires project,
               if_dependencies = pj_dependencies project\<rparr>"
  have "i = ?i" "interface_ok (pa_specifier pa) (pa_requirement pa) ?i"
    using assms by (auto simp: build_interface_def Let_def split: if_splits)
  then show ?thesis by simp
qed

lemma parse_interface_cases:
  assumes "parse_artifact_interface rd pa code source_root source_text uri expected ip = (Inr i, ip')"
  obtains content project where "download_artifact rd uri = Inr content" "verify_digest rd content expected = Inr ()"
    "read_pyproject rd content \<noteq> Inl NotAZip" "parse_artifact_project rd uri expected = Inr project"
    "discover_hook_endpoints (code content) source_root source_text (pj_modules project) ip = (Inr (if_endpoints i), ip')"
    "build_interface pa project (if_endpoints i) = Inr i"
proof -
  let ?front = "bindE (download_artifact rd uri) (\<lambda>content. bindE (verify_digest rd content expected) (\<lambda>_.
    bindE (bindE (read_pyproject rd content) parse_interface_document) (\<lambda>project.
    bindE (unpack_archive rd content source_root) (\<lambda>_. Inr (content, project)))))"
  obtain content project where front: "?front = Inr (content, project)"
    and rest: "(let (r, ip') = discover_hook_endpoints (code content) source_root source_text (pj_modules project) ip
      in (bindE r (\<lambda>es. case build_interface pa project es of Inl e \<Rightarrow> Inl (Metadata e) | Inr i \<Rightarrow> Inr i), ip')) = (Inr i, ip')"
    using assms unfolding parse_artifact_interface_def by (cases ?front) auto
  have d: "download_artifact rd uri = Inr content" and v: "verify_digest rd content expected = Inr ()"
    and p: "bindE (read_pyproject rd content) parse_interface_document = Inr project"
    using front by (auto simp: bindE_eq_Inr)
  obtain es where e: "discover_hook_endpoints (code content) source_root source_text (pj_modules project) ip = (Inr es, ip')"
    and b: "build_interface pa project es = Inr i"
  proof (cases "discover_hook_endpoints (code content) source_root source_text (pj_modules project) ip")
    case (Pair r x)
    with rest have r: "bindE r (\<lambda>es. case build_interface pa project es of Inl e \<Rightarrow> Inl (Metadata e) | Inr i \<Rightarrow> Inr i) = Inr i"
      and x: "x = ip'" by simp_all
    then obtain es where "r = Inr es" by (cases r) auto
    with r Pair x that show ?thesis by (cases "build_interface pa project es") simp_all
  qed
  have es: "es = if_endpoints i" using build_interface_fields [OF b] by simp
  have "parse_artifact_project rd uri expected = Inr project" using d v p by (simp add: parse_artifact_project_def)
  moreover have "read_pyproject rd content \<noteq> Inl NotAZip" using p by auto
  ultimately show ?thesis using that d v e b unfolding es by blast
qed


definition demo_toml :: jdict where
  "demo_toml =
     [(''project'', JObj [(''requires-python'', JStr ''==3.12'')]),
      (''tool'', JObj [(''pyscript'', JObj [(''spec_version'', JInt 2), (''runtime'', JStr ''main''), (''module'', JStr ''app'')])])]"

definition demo_reader :: artifact_reader where
  "demo_reader =
     \<lparr>rd_file = (\<lambda>_. Some [1, 2]), rd_http = (\<lambda>_. None), rd_sha = demo_sha,
      rd_zip = (\<lambda>_. Some [\<lparr>ze_member = \<lparr>zm_name = ''pyproject.toml'', zm_attr = 0\<rparr>, ze_size = 9, ze_data = Some [7]\<rparr>]),
      rd_toml = (\<lambda>_. Some demo_toml)\<rparr>"

definition demo_function :: python_function where
  "demo_function = \<lparr>pf_name = ''add'', pf_module = ''app'', pf_async = True,
     pf_parameters = [\<lparr>pm_name = ''a'', pm_kind = PositionalOrKeyword, pm_annotation = Some (Annotated [Some BInt32])\<rparr>],
     pf_return = Some (ListOf (Annotated [Some BString]))\<rparr>"

definition demo_hooked :: hooked where
  "demo_hooked = \<lparr>hk_remote = \<lparr>rf_endpoint = ''add'', rf_io_types = [''rest''], rf_task = IO, rf_cpus = None, rf_gpus = None\<rparr>,
     hk_module = ''app'', hk_async = True, hk_params = [(''a'', HBase BInt32)], hk_return = HList (HBase BString)\<rparr>"

definition demo_source :: hook_source where
  "demo_source = \<lparr>hs_modules = (\<lambda>m. if m = ''app'' then Some [(''os'', OtherValue), (''add'', Remote demo_hooked)] else None),
     hs_effect = (\<lambda>m ip. ip\<lparr>ip_modules := (m, FileAt [''t'', ''app.py'']) # ip_modules ip\<rparr>)\<rparr>"

definition demo_worker :: Artifact.modules where
  "demo_worker m = (if m = ''v.app'' then Some (\<lambda>a. if a = ''add''
     then Some \<lparr>rn_callable = True, rn_remote = Some ''io'', rn_coroutine = False, rn_params = None, rn_awaits = True\<rparr> else None) else None)"

definition demo_packaging :: packaging where
  "demo_packaging = \<lparr>pa_specifier = (\<lambda>_. True), pa_requirement = (\<lambda>_. True)\<rparr>"

lemma demo_decorated: "decorate [''rest''] None None None demo_function = Inr demo_hooked"
  by (simp add: decorate_def hook_def blank_def get_func_annote_def demo_function_def demo_hooked_def Let_def)

lemma demo_project:
  "parse_interface_document demo_toml = Inr \<lparr>pj_runtime = ''main'', pj_modules = [''app''], pj_requires = ''==3.12'', pj_dependencies = []\<rparr>"
  by code_simp

lemma demo_endpoints_found:
  "discover_hook_endpoints demo_source [''t''] ''/t'' [''app''] \<lparr>ip_path = [], ip_modules = []\<rparr> =
     (Inr [spec_of ''app'' ''add'' demo_hooked], \<lparr>ip_path = [], ip_modules = []\<rparr>)"
  by code_simp


section \<open>An id that only the decorator accepts\<close>

text \<open>The decorator takes any text that is not blank as the id of an endpoint; the specification of an endpoint does
  not. Discovery then ends in a \<open>ValidationError\<close>, which is no \<open>InterfaceMetadataError\<close>, unless a Ray task does it.\<close>

lemma odd_id_escapes:
  assumes "hook io (Some i) cpus gpus name a = Inr r" and "\<not> endpoint_id_ok i"
    and "hs_modules hs m = Some [(n, Remote h)]" and "hk_module h = m" and "hk_remote h = r"
  shows "fst (discover_hook_endpoints hs source_root source_text (m # ms) ip) = Inl InvalidSpec"
    and "inspect_ray read project TaskRaised = Inl (Metadata DiscoveryFailed)"
proof -
  have "rf_endpoint r = i" using assms(1) by (auto simp: hook_def Let_def split: if_splits)
  then have "validate_endpoint True (spec_of m n h) = None"
    using assms(2,5) by (auto simp: validate_endpoint_def endpoint_fields_ok_def spec_of_def Let_def)
  then have "endpoints_of_module m [(n, Remote h)] = Inl InvalidSpec"
    using assms(4) by (simp add: endpoints_of_module_def endpoint_at_def)
  then show "fst (discover_hook_endpoints hs source_root source_text (m # ms) ip) = Inl InvalidSpec"
    using assms(3) by (simp add: discover_hook_endpoints_def Let_def)
  show "inspect_ray read project TaskRaised = Inl (Metadata DiscoveryFailed)" by (simp add: inspect_ray_def)
qed

lemma odd_id_accepted: "\<exists>r. hook [''rest''] (Some ''a b'') None None ''f'' True = Inr r \<and> \<not> endpoint_id_ok ''a b''"
  by (simp add: hook_def blank_def is_alpha_def is_lower_def is_upper_def start_char_def word_char_def is_digit_def less_eq_char_def)

end
