(* ===== verification/Generator.thy ===== *)
theory Generator
  imports Contracts
begin

text \<open>
  \<open>contracts/generator.py\<close>: the Protobuf contract generated from the endpoints of a revision. The messages and the
  origins of their names are the state of a generation; a message object is addressed by its name, the one under
  which the dictionary keeps it. The descriptor of the previous contract is what \<open>protobuf\<close> parses from its bytes,
  and the numbers of a version what \<open>packaging\<close> reads; both are arguments.
\<close>

datatype proto_error =
    SameMessage string string string | BadFieldName string | OpenStruct string | NoItems string | NestedList string
  | UnsupportedType string | BadSchema | NoIdentifier string | SameMethod string | ExecutionReserved string
  | UnboundResponse \<comment> \<open>\<open>UnboundLocalError\<close>\<close>
  | ReservedName string | SpaceExhausted string | BadDescriptor | RangeTooLarge string | BadVersion | BadGrpcSpec

section \<open>Shapes of messages\<close>

record field_shape =
  fs_name :: string
  fs_type :: string
  fs_repeated :: bool
  fs_number :: nat \<comment> \<open>0: not yet numbered\<close>

definition signature :: "field_shape \<Rightarrow> string \<times> bool" where
  "signature f = (fs_type f, fs_repeated f)"

definition new_field :: "string \<Rightarrow> string \<Rightarrow> field_shape" where
  "new_field n t = \<lparr>fs_name = n, fs_type = t, fs_repeated = False, fs_number = 0\<rparr>"

record message_shape =
  ms_name :: string
  ms_direction :: string
  ms_origin :: string
  ms_fields :: "field_shape list"
  ms_reserved :: "nat list" \<comment> \<open>a set\<close>
  ms_reserved_names :: "string list" \<comment> \<open>a set\<close>

record previous_field =
  pv_number :: nat
  pv_signature :: "string \<times> bool"

record previous_message =
  pm_fields :: "(string, previous_field) dict"
  pm_reserved :: "nat list"
  pm_reserved_names :: "string list"

record generation =
  gn_messages :: "(string, message_shape) dict"
  gn_origins :: "(string, string) dict"

definition gen_message :: "string \<Rightarrow> string \<Rightarrow> string \<Rightarrow> generation \<Rightarrow> proto_error + generation" where
  "gen_message name direction origin g =
     (let fresh = \<lparr>ms_name = name, ms_direction = direction, ms_origin = origin, ms_fields = [], ms_reserved = [],
            ms_reserved_names = []\<rparr>;
          g' = g\<lparr>gn_messages := (if map_of (gn_messages g) name = None then gn_messages g @ [(name, fresh)] else gn_messages g),
            gn_origins := AList.update name origin (gn_origins g)\<rparr>
      in case map_of (gn_origins g) name of
           None \<Rightarrow> Inr g'
         | Some o' \<Rightarrow> if o' \<noteq> origin then Inl (SameMessage o' origin name) else Inr g')"

definition add_fields :: "string \<Rightarrow> field_shape list \<Rightarrow> generation \<Rightarrow> generation" where
  \<comment> \<open>\<open>message.fields.append\<close> and \<open>extend\<close>\<close>
  "add_fields name fs g =
     g\<lparr>gn_messages := map (\<lambda>(n, m). (n, if n = name then m\<lparr>ms_fields := ms_fields m @ fs\<rparr> else m)) (gn_messages g)\<rparr>"

definition fields_of :: "string \<Rightarrow> generation \<Rightarrow> field_shape list" where
  "fields_of name g = (case map_of (gn_messages g) name of None \<Rightarrow> [] | Some m \<Rightarrow> ms_fields m)"

definition ensure_message :: "string \<Rightarrow> string \<Rightarrow> string \<Rightarrow> field_shape list \<Rightarrow> generation \<Rightarrow> proto_error + generation" where
  \<comment> \<open>a message of the platform, filled in when it is first needed\<close>
  "ensure_message name direction origin fs g =
     bindE (gen_message name direction origin g) (\<lambda>g.
       Inr (if fields_of name g = [] then add_fields name fs g else g))"

definition ensure_date :: "string \<Rightarrow> generation \<Rightarrow> proto_error + generation" where
  "ensure_date direction = ensure_message ''PyscriptsDate'' direction ''platform:date''
     [new_field ''year'' ''sint32'', new_field ''month'' ''sint32'', new_field ''day'' ''sint32'']"

definition ensure_datetime_tz :: "string \<Rightarrow> generation \<Rightarrow> proto_error + generation" where
  "ensure_datetime_tz direction = ensure_message ''PyscriptsDatetimeTz'' direction ''platform:datetime_tz''
     [new_field ''timestamp'' ''sint64'', new_field ''offset_minutes'' ''sint32'']"

definition ensure_execution_metadata :: "generation \<Rightarrow> proto_error + generation" where
  "ensure_execution_metadata g =
     bindE (ensure_message ''PyscriptsExecutionLog'' ''response'' ''platform:execution_log''
       [new_field ''sequence'' ''uint32'', new_field ''stream'' ''PyscriptsLogStream'', new_field ''content'' ''string'',
        new_field ''emitted_at'' ''string''] g)
     (ensure_message ''PyscriptsExecution'' ''response'' ''platform:execution''
       [new_field ''request_id'' ''string'', new_field ''service'' ''string'', new_field ''revision'' ''string'',
        new_field ''endpoint'' ''string'', new_field ''status'' ''PyscriptsExecutionStatus'', new_field ''error'' ''string'',
        (new_field ''logs'' ''PyscriptsExecutionLog'')\<lparr>fs_repeated := True\<rparr>,
        new_field ''log_bytes'' ''uint64'', new_field ''logs_truncated'' ''bool''])"

section \<open>Identifiers\<close>

definition alnum :: "char \<Rightarrow> bool" where
  "alnum c = (is_alpha c \<or> is_digit c)"

fun alnum_runs :: "string \<Rightarrow> string list" where
  \<comment> \<open>\<open>re.split(r"[^A-Za-z0-9]+", value)\<close>, with empty parts\<close>
  "alnum_runs [] = [[]]"
| "alnum_runs (c # cs) =
     (if \<not> alnum c then [] # alnum_runs cs
      else (case alnum_runs cs of [] \<Rightarrow> [[c]] | p # ps \<Rightarrow> (c # p) # ps))"

definition upper_char :: "char \<Rightarrow> char" where
  "upper_char c = (if is_lower c then char_of (of_char c - 32 :: nat) else c)"

fun capital :: "string \<Rightarrow> string" where
  "capital [] = []"
| "capital (c # cs) = upper_char c # cs"

definition pascal :: "string \<Rightarrow> proto_error + string" where
  "pascal s =
     (case filter (\<lambda>p. p \<noteq> []) (alnum_runs s) of
        [] \<Rightarrow> Inl (NoIdentifier s)
      | ps \<Rightarrow> let r = concat (map capital ps) in Inr (if is_digit (hd r) then CHR ''N'' # r else r))"

section \<open>Fields from schemas\<close>

definition scalar_types :: "(string \<times> string) list" where
  "scalar_types =
     [(''Float'', ''float''), (''Double'', ''double''), (''Int32'', ''int32''), (''Int64'', ''int64''), (''Uint32'', ''uint32''),
      (''Uint64'', ''uint64''), (''Sint32'', ''sint32''), (''Sint64'', ''sint64''), (''Fixed32'', ''fixed32''),
      (''Fixed64'', ''fixed64''), (''Sfixed32'', ''sfixed32''), (''Sfixed64'', ''sfixed64''), (''Bool'', ''bool''),
      (''String'', ''string''), (''Bytes'', ''bytes''), (''ArrowTable'', ''bytes''), (''Datetime'', ''sint64''),
      (''Int'', ''sint32''), (''Bigint'', ''sint64'')]"

definition pair_of :: "json \<Rightarrow> proto_error + string \<times> json" where
  \<comment> \<open>an item that \<open>dict()\<close> unpacks into a key and a value; a key that is no string fails later\<close>
  "pair_of j =
     (case j of
        JArr xs \<Rightarrow> if length xs = 2 then (case hd xs of JStr k \<Rightarrow> Inr (k, xs ! 1) | _ \<Rightarrow> Inl BadSchema) else Inl BadSchema
      | JStr s \<Rightarrow> if length s = 2 then Inr ([hd s], JStr [s ! 1]) else Inl BadSchema
      | JObj d \<Rightarrow> if length d = 2 then Inr (fst (hd d), JStr (fst (d ! 1))) else Inl BadSchema
      | _ \<Rightarrow> Inl BadSchema)"

definition dict_of :: "json \<Rightarrow> proto_error + jdict" where
  \<comment> \<open>\<open>dict(value)\<close>\<close>
  "dict_of j =
     (case j of
        JObj d \<Rightarrow> Inr d
      | JArr xs \<Rightarrow> bindE (mapE pair_of xs) (\<lambda>ps. Inr (fold (\<lambda>(k, v). AList.update k v) ps []))
      | JStr s \<Rightarrow> if s = [] then Inr [] else Inl BadSchema
      | _ \<Rightarrow> Inl BadSchema)"

definition require_closed_struct :: "jdict \<Rightarrow> string \<Rightarrow> proto_error + unit" where
  "require_closed_struct schema origin =
     (if truthy (dget schema ''additionalProperties'' (JBool True)) then Inl (OpenStruct origin) else Inr ())"

text \<open>The recursion of \<open>_field_from_schema\<close> ends because a schema nests finitely.\<close>

fun depth :: "json \<Rightarrow> nat" where
  "depth (JArr xs) = Suc (fold max (map depth xs) 0)"
| "depth (JObj d) = Suc (fold max (map (depth \<circ> snd) d) 0)"
| "depth _ = 0"

lemma fold_max_ge: "x \<in> set xs \<or> x \<le> a \<Longrightarrow> x \<le> fold max xs (a :: nat)"
proof (induction xs arbitrary: a)
  case (Cons y ys)
  have "x \<in> set ys \<or> x \<le> max y a" using Cons.prems by (auto simp: le_max_iff_disj)
  then have "x \<le> fold max ys (max y a)" by (rule Cons.IH)
  then show ?case by simp
qed simp

lemma depth_item: "x \<in> set xs \<Longrightarrow> depth x < depth (JArr xs)"
proof -
  assume "x \<in> set xs"
  then show ?thesis using fold_max_ge [of "depth x" "map depth xs" 0] by simp
qed

lemma depth_value: "(k, v) \<in> set d \<Longrightarrow> depth v < depth (JObj d)"
proof -
  assume "(k, v) \<in> set d"
  then have "(depth \<circ> snd) (k, v) \<in> (depth \<circ> snd) ` set d" by (rule imageI)
  then show ?thesis using fold_max_ge [of "depth v" "map (depth \<circ> snd) d" 0] by simp
qed

lemma pair_of_depth: "pair_of j = Inr (k, v) \<Longrightarrow> depth v \<le> depth j"
  by (cases j) (auto simp: pair_of_def intro!: le_SucI fold_max_ge split: if_splits json.splits)

lemma fold_update_values: "(k, v) \<in> set (fold (\<lambda>(k, v). AList.update k v) ps d) \<Longrightarrow> (\<exists>k. (k, v) \<in> set ps) \<or> (\<exists>k. (k, v) \<in> set d)"
proof (induction ps arbitrary: d)
  case (Cons p ps)
  obtain a b where p: "p = (a, b)" by (cases p)
  have "snd ` set (AList.update a b d) \<subseteq> insert b (snd ` set d)" by (induction d) auto
  then show ?case using Cons.IH [of "AList.update a b d"] Cons.prems unfolding p by force
qed auto

lemma dict_of_depth:
  assumes "dict_of j = Inr d" and "(k, v) \<in> set d"
  shows "depth v < depth j"
proof (cases j)
  case (JArr xs)
  then obtain ps where ps: "mapE pair_of xs = Inr ps" "d = fold (\<lambda>(k, v). AList.update k v) ps []"
    using assms(1) by (auto simp: dict_of_def bindE_eq_Inr)
  then obtain k' where "(k', v) \<in> set ps" using fold_update_values [of k v ps "[]"] assms(2) by auto
  then obtain x where "x \<in> set xs" "pair_of x = Inr (k', v)"
    using mapE_source [OF ps(1)] by blast
  then show ?thesis using pair_of_depth depth_item JArr le_less_trans by blast
qed (use assms in \<open>auto simp: dict_of_def dest: depth_value simp del: depth.simps split: if_splits\<close>)

lemma depth_dget: "map_of d k = Some v \<Longrightarrow> depth v < depth (JObj d)"
  by (drule map_of_SomeD) (rule depth_value)

lemma depth_properties:
  assumes "dict_of (dget d k (JObj [])) = Inr ps" and "x \<in> set (sort_key fst ps)"
  shows "depth (snd x) < depth (JObj d)"
proof (cases "map_of d k")
  case None
  then show ?thesis using assms by (auto simp: dget_def dict_of_def)
next
  case (Some v)
  then have "depth (snd x) < depth v" using assms dict_of_depth [of v ps "fst x" "snd x"] by (simp add: dget_def)
  then show ?thesis using depth_dget [OF Some] by (rule less_trans)
qed

function (sequential) field_from_schema ::
  "string \<Rightarrow> string \<Rightarrow> json \<Rightarrow> string \<Rightarrow> string \<Rightarrow> generation \<Rightarrow> proto_error + field_shape \<times> generation" where
  "field_from_schema parent name (JObj schema) direction origin g =
     (if \<not> proto_identifier name then Inl (BadFieldName origin)
      else case dfind schema ''type'' of
        JStr t \<Rightarrow>
          if map_of scalar_types t \<noteq> None then Inr (new_field name (the (map_of scalar_types t)), g)
          else if t = ''Date'' then bindE (ensure_date direction g) (\<lambda>g. Inr (new_field name ''PyscriptsDate'', g))
          else if t = ''DatetimeTz'' then bindE (ensure_datetime_tz direction g) (\<lambda>g. Inr (new_field name ''PyscriptsDatetimeTz'', g))
          else if t = ''Struct'' then
            bindE (require_closed_struct schema origin) (\<lambda>_.
            bindE (pascal name) (\<lambda>p.
            bindE (gen_message (parent @ p) direction origin g) (\<lambda>g.
            bindE (dict_of (dget schema ''properties'' (JObj []))) (\<lambda>children.
            bindE (foldE (\<lambda>x g.
                bindE (field_from_schema (parent @ p) (fst x) (snd x) direction (origin @ ''.'' @ fst x) g) (\<lambda>r.
                  Inr (add_fields (parent @ p) [fst r] (snd r)))) (sort_key fst children) g) (\<lambda>g.
              Inr (new_field name (parent @ p), g))))))
          else if t = ''List'' then
            (case map_of schema ''items'' of
               Some (JObj item) \<Rightarrow>
                 if dfind item ''type'' = JStr ''List'' then Inl (NestedList origin)
                 else bindE (field_from_schema parent name (JObj item) direction (origin @ ''.items'') g) (\<lambda>r.
                   Inr ((fst r)\<lparr>fs_repeated := True\<rparr>, snd r))
             | _ \<Rightarrow> Inl (NoItems origin))
          else Inl (UnsupportedType origin)
      | JArr _ \<Rightarrow> Inl BadSchema
      | JObj _ \<Rightarrow> Inl BadSchema
      | _ \<Rightarrow> Inl (UnsupportedType origin))"
| "field_from_schema parent name _ direction origin g =
     (if \<not> proto_identifier name then Inl (BadFieldName origin) else Inl BadSchema)"
  by pat_completeness auto
termination
  by (relation "measure (\<lambda>(_, _, schema, _). depth schema)") (simp, auto dest: depth_properties depth_dget simp del: depth.simps)

declare field_from_schema.simps [simp del]

section \<open>Field numbers\<close>

definition max_number :: nat where
  "max_number = 536870911"

definition platform_range :: "nat \<Rightarrow> bool" where
  \<comment> \<open>the numbers Protobuf keeps for itself\<close>
  "platform_range n = (19000 \<le> n \<and> n \<le> 19999)"

function next_number :: "nat list \<Rightarrow> nat \<Rightarrow> nat" where
  "next_number occupied n =
     (if n \<in> set occupied \<or> platform_range n then next_number occupied (n + 1) else n)"
  by auto
termination
proof (relation "measure (\<lambda>(occupied, n). Suc (Max (insert 19999 (set occupied))) - n)")
  fix occupied n assume "n \<in> set occupied \<or> platform_range n"
  then have "n \<le> Max (insert 19999 (set occupied))" by (auto simp: platform_range_def intro: Max_ge le_trans)
  then show "((occupied, n + 1), occupied, n) \<in> measure (\<lambda>(occupied, n). Suc (Max (insert 19999 (set occupied))) - n)"
    by simp
qed simp

declare next_number.simps [simp del]

fun number_fields :: "string \<Rightarrow> nat list \<Rightarrow> nat \<Rightarrow> nat list \<Rightarrow> field_shape list \<Rightarrow> proto_error + field_shape list" where
  \<comment> \<open>the loop over the fields in the order of their names, here by their positions\<close>
  "number_fields message [] n occupied fs = Inr fs"
| "number_fields message (i # is) n occupied fs =
     (if fs_number (fs ! i) \<noteq> 0 then number_fields message is n occupied fs
      else
        let n = next_number occupied n in
        if n > max_number then Inl (SpaceExhausted message)
        else number_fields message is (n + 1) (n # occupied) (fs[i := (fs ! i)\<lparr>fs_number := n\<rparr>]))"

definition keeps :: "(string, previous_field) dict \<Rightarrow> field_shape \<Rightarrow> bool" where
  \<comment> \<open>the field was there with the same signature\<close>
  "keeps old f = (case map_of old (fs_name f) of None \<Rightarrow> False | Some o' \<Rightarrow> pv_signature o' = signature f)"

definition reuse_number :: "(string, previous_field) dict \<Rightarrow> field_shape \<Rightarrow> field_shape" where
  "reuse_number old f = (case map_of old (fs_name f) of
     None \<Rightarrow> f | Some o' \<Rightarrow> if pv_signature o' = signature f then f\<lparr>fs_number := pv_number o'\<rparr> else f)"

definition changed_numbers :: "(string, previous_field) dict \<Rightarrow> field_shape list \<Rightarrow> nat list" where
  "changed_numbers old fs = concat (map (\<lambda>f. case map_of old (fs_name f) of
     None \<Rightarrow> [] | Some o' \<Rightarrow> if pv_signature o' = signature f then [] else [pv_number o']) fs)"

definition removed_fields :: "(string, previous_field) dict \<Rightarrow> field_shape list \<Rightarrow> (string, previous_field) dict" where
  "removed_fields old fs = filter (\<lambda>(n, _). n \<notin> fs_name ` set fs) old"

definition history_of :: "previous_message option \<Rightarrow> previous_message" where
  "history_of previous = (case previous of None \<Rightarrow> \<lparr>pm_fields = [], pm_reserved = [], pm_reserved_names = []\<rparr> | Some p \<Rightarrow> p)"

definition reserved_after :: "previous_message \<Rightarrow> field_shape list \<Rightarrow> nat list" where
  "reserved_after p fs = pm_reserved p @ changed_numbers (pm_fields p) fs @ map (pv_number \<circ> snd) (removed_fields (pm_fields p) fs)"

definition occupied_numbers :: "previous_message \<Rightarrow> field_shape list \<Rightarrow> nat list" where
  "occupied_numbers p fs =
     reserved_after p fs @ filter (\<lambda>n. n \<noteq> 0) (map (fs_number \<circ> reuse_number (pm_fields p)) fs) @ map (pv_number \<circ> snd) (pm_fields p)"

definition name_order :: "field_shape list \<Rightarrow> nat list" where
  "name_order fs = sort_key (\<lambda>i. fs_name (fs ! i)) [0..<length fs]"

definition breaks :: "previous_message option \<Rightarrow> message_shape \<Rightarrow> bool" where
  "breaks previous m =
     (let old = pm_fields (history_of previous); fs = ms_fields m in
      changed_numbers old fs \<noteq> [] \<or> removed_fields old fs \<noteq> [] \<or>
      (filter (\<lambda>f. fs_number (reuse_number old f) = 0) fs \<noteq> [] \<and> previous \<noteq> None \<and> ms_direction m = ''request''))"

definition assign_numbers :: "message_shape \<Rightarrow> previous_message option \<Rightarrow> proto_error + message_shape \<times> bool" where
  "assign_numbers m previous =
     (let p = history_of previous; fs = ms_fields m; occupied = occupied_numbers p fs; kept = map (reuse_number (pm_fields p)) fs
      in if fs_name ` set fs \<inter> set (pm_reserved_names p) \<noteq> {} then Inl (ReservedName (ms_name m))
         else bindE (number_fields (ms_name m) (name_order kept) (Max (insert 0 (set occupied)) + 1) occupied kept) (\<lambda>numbered.
           Inr (m\<lparr>ms_fields := numbered, ms_reserved := reserved_after p fs,
               ms_reserved_names := pm_reserved_names p @ map fst (removed_fields (pm_fields p) fs)\<rparr>,
             breaks previous m)))"

fun assign_all :: "(string, previous_message) dict \<Rightarrow> message_shape list \<Rightarrow> proto_error + message_shape list \<times> bool" where
  "assign_all previous [] = Inr ([], False)"
| "assign_all previous (m # ms) =
     bindE (assign_numbers m (map_of previous (ms_name m))) (\<lambda>(m', b).
     bindE (assign_all previous ms) (\<lambda>(ms', b').
       Inr (m' # ms', b \<or> b')))"

section \<open>The previous descriptor\<close>

text \<open>What \<open>FileDescriptorSet.ParseFromString\<close> reads.\<close>

record field_descriptor =
  fd_name :: string
  fd_number :: nat
  fd_type :: nat
  fd_type_name :: string
  fd_repeated :: bool \<comment> \<open>\<open>label == LABEL_REPEATED\<close>\<close>

record message_descriptor =
  md_name :: string
  md_fields :: "field_descriptor list"
  md_ranges :: "(nat \<times> nat) list" \<comment> \<open>\<open>reserved_range\<close>: start and excluded end\<close>
  md_reserved_names :: "string list"

record file_descriptor =
  fl_package :: string
  fl_messages :: "message_descriptor list"
  fl_services :: "(string \<times> string list) list" \<comment> \<open>with their methods\<close>

definition proto_type_names :: "(nat \<times> string) list" where
  "proto_type_names =
     [(1, ''double''), (2, ''float''), (3, ''int64''), (4, ''uint64''), (5, ''int32''), (6, ''fixed64''), (7, ''fixed32''),
      (8, ''bool''), (9, ''string''), (12, ''bytes''), (13, ''uint32''), (15, ''sfixed32''), (16, ''sfixed64''),
      (17, ''sint32''), (18, ''sint64'')]"

definition previous_type_name :: "field_descriptor \<Rightarrow> string" where
  \<comment> \<open>11 and 14 are messages and enums\<close>
  "previous_type_name f =
     (if fd_type f \<in> {11, 14} then last (split_on (CHR ''.'') (fd_type_name f))
      else case map_of proto_type_names (fd_type f) of
        Some t \<Rightarrow> t | None \<Rightarrow> ''unsupported:'' @ dec (fd_type f))"

definition read_message :: "message_descriptor \<Rightarrow> proto_error + previous_message" where
  "read_message m =
     (if \<exists>(a, b) \<in> set (md_ranges m). b > a + 10000 then Inl (RangeTooLarge (md_name m))
      else Inr \<lparr>
        pm_fields = fold (\<lambda>f. AList.update (fd_name f)
          \<lparr>pv_number = fd_number f, pv_signature = (previous_type_name f, fd_repeated f)\<rparr>) (md_fields m) [],
        pm_reserved = concat (map (\<lambda>(a, b). [a..<b]) (md_ranges m)), pm_reserved_names = md_reserved_names m\<rparr>)"

record previous_contract =
  pc_messages :: "(string, previous_message) dict"
  pc_methods :: "string list"
  pc_services :: "string list"

definition read_previous :: "('b \<Rightarrow> file_descriptor list option) \<Rightarrow> 'b option \<Rightarrow> proto_error + previous_contract" where
  \<comment> \<open>no payload, or an empty one, is \<open>None\<close>\<close>
  "read_previous parse payload =
     (case payload of
        None \<Rightarrow> Inr \<lparr>pc_messages = [], pc_methods = [], pc_services = []\<rparr>
      | Some bytes \<Rightarrow>
          bindE (of_opt BadDescriptor (parse bytes)) (\<lambda>files.
          bindE (mapE (\<lambda>m. bindE (read_message m) (\<lambda>p. Inr (md_name m, p))) (concat (map fl_messages files))) (\<lambda>ms.
            Inr \<lparr>pc_messages = fold (\<lambda>(n, p). AList.update n p) ms [],
              pc_methods = concat (map snd (concat (map fl_services files))),
              pc_services = concat (map (\<lambda>f. map (\<lambda>(n, _).
                (if fl_package f = [] then [] else fl_package f @ ''.'') @ n) (fl_services f)) files)\<rparr>)))"

section \<open>The messages and methods of a contract\<close>

record rpc =
  rp_method :: string
  rp_request :: string
  rp_response :: string
  rp_endpoint :: endpoint_spec

definition struct_response :: "endpoint_spec \<Rightarrow> bool" where
  "struct_response e = (dfind (es_response e) ''type'' = JStr ''Struct'')"

fun append_fields :: "string \<Rightarrow> string \<Rightarrow> string \<Rightarrow> (string \<times> json) list \<Rightarrow> generation \<Rightarrow> proto_error + generation" where
  \<comment> \<open>one field per name and schema\<close>
  "append_fields message direction origin [] g = Inr g"
| "append_fields message direction origin ((n, schema) # rest) g =
     bindE (field_from_schema message n schema direction (origin @ ''.'' @ n) g) (\<lambda>(f, g).
       append_fields message direction origin rest (add_fields message [f] g))"

fun append_response_fields :: "string \<Rightarrow> string \<Rightarrow> (string \<times> json) list \<Rightarrow> generation \<Rightarrow> proto_error + generation" where
  \<comment> \<open>the same, with the message looked up for every field\<close>
  "append_response_fields message origin [] g = Inr g"
| "append_response_fields message origin ((n, schema) # rest) g =
     bindE (gen_message message ''response'' origin g) (\<lambda>g.
     bindE (field_from_schema message n schema ''response'' (origin @ ''.'' @ n) g) (\<lambda>(f, g).
       append_response_fields message origin rest (add_fields message [f] g)))"

definition response_message :: "endpoint_spec \<Rightarrow> string \<Rightarrow> string option \<Rightarrow> generation \<Rightarrow> proto_error + string option \<times> generation" where
  \<comment> \<open>the fields of a response; \<open>bound\<close> is the message the local variable \<open>response\<close> is bound to\<close>
  "response_message e name bound g =
     (let origin = ''endpoint:'' @ es_id e @ '':response'' in
      if struct_response e then
        bindE (require_closed_struct (es_response e) (''endpoint '' @ es_id e @ '' response_schema'')) (\<lambda>_.
        bindE (dict_of (dget (es_response e) ''properties'' (JObj []))) (\<lambda>properties.
          if map_of properties ''execution'' \<noteq> None then Inl (ExecutionReserved (es_id e))
          else
            bindE (append_response_fields name origin (sort_key fst properties) g) (\<lambda>g.
            bindE (gen_message name ''response'' origin g) (\<lambda>g.
              Inr (if properties = [] then bound else Some name, g)))))
      else
        bindE (gen_message name ''response'' origin g) (\<lambda>g.
        bindE (field_from_schema name ''result'' (JObj (es_response e)) ''response'' (origin @ ''.result'') g) (\<lambda>(f, g).
          Inr (Some name, add_fields name [f] g))))"

definition gen_endpoint ::
  "endpoint_spec \<Rightarrow> rpc list \<times> string option \<times> generation \<Rightarrow> proto_error + rpc list \<times> string option \<times> generation" where
  "gen_endpoint e = (\<lambda>(methods, bound, g).
     bindE (pascal (es_id e)) (\<lambda>m.
       let rq = m @ ''Request''; rs = m @ ''Response''; origin = ''endpoint:'' @ es_id e @ '':request'' in
       if m \<in> rp_method ` set methods then Inl (SameMethod m)
       else
         bindE (gen_message rq ''request'' origin g) (\<lambda>g.
         bindE (append_fields rq ''request'' origin (sort_key fst (map (\<lambda>(n, s). (n, JObj s)) (es_params e))) g) (\<lambda>g.
         bindE (response_message e rs bound g) (\<lambda>(bound, g).
         bindE (ensure_execution_metadata g) (\<lambda>g.
         case bound of
           None \<Rightarrow> Inl UnboundResponse
         | Some response \<Rightarrow>
             Inr (methods @ [\<lparr>rp_method = m, rp_request = rq, rp_response = rs, rp_endpoint = e\<rparr>], bound,
               add_fields response [new_field ''execution'' ''PyscriptsExecution''] g)))))))"

definition grpc_endpoints :: "endpoint_spec list \<Rightarrow> endpoint_spec list" where
  "grpc_endpoints es = filter (\<lambda>e. ''grpc'' \<in> set (es_io e)) es"

definition gen_endpoints :: "endpoint_spec list \<Rightarrow> proto_error + rpc list \<times> message_shape list" where
  "gen_endpoints es =
     bindE (foldE gen_endpoint (grpc_endpoints es) ([], None, \<lparr>gn_messages = [], gn_origins = []\<rparr>)) (\<lambda>(methods, _, g).
       Inr (methods, map snd (gn_messages g)))"

section \<open>The contract\<close>

record generated_contract =
  gt_source :: string
  gt_path :: string
  gt_endpoints :: "endpoint_spec list"
  gt_version :: string
  gt_package :: string
  gt_service :: string
  gt_breaking :: bool

definition slug :: "string \<Rightarrow> string" where
  "slug name = map (\<lambda>c. if is_lower c \<or> is_digit c \<or> c = CHR ''_'' then c else CHR ''_'') (lower name)"

definition package_segment :: "string \<Rightarrow> string \<Rightarrow> string" where
  \<comment> \<open>\<open>hex\<close> is that of the service's id\<close>
  "package_segment name hex = slug name @ ''_s'' @ hex"

definition package_of :: "string \<Rightarrow> nat \<Rightarrow> string" where
  "package_of segment major = ''pyscripts.generated.'' @ segment @ ''.v'' @ dec major"

definition service_of :: "string \<Rightarrow> proto_error + string" where
  "service_of name = bindE (pascal name) (\<lambda>base. Inr (if ends_with ''Service'' base then base else base @ ''Service''))"

definition response_lost_execution :: "(string, previous_message) dict \<Rightarrow> rpc list \<Rightarrow> bool" where
  "response_lost_execution previous methods =
     list_ex (\<lambda>r. case map_of previous (rp_response r) of
       None \<Rightarrow> False | Some p \<Rightarrow> map_of (pm_fields p) ''execution'' = None) methods"

definition next_version :: "nat \<times> nat \<Rightarrow> bool \<Rightarrow> nat \<times> nat" where
  "next_version = (\<lambda>(major, minor) breaking.
     if major < 1 then (1, 0) else if breaking then (major + 1, 0) else (major, minor + 1))"

definition reserved_line :: "string list \<Rightarrow> string list" where
  "reserved_line xs = (if xs = [] then [] else [''  reserved '' @ join '', '' xs @ '';''])"

definition quoted :: "string \<Rightarrow> string" where
  "quoted s = [CHR 0x22] @ s @ [CHR 0x22]"

definition render_field :: "field_shape \<Rightarrow> string" where
  "render_field f = ''  '' @ (if fs_repeated f then ''repeated '' else []) @ fs_type f @ '' '' @ fs_name f @ '' = '' @ dec (fs_number f) @ '';''"

definition render_message :: "message_shape \<Rightarrow> string list" where
  "render_message m =
     [''message '' @ ms_name m @ '' {''] @ reserved_line (map dec (sort (remdups (ms_reserved m)))) @
     reserved_line (map quoted (sort (remdups (ms_reserved_names m)))) @
     map render_field (sort_key fs_number (ms_fields m)) @ [''}'', []]"

definition render_rpc :: "rpc \<Rightarrow> string" where
  "render_rpc r = ''  rpc '' @ rp_method r @ ''('' @ rp_request r @ '') returns ('' @ rp_response r @ '');''"

definition render_proto :: "string \<Rightarrow> string \<Rightarrow> message_shape list \<Rightarrow> rpc list \<Rightarrow> string" where
  "render_proto package service messages methods =
     join [CHR 0x0A]
       ([''syntax = '' @ quoted ''proto3'' @ '';'', [], ''package '' @ package @ '';'', [],
         ''enum PyscriptsExecutionStatus {'', ''  PYSCRIPTS_EXECUTION_STATUS_UNSPECIFIED = 0;'',
         ''  PYSCRIPTS_EXECUTION_STATUS_SUCCEEDED = 1;'', ''  PYSCRIPTS_EXECUTION_STATUS_FAILED = 2;'', ''}'', [],
         ''enum PyscriptsLogStream {'', ''  PYSCRIPTS_LOG_STREAM_UNSPECIFIED = 0;'',
         ''  PYSCRIPTS_LOG_STREAM_STDOUT = 1;'', ''  PYSCRIPTS_LOG_STREAM_STDERR = 2;'', ''}'', [],
         ''service '' @ service @ '' {''] @
        map render_rpc methods @ [''}'', []] @
        concat (map render_message (sort_key ms_name messages)))"

definition generated_proto_root :: string where
  "generated_proto_root = ''.pyscripts/generated/proto''"

definition with_grpc :: "string \<Rightarrow> string \<Rightarrow> rpc list \<Rightarrow> endpoint_spec \<Rightarrow> proto_error + endpoint_spec" where
  "with_grpc package service methods e =
     (case find (\<lambda>r. es_id (rp_endpoint r) = es_id e) (rev methods) of
        None \<Rightarrow> Inr e
      | Some r \<Rightarrow>
          bindE (of_opt BadGrpcSpec (validate_grpc \<lparr>gs_service = package @ ''.'' @ service, gs_method = rp_method r,
            gs_descriptor = ''.pyscripts/generated/descriptor.pb'', gs_generated = True,
            gs_wrapped = (\<not> struct_response (rp_endpoint r))\<rparr>)) (\<lambda>g. Inr (e\<lparr>es_grpc := Some g\<rparr>)))"

definition version_text :: "string option \<Rightarrow> string" where
  \<comment> \<open>\<open>previous_version or "0"\<close>\<close>
  "version_text v = (case v of None \<Rightarrow> ''0'' | Some v \<Rightarrow> if v = [] then ''0'' else v)"

definition contract_breaks :: "previous_contract \<Rightarrow> nat \<times> nat \<Rightarrow> string \<Rightarrow> string \<Rightarrow> rpc list \<Rightarrow> bool \<Rightarrow> bool" where
  "contract_breaks pc v segment service methods renumbered =
     (response_lost_execution (pc_messages pc) methods \<or> renumbered \<or> \<not> set (pc_methods pc) \<subseteq> rp_method ` set methods \<or>
      (fst v \<ge> 1 \<and> pc_services pc \<noteq> [] \<and> set (pc_services pc) \<noteq> {package_of segment (fst v) @ ''.'' @ service}))"

definition build_contract ::
  "string \<Rightarrow> string \<Rightarrow> rpc list \<Rightarrow> message_shape list \<Rightarrow> nat \<times> nat \<Rightarrow> bool \<Rightarrow> endpoint_spec list \<Rightarrow> generated_contract" where
  "build_contract segment service methods messages version breaking eps =
     (let package = package_of segment (fst version) in
      \<lparr>gt_source = render_proto package service messages methods,
       gt_path = generated_proto_root @ ''/pyscripts_'' @ segment @ ''_sdk_proto/v'' @ dec (fst version) @ ''/service.proto'',
       gt_endpoints = eps, gt_version = dec (fst version) @ ''.'' @ dec (snd version) @ ''.0'',
       gt_package = package, gt_service = service, gt_breaking = breaking\<rparr>)"

definition generate_contract ::
  "('b \<Rightarrow> file_descriptor list option) \<Rightarrow> (string \<Rightarrow> (nat \<times> nat) option) \<Rightarrow> string \<Rightarrow> string \<Rightarrow> endpoint_spec list \<Rightarrow>
   'b option \<Rightarrow> string option \<Rightarrow> proto_error + generated_contract option" where
  \<comment> \<open>\<open>numbers\<close> is \<open>Version(v).major\<close> and \<open>.minor\<close>\<close>
  "generate_contract parse numbers name hex es previous_descriptor previous_version =
     (if grpc_endpoints es = [] \<or> list_ex (\<lambda>e. es_grpc e \<noteq> None) (grpc_endpoints es) then Inr None
      else
        bindE (service_of name) (\<lambda>service.
        bindE (read_previous parse previous_descriptor) (\<lambda>pc.
        bindE (gen_endpoints es) (\<lambda>gen.
        bindE (assign_all (pc_messages pc) (snd gen)) (\<lambda>numbered.
        bindE (of_opt BadVersion (numbers (version_text previous_version))) (\<lambda>v.
          let segment = package_segment name hex;
              breaking = contract_breaks pc v segment service (fst gen) (snd numbered);
              version = next_version v breaking
          in bindE (mapE (with_grpc (package_of segment (fst version)) service (fst gen)) es) (\<lambda>eps.
               Inr (Some (build_contract segment service (fst gen) (fst numbered) version breaking eps)))))))))"

section \<open>The numbers of a message\<close>

lemma next_number_free:
  "n \<le> next_number occupied n \<and> next_number occupied n \<notin> set occupied \<and> \<not> platform_range (next_number occupied n)"
proof (induction occupied n rule: next_number.induct)
  case (1 occupied n)
  then show ?case by (cases "n \<in> set occupied \<or> platform_range n") (auto simp: next_number.simps [of occupied n])
qed

definition free_for :: "nat list \<Rightarrow> nat \<Rightarrow> bool" where
  "free_for occupied n = (0 < n \<and> n \<le> max_number \<and> \<not> platform_range n \<and> n \<notin> set occupied)"

abbreviation num :: "field_shape list \<Rightarrow> nat \<Rightarrow> nat" where
  "num fs i \<equiv> fs_number (fs ! i)"

definition numbers_ok :: "nat list \<Rightarrow> field_shape list \<Rightarrow> bool" where
  "numbers_ok occupied fs =
     (\<forall>i < length fs. num fs i \<noteq> 0 \<longrightarrow> num fs i \<in> set occupied \<and> (\<forall>j < length fs. j \<noteq> i \<longrightarrow> num fs j \<noteq> num fs i))"

definition same_shape :: "field_shape \<Rightarrow> field_shape \<Rightarrow> bool" where
  "same_shape f f' = (fs_name f' = fs_name f \<and> signature f' = signature f)"

lemma same_shape_simps [simp]:
  "same_shape f f" "same_shape (f\<lparr>fs_number := n\<rparr>) f' = same_shape f f'" "same_shape f (f'\<lparr>fs_number := n\<rparr>) = same_shape f f'"
  by (simp_all add: same_shape_def signature_def)

definition renumbering :: "nat list \<Rightarrow> field_shape list \<Rightarrow> field_shape list \<Rightarrow> bool" where
  \<comment> \<open>only unnumbered fields got numbers, and those are free\<close>
  "renumbering occupied fs fs' =
     (length fs' = length fs \<and> (\<forall>i < length fs. same_shape (fs ! i) (fs' ! i) \<and>
        (num fs i \<noteq> 0 \<longrightarrow> num fs' i = num fs i) \<and>
        (num fs i = 0 \<longrightarrow> num fs' i = 0 \<or> free_for occupied (num fs' i))))"

lemma renumbering_at:
  assumes "renumbering occupied fs fs'" and "i < length fs"
  shows "same_shape (fs ! i) (fs' ! i)" and "num fs i \<noteq> 0 \<Longrightarrow> num fs' i = num fs i"
    and "num fs i = 0 \<Longrightarrow> num fs' i = 0 \<or> free_for occupied (num fs' i)"
  using assms by (simp_all add: renumbering_def)

lemma renumbering_refl: "renumbering occupied fs fs"
  by (simp add: renumbering_def)

lemma renumbering_step:
  assumes r: "renumbering (n # occupied) (fs[i := (fs ! i)\<lparr>fs_number := n\<rparr>]) fs'"
    and i: "i < length fs" "num fs i = 0" and n: "free_for occupied n"
  shows "renumbering occupied fs fs'"
proof -
  have l: "length fs' = length fs" using r by (simp add: renumbering_def)
  have "same_shape (fs ! j) (fs' ! j) \<and> (num fs j \<noteq> 0 \<longrightarrow> num fs' j = num fs j) \<and>
      (num fs j = 0 \<longrightarrow> num fs' j = 0 \<or> free_for occupied (num fs' j))" if j: "j < length fs" for j
  proof (cases "j = i")
    case True
    have "same_shape (fs ! i) (fs' ! i) \<and> num fs' i = n"
      using renumbering_at(1,2) [OF r, of i] i(1) n by (simp add: free_for_def)
    then show ?thesis using True i(2) n by simp
  next
    case False
    then have "same_shape (fs ! j) (fs' ! j) \<and> (num fs j \<noteq> 0 \<longrightarrow> num fs' j = num fs j) \<and>
        (num fs j = 0 \<longrightarrow> num fs' j = 0 \<or> free_for (n # occupied) (num fs' j))"
      using renumbering_at [OF r, of j] j by simp
    then show ?thesis by (auto simp: free_for_def)
  qed
  then show ?thesis using l by (simp add: renumbering_def)
qed

lemma numbers_ok_step:
  assumes "numbers_ok occupied fs" and "i < length fs" and "free_for occupied n"
  shows "numbers_ok (n # occupied) (fs[i := (fs ! i)\<lparr>fs_number := n\<rparr>])"
  unfolding numbers_ok_def
proof (intro allI impI conjI)
  let ?fs = "fs[i := (fs ! i)\<lparr>fs_number := n\<rparr>]"
  have v: "num ?fs k = (if k = i then n else num fs k)" if "k < length fs" for k using that by simp
  fix k assume k: "k < length ?fs" "num ?fs k \<noteq> 0"
  then have k': "k \<noteq> i \<Longrightarrow> num fs k \<in> set occupied" using assms(1) v by (auto simp: numbers_ok_def)
  then show "num ?fs k \<in> set (n # occupied)" using k v by (auto split: if_splits)
  fix j assume j: "j < length ?fs" "j \<noteq> k"
  show "num ?fs j \<noteq> num ?fs k"
  proof (cases "j = i \<or> k = i")
    case True
    then show ?thesis using j k v k' assms(1,3) by (auto simp: numbers_ok_def free_for_def split: if_splits)
  next
    case False
    then show ?thesis using j k v assms(1) by (simp add: numbers_ok_def)
  qed
qed

lemma number_fields_spec:
  assumes "number_fields message is n occupied fs = Inr fs'" and "set is \<subseteq> {..<length fs}" and "0 < n" and "numbers_ok occupied fs"
  shows "renumbering occupied fs fs' \<and> (\<forall>i \<in> set is. num fs' i \<noteq> 0) \<and>
    (\<exists>occupied'. set occupied \<subseteq> set occupied' \<and> numbers_ok occupied' fs')"
  using assms
proof (induction "is" arbitrary: n occupied fs)
  case Nil
  then show ?case using renumbering_refl by auto
next
  case (Cons i "is")
  have i: "i < length fs" using Cons.prems(2) by simp
  show ?case
  proof (cases "num fs i = 0")
    case False
    then have "number_fields message is n occupied fs = Inr fs'" using Cons.prems(1) by simp
    then have IH: "renumbering occupied fs fs' \<and> (\<forall>i \<in> set is. num fs' i \<noteq> 0) \<and>
        (\<exists>occupied'. set occupied \<subseteq> set occupied' \<and> numbers_ok occupied' fs')"
      using Cons.IH Cons.prems(2-4) by simp
    moreover have "num fs' i \<noteq> 0" using IH i False by (simp add: renumbering_def)
    ultimately show ?thesis by simp
  next
    case True
    define k where "k = next_number occupied n"
    let ?fs = "fs[i := (fs ! i)\<lparr>fs_number := k\<rparr>]"
    have k: "free_for occupied k" and r: "number_fields message is (k + 1) (k # occupied) ?fs = Inr fs'"
      using Cons.prems(1,3) True next_number_free [of n occupied]
      by (auto simp: k_def Let_def free_for_def split: if_splits)
    have IH: "renumbering (k # occupied) ?fs fs' \<and> (\<forall>i \<in> set is. num fs' i \<noteq> 0) \<and>
        (\<exists>occupied'. set (k # occupied) \<subseteq> set occupied' \<and> numbers_ok occupied' fs')"
      by (rule Cons.IH [OF r]) (use Cons.prems(2,4) numbers_ok_step i k in auto)
    have "num fs' i = k" using renumbering_at(2) [OF conjunct1 [OF IH], of i] i k by (simp add: free_for_def)
    then have "num fs' i \<noteq> 0" using k by (simp add: free_for_def)
    moreover have "renumbering occupied fs fs'" using IH renumbering_step i True k by blast
    ultimately show ?thesis using IH by auto
  qed
qed

definition history_ok :: "previous_message \<Rightarrow> bool" where
  "history_ok p =
     (distinct (map fst (pm_fields p)) \<and> distinct (map (pv_number \<circ> snd) (pm_fields p)) \<and>
      (\<forall>(n, f) \<in> set (pm_fields p). 0 < pv_number f \<and> pv_number f \<le> max_number \<and> \<not> platform_range (pv_number f) \<and>
         pv_number f \<notin> set (pm_reserved p) \<and> n \<notin> set (pm_reserved_names p)))"

definition published_message :: "message_shape \<Rightarrow> previous_message" where
  \<comment> \<open>what the descriptor of the generated source holds of a message\<close>
  "published_message m = \<lparr>
     pm_fields = map (\<lambda>f. (fs_name f, \<lparr>pv_number = fs_number f, pv_signature = signature f\<rparr>)) (ms_fields m),
     pm_reserved = ms_reserved m, pm_reserved_names = ms_reserved_names m\<rparr>"

definition fresh_message :: "message_shape \<Rightarrow> bool" where
  "fresh_message m = (distinct (map fs_name (ms_fields m)) \<and> (\<forall>f \<in> set (ms_fields m). fs_number f = 0))"

definition lost :: "(string, previous_field) dict \<Rightarrow> field_shape list \<Rightarrow> string \<Rightarrow> previous_field \<Rightarrow> bool" where
  \<comment> \<open>no field carries on with this name and signature\<close>
  "lost old fs n o' = ((n, o') \<in> set old \<and> (\<forall>f \<in> set fs. \<not> (fs_name f = n \<and> signature f = pv_signature o')))"

lemma keeps_lookup: "keeps old f \<Longrightarrow> \<exists>o'. map_of old (fs_name f) = Some o' \<and> pv_signature o' = signature f"
  by (auto simp: keeps_def split: option.splits)

lemma keeps_same_shape: "same_shape f f' \<Longrightarrow> keeps old f' = keeps old f"
  by (cases "map_of old (fs_name f)") (simp_all add: keeps_def same_shape_def)

lemma reuse_number_shape [simp]: "same_shape f (reuse_number old f)"
  by (simp add: reuse_number_def split: option.splits)

lemma reuse_number_kept: "map_of old (fs_name f) = Some o' \<Longrightarrow> pv_signature o' = signature f \<Longrightarrow> fs_number (reuse_number old f) = pv_number o'"
  by (simp add: reuse_number_def)

lemma reuse_number_new: "\<not> keeps old f \<Longrightarrow> fs_number (reuse_number old f) = fs_number f"
  by (simp add: reuse_number_def keeps_def split: option.splits)

lemma changed_or_removed:
  assumes "distinct (map fst old)" and "distinct (map fs_name fs)"
  shows "set (changed_numbers old fs) \<union> (pv_number \<circ> snd) ` set (removed_fields old fs) = {pv_number o' | n o'. lost old fs n o'}"
    and "changed_numbers old fs \<noteq> [] \<or> removed_fields old fs \<noteq> [] \<longleftrightarrow> (\<exists>n o'. lost old fs n o')"
proof -
  have c: "k \<in> set (changed_numbers old fs) \<longleftrightarrow>
      (\<exists>f \<in> set fs. \<exists>o'. map_of old (fs_name f) = Some o' \<and> pv_signature o' \<noteq> signature f \<and> k = pv_number o')" for k
  proof -
    have "k \<in> set (case map_of old (fs_name f) of None \<Rightarrow> [] | Some o' \<Rightarrow> if pv_signature o' = signature f then [] else [pv_number o']) \<longleftrightarrow>
        (\<exists>o'. map_of old (fs_name f) = Some o' \<and> pv_signature o' \<noteq> signature f \<and> k = pv_number o')" for f
      by (cases "map_of old (fs_name f)") auto
    then show ?thesis by (simp add: changed_numbers_def)
  qed
  have l: "lost old fs n o' \<longleftrightarrow> (n, o') \<in> set (removed_fields old fs) \<or>
      (\<exists>f \<in> set fs. fs_name f = n \<and> map_of old n = Some o' \<and> pv_signature o' \<noteq> signature f)" for n o'
  proof -
    have u: "f = f'" if "f \<in> set fs" "f' \<in> set fs" "fs_name f = fs_name f'" for f f'
      using that assms(2) by (auto simp: distinct_map dest: inj_onD)
    show ?thesis
      using assms(1) by (auto simp: lost_def removed_fields_def map_of_eq_Some_iff dest: u)
  qed
  show "set (changed_numbers old fs) \<union> (pv_number \<circ> snd) ` set (removed_fields old fs) = {pv_number o' | n o'. lost old fs n o'}"
    by (auto simp: c l image_iff; metis snd_conv)
  show "changed_numbers old fs \<noteq> [] \<or> removed_fields old fs \<noteq> [] \<longleftrightarrow> (\<exists>n o'. lost old fs n o')"
    using c unfolding l by (metis all_not_in_conv list.set_sel(1) neq_Nil_conv set_empty surj_pair list.set_intros(1))
qed

lemma kept_numbers_ok:
  assumes "history_ok p" and "fresh_message m" and "set (map (pv_number \<circ> snd) (pm_fields p)) \<subseteq> set occupied"
  shows "numbers_ok occupied (map (reuse_number (pm_fields p)) (ms_fields m))"
proof -
  let ?fs = "ms_fields m" and ?old = "pm_fields p"
  have old: "distinct (map fst ?old)" "distinct (map (pv_number \<circ> snd) ?old)" using assms(1) by (simp_all add: history_ok_def)
  have kept: "\<exists>o'. map_of ?old (fs_name f) = Some o' \<and> fs_number (reuse_number ?old f) = pv_number o'"
    if "f \<in> set ?fs" "fs_number (reuse_number ?old f) \<noteq> 0" for f
  proof -
    have "keeps ?old f" using that reuse_number_new [of ?old f] assms(2) by (auto simp: fresh_message_def)
    then show ?thesis using keeps_lookup reuse_number_kept by blast
  qed
  have name: "i = j" if "i < length ?fs" "j < length ?fs" "fs_name (?fs ! i) = fs_name (?fs ! j)" for i j
    using that assms(2) nth_eq_iff_index_eq [of "map fs_name ?fs" i j] by (simp add: fresh_message_def)
  have same: "k = k'" if "map_of ?old k = Some x" "map_of ?old k' = Some y" "pv_number x = pv_number y" for k k' x y
  proof -
    have "(k, x) \<in> set ?old" "(k', y) \<in> set ?old" using that(1,2) by (auto dest: map_of_SomeD)
    then have "(k, x) = (k', y)" using old(2) that(3) unfolding distinct_map by (auto dest: inj_onD [of _ _ "(k, x)" "(k', y)"])
    then show ?thesis by simp
  qed
  show ?thesis
    unfolding numbers_ok_def length_map
  proof (intro allI impI conjI)
    fix i assume i: "i < length ?fs" "num (map (reuse_number ?old) ?fs) i \<noteq> 0"
    then obtain x where x: "map_of ?old (fs_name (?fs ! i)) = Some x" "fs_number (reuse_number ?old (?fs ! i)) = pv_number x"
      using kept [of "?fs ! i"] by auto
    then have "(fs_name (?fs ! i), x) \<in> set ?old" by (auto dest: map_of_SomeD)
    then have "pv_number x \<in> set occupied" using assms(3) by force
    then show "num (map (reuse_number ?old) ?fs) i \<in> set occupied" using i x by simp
    fix j assume j: "j < length ?fs" "j \<noteq> i"
    show "num (map (reuse_number ?old) ?fs) j \<noteq> num (map (reuse_number ?old) ?fs) i"
    proof
      assume e: "num (map (reuse_number ?old) ?fs) j = num (map (reuse_number ?old) ?fs) i"
      then obtain y where "map_of ?old (fs_name (?fs ! j)) = Some y" "fs_number (reuse_number ?old (?fs ! j)) = pv_number y"
        using kept [of "?fs ! j"] i j by auto
      then have "fs_name (?fs ! i) = fs_name (?fs ! j)" using same x e i(1) j(1) by simp
      then show False using name i(1) j by auto
    qed
  qed
qed

definition compatible :: "previous_message \<Rightarrow> message_shape \<Rightarrow> message_shape \<Rightarrow> bool" where
  \<comment> \<open>the numbered message \<open>m'\<close> keeps the wire format of its history\<close>
  "compatible p m m' =
     (list_all2 same_shape (ms_fields m) (ms_fields m') \<and>
      (\<forall>f \<in> set (ms_fields m'). if keeps (pm_fields p) f
         then map_of (pm_fields p) (fs_name f) = Some \<lparr>pv_number = fs_number f, pv_signature = signature f\<rparr>
         else fs_number f \<notin> (pv_number \<circ> snd) ` set (pm_fields p) \<union> set (pm_reserved p)) \<and>
      set (ms_reserved m') = set (pm_reserved p) \<union> {pv_number o' | n o'. lost (pm_fields p) (ms_fields m) n o'} \<and>
      set (ms_reserved_names m') = set (pm_reserved_names p) \<union> (fst ` set (pm_fields p) - fs_name ` set (ms_fields m)))"

lemma set_name_order: "set (name_order fs) = {..<length fs}"
  by (auto simp: name_order_def)

lemma assign_numbersD:
  assumes "assign_numbers m previous = Inr (m', b)"
  defines "p \<equiv> history_of previous"
  shows "number_fields (ms_name m) (name_order (map (reuse_number (pm_fields p)) (ms_fields m)))
      (Max (insert 0 (set (occupied_numbers p (ms_fields m)))) + 1) (occupied_numbers p (ms_fields m))
      (map (reuse_number (pm_fields p)) (ms_fields m)) = Inr (ms_fields m')"
    and "fs_name ` set (ms_fields m) \<inter> set (pm_reserved_names p) = {}"
    and "ms_reserved m' = reserved_after p (ms_fields m)"
    and "ms_reserved_names m' = pm_reserved_names p @ map fst (removed_fields (pm_fields p) (ms_fields m))"
    and "ms_name m' = ms_name m" and "ms_direction m' = ms_direction m" and "b = breaks previous m"
  using assms(1) unfolding assign_numbers_def Let_def p_def [symmetric] by (auto simp: bindE_eq_Inr split: if_splits)

lemma reserved_after_lost:
  assumes "history_ok p" and "fresh_message m"
  shows "set (reserved_after p (ms_fields m)) = set (pm_reserved p) \<union> {pv_number o' | n o'. lost (pm_fields p) (ms_fields m) n o'}"
  using changed_or_removed(1) [of "pm_fields p" "ms_fields m"] assms
  by (simp add: reserved_after_def history_ok_def fresh_message_def Un_assoc)

lemma occupied_old: "set (map (pv_number \<circ> snd) (pm_fields p)) \<subseteq> set (occupied_numbers p fs)"
  unfolding occupied_numbers_def set_append by blast

lemma occupied_reserved: "set (reserved_after p fs) \<subseteq> set (occupied_numbers p fs)"
  unfolding occupied_numbers_def set_append by blast

lemma assigned_numbering:
  assumes "assign_numbers m previous = Inr (m', b)" and "history_ok (history_of previous)" and "fresh_message m"
  defines "p \<equiv> history_of previous"
  shows "renumbering (occupied_numbers p (ms_fields m)) (map (reuse_number (pm_fields p)) (ms_fields m)) (ms_fields m')"
    and "length (ms_fields m') = length (ms_fields m)" and "\<forall>f \<in> set (ms_fields m'). fs_number f \<noteq> 0"
    and "distinct (map fs_number (ms_fields m'))"
proof -
  let ?fs = "ms_fields m" and ?occ = "occupied_numbers p (ms_fields m)"
  let ?kept = "map (reuse_number (pm_fields p)) ?fs"
  note d = assign_numbersD [OF assms(1), folded p_def]
  have ok: "numbers_ok ?occ ?kept" by (rule kept_numbers_ok [OF _ _ occupied_old]) (use assms(2,3) in \<open>simp_all add: p_def\<close>)
  have s: "renumbering ?occ ?kept (ms_fields m') \<and> (\<forall>i \<in> set (name_order ?kept). num (ms_fields m') i \<noteq> 0) \<and>
      (\<exists>occ'. set ?occ \<subseteq> set occ' \<and> numbers_ok occ' (ms_fields m'))"
    by (rule number_fields_spec [OF d(1) _ _ ok]) (simp_all add: set_name_order)
  then show r: "renumbering ?occ ?kept (ms_fields m')" by simp
  show l: "length (ms_fields m') = length ?fs" using r by (simp add: renumbering_def)
  have nz: "num (ms_fields m') j \<noteq> 0" if "j < length ?fs" for j using s that by (simp add: set_name_order)
  then show "\<forall>f \<in> set (ms_fields m'). fs_number f \<noteq> 0" using l by (auto simp: in_set_conv_nth)
  show "distinct (map fs_number (ms_fields m'))"
    using s nz l by (auto simp: distinct_conv_nth numbers_ok_def)
qed

lemma assigned_field:
  assumes a: "assign_numbers m previous = Inr (m', b)" and h: "history_ok (history_of previous)" and fr: "fresh_message m"
    and i: "i < length (ms_fields m)"
  defines "p \<equiv> history_of previous" and "f \<equiv> ms_fields m ! i" and "f' \<equiv> ms_fields m' ! i"
  shows "same_shape f f'"
    and "keeps (pm_fields p) f \<Longrightarrow> map_of (pm_fields p) (fs_name f) = Some \<lparr>pv_number = fs_number f', pv_signature = signature f\<rparr>"
    and "\<not> keeps (pm_fields p) f \<Longrightarrow> free_for (occupied_numbers p (ms_fields m)) (fs_number f')"
proof -
  let ?old = "pm_fields p" and ?occ = "occupied_numbers p (ms_fields m)"
  note r = assigned_numbering [OF a h fr, folded p_def]
  have fk: "map (reuse_number ?old) (ms_fields m) ! i = reuse_number ?old f" using i by (simp add: f_def)
  note at = renumbering_at [OF r(1), of i, unfolded fk length_map, OF i, folded f'_def]
  show "same_shape f f'"
    using at(1) reuse_number_shape [of f ?old] unfolding same_shape_def by simp
  show "map_of ?old (fs_name f) = Some \<lparr>pv_number = fs_number f', pv_signature = signature f\<rparr>" if k: "keeps ?old f"
  proof -
    obtain x where x: "map_of ?old (fs_name f) = Some x" "pv_signature x = signature f" using keeps_lookup [OF k] by blast
    then have n: "fs_number (reuse_number ?old f) = pv_number x" by (rule reuse_number_kept)
    moreover have "0 < pv_number x" using h map_of_SomeD [OF x(1)] by (auto simp: history_ok_def p_def)
    ultimately have "fs_number f' = pv_number x" using at(2) by simp
    then show ?thesis using x by (cases x) simp
  qed
  show "free_for ?occ (fs_number f')" if k: "\<not> keeps ?old f"
  proof -
    have "fs_number (reuse_number ?old f) = 0" using reuse_number_new [OF k] fr i by (simp add: fresh_message_def f_def)
    moreover have "fs_number f' \<noteq> 0" using r(2,3) i by (simp add: f'_def)
    ultimately show ?thesis using at(3) by simp
  qed
qed

lemma lost_not_kept:
  assumes "history_ok p" and "f \<in> set fs" and "map_of (pm_fields p) (fs_name f) = Some x" and "pv_signature x = signature f"
  shows "pv_number x \<notin> set (pm_reserved p) \<union> {pv_number o' | n o'. lost (pm_fields p) fs n o'}"
proof
  have x: "(fs_name f, x) \<in> set (pm_fields p)" using assms(3) by (rule map_of_SomeD)
  then have "pv_number x \<notin> set (pm_reserved p)" using assms(1) by (auto simp: history_ok_def)
  moreover assume "pv_number x \<in> set (pm_reserved p) \<union> {pv_number o' | n o'. lost (pm_fields p) fs n o'}"
  ultimately obtain n y where y: "lost (pm_fields p) fs n y" "pv_number x = pv_number y" by auto
  then have "(n, y) \<in> set (pm_fields p)" by (simp add: lost_def)
  then have "(n, y) = (fs_name f, x)"
    using assms(1) x y(2) unfolding history_ok_def distinct_map by (auto dest: inj_onD [of _ _ "(n, y)" "(fs_name f, x)"])
  then show False using y(1) assms(2,4) by (auto simp: lost_def)
qed

lemma assign_numbers_history:
  assumes a: "assign_numbers m previous = Inr (m', b)" and h: "history_ok (history_of previous)" and fr: "fresh_message m"
  shows "compatible (history_of previous) m m' \<and> history_ok (published_message m')"
proof -
  let ?p = "history_of previous"
  let ?fs = "ms_fields m" and ?old = "pm_fields ?p" and ?occ = "occupied_numbers ?p (ms_fields m)"
  note d = assign_numbersD [OF a] and fld = assigned_field [OF a h fr] and al = assigned_numbering [OF a h fr]
  have l: "length (ms_fields m') = length ?fs" by (rule al(2))
  have res: "set (ms_reserved m') = set (pm_reserved ?p) \<union> {pv_number o' | n o'. lost ?old ?fs n o'}"
    using reserved_after_lost [OF h fr] d(3) by simp
  have shapes: "list_all2 same_shape ?fs (ms_fields m')" using fld(1) l by (simp add: list_all2_conv_all_nth)
  have names: "map fs_name (ms_fields m') = map fs_name ?fs"
    using fld(1) l by (intro nth_equalityI) (simp_all add: same_shape_def)
  have rem: "fst ` set (removed_fields ?old ?fs) = fst ` set ?old - fs_name ` set ?fs" by (force simp: removed_fields_def)
  have rn: "set (ms_reserved_names m') = set (pm_reserved_names ?p) \<union> (fst ` set ?old - fs_name ` set ?fs)"
    unfolding d(4) by (simp add: rem)
  have each: "(if keeps ?old f then map_of ?old (fs_name f) = Some \<lparr>pv_number = fs_number f, pv_signature = signature f\<rparr>
        else fs_number f \<notin> (pv_number \<circ> snd) ` set ?old \<union> set (pm_reserved ?p)) \<and>
      fs_number f \<le> max_number \<and> \<not> platform_range (fs_number f) \<and> fs_number f \<notin> set (ms_reserved m')"
    if "f \<in> set (ms_fields m')" for f
  proof -
    from that obtain i where "i < length (ms_fields m')" "ms_fields m' ! i = f" by (auto simp only: in_set_conv_nth)
    then have i: "i < length ?fs" "f = ms_fields m' ! i" using l by simp_all
    have sh: "same_shape (?fs ! i) f" using fld(1) [OF i(1)] i(2) by simp
    then have k: "keeps ?old (?fs ! i) = keeps ?old f" "fs_name (?fs ! i) = fs_name f" "signature (?fs ! i) = signature f"
      using keeps_same_shape [OF sh] by (simp_all add: same_shape_def)
    show ?thesis
    proof (cases "keeps ?old f")
      case True
      then have x: "map_of ?old (fs_name f) = Some \<lparr>pv_number = fs_number f, pv_signature = signature f\<rparr>"
        using fld(2) [OF i(1)] k i(2) by simp
      have "fs_number f \<notin> set (ms_reserved m')"
        using lost_not_kept [OF h nth_mem [OF i(1)]] x k res by simp
      moreover have "fs_number f \<le> max_number \<and> \<not> platform_range (fs_number f)"
        using h map_of_SomeD [OF x] by (auto simp: history_ok_def)
      ultimately show ?thesis using True x by simp
    next
      case False
      then have "free_for ?occ (fs_number f)" using fld(3) [OF i(1)] k i(2) by simp
      then have free: "free_for ?occ (fs_number f)" .
      then have "fs_number f \<notin> (pv_number \<circ> snd) ` set ?old" using occupied_old [of ?p ?fs] by (auto simp: free_for_def)
      moreover have "fs_number f \<notin> set (reserved_after ?p ?fs)" using free occupied_reserved [of ?p ?fs] by (auto simp: free_for_def)
      moreover from this have "fs_number f \<notin> set (pm_reserved ?p)" by (simp add: reserved_after_def)
      ultimately show ?thesis using False d(3) free by (simp add: free_for_def)
    qed
  qed
  have "compatible ?p m m'" unfolding compatible_def by (intro conjI ballI shapes res rn) (rule conjunct1 [OF each])
  moreover have "history_ok (published_message m')"
    unfolding history_ok_def
  proof (intro conjI)
    show "distinct (map fst (pm_fields (published_message m')))" using names fr by (simp add: published_message_def comp_def fresh_message_def)
    show "distinct (map (pv_number \<circ> snd) (pm_fields (published_message m')))" using al(4) by (simp add: published_message_def comp_def)
    have "fs_name f \<notin> set (ms_reserved_names m')" if "f \<in> set (ms_fields m')" for f
    proof -
      have "fs_name f \<in> set (map fs_name (ms_fields m'))" using that by simp
      then have "fs_name f \<in> fs_name ` set ?fs" unfolding names by simp
      then show ?thesis using d(2) rn by auto
    qed
    then show "\<forall>(n, f) \<in> set (pm_fields (published_message m')). 0 < pv_number f \<and> pv_number f \<le> max_number \<and> \<not> platform_range (pv_number f) \<and>
        pv_number f \<notin> set (pm_reserved (published_message m')) \<and> n \<notin> set (pm_reserved_names (published_message m'))"
      using each al(3) by (auto simp: published_message_def)
  qed
  ultimately show ?thesis ..
qed

lemma breaks_iff:
  assumes "history_ok (history_of previous)" and "fresh_message m"
  shows "breaks previous m \<longleftrightarrow> (\<exists>n o'. lost (pm_fields (history_of previous)) (ms_fields m) n o') \<or>
    (previous \<noteq> None \<and> ms_direction m = ''request'' \<and> (\<exists>f \<in> set (ms_fields m). \<not> keeps (pm_fields (history_of previous)) f))"
proof -
  let ?old = "pm_fields (history_of previous)"
  have "fs_number (reuse_number ?old f) = 0 \<longleftrightarrow> \<not> keeps ?old f" if "f \<in> set (ms_fields m)" for f
  proof (cases "keeps ?old f")
    case True
    then obtain x where x: "map_of ?old (fs_name f) = Some x" "pv_signature x = signature f" using keeps_lookup by blast
    then have "0 < pv_number x" using assms(1) map_of_SomeD [OF x(1)] by (auto simp: history_ok_def)
    then show ?thesis using True reuse_number_kept [OF x] by simp
  next
    case False
    then show ?thesis using reuse_number_new [OF False] that assms(2) by (simp add: fresh_message_def)
  qed
  then have "filter (\<lambda>f. fs_number (reuse_number ?old f) = 0) (ms_fields m) \<noteq> [] \<longleftrightarrow> (\<exists>f \<in> set (ms_fields m). \<not> keeps ?old f)"
    by (auto simp: filter_empty_conv)
  then show ?thesis
    using changed_or_removed(2) [of ?old "ms_fields m"] assms unfolding breaks_def Let_def history_ok_def fresh_message_def by blast
qed

text \<open>Numbering a message against its history keeps the wire format: a field with an old name and signature keeps
  its number, every other field gets a number never used before, the numbers and names that are given up are reserved
  for ever, and the result is again a consistent history. It breaks clients exactly when a field is given up or, in a
  request, one is added.\<close>

theorem assign_numbers_compatible:
  assumes "assign_numbers m previous = Inr (m', breaking)" and "history_ok (history_of previous)" and "fresh_message m"
  shows "compatible (history_of previous) m m' \<and> history_ok (published_message m') \<and>
    (breaking \<longleftrightarrow> (\<exists>n o'. lost (pm_fields (history_of previous)) (ms_fields m) n o') \<or>
       (previous \<noteq> None \<and> ms_direction m = ''request'' \<and> (\<exists>f \<in> set (ms_fields m). \<not> keeps (pm_fields (history_of previous)) f)))"
  using assign_numbers_history [OF assms] breaks_iff [OF assms(2,3)] assign_numbersD(7) [OF assms(1)] by blast

section \<open>Versions of a message\<close>

text \<open>The published versions of a message, the newest first.\<close>

inductive message_versions :: "previous_message list \<Rightarrow> bool" where
  First: "fresh_message m \<Longrightarrow> assign_numbers m None = Inr (m', b) \<Longrightarrow> message_versions [published_message m']"
| Next: "message_versions (p # ps) \<Longrightarrow> fresh_message m \<Longrightarrow> assign_numbers m (Some p) = Inr (m', b) \<Longrightarrow>
    message_versions (published_message m' # p # ps)"

lemma history_of_simps [simp]: "history_of (Some p) = p" "pm_fields (history_of None) = []" "history_ok (history_of None)"
  by (simp_all add: history_of_def history_ok_def)

lemma published_next:
  assumes "assign_numbers m (Some p) = Inr (m', b)" and h: "history_ok p" and fr: "fresh_message m"
  shows "(n, x) \<in> set (pm_fields p) \<Longrightarrow> (n, x) \<in> set (pm_fields (published_message m')) \<or> pv_number x \<in> set (pm_reserved (published_message m'))"
    and "set (pm_reserved p) \<subseteq> set (pm_reserved (published_message m'))"
proof -
  have c: "compatible p m m'" using assign_numbers_history [OF assms(1)] h fr by simp
  then show "set (pm_reserved p) \<subseteq> set (pm_reserved (published_message m'))" by (simp add: compatible_def published_message_def)
  assume x: "(n, x) \<in> set (pm_fields p)"
  then have mx: "map_of (pm_fields p) n = Some x" using h by (simp add: history_ok_def)
  show "(n, x) \<in> set (pm_fields (published_message m')) \<or> pv_number x \<in> set (pm_reserved (published_message m'))"
  proof (cases "lost (pm_fields p) (ms_fields m) n x")
    case True
    then show ?thesis using c by (auto simp: compatible_def published_message_def)
  next
    case False
    then obtain f where f: "f \<in> set (ms_fields m)" "fs_name f = n" "signature f = pv_signature x" using x by (auto simp: lost_def)
    obtain i where i: "i < length (ms_fields m)" "f = ms_fields m ! i" using f(1) by (auto simp: in_set_conv_nth)
    have la: "list_all2 same_shape (ms_fields m) (ms_fields m')" using c by (simp add: compatible_def)
    obtain f' where f': "f' \<in> set (ms_fields m')" "same_shape f f'"
    proof (rule that)
      show "ms_fields m' ! i \<in> set (ms_fields m')" using list_all2_lengthD [OF la] i(1) by simp
      show "same_shape f (ms_fields m' ! i)" using list_all2_nthD [OF la i(1)] i(2) by simp
    qed
    then have s: "fs_name f' = n" "signature f' = pv_signature x" using f by (simp_all add: same_shape_def)
    then have "keeps (pm_fields p) f'" using mx by (simp add: keeps_def)
    then have "map_of (pm_fields p) n = Some \<lparr>pv_number = fs_number f', pv_signature = signature f'\<rparr>"
      using c f'(1) s(1) unfolding compatible_def by auto
    then have "(n, x) = (fs_name f', \<lparr>pv_number = fs_number f', pv_signature = signature f'\<rparr>)" using mx s(1) by simp
    then show ?thesis using f'(1) unfolding published_message_def by auto
  qed
qed

lemma message_versions_inv:
  "message_versions ps \<Longrightarrow> history_ok (hd ps) \<and>
     (\<forall>q \<in> set ps. \<forall>(n, x) \<in> set (pm_fields q). (n, x) \<in> set (pm_fields (hd ps)) \<or> pv_number x \<in> set (pm_reserved (hd ps)))"
proof (induction rule: message_versions.induct)
  case (First m m' b)
  then show ?case using assign_numbers_history [OF First(2)] by auto
next
  case (Next p ps m m' b)
  have h: "history_ok p" using Next.IH by simp
  have "(n, x) \<in> set (pm_fields (published_message m')) \<or> pv_number x \<in> set (pm_reserved (published_message m'))"
    if "q \<in> set (published_message m' # p # ps)" "(n, x) \<in> set (pm_fields q)" for q n x
  proof (cases "q = published_message m'")
    case False
    then have "(n, x) \<in> set (pm_fields p) \<or> pv_number x \<in> set (pm_reserved p)" using Next.IH that by auto
    then show ?thesis using published_next [OF Next.hyps(3) h Next.hyps(2)] by blast
  qed (use that in simp)
  then show ?case using assign_numbers_history [OF Next.hyps(3)] h Next.hyps(2) by auto
qed

text \<open>C13. A field number is never reused: whatever a number stood for in an earlier version of a message, in the
  newest one it stands for the same name and type, or it is reserved and no field has it.\<close>

theorem field_numbers_never_reused:
  assumes "message_versions (p # ps)" and "q \<in> set ps" and "map_of (pm_fields q) n = Some x"
  shows "map_of (pm_fields p) n = Some x \<or>
    (pv_number x \<in> set (pm_reserved p) \<and> (\<forall>k y. map_of (pm_fields p) k = Some y \<longrightarrow> pv_number y \<noteq> pv_number x))"
proof -
  have I: "history_ok p" "(n, x) \<in> set (pm_fields p) \<or> pv_number x \<in> set (pm_reserved p)"
    using message_versions_inv [OF assms(1)] assms(2) map_of_SomeD [OF assms(3)] by auto
  moreover have "pv_number y \<notin> set (pm_reserved p)" if "map_of (pm_fields p) k = Some y" for k y
    using I(1) map_of_SomeD [OF that] by (auto simp: history_ok_def)
  ultimately show ?thesis by (auto simp: history_ok_def)
qed

section \<open>The next contract\<close>

lemma number_fields_renumbering:
  "number_fields message is n occupied fs = Inr fs' \<Longrightarrow> set is \<subseteq> {..<length fs} \<Longrightarrow> 0 < n \<Longrightarrow> renumbering occupied fs fs'"
proof (induction "is" arbitrary: n occupied fs)
  case (Cons i "is")
  have i: "i < length fs" using Cons.prems(2) by simp
  show ?case
  proof (cases "num fs i = 0")
    case True
    let ?k = "next_number occupied n"
    have k: "free_for occupied ?k" and r: "number_fields message is (?k + 1) (?k # occupied) (fs[i := (fs ! i)\<lparr>fs_number := ?k\<rparr>]) = Inr fs'"
      using Cons.prems(1,3) True next_number_free [of n occupied] by (auto simp: Let_def free_for_def split: if_splits)
    show ?thesis by (rule renumbering_step [OF Cons.IH [OF r] i True k]) (use Cons.prems(2) in auto)
  qed (use Cons in simp)
qed (simp add: renumbering_refl)

definition carries_on :: "previous_message \<Rightarrow> message_shape \<Rightarrow> bool" where
  \<comment> \<open>every old field is there with its number, and a request has no others\<close>
  "carries_on p m =
     ((\<forall>n o'. map_of (pm_fields p) n = Some o' \<longrightarrow> 0 < pv_number o' \<longrightarrow>
        (\<exists>f \<in> set (ms_fields m). fs_name f = n \<and> signature f = pv_signature o' \<and> fs_number f = pv_number o')) \<and>
      (ms_direction m = ''request'' \<longrightarrow> (\<forall>f \<in> set (ms_fields m). keeps (pm_fields p) f)))"

lemma unbroken_carries_on:
  assumes a: "assign_numbers m (Some p) = Inr (m', False)" and z: "\<forall>f \<in> set (ms_fields m). fs_number f = 0"
  shows "carries_on p m' \<and> ms_name m' = ms_name m"
proof -
  note d = assign_numbersD [OF a, simplified]
  have r: "renumbering (occupied_numbers p (ms_fields m)) (map (reuse_number (pm_fields p)) (ms_fields m)) (ms_fields m')"
    by (rule number_fields_renumbering [OF assign_numbersD(1) [OF a, simplified]]) (simp_all add: set_name_order)
  have l: "length (ms_fields m') = length (ms_fields m)" using r by (simp add: renumbering_def)
  have b: "changed_numbers (pm_fields p) (ms_fields m) = []" "removed_fields (pm_fields p) (ms_fields m) = []"
    "ms_direction m = ''request'' \<Longrightarrow> \<forall>f \<in> set (ms_fields m). fs_number (reuse_number (pm_fields p) f) \<noteq> 0 "
    using d(7) unfolding breaks_def Let_def by (auto simp: filter_empty_conv)
  have at: "same_shape (ms_fields m ! i) (ms_fields m' ! i)"
    "fs_number (reuse_number (pm_fields p) (ms_fields m ! i)) \<noteq> 0 \<Longrightarrow>
      fs_number (ms_fields m' ! i) = fs_number (reuse_number (pm_fields p) (ms_fields m ! i))" if "i < length (ms_fields m)" for i
    using renumbering_at(1,2) [OF r, of i] that reuse_number_shape [of "ms_fields m ! i" "pm_fields p"] by (simp_all add: same_shape_def)
  have "\<exists>f \<in> set (ms_fields m'). fs_name f = n \<and> signature f = pv_signature x \<and> fs_number f = pv_number x"
    if x: "map_of (pm_fields p) n = Some x" "0 < pv_number x" for n x
  proof -
    have "n \<in> fs_name ` set (ms_fields m)"
      using b(2) map_of_SomeD [OF x(1)] by (auto simp: removed_fields_def filter_empty_conv)
    then obtain i where i: "i < length (ms_fields m)" "fs_name (ms_fields m ! i) = n" by (auto simp: in_set_conv_nth)
    have "pv_signature x = signature (ms_fields m ! i)"
      using b(1) i x(1) by (auto simp: changed_numbers_def dest!: nth_mem split: if_splits)
    then have "same_shape (ms_fields m ! i) (ms_fields m' ! i)" "fs_number (ms_fields m' ! i) = pv_number x"
      using at [OF i(1)] reuse_number_kept [of "pm_fields p" "ms_fields m ! i" x] i(2) x by simp_all
    then show ?thesis
      using i l \<open>pv_signature x = _\<close> by (intro bexI [of _ "ms_fields m' ! i"]) (simp_all add: same_shape_def)
  qed
  moreover have "keeps (pm_fields p) f" if dir: "ms_direction m' = ''request''" and f: "f \<in> set (ms_fields m')" for f
  proof -
    obtain i where i: "i < length (ms_fields m)" "f = ms_fields m' ! i" using f l by (auto simp: in_set_conv_nth)
    have "fs_number (reuse_number (pm_fields p) (ms_fields m ! i)) \<noteq> 0" using b(3) dir d(6) i(1) by simp
    then have "keeps (pm_fields p) (ms_fields m ! i)" using reuse_number_new z i(1) by fastforce
    then show ?thesis using keeps_same_shape [OF at(1) [OF i(1)]] i(2) by simp
  qed
  ultimately show ?thesis using d(5) by (auto simp: carries_on_def)
qed

text \<open>What holds of every generation: it starts from nothing and only \<open>gen_message\<close> and \<open>add_fields\<close> change it.\<close>

lemma new_field_number [simp]: "fs_number (new_field n t) = 0"
  by (simp add: new_field_def)

lemma field_from_schema_typed:
  assumes "field_from_schema parent name (JObj schema) direction origin g = Inr r"
  shows "\<exists>t. dfind schema ''type'' = JStr t \<and> proto_identifier name"
  using assms by (cases "dfind schema ''type''") (simp_all add: field_from_schema.simps split: if_splits)

lemma gen_endpointD:
  assumes "gen_endpoint e (methods, bound, g) = Inr (methods', bound', g')"
  shows "\<exists>m g1 g2 g3 g4 r. pascal (es_id e) = Inr m \<and>
    gen_message (m @ ''Request'') ''request'' (''endpoint:'' @ es_id e @ '':request'') g = Inr g1 \<and>
    append_fields (m @ ''Request'') ''request'' (''endpoint:'' @ es_id e @ '':request'') (sort_key fst (map (\<lambda>(n, s). (n, JObj s)) (es_params e))) g1 = Inr g2 \<and>
    response_message e (m @ ''Response'') bound g2 = Inr (bound', g3) \<and> ensure_execution_metadata g3 = Inr g4 \<and> bound' = Some r \<and>
    g' = add_fields r [new_field ''execution'' ''PyscriptsExecution''] g4"
  using assms by (auto simp: gen_endpoint_def bindE_eq_Inr Let_def split: if_splits option.splits)

locale generation_invariant =
  fixes P :: "generation \<Rightarrow> bool"
  assumes message: "gen_message name direction origin g = Inr g' \<Longrightarrow> P g \<Longrightarrow> P g'"
    and add: "P g \<Longrightarrow> \<forall>f \<in> set fs. fs_number f = 0 \<Longrightarrow> P (add_fields name fs g)"
    and empty: "P \<lparr>gn_messages = [], gn_origins = []\<rparr>"
begin

lemma keeps_ensure:
  assumes "ensure_message name direction origin fs g = Inr g'" and "P g" and "\<forall>f \<in> set fs. fs_number f = 0"
  shows "P g'"
  using assms message add by (auto simp: ensure_message_def bindE_eq_Inr)

lemma keeps_platform:
  "ensure_date d g = Inr g' \<Longrightarrow> P g \<Longrightarrow> P g'"
  "ensure_datetime_tz d g = Inr g' \<Longrightarrow> P g \<Longrightarrow> P g'"
  "ensure_execution_metadata g = Inr g' \<Longrightarrow> P g \<Longrightarrow> P g'"
proof -
  show "ensure_date d g = Inr g' \<Longrightarrow> P g \<Longrightarrow> P g'"
    unfolding ensure_date_def by (erule keeps_ensure) auto
  show "ensure_datetime_tz d g = Inr g' \<Longrightarrow> P g \<Longrightarrow> P g'"
    unfolding ensure_datetime_tz_def by (erule keeps_ensure) auto
  assume e: "ensure_execution_metadata g = Inr g'" and u: "P g"
  then obtain h where h: "ensure_message ''PyscriptsExecutionLog'' ''response'' ''platform:execution_log''
       [new_field ''sequence'' ''uint32'', new_field ''stream'' ''PyscriptsLogStream'', new_field ''content'' ''string'',
        new_field ''emitted_at'' ''string''] g = Inr h"
    unfolding ensure_execution_metadata_def bindE_eq_Inr by blast
  then have "P h" using u by (rule keeps_ensure) auto
  then show "P g'"
    using e unfolding ensure_execution_metadata_def h bindE_simps by (elim keeps_ensure) auto
qed

lemma keeps_field:
  "field_from_schema parent name schema direction origin g = Inr r \<Longrightarrow> P g \<Longrightarrow> P (snd r) \<and> fs_number (fst r) = 0"
proof (induction parent name schema direction origin g arbitrary: r rule: field_from_schema.induct)
  case (1 parent name schema direction origin g)
  obtain t where t: "dfind schema ''type'' = JStr t" and id: "proto_identifier name"
    using field_from_schema_typed [OF 1(3)] by blast
  have nid: "\<not> \<not> proto_identifier name" using id by simp
  note e = trans [OF field_from_schema.simps(1) [symmetric] 1(3), unfolded t json.case if_not_P [OF nid]]
  show ?case
  proof (cases "map_of scalar_types t \<noteq> None \<or> t = ''Date'' \<or> t = ''DatetimeTz''")
    case True
    then show ?thesis
      using e 1(4) keeps_platform(1,2) by (auto simp: bindE_eq_Inr split: if_splits)
  next
    case no: False
    show ?thesis
    proof (cases "t = ''Struct''")
      case True
      obtain p h children h' where p: "require_closed_struct schema origin = Inr ()" "pascal name = Inr p"
        "gen_message (parent @ p) direction origin g = Inr h" "dict_of (dget schema ''properties'' (JObj [])) = Inr children"
        "foldE (\<lambda>x g. bindE (field_from_schema (parent @ p) (fst x) (snd x) direction (origin @ ''.'' @ fst x) g) (\<lambda>r.
          Inr (add_fields (parent @ p) [fst r] (snd r)))) (sort_key fst children) h = Inr h'"
        and r: "r = (new_field name (parent @ p), h')"
        using e no True by (auto simp: bindE_eq_Inr)
      have "P h" using message [OF p(3) 1(4)] .
      have "P h'"
      proof (rule foldE_invariant [OF p(5), of P])
        fix x k k' assume x: "x \<in> set (sort_key fst children)" and k: "P k"
          and "bindE (field_from_schema (parent @ p) (fst x) (snd x) direction (origin @ ''.'' @ fst x) k) (\<lambda>r.
            Inr (add_fields (parent @ p) [fst r] (snd r))) = Inr k'"
        then obtain r' where r': "field_from_schema (parent @ p) (fst x) (snd x) direction (origin @ ''.'' @ fst x) k = Inr r'"
          "k' = add_fields (parent @ p) [fst r'] (snd r')" by (auto simp: bindE_eq_Inr)
        have "P (snd r') \<and> fs_number (fst r') = 0"
          by (rule 1(1) [OF _ t _ _ _ _ p(1,2,3,4) x r'(1) k]) (use no True id in auto)
        then show "P k'" using add r'(2) by simp
      qed fact
      then show ?thesis by (simp add: r)
    next
      case False
      then obtain item where l: "t = ''List''" "map_of schema ''items'' = Some (JObj item)" "dfind item ''type'' \<noteq> JStr ''List''"
        and f: "bindE (field_from_schema parent name (JObj item) direction (origin @ ''.items'') g) (\<lambda>r.
          Inr ((fst r)\<lparr>fs_repeated := True\<rparr>, snd r)) = Inr r"
        using e no by (auto split: if_splits option.splits json.splits)
      then obtain r' where r': "field_from_schema parent name (JObj item) direction (origin @ ''.items'') g = Inr r'"
        "r = ((fst r')\<lparr>fs_repeated := True\<rparr>, snd r')" by (auto simp: bindE_eq_Inr)
      have "P (snd r') \<and> fs_number (fst r') = 0"
        by (rule 1(2) [OF _ t _ _ _ _ l(1,2) refl l(3) r'(1) 1(4)]) (use no False id in auto)
      then show ?thesis by (simp add: r'(2))
    qed
  qed
qed (auto simp: field_from_schema.simps split: if_splits)

lemma keeps_append:
  "append_fields message direction origin xs g = Inr g' \<Longrightarrow> P g \<Longrightarrow> P g'"
proof (induction message direction origin xs g rule: append_fields.induct)
  case (2 message direction origin n schema rest g)
  then obtain f h where h: "field_from_schema message n schema direction (origin @ ''.'' @ n) g = Inr (f, h)"
    and r: "append_fields message direction origin rest (add_fields message [f] h) = Inr g'"
    by (auto simp: bindE_eq_Inr)
  then have "P (add_fields message [f] h)" using keeps_field [OF h 2(3)] add by simp
  then show ?case using 2(1) [OF h refl r] by simp
qed simp

lemma keeps_append_response:
  "append_response_fields message origin xs g = Inr g' \<Longrightarrow> P g \<Longrightarrow> P g'"
proof (induction message origin xs g rule: append_response_fields.induct)
  case (2 message origin n schema rest g)
  then obtain g1 f h where g1: "gen_message message ''response'' origin g = Inr g1"
    and h: "field_from_schema message n schema ''response'' (origin @ ''.'' @ n) g1 = Inr (f, h)"
    and r: "append_response_fields message origin rest (add_fields message [f] h) = Inr g'"
    by (auto simp: bindE_eq_Inr)
  then have "P (add_fields message [f] h)"
    using keeps_field [OF h message [OF g1 2(3)]] add by simp
  then show ?case using 2(1) [OF g1 h refl r] by simp
qed simp

lemma keeps_response:
  assumes r: "response_message e name bound g = Inr (bound', g')" and u: "P g"
  shows "P g'"
proof -
  let ?o = "''endpoint:'' @ es_id e @ '':response''"
  show ?thesis
  proof (cases "struct_response e")
    case True
    then obtain ps where "bindE (append_response_fields name ?o (sort_key fst ps) g) (\<lambda>h.
        bindE (gen_message name ''response'' ?o h) (\<lambda>g. Inr (if ps = [] then bound else Some name, g))) = Inr (bound', g')"
      using r unfolding response_message_def Let_def bindE_eq_Inr by (auto simp only: if_P if_raise_eq bindE_eq_Inr)
    then obtain h where "append_response_fields name ?o (sort_key fst ps) g = Inr h" "gen_message name ''response'' ?o h = Inr g'"
      unfolding bindE_eq_Inr by blast
    then show ?thesis using u keeps_append_response message by blast
  next
    case False
    then obtain h f k where h: "gen_message name ''response'' ?o g = Inr h"
      and f: "field_from_schema name ''result'' (JObj (es_response e)) ''response'' (?o @ ''.result'') h = Inr (f, k)"
      and g': "g' = add_fields name [f] k"
      using r by (auto simp: response_message_def Let_def bindE_eq_Inr)
    then show ?thesis using keeps_field [OF f message [OF h u]] add by simp
  qed
qed

lemma all_endpoints:
  assumes g: "foldE gen_endpoint es ([], None, \<lparr>gn_messages = [], gn_origins = []\<rparr>) = Inr (methods, b, g)"
  shows "P g"
proof -
  have "(\<lambda>s. P (snd (snd s))) (methods, b, g)"
  proof (rule foldE_invariant [OF g])
    fix e s s' assume u: "P (snd (snd s))" and s: "gen_endpoint e s = Inr s'"
    obtain ms x h where sx: "s = (ms, x, h)" by (cases s)
    obtain ms' x' h' where sx': "s' = (ms', x', h')" by (cases s')
    obtain m g1 g2 g3 g4 r where d: "gen_message (m @ ''Request'') ''request'' (''endpoint:'' @ es_id e @ '':request'') h = Inr g1"
      "append_fields (m @ ''Request'') ''request'' (''endpoint:'' @ es_id e @ '':request'') (sort_key fst (map (\<lambda>(n, s). (n, JObj s)) (es_params e))) g1 = Inr g2"
      "response_message e (m @ ''Response'') x g2 = Inr (x', g3)" "ensure_execution_metadata g3 = Inr g4"
      "h' = add_fields r [new_field ''execution'' ''PyscriptsExecution''] g4"
      using gen_endpointD [OF s [unfolded sx sx']] by blast
    have "P g1" using message [OF d(1)] u sx by simp
    then have "P g2" by (rule keeps_append [OF d(2)])
    then have "P g3" by (rule keeps_response [OF d(3)])
    then have "P g4" by (rule keeps_platform(3) [OF d(4)])
    then show "P (snd (snd s'))" using add sx' d(5) by simp
  qed (simp add: empty)
  then show ?thesis by simp
qed

end

definition unnumbered :: "generation \<Rightarrow> bool" where
  "unnumbered g = (\<forall>p \<in> set (gn_messages g). \<forall>f \<in> set (ms_fields (snd p)). fs_number f = 0)"

interpretation unnumbered: generation_invariant unnumbered
proof
  show "unnumbered g'" if "gen_message name direction origin g = Inr g'" "unnumbered g" for name direction origin g g'
    using that by (auto simp: gen_message_def unnumbered_def Let_def split: option.splits if_splits)
  show "unnumbered (add_fields name fs g)" if "unnumbered g" "\<forall>f \<in> set fs. fs_number f = 0" for name fs g
    using that by (auto simp: add_fields_def unnumbered_def split: if_splits)
qed (simp add: unnumbered_def)

definition well_named :: "generation \<Rightarrow> bool" where
  "well_named g = (distinct (map fst (gn_messages g)) \<and> (\<forall>p \<in> set (gn_messages g). ms_name (snd p) = fst p))"

interpretation named: generation_invariant well_named
proof
  show "well_named g'" if "gen_message name direction origin g = Inr g'" "well_named g" for name direction origin g g'
    using that by (auto simp: gen_message_def well_named_def Let_def map_of_eq_None_iff split: option.splits if_splits)
  show "well_named (add_fields name fs g)" if "well_named g" "\<forall>f \<in> set fs. fs_number f = 0" for name fs g
    using that by (auto simp: add_fields_def well_named_def comp_def split_def split: if_splits)
qed (simp add: well_named_def)

lemma gen_endpoints_messages:
  assumes "gen_endpoints es = Inr (methods, messages)"
  shows "m \<in> set messages \<Longrightarrow> f \<in> set (ms_fields m) \<Longrightarrow> fs_number f = 0" and "distinct (map ms_name messages)"
proof -
  obtain b g where g: "foldE gen_endpoint (grpc_endpoints es) ([], None, \<lparr>gn_messages = [], gn_origins = []\<rparr>) = Inr (methods, b, g)"
    and m: "messages = map snd (gn_messages g)" using assms by (auto simp: gen_endpoints_def bindE_eq_Inr)
  show "m \<in> set messages \<Longrightarrow> f \<in> set (ms_fields m) \<Longrightarrow> fs_number f = 0"
    using unnumbered.all_endpoints [OF g] m by (auto simp: unnumbered_def)
  have w: "well_named g" by (rule named.all_endpoints [OF g])
  then have "map ms_name messages = map fst (gn_messages g)" by (simp add: m well_named_def)
  then show "distinct (map ms_name messages)" using w by (simp add: well_named_def)
qed

lemma generate_contractD:
  assumes "generate_contract parse numbers name hex es prev pv = Inr (Some g)"
  obtains service pc methods shapes messages renumbered v breaking eps where
    "service_of name = Inr service" "read_previous parse prev = Inr pc" "gen_endpoints es = Inr (methods, shapes)"
    "assign_all (pc_messages pc) shapes = Inr (messages, renumbered)" "numbers (version_text pv) = Some v"
    "breaking = contract_breaks pc v (package_segment name hex) service methods renumbered"
    "mapE (with_grpc (package_of (package_segment name hex) (fst (next_version v breaking))) service methods) es = Inr eps"
    "g = build_contract (package_segment name hex) service methods messages (next_version v breaking) breaking eps"
proof -
  have n: "\<not> (grpc_endpoints es = [] \<or> list_ex (\<lambda>e. es_grpc e \<noteq> None) (grpc_endpoints es))"
    using assms by (auto simp: generate_contract_def)
  show ?thesis
    using assms unfolding generate_contract_def if_not_P [OF n] Let_def bindE_eq_Inr of_opt_eq
  proof (elim exE conjE)
    fix service pc gen numbered v eps
    assume a: "service_of name = Inr service" "read_previous parse prev = Inr pc" "gen_endpoints es = Inr gen"
      "assign_all (pc_messages pc) (snd gen) = Inr numbered" "numbers (version_text pv) = Some v"
      "mapE (with_grpc (package_of (package_segment name hex) (fst (next_version v
         (contract_breaks pc v (package_segment name hex) service (fst gen) (snd numbered))))) service (fst gen)) es = Inr eps"
      "Inr (Some (build_contract (package_segment name hex) service (fst gen) (fst numbered)
         (next_version v (contract_breaks pc v (package_segment name hex) service (fst gen) (snd numbered)))
         (contract_breaks pc v (package_segment name hex) service (fst gen) (snd numbered)) eps)) = Inr (Some g)"
    have g: "g = build_contract (package_segment name hex) service (fst gen) (fst numbered)
         (next_version v (contract_breaks pc v (package_segment name hex) service (fst gen) (snd numbered)))
         (contract_breaks pc v (package_segment name hex) service (fst gen) (snd numbered)) eps"
      using a(7) by (simp only: sum.inject option.inject)
    have p: "gen_endpoints es = Inr (fst gen, snd gen)" "assign_all (pc_messages pc) (snd gen) = Inr (fst numbered, snd numbered)"
      using a(3,4) by simp_all
    show thesis by (rule that [OF a(1,2) p a(5) refl a(6) g])
  qed
qed

lemma assign_all_unbroken:
  "assign_all previous shapes = Inr (messages, False) \<Longrightarrow> m' \<in> set messages \<Longrightarrow>
   \<exists>m \<in> set shapes. assign_numbers m (map_of previous (ms_name m)) = Inr (m', False)"
proof (induction shapes arbitrary: messages)
  case (Cons m ms)
  then obtain m1 ms1 where m1: "assign_numbers m (map_of previous (ms_name m)) = Inr (m1, False)"
    and ms1: "assign_all previous ms = Inr (ms1, False)" and e: "messages = m1 # ms1"
    by (auto simp: bindE_eq_Inr)
  then show ?case using Cons.IH [OF ms1] Cons.prems(2) by auto
qed simp

text \<open>C14. A contract generated after another is published under the next version, in the package of its major version,
  and a minor version keeps its clients: every old method is there, and every message that had a history has each old
  field with its number and type and, if it is a request, no others. A new major version follows every break.\<close>

theorem contract_version_compatible:
  assumes "generate_contract parse numbers name hex es prev pv = Inr (Some g)" and "read_previous parse prev = Inr pc"
    and "numbers (version_text pv) = Some (major, minor)"
  shows "\<exists>methods messages.
    gt_source g = render_proto (gt_package g) (gt_service g) messages methods \<and>
    (if major < 1 then gt_version g = ''1.0.0'' \<and> gt_package g = package_of (package_segment name hex) 1
     else if gt_breaking g
     then gt_version g = dec (major + 1) @ ''.0.0'' \<and> gt_package g = package_of (package_segment name hex) (major + 1)
     else gt_version g = dec major @ ''.'' @ dec (minor + 1) @ ''.0'' \<and> gt_package g = package_of (package_segment name hex) major) \<and>
    (\<not> gt_breaking g \<longrightarrow> set (pc_methods pc) \<subseteq> rp_method ` set methods \<and>
       (\<forall>m \<in> set messages. \<forall>p. map_of (pc_messages pc) (ms_name m) = Some p \<longrightarrow> carries_on p m))"
proof -
  obtain service pc' methods shapes messages renumbered v breaking eps where d:
    "service_of name = Inr service" "read_previous parse prev = Inr pc'" "gen_endpoints es = Inr (methods, shapes)"
    "assign_all (pc_messages pc') shapes = Inr (messages, renumbered)" "numbers (version_text pv) = Some v"
    "breaking = contract_breaks pc' v (package_segment name hex) service methods renumbered"
    "mapE (with_grpc (package_of (package_segment name hex) (fst (next_version v breaking))) service methods) es = Inr eps"
    "g = build_contract (package_segment name hex) service methods messages (next_version v breaking) breaking eps"
    by (rule generate_contractD [OF assms(1)])
  have e: "pc' = pc" "v = (major, minor)" using assms(2,3) d(2,5) by simp_all
  have g: "gt_breaking g = breaking" "gt_service g = service" "gt_source g = render_proto (gt_package g) service messages methods"
    "gt_package g = package_of (package_segment name hex) (fst (next_version v breaking))"
    "gt_version g = dec (fst (next_version v breaking)) @ ''.'' @ dec (snd (next_version v breaking)) @ ''.0''"
    by (simp_all add: d(8) build_contract_def Let_def)
  have "carries_on p m" if br: "\<not> breaking" and m: "m \<in> set messages" and p: "map_of (pc_messages pc) (ms_name m) = Some p" for m p
  proof -
    have "\<not> renumbered" using br d(6) by (simp add: contract_breaks_def)
    then obtain m0 where m0: "m0 \<in> set shapes" "assign_numbers m0 (map_of (pc_messages pc) (ms_name m0)) = Inr (m, False)"
      using assign_all_unbroken [of "pc_messages pc" shapes messages m] d(4) e(1) m by auto
    have "ms_name m = ms_name m0" using assign_numbersD(5) [OF m0(2)] .
    then show ?thesis using unbroken_carries_on [of m0 p m] m0 p gen_endpoints_messages(1) [OF d(3)] by auto
  qed
  moreover have "set (pc_methods pc) \<subseteq> rp_method ` set methods" if "\<not> breaking"
    using that d(6) e(1) by (simp add: contract_breaks_def)
  moreover have "dec 1 = ''1''" "dec 0 = ''0''" by code_simp+
  ultimately show ?thesis
    by (intro exI [of _ methods] exI [of _ messages]) (simp add: g e(2) next_version_def)
qed

section \<open>Publishing again\<close>

lemma number_fields_numbered:
  "\<forall>i \<in> set is. num fs i \<noteq> 0 \<Longrightarrow> number_fields message is n occupied fs = Inr fs"
  by (induction "is") auto

lemma same_shape_names: "list_all2 same_shape fs fs' \<Longrightarrow> map fs_name fs' = map fs_name fs"
  by (induction rule: list_all2_induct) (simp_all add: same_shape_def)

lemma same_shape_renumber: "same_shape f f' \<Longrightarrow> f\<lparr>fs_number := fs_number f'\<rparr> = f'"
  by (cases f; cases f') (simp add: same_shape_def signature_def)

lemma assign_numbers_record:
  assumes "assign_numbers m previous = Inr (m', b)"
  shows "m' = m\<lparr>ms_fields := ms_fields m', ms_reserved := ms_reserved m', ms_reserved_names := ms_reserved_names m'\<rparr>"
  using assms unfolding assign_numbers_def Let_def by (auto simp: bindE_eq_Inr split: if_splits)

lemma assign_numbers_again:
  assumes a: "assign_numbers m previous = Inr (m', b)" and h: "history_ok (history_of previous)" and fr: "fresh_message m"
  shows "assign_numbers m (Some (published_message m')) = Inr (m', False)"
proof -
  let ?p = "published_message m'" and ?fs = "ms_fields m" and ?fs' = "ms_fields m'"
  have H: "compatible (history_of previous) m m'" "history_ok ?p" using assign_numbers_history [OF a h fr] by simp_all
  note al = assigned_numbering [OF a h fr]
  have la: "list_all2 same_shape ?fs ?fs'" using H(1) by (simp add: compatible_def)
  have l: "length ?fs' = length ?fs" by (rule al(2))
  have look: "map_of (pm_fields ?p) (fs_name (?fs ! i)) = Some \<lparr>pv_number = num ?fs' i, pv_signature = signature (?fs ! i)\<rparr>"
    if "i < length ?fs" for i
  proof -
    have s: "same_shape (?fs ! i) (?fs' ! i)" using list_all2_nthD [OF la that] .
    have "(fs_name (?fs' ! i), \<lparr>pv_number = num ?fs' i, pv_signature = signature (?fs' ! i)\<rparr>) \<in> set (pm_fields ?p)"
      using that l by (auto simp: published_message_def intro!: rev_image_eqI [of "?fs' ! i"])
    then show ?thesis using H(2) s by (simp add: history_ok_def same_shape_def)
  qed
  have reuse: "reuse_number (pm_fields ?p) (?fs ! i) = ?fs' ! i" if "i < length ?fs" for i
    using look [OF that] same_shape_renumber [OF list_all2_nthD [OF la that]] by (simp add: reuse_number_def)
  then have kept: "map (reuse_number (pm_fields ?p)) ?fs = ?fs'" using l by (intro nth_equalityI) simp_all
  have changed: "changed_numbers (pm_fields ?p) ?fs = []"
    using look by (auto simp: changed_numbers_def in_set_conv_nth split: option.splits)
  have "map fs_name ?fs = map fs_name ?fs'"
    using l list_all2_nthD [OF la] by (intro nth_equalityI) (simp_all add: same_shape_def)
  then have names: "fs_name ` set ?fs' = fs_name ` set ?fs" by (metis image_set)
  then have removed: "removed_fields (pm_fields ?p) ?fs = []" by (auto simp: removed_fields_def published_message_def filter_empty_conv)
  have "fs_name f \<notin> set (ms_reserved_names m')" if "f \<in> set ?fs'" for f
    using H(2) that by (auto simp: history_ok_def published_message_def)
  then have free: "fs_name ` set ?fs \<inter> set (ms_reserved_names m') = {}" unfolding names [symmetric] by blast
  have nz: "num ?fs' i \<noteq> 0" if "i < length ?fs" for i using al(3) l that nth_mem [of i ?fs'] by simp
  then have "filter (\<lambda>f. fs_number (reuse_number (pm_fields ?p) f) = 0) ?fs = []"
    using reuse by (auto simp: filter_empty_conv in_set_conv_nth)
  then have nb: "\<not> breaks (Some ?p) m" using changed removed by (simp add: breaks_def)
  have "number_fields (ms_name m) (name_order ?fs') (Max (insert 0 (set (occupied_numbers ?p ?fs))) + 1) (occupied_numbers ?p ?fs) ?fs' = Inr ?fs'"
    by (rule number_fields_numbered) (use nz l in \<open>simp add: set_name_order\<close>)
  moreover have "reserved_after ?p ?fs = ms_reserved m'" by (simp add: reserved_after_def changed removed) (simp add: published_message_def)
  moreover have "pm_reserved_names ?p = ms_reserved_names m'" by (simp add: published_message_def)
  ultimately show ?thesis
    using free nb assign_numbers_record [OF a] by (simp add: assign_numbers_def Let_def kept removed)
qed

lemma assign_all_again:
  assumes "assign_all previous shapes = Inr (messages, b)" and "list_all fresh_message shapes"
    and "\<forall>m \<in> set shapes. history_ok (history_of (map_of previous (ms_name m)))"
    and "\<forall>m \<in> set messages. map_of previous' (ms_name m) = Some (published_message m)"
  shows "assign_all previous' shapes = Inr (messages, False) \<and> map ms_name messages = map ms_name shapes"
  using assms
proof (induction shapes arbitrary: messages b)
  case (Cons m ms)
  obtain m1 b1 ms1 b2 where m1: "assign_numbers m (map_of previous (ms_name m)) = Inr (m1, b1)"
    and ms1: "assign_all previous ms = Inr (ms1, b2)" and e: "messages = m1 # ms1"
    using Cons.prems(1) by (auto simp: bindE_eq_Inr)
  have n: "ms_name m1 = ms_name m" by (rule assign_numbersD(5) [OF m1])
  have h: "history_ok (history_of (map_of previous (ms_name m)))" and fr: "fresh_message m" using Cons.prems(2,3) by simp_all
  have p: "map_of previous' (ms_name m) = Some (published_message m1)" using Cons.prems(4) e n by simp
  have "assign_numbers m (map_of previous' (ms_name m)) = Inr (m1, False)"
    unfolding p by (rule assign_numbers_again [OF m1 h fr])
  then show ?case using Cons.IH [OF ms1] Cons.prems(2-4) e n by simp
qed simp

definition wire_ready :: "rpc list \<Rightarrow> message_shape list \<Rightarrow> bool" where
  \<comment> \<open>no message has two fields of a name, and every response has its execution\<close>
  "wire_ready methods shapes =
     (list_all fresh_message shapes \<and>
      list_all (\<lambda>r. list_ex (\<lambda>m. ms_name m = rp_response r \<and> ''execution'' \<in> fs_name ` set (ms_fields m)) shapes) methods)"

definition published_contract :: "generated_contract \<Rightarrow> rpc list \<Rightarrow> message_shape list \<Rightarrow> previous_contract" where
  \<comment> \<open>what the descriptor of the generated source holds\<close>
  "published_contract g methods messages =
     \<lparr>pc_messages = map (\<lambda>m. (ms_name m, published_message m)) messages, pc_methods = map rp_method methods,
      pc_services = [gt_package g @ ''.'' @ gt_service g]\<rparr>"

lemma assign_all_shapes:
  "assign_all previous shapes = Inr (messages, b) \<Longrightarrow>
   list_all2 (\<lambda>m m'. \<exists>b. assign_numbers m (map_of previous (ms_name m)) = Inr (m', b)) shapes messages"
proof (induction shapes arbitrary: messages b)
  case (Cons m ms)
  obtain m1 b1 ms1 b2 where "assign_numbers m (map_of previous (ms_name m)) = Inr (m1, b1)"
    "assign_all previous ms = Inr (ms1, b2)" "messages = m1 # ms1"
    using Cons.prems by (auto simp: bindE_eq_Inr)
  then show ?case using Cons.IH by auto
qed simp

lemma next_version_stays: "1 \<le> fst (next_version v b)"
  by (simp add: next_version_def split: prod.splits)

lemma execution_published:
  assumes "assign_all previous shapes = Inr (messages, b)" and "wire_ready methods shapes"
    and hist: "\<And>n. history_ok (history_of (map_of previous n))"
    and look: "\<And>m. m \<in> set messages \<Longrightarrow> map_of previous' (ms_name m) = Some (published_message m)"
  shows "\<not> response_lost_execution previous' methods"
proof -
  have as: "list_all2 (\<lambda>m m'. \<exists>b. assign_numbers m (map_of previous (ms_name m)) = Inr (m', b)) shapes messages"
    by (rule assign_all_shapes [OF assms(1)])
  have "\<exists>m \<in> set messages. ms_name m = rp_response r \<and> ''execution'' \<in> fs_name ` set (ms_fields m)" if "r \<in> set methods" for r
  proof -
    obtain m where m: "m \<in> set shapes" "ms_name m = rp_response r" "''execution'' \<in> fs_name ` set (ms_fields m)"
      using assms(2) \<open>r \<in> set methods\<close> unfolding wire_ready_def list_all_iff list_ex_iff by blast
    then obtain i where i: "i < length shapes" "shapes ! i = m" by (auto simp only: in_set_conv_nth)
    obtain b' where a: "assign_numbers m (map_of previous (ms_name m)) = Inr (messages ! i, b')"
      using list_all2_nthD [OF as i(1)] i(2) by blast
    have "fresh_message m" using assms(2) m(1) by (simp add: wire_ready_def list_all_iff)
    then have "list_all2 same_shape (ms_fields m) (ms_fields (messages ! i))"
      using assign_numbers_history [OF a hist] by (simp add: compatible_def)
    then have "fs_name ` set (ms_fields (messages ! i)) = fs_name ` set (ms_fields m)"
      using arg_cong [OF same_shape_names, of _ _ set] by simp
    moreover have "messages ! i \<in> set messages" using i(1) list_all2_lengthD [OF as] by simp
    ultimately show ?thesis using m assign_numbersD(5) [OF a] by auto
  qed
  moreover have "map_of (pm_fields (published_message m)) ''execution'' \<noteq> None" if "''execution'' \<in> fs_name ` set (ms_fields m)" for m
    using that by (auto simp: published_message_def map_of_eq_None_iff image_image)
  ultimately show ?thesis using look unfolding response_lost_execution_def list_ex_iff by fastforce
qed

text \<open>C36. Publishing again what was published is stable: generating from unchanged endpoints, with the descriptor of
  the contract just generated as the previous one, breaks nothing and gives the very same source, package, path and
  endpoints.\<close>

theorem republishing_is_stable:
  assumes "generate_contract parse numbers name hex es prev pv = Inr (Some g)"
    and "read_previous parse prev = Inr pc" and "\<forall>(n, p) \<in> set (pc_messages pc). history_ok p"
    and "gen_endpoints es = Inr (methods, shapes)" and "wire_ready methods shapes"
    and "assign_all (pc_messages pc) shapes = Inr (messages, b)"
    and "read_previous parse (Some bytes) = Inr (published_contract g methods messages)"
    and "numbers (gt_version g) = Some (next_version v (gt_breaking g))" and "numbers (version_text pv) = Some v"
  shows "\<exists>g'. generate_contract parse numbers name hex es (Some bytes) (Some (gt_version g)) = Inr (Some g') \<and>
    \<not> gt_breaking g' \<and> gt_source g' = gt_source g \<and> gt_package g' = gt_package g \<and> gt_path g' = gt_path g \<and>
    gt_endpoints g' = gt_endpoints g"
proof -
  obtain service eps breaking where d:
    "service_of name = Inr service"
    "mapE (with_grpc (package_of (package_segment name hex) (fst (next_version v breaking))) service methods) es = Inr eps"
    "g = build_contract (package_segment name hex) service methods messages (next_version v breaking) breaking eps"
    by (rule generate_contractD [OF assms(1)]) (use assms(2,4,6,9) in simp)
  have e: "gt_breaking g = breaking" "gt_service g = service" "gt_package g = package_of (package_segment name hex) (fst (next_version v breaking))"
    by (simp_all add: d(3) build_contract_def Let_def)
  let ?v = "next_version v breaking" and ?pc = "published_contract g methods messages"
  have fresh: "list_all fresh_message shapes" using assms(5) by (simp add: wire_ready_def)
  have names: "map ms_name messages = map ms_name shapes"
    using assign_all_shapes [OF assms(6)] assign_numbersD(5)
    by (auto simp: list_all2_conv_all_nth intro!: nth_equalityI)
  then have dm: "distinct (map ms_name messages)" using gen_endpoints_messages(2) [OF assms(4)] by simp
  have look: "map_of (pc_messages ?pc) (ms_name m) = Some (published_message m)" if "m \<in> set messages" for m
    using that dm by (auto simp: published_contract_def comp_def intro!: map_of_is_SomeI)
  have hist: "history_ok (history_of (map_of (pc_messages pc) n))" for n
    using assms(3) map_of_SomeD [of "pc_messages pc" n] by (cases "map_of (pc_messages pc) n") auto
  then have again: "assign_all (pc_messages ?pc) shapes = Inr (messages, False)"
    using assign_all_again [OF assms(6) fresh] look hist by blast
  have "\<not> response_lost_execution (pc_messages ?pc) methods"
    by (rule execution_published [OF assms(6,5) hist]) (use look in auto)
  then have nb: "\<not> contract_breaks ?pc ?v (package_segment name hex) service methods False"
    using e by (simp add: contract_breaks_def published_contract_def)
  have vt: "version_text (Some (gt_version g)) = gt_version g" by (simp add: version_text_def d(3) build_contract_def Let_def)
  have major: "fst (next_version ?v False) = fst ?v" using next_version_stays [of v breaking] by (simp add: next_version_def split: prod.splits)
  have n: "\<not> (grpc_endpoints es = [] \<or> list_ex (\<lambda>e. es_grpc e \<noteq> None) (grpc_endpoints es))"
    using assms(1) by (auto simp: generate_contract_def)
  have "generate_contract parse numbers name hex es (Some bytes) (Some (gt_version g)) =
      Inr (Some (build_contract (package_segment name hex) service methods messages (next_version ?v False) False eps))"
    unfolding generate_contract_def if_not_P [OF n] vt
    using d(1,2) assms(4,7,8) again nb major e(1) by (simp add: Let_def)
  then show ?thesis by (simp add: d(3) build_contract_def Let_def major)
qed

section \<open>Examples\<close>

definition demo_history :: previous_message where
  "demo_history = \<lparr>pm_fields = [(''x'', \<lparr>pv_number = 4, pv_signature = (''int64'', False)\<rparr>),
     (''y'', \<lparr>pv_number = 7, pv_signature = (''int64'', False)\<rparr>)], pm_reserved = [], pm_reserved_names = []\<rparr>"

definition demo_message :: "field_shape list \<Rightarrow> message_shape" where
  "demo_message fs = \<lparr>ms_name = ''AddRequest'', ms_direction = ''request'', ms_origin = ''endpoint:add:request'', ms_fields = fs,
     ms_reserved = [], ms_reserved_names = []\<rparr>"

text \<open>A parameter that changes its type: the old number is given up.\<close>

lemma demo_order: "name_order [f, g] = (if fs_name f \<le> fs_name g then [0, 1] else [1, 0])"
  by (simp add: name_order_def upt_rec)

lemma demo_assign:
  "assign_numbers (demo_message [new_field ''x'' ''string'', new_field ''y'' ''int64'']) (Some demo_history) =
     Inr ((demo_message [(new_field ''x'' ''string'')\<lparr>fs_number := 8\<rparr>, (new_field ''y'' ''int64'')\<lparr>fs_number := 7\<rparr>])\<lparr>ms_reserved := [4]\<rparr>, True)"
  by (simp add: assign_numbers_def Let_def demo_message_def demo_history_def demo_order reserved_after_def occupied_numbers_def
      changed_numbers_def removed_fields_def reuse_number_def signature_def new_field_def next_number.simps platform_range_def
      max_number_def breaks_def less_eq_char_def)

definition demo_endpoint_of :: "string \<Rightarrow> (string \<times> jdict) list \<Rightarrow> jdict \<Rightarrow> endpoint_spec" where
  "demo_endpoint_of i ps r = \<lparr>es_id = i, es_task = ''compute'', es_entry = ''service:add'', es_io = [''grpc''], es_params = ps,
     es_response = r, es_grpc = None, es_cpus = None, es_gpus = None\<rparr>"

definition demo_add :: endpoint_spec where
  "demo_add = demo_endpoint_of ''add'' [(''x'', [(''type'', JStr ''Int64'')])] [(''type'', JStr ''Int64'')]"

definition demo_shape :: "string \<Rightarrow> string \<Rightarrow> string \<Rightarrow> field_shape list \<Rightarrow> message_shape" where
  "demo_shape n d o' fs = \<lparr>ms_name = n, ms_direction = d, ms_origin = o', ms_fields = fs, ms_reserved = [], ms_reserved_names = []\<rparr>"

definition log_fields :: "field_shape list" where
  "log_fields = [new_field ''sequence'' ''uint32'', new_field ''stream'' ''PyscriptsLogStream'', new_field ''content'' ''string'',
     new_field ''emitted_at'' ''string'']"

definition execution_fields :: "field_shape list" where
  "execution_fields = [new_field ''request_id'' ''string'', new_field ''service'' ''string'', new_field ''revision'' ''string'',
     new_field ''endpoint'' ''string'', new_field ''status'' ''PyscriptsExecutionStatus'', new_field ''error'' ''string'',
     (new_field ''logs'' ''PyscriptsExecutionLog'')\<lparr>fs_repeated := True\<rparr>,
     new_field ''log_bytes'' ''uint64'', new_field ''logs_truncated'' ''bool'']"

definition demo_shapes :: "message_shape list" where
  "demo_shapes =
     [demo_shape ''AddRequest'' ''request'' ''endpoint:add:request'' [new_field ''x'' ''int64''],
      demo_shape ''AddResponse'' ''response'' ''endpoint:add:response'' [new_field ''result'' ''int64'', new_field ''execution'' ''PyscriptsExecution''],
      demo_shape ''PyscriptsExecutionLog'' ''response'' ''platform:execution_log'' log_fields,
      demo_shape ''PyscriptsExecution'' ''response'' ''platform:execution'' execution_fields]"

definition demo_rpc :: rpc where
  "demo_rpc = \<lparr>rp_method = ''Add'', rp_request = ''AddRequest'', rp_response = ''AddResponse'', rp_endpoint = demo_add\<rparr>"

lemma pascal_add: "pascal ''add'' = Inr ''Add''"
  by code_simp

lemma demo_names: "proto_identifier ''x''" "proto_identifier ''result''"
  by code_simp+

lemma demo_gen: "gen_endpoints [demo_add] = Inr ([demo_rpc], demo_shapes)"
  by (simp add: gen_endpoints_def grpc_endpoints_def demo_add_def demo_endpoint_of_def gen_endpoint_def pascal_add Let_def
      gen_message_def response_message_def struct_response_def dfind_def dget_def field_from_schema.simps demo_names scalar_types_def
      add_fields_def fields_of_def ensure_execution_metadata_def ensure_message_def demo_rpc_def demo_shapes_def demo_shape_def
      log_fields_def execution_fields_def del: proto_identifier.simps)

definition number_all :: "nat list \<Rightarrow> field_shape list \<Rightarrow> field_shape list" where
  "number_all ns fs = map (\<lambda>(n, f). f\<lparr>fs_number := n\<rparr>) (zip ns fs)"

definition demo_messages :: "message_shape list" where
  "demo_messages =
     [demo_shape ''AddRequest'' ''request'' ''endpoint:add:request'' (number_all [1] [new_field ''x'' ''int64'']),
      demo_shape ''AddResponse'' ''response'' ''endpoint:add:response''
        (number_all [2, 1] [new_field ''result'' ''int64'', new_field ''execution'' ''PyscriptsExecution'']),
      demo_shape ''PyscriptsExecutionLog'' ''response'' ''platform:execution_log'' (number_all [3, 4, 1, 2] log_fields),
      demo_shape ''PyscriptsExecution'' ''response'' ''platform:execution'' (number_all [6, 8, 7, 1, 9, 2, 4, 3, 5] execution_fields)]"

text \<open>Without a history the fields are numbered in the order of their names.\<close>

lemma demo_numbering:
  "assign_numbers (nth demo_shapes 0) None = Inr (nth demo_messages 0, False)"
  "assign_numbers (nth demo_shapes 1) None = Inr (nth demo_messages 1, False)"
  "assign_numbers (nth demo_shapes 2) None = Inr (nth demo_messages 2, False)"
  by (simp_all add: assign_numbers_def Let_def demo_shapes_def demo_messages_def demo_shape_def number_all_def history_of_def
      name_order_def reserved_after_def occupied_numbers_def changed_numbers_def removed_fields_def reuse_number_def
      log_fields_def new_field_def next_number.simps platform_range_def max_number_def breaks_def less_eq_char_def upt_rec)

lemma demo_numbering_execution:
  "assign_numbers (nth demo_shapes 3) None = Inr (nth demo_messages 3, False)"
proof -
  let ?fs = execution_fields
  have o: "name_order ?fs = [3, 5, 7, 6, 8, 0, 2, 1, 4]"
    by (simp add: name_order_def execution_fields_def new_field_def less_eq_char_def upt_rec)
  have "reuse_number [] f = f" for f by (simp add: reuse_number_def)
  then have k: "map (reuse_number []) ?fs = ?fs" by (simp add: map_idI)
  have z: "fs_number f = 0" if "f \<in> set ?fs" for f using that by (auto simp: execution_fields_def new_field_def)
  have c: "changed_numbers [] ?fs = []" "removed_fields [] ?fs = []" by (simp_all add: changed_numbers_def removed_fields_def)
  have oc: "occupied_numbers (history_of None) ?fs = []"
    using z c by (simp add: occupied_numbers_def reserved_after_def history_of_def reuse_number_def filter_empty_conv)
  have "number_fields ''PyscriptsExecution'' [3, 5, 7, 6, 8, 0, 2, 1, 4] (Suc 0) [] ?fs = Inr (number_all [6, 8, 7, 1, 9, 2, 4, 3, 5] ?fs)"
    by (simp add: execution_fields_def number_all_def new_field_def next_number.simps platform_range_def max_number_def Let_def)
  then show ?thesis
    by (simp add: assign_numbers_def Let_def demo_shapes_def demo_messages_def demo_shape_def k c o oc breaks_def reserved_after_def)
      (simp add: history_of_def)
qed

lemma demo_assign_all: "assign_all [] demo_shapes = Inr (demo_messages, False)"
proof -
  have s: "demo_shapes = [demo_shapes ! 0, demo_shapes ! 1, demo_shapes ! 2, demo_shapes ! 3]" by (simp add: demo_shapes_def)
  have m: "demo_messages = [demo_messages ! 0, demo_messages ! 1, demo_messages ! 2, demo_messages ! 3]" by (simp add: demo_messages_def)
  show ?thesis
    by (subst s, subst m) (simp only: assign_all.simps map_of.simps demo_numbering demo_numbering_execution bindE_simps prod.case simp_thms)
qed

definition demo_versions :: "string \<Rightarrow> (nat \<times> nat) option" where
  "demo_versions s = (if s = ''0'' then Some (0, 0) else if s = ''1.0.0'' then Some (1, 0) else None)"

definition describe :: "message_shape \<Rightarrow> message_descriptor" where
  "describe m = \<lparr>md_name = ms_name m, md_fields = map (\<lambda>f.
     \<lparr>fd_name = fs_name f, fd_number = fs_number f,
      fd_type = (case find (\<lambda>(n, t). t = fs_type f) proto_type_names of Some (n, _) \<Rightarrow> n | None \<Rightarrow> 11),
      fd_type_name = fs_type f, fd_repeated = fs_repeated f\<rparr>) (ms_fields m), md_ranges = [], md_reserved_names = []\<rparr>"

definition demo_descriptor :: "unit \<Rightarrow> file_descriptor list option" where
  "demo_descriptor _ = Some [\<lparr>fl_package = ''pyscripts.generated.adder_s00.v1'', fl_messages = map describe demo_messages,
     fl_services = [(''AdderService'', [''Add''])]\<rparr>]"

definition demo_grpc :: grpc_spec where
  "demo_grpc = \<lparr>gs_service = ''pyscripts.generated.adder_s00.v1.AdderService'', gs_method = ''Add'',
     gs_descriptor = ''.pyscripts/generated/descriptor.pb'', gs_generated = True, gs_wrapped = True\<rparr>"

definition demo_contract :: generated_contract where
  "demo_contract = build_contract ''adder_s00'' ''AdderService'' [demo_rpc] demo_messages (1, 0) False [demo_add\<lparr>es_grpc := Some demo_grpc\<rparr>]"

lemma demo_texts:
  "service_of ''adder'' = Inr ''AdderService''" "package_segment ''adder'' ''00'' = ''adder_s00''" "dec (Suc 0) = ''1''" "dec 0 = ''0''"
  "validate_grpc demo_grpc = Some demo_grpc"
  by code_simp+

lemma demo_package: "package_of ''adder_s00'' (Suc 0) = ''pyscripts.generated.adder_s00.v1''"
  by (simp add: package_of_def demo_texts)

lemma demo_with_grpc:
  "with_grpc (package_of ''adder_s00'' (Suc 0)) ''AdderService'' [demo_rpc] demo_add = Inr (demo_add\<lparr>es_grpc := Some demo_grpc\<rparr>)"
proof -
  have "struct_response demo_add = False" by (simp add: struct_response_def demo_add_def demo_endpoint_of_def dfind_def dget_def)
  then show ?thesis
    using demo_texts(5) by (simp add: with_grpc_def demo_package demo_rpc_def demo_grpc_def)
qed

lemma demo_generated: "generate_contract demo_descriptor demo_versions ''adder'' ''00'' [demo_add] None None = Inr (Some demo_contract)"
proof -
  have "grpc_endpoints [demo_add] = [demo_add]" "es_grpc demo_add = None"
    by (simp_all add: grpc_endpoints_def demo_add_def demo_endpoint_of_def)
  then show ?thesis
    by (simp add: generate_contract_def demo_texts demo_gen demo_assign_all read_previous_def version_text_def demo_versions_def Let_def
        contract_breaks_def response_lost_execution_def next_version_def demo_with_grpc demo_contract_def)
qed

theorem contract_version_compatible_witness: "gt_version demo_contract = ''1.0.0'' \<and> gt_package demo_contract = package_of ''adder_s00'' 1"
proof -
  have "read_previous demo_descriptor None = Inr \<lparr>pc_messages = [], pc_methods = [], pc_services = []\<rparr>" by (simp add: read_previous_def)
  moreover have "demo_versions (version_text None) = Some (0, 0)" by (simp add: demo_versions_def version_text_def)
  ultimately show ?thesis
    using contract_version_compatible [OF demo_generated, of "\<lparr>pc_messages = [], pc_methods = [], pc_services = []\<rparr>" 0 0]
    by (auto simp: demo_texts)
qed

theorem assign_numbers_compatible_witness:
  "\<exists>m'. assign_numbers (demo_message [new_field ''x'' ''string'', new_field ''y'' ''int64'']) (Some demo_history) = Inr (m', True) \<and>
     history_ok (published_message m') \<and> ms_reserved m' = [4]"
proof -
  have "history_ok (history_of (Some demo_history))" by (simp add: history_ok_def demo_history_def max_number_def platform_range_def)
  moreover have "fresh_message (demo_message [new_field ''x'' ''string'', new_field ''y'' ''int64''])"
    by (simp add: fresh_message_def demo_message_def new_field_def)
  ultimately show ?thesis using assign_numbers_compatible [OF demo_assign] demo_assign by auto
qed

lemma demo_versions_chain:
  "\<exists>p q. message_versions [p, q] \<and> map_of (pm_fields q) ''x'' = Some \<lparr>pv_number = 1, pv_signature = (''int64'', False)\<rparr> \<and>
     map_of (pm_fields p) ''x'' = Some \<lparr>pv_number = 3, pv_signature = (''string'', False)\<rparr>"
proof -
  let ?a = "demo_message [new_field ''x'' ''int64'', new_field ''y'' ''int64'']"
  let ?b = "demo_message [new_field ''x'' ''string'', new_field ''y'' ''int64'']"
  let ?a' = "demo_message (number_all [1, 2] (ms_fields ?a))"
  let ?b' = "(demo_message (number_all [3, 2] (ms_fields ?b)))\<lparr>ms_reserved := [1]\<rparr>"
  note defs = assign_numbers_def Let_def demo_message_def number_all_def history_of_def demo_order reserved_after_def
    occupied_numbers_def changed_numbers_def removed_fields_def reuse_number_def signature_def new_field_def next_number.simps
    platform_range_def max_number_def breaks_def less_eq_char_def published_message_def
  have 1: "assign_numbers ?a None = Inr (?a', False)" by (simp add: defs)
  have 2: "assign_numbers ?b (Some (published_message ?a')) = Inr (?b', True)" by (simp add: defs)
  have "fresh_message ?a" "fresh_message ?b" by (simp_all add: fresh_message_def demo_message_def new_field_def)
  then have "message_versions [published_message ?b', published_message ?a']"
    using message_versions.First [OF _ 1] message_versions.Next [OF _ _ 2] by blast
  then show ?thesis
    by (intro exI [of _ "published_message ?b'"] exI [of _ "published_message ?a'"])
      (simp add: published_message_def demo_message_def number_all_def new_field_def signature_def)
qed

theorem field_numbers_never_reused_witness:
  "\<exists>p q. message_versions [p, q] \<and> map_of (pm_fields q) ''x'' = Some \<lparr>pv_number = 1, pv_signature = (''int64'', False)\<rparr> \<and>
     1 \<in> set (pm_reserved p)"
proof -
  obtain p q where c: "message_versions [p, q]" and q: "map_of (pm_fields q) ''x'' = Some \<lparr>pv_number = 1, pv_signature = (''int64'', False)\<rparr>"
    and p: "map_of (pm_fields p) ''x'' = Some \<lparr>pv_number = 3, pv_signature = (''string'', False)\<rparr>"
    using demo_versions_chain by blast
  have "1 \<in> set (pm_reserved p)" using field_numbers_never_reused [OF c _ q] p by simp
  then show ?thesis using c q by blast
qed

lemma demo_published: "read_previous demo_descriptor (Some ()) = Inr (published_contract demo_contract [demo_rpc] demo_messages)"
  by (simp add: read_previous_def demo_descriptor_def demo_messages_def demo_shape_def number_all_def describe_def read_message_def
      log_fields_def execution_fields_def new_field_def previous_type_name_def proto_type_names_def published_contract_def
      published_message_def demo_contract_def build_contract_def demo_package signature_def demo_rpc_def Let_def)

theorem republishing_is_stable_witness:
  "\<exists>g'. generate_contract demo_descriptor demo_versions ''adder'' ''00'' [demo_add] (Some ()) (Some ''1.0.0'') = Inr (Some g') \<and>
     \<not> gt_breaking g' \<and> gt_source g' = gt_source demo_contract"
proof -
  have r: "read_previous demo_descriptor None = Inr \<lparr>pc_messages = [], pc_methods = [], pc_services = []\<rparr>" by (simp add: read_previous_def)
  have w: "wire_ready [demo_rpc] demo_shapes"
    by (simp add: wire_ready_def fresh_message_def demo_shapes_def demo_shape_def log_fields_def execution_fields_def new_field_def demo_rpc_def)
  have v: "gt_version demo_contract = ''1.0.0''" "gt_breaking demo_contract = False"
    by (simp_all add: demo_contract_def build_contract_def Let_def demo_texts)
  have n: "demo_versions (gt_version demo_contract) = Some (next_version (0, 0) (gt_breaking demo_contract))"
    "demo_versions (version_text None) = Some (0, 0)"
    by (simp_all add: v demo_versions_def next_version_def version_text_def)
  show ?thesis
    using republishing_is_stable [OF demo_generated r _ demo_gen w _ demo_published n] demo_assign_all v by auto
qed

section \<open>A response without fields\<close>

definition demo_ping :: endpoint_spec where
  \<comment> \<open>an endpoint that returns an empty struct\<close>
  "demo_ping = demo_endpoint_of ''ping'' [] [(''type'', JStr ''Struct''), (''properties'', JObj []), (''additionalProperties'', JBool False)]"

lemma empty_response_bound:
  assumes "struct_response e" and "dict_of (dget (es_response e) ''properties'' (JObj [])) = Inr []"
    and "response_message e name bound g = Inr (bound', g')"
  shows "bound' = bound"
  using assms by (auto simp: response_message_def bindE_eq_Inr split: if_splits)

lemma demo_ping_gen:
  "gen_endpoints [demo_add, demo_ping] = Inr ([demo_rpc, \<lparr>rp_method = ''Ping'', rp_request = ''PingRequest'', rp_response = ''PingResponse'', rp_endpoint = demo_ping\<rparr>],
     [demo_shape ''AddRequest'' ''request'' ''endpoint:add:request'' [new_field ''x'' ''int64''],
      demo_shape ''AddResponse'' ''response'' ''endpoint:add:response'' [new_field ''result'' ''int64'',
        new_field ''execution'' ''PyscriptsExecution'', new_field ''execution'' ''PyscriptsExecution''],
      demo_shape ''PyscriptsExecutionLog'' ''response'' ''platform:execution_log'' log_fields,
      demo_shape ''PyscriptsExecution'' ''response'' ''platform:execution'' execution_fields,
      demo_shape ''PingRequest'' ''request'' ''endpoint:ping:request'' [], demo_shape ''PingResponse'' ''response'' ''endpoint:ping:response'' []])"
proof -
  have "pascal ''ping'' = Inr ''Ping''" by code_simp
  then show ?thesis
    by (simp add: gen_endpoints_def grpc_endpoints_def demo_add_def demo_ping_def demo_endpoint_of_def gen_endpoint_def pascal_add Let_def
      gen_message_def response_message_def struct_response_def dfind_def dget_def field_from_schema.simps demo_names scalar_types_def
      add_fields_def fields_of_def ensure_execution_metadata_def ensure_message_def demo_rpc_def demo_shape_def
      require_closed_struct_def dict_of_def log_fields_def execution_fields_def new_field_def del: proto_identifier.simps)
qed



end
