(* ===== verification/Builder.thy ===== *)
theory Builder
  imports Interface Generator
begin

text \<open>
  The contract publisher (\<open>contracts/builder.py\<close>): it compiles the Protobuf sources of an artifact and keeps the
  descriptor and the sources below its root, and it puts a generated contract into a copy of the artifact. A file
  system is a dictionary of absolute paths; \<open>protoc\<close>, the reader and writer of descriptors, ZIP and SHA-256 are
  parameters. No directory has a name that ends in \<open>.proto\<close>; replacing a file is atomic, so temporary files are left
  out. Strings are the UTF-8 bytes of their text.
\<close>

datatype build_error =
    NotGenerated proto_error
  | ArtifactMissing
  | ArtifactUri
  | ArtifactDigest
  | UnsafeArchive load_error
  | ReservedPath
  | NoProtoRoot
  | NoProtoFiles
  | ProtocFailed
  | BadDescriptorSet
  | EmptyDescriptorSet
  | NoDescriptor
  | DescriptorMismatch
  | NotLocal
  | OutsideRoot
  | ContractMissingFile
  | TooLarge
  | ContractUri
  | Crash \<comment> \<open>an exception that is no \<open>ContractBuildError\<close>\<close>

section \<open>Source trees\<close>

record tree =
  tr_files :: "(path, bytes) dict" \<comment> \<open>by the path below the root of the tree\<close>
  tr_dirs :: "path list"

definition inside_of :: "path \<Rightarrow> path \<Rightarrow> bool" where
  "inside_of p q = (is_prefix p q \<and> p \<noteq> q)"

definition is_dir :: "tree \<Rightarrow> path \<Rightarrow> bool" where
  "is_dir t p = (p = [] \<or> (\<exists>q \<in> set (tr_dirs t). is_prefix p q) \<or> (\<exists>q \<in> fst ` set (tr_files t). inside_of p q))"

definition add_file :: "path \<Rightarrow> bytes \<Rightarrow> tree \<Rightarrow> build_error + tree" where
  "add_file p b t =
     (if is_dir t p \<or> (\<exists>q \<in> fst ` set (tr_files t). inside_of q p) then Inl Crash
      else Inr (t\<lparr>tr_files := AList.update p b (tr_files t)\<rparr>))"

definition add_dir :: "path \<Rightarrow> tree \<Rightarrow> build_error + tree" where
  "add_dir p t =
     (if \<exists>q \<in> fst ` set (tr_files t). is_prefix q p then Inl Crash else Inr (t\<lparr>tr_dirs := tr_dirs t @ [p]\<rparr>))"

definition extract_entry :: "zip_entry \<Rightarrow> tree \<Rightarrow> build_error + tree" where
  "extract_entry x t =
     (let name = zm_name (ze_member x); p = extracted_path [] name in
      if ends_with ''/'' name then add_dir p t
      else bindE (of_opt Crash (ze_data x)) (\<lambda>b. add_file p b t))"

definition below :: "string \<Rightarrow> path option" where
  \<comment> \<open>a name resolved in the source root, if it stays there\<close>
  "below name =
     (let q = resolve_member [''source''] name in if is_prefix [''source''] q then Some (drop 1 q) else None)"

record toolchain =
  tc_http :: "string \<Rightarrow> bytes option"
  tc_path :: "string \<Rightarrow> path"
  tc_uri :: "path \<Rightarrow> string"
  tc_sha :: "bytes \<Rightarrow> string"
  tc_unzip :: "bytes \<Rightarrow> zip_entry list option"
  tc_zip :: "(string \<times> bytes) list \<Rightarrow> bytes" \<comment> \<open>of regular files, dated 1980\<close>
  tc_protoc :: "(path \<Rightarrow> bytes option) \<Rightarrow> path list \<Rightarrow> bytes option" \<comment> \<open>on the files below the proto root\<close>
  tc_parse :: "bytes \<Rightarrow> (string \<times> bytes \<times> bytes) list option"
    \<comment> \<open>a \<open>FileDescriptorSet\<close>: names, rest and \<open>source_code_info\<close>\<close>
  tc_serialize :: "(string \<times> bytes \<times> bytes) list \<Rightarrow> bytes"
  tc_history :: "bytes \<Rightarrow> file_descriptor list option"
  tc_numbers :: "string \<Rightarrow> (nat \<times> nat) option"

definition unpack :: "toolchain \<Rightarrow> bytes \<Rightarrow> build_error + tree" where
  \<comment> \<open>\<open>_extract_archive\<close>\<close>
  "unpack tc content =
     bindE (of_opt Crash (tc_unzip tc content)) (\<lambda>entries.
       case mapE (validate_zip_member [''source'']) (map ze_member entries) of
         Inl e \<Rightarrow> Inl (UnsafeArchive e)
       | Inr _ \<Rightarrow> foldE extract_entry entries \<lparr>tr_files = [], tr_dirs = []\<rparr>)"

definition obtain_artifact :: "toolchain \<Rightarrow> string \<Rightarrow> string \<Rightarrow> files \<Rightarrow> build_error + bytes" where
  "obtain_artifact tc uri expected fs =
     (let scheme = pu_scheme (urlparse uri) in
      bindE (if scheme \<in> {[], ''file''} then of_opt ArtifactMissing (map_of fs (tc_path tc uri))
             else if scheme \<in> {''http'', ''https''} then of_opt Crash (tc_http tc uri)
             else Inl ArtifactUri) (\<lambda>b.
        if tc_sha tc b \<noteq> normal_digest expected then Inl ArtifactDigest else Inr b))"

section \<open>Descriptors and digests\<close>

definition canonical_files :: "(string \<times> bytes \<times> bytes) list \<Rightarrow> (string \<times> bytes \<times> bytes) list" where
  "canonical_files files = map (\<lambda>(name, body, _). (name, body, [])) (sort_key fst files)"

definition canonical_descriptor :: "toolchain \<Rightarrow> bytes \<Rightarrow> build_error + bytes" where
  "canonical_descriptor tc payload =
     bindE (of_opt BadDescriptorSet (tc_parse tc payload)) (\<lambda>files.
       if files = [] then Inl EmptyDescriptorSet else Inr (tc_serialize tc (canonical_files files)))"

fun big_endian :: "nat \<Rightarrow> nat \<Rightarrow> bytes" where
  "big_endian 0 n = []"
| "big_endian (Suc k) n = big_endian k (n div 256) @ [n mod 256]"

definition to_bytes :: "nat \<Rightarrow> nat \<Rightarrow> build_error + bytes" where
  \<comment> \<open>\<open>n.to_bytes(k, "big")\<close>, an \<open>OverflowError\<close> when it does not fit\<close>
  "to_bytes k n = (if n < 256 ^ k then Inr (big_endian k n) else Inl Crash)"

definition encode :: "string \<Rightarrow> bytes" where
  "encode s = map of_char s"

definition posix :: "path \<Rightarrow> string" where
  "posix p = join ''/'' p"

definition encode_source :: "path \<times> bytes \<Rightarrow> build_error + bytes" where
  "encode_source = (\<lambda>(p, content).
     bindE (to_bytes 4 (length (encode (posix p)))) (\<lambda>l.
     bindE (to_bytes 8 (length content)) (\<lambda>c. Inr (l @ encode (posix p) @ c @ content))))"

definition encode_sources :: "(path \<times> bytes) list \<Rightarrow> build_error + bytes" where
  "encode_sources sources = bindE (mapE encode_source sources) (\<lambda>bs. Inr (concat bs))"

definition sha256 :: "toolchain \<Rightarrow> bytes \<Rightarrow> string" where
  "sha256 tc b = ''sha256:'' @ tc_sha tc b"

definition source_digest :: "toolchain \<Rightarrow> (path \<times> bytes) list \<Rightarrow> build_error + string" where
  "source_digest tc sources = bindE (encode_sources sources) (\<lambda>b. Inr (sha256 tc b))"

definition safe_token :: "toolchain \<Rightarrow> string \<Rightarrow> string" where
  "safe_token tc value = take 20 (tc_sha tc (encode value))"

section \<open>Publishing a contract\<close>

definition subtree :: "tree \<Rightarrow> path \<Rightarrow> path \<Rightarrow> bytes option" where
  "subtree t base p = map_of (tr_files t) (base @ p)"

definition proto_files :: "tree \<Rightarrow> path \<Rightarrow> path list" where
  \<comment> \<open>below the proto base, in the order of \<open>Path\<close>\<close>
  "proto_files t base =
     sort (map (drop (length base)) (filter (\<lambda>p. inside_of base p \<and> ends_with ''.proto'' (last p)) (map fst (tr_files t))))"

record compiled =
  cp_descriptor :: bytes
  cp_sources :: "(path \<times> bytes) list"
  cp_source_digest :: string
  cp_methods :: "string list"
  cp_version :: string

definition compile_contract :: "toolchain \<Rightarrow> revision_request \<Rightarrow> grpc_contract_spec \<Rightarrow> grpc_spec list \<Rightarrow> files \<Rightarrow> build_error + compiled" where
  \<comment> \<open>what \<open>publish\<close> does in its temporary directory, for the endpoints with a gRPC method\<close>
  "compile_contract tc q contract specs fs =
     bindE (obtain_artifact tc (rr_uri q) (rr_digest q) fs) (\<lambda>content.
     bindE (unpack tc content) (\<lambda>t.
     bindE (case below (gc_root contract) of Some p \<Rightarrow> if is_dir t p then Inr p else Inl NoProtoRoot | None \<Rightarrow> Inl NoProtoRoot) (\<lambda>base.
       let protos = proto_files t base in
       if protos = [] then Inl NoProtoFiles
       else
     bindE (of_opt ProtocFailed (tc_protoc tc (subtree t base) protos)) (\<lambda>raw.
     bindE (canonical_descriptor tc raw) (\<lambda>canonical.
     bindE (of_opt NoDescriptor (Option.bind (below (gs_descriptor (hd specs))) (map_of (tr_files t)))) (\<lambda>supplied.
     bindE (canonical_descriptor tc supplied) (\<lambda>supplied_canonical.
       if supplied_canonical \<noteq> canonical then Inl DescriptorMismatch
       else
         let sources = map (\<lambda>p. (p, the (subtree t base p))) protos in
         bindE (source_digest tc sources) (\<lambda>d.
           Inr \<lparr>cp_descriptor = canonical, cp_sources = sources, cp_source_digest = d,
                cp_methods = sort (map method_path specs), cp_version = gc_version contract\<rparr>))))))))"

definition keep_file :: "path \<Rightarrow> bytes \<Rightarrow> files \<Rightarrow> files" where
  \<comment> \<open>written unless it exists\<close>
  "keep_file p b fs = (if map_of fs p = None then AList.update p b fs else fs)"

definition contract_file :: "toolchain \<Rightarrow> path \<Rightarrow> string \<Rightarrow> string \<Rightarrow> string \<Rightarrow> path" where
  "contract_file tc base name digest file = base @ [safe_token tc name, digest, file]"

definition bundle_of :: "toolchain \<Rightarrow> (path \<times> bytes) list \<Rightarrow> bytes" where
  \<comment> \<open>\<open>_build_proto_bundle\<close>\<close>
  "bundle_of tc sources = tc_zip tc (sort_key fst (map (\<lambda>(p, b). (posix p, b)) sources))"

definition publish_contract ::
  "toolchain \<Rightarrow> path \<Rightarrow> string \<Rightarrow> revision_request \<Rightarrow> files \<Rightarrow> (build_error + published_contract option) \<times> files" where
  \<comment> \<open>\<open>ProtoContractPublisher.publish\<close> with its root\<close>
  "publish_contract tc base name q fs =
     (let specs = List.map_filter es_grpc (if_endpoints (rr_interface q)) in
      case if_contract (rr_interface q) of
        None \<Rightarrow> (Inr None, fs)
      | Some contract \<Rightarrow>
          if specs = [] then (Inr None, fs)
          else case compile_contract tc q contract specs fs of
            Inl e \<Rightarrow> (Inl e, fs)
          | Inr c \<Rightarrow>
              let digest = tc_sha tc (cp_descriptor c);
                  dt = contract_file tc base name digest ''descriptor.pb'';
                  pt = contract_file tc base name digest ''proto.zip'';
                  fs' = keep_file pt (bundle_of tc (cp_sources c)) (keep_file dt (cp_descriptor c) fs)
              in (Inr (Some \<lparr>pub_schema = sha256 tc (cp_descriptor c), pub_source = cp_source_digest c, pub_version = cp_version c,
                     pub_descriptor = tc_uri tc dt, pub_bundle = tc_uri tc pt,
                     pub_bundle_digest = map_option (sha256 tc) (map_of fs' pt), pub_methods = cp_methods c\<rparr>), fs'))"

section \<open>A generated contract\<close>

fun is_generation_error :: "proto_error \<Rightarrow> bool" where
  \<comment> \<open>a \<open>ProtoGenerationError\<close>, not another exception of the generator\<close>
  "is_generation_error UnboundResponse = False"
| "is_generation_error BadSchema = False"
| "is_generation_error BadVersion = False"
| "is_generation_error BadGrpcSpec = False"
| "is_generation_error _ = True"

definition generated_contract_spec :: "generated_contract \<Rightarrow> grpc_contract_spec" where
  "generated_contract_spec g = \<lparr>gc_version = gt_version g, gc_root = generated_proto_root, gc_package = None\<rparr>"

record prepared =
  pa_uri :: string
  pa_digest :: string
  pa_endpoints :: "endpoint_spec list"
  pa_contract :: grpc_contract_spec

definition generated_dir :: path where
  "generated_dir = [''.pyscripts'', ''generated'']"

definition generated_path :: "generated_contract \<Rightarrow> path" where
  "generated_path g = extracted_path [] (gt_path g)"

definition augment :: "toolchain \<Rightarrow> generated_contract \<Rightarrow> tree \<Rightarrow> build_error + bytes \<times> tree" where
  \<comment> \<open>the generated sources and their descriptor in the source tree, with that descriptor\<close>
  "augment tc g t =
     (if is_dir t generated_dir \<or> map_of (tr_files t) generated_dir \<noteq> None then Inl ReservedPath
      else
     bindE (add_file (generated_path g) (encode (gt_source g)) t) (\<lambda>t1.
       let base = extracted_path [] generated_proto_root in
     bindE (of_opt ProtocFailed (tc_protoc tc (subtree t1 base) [drop (length base) (generated_path g)])) (\<lambda>raw.
     bindE (canonical_descriptor tc raw) (\<lambda>canonical.
     bindE (add_file (generated_dir @ [''descriptor.pb'']) canonical t1) (\<lambda>t2. Inr (canonical, t2))))))"

definition augmented_artifact :: "toolchain \<Rightarrow> tree \<Rightarrow> bytes" where
  \<comment> \<open>\<open>_build_augmented_artifact\<close>\<close>
  "augmented_artifact tc t = tc_zip tc (map (\<lambda>(p, b). (posix p, b)) (sort_key fst (tr_files t)))"

definition contract_version ::
  "toolchain \<Rightarrow> bytes option \<Rightarrow> string option \<Rightarrow> bytes \<Rightarrow> grpc_contract_spec \<Rightarrow> build_error + grpc_contract_spec" where
  \<comment> \<open>an unchanged descriptor keeps its version\<close>
  "contract_version tc previous previous_version canonical contract =
     (case previous of
        None \<Rightarrow> Inr contract
      | Some b \<Rightarrow>
          bindE (canonical_descriptor tc b) (\<lambda>old.
            case previous_version of
              Some v \<Rightarrow> if old = canonical \<and> v \<noteq> [] then Inr (contract\<lparr>gc_version := v\<rparr>) else Inr contract
            | None \<Rightarrow> Inr contract))"

definition artifact_file :: "path \<Rightarrow> string \<Rightarrow> path" where
  "artifact_file base digest = base @ [''generated-artifacts'', ''sha256:'' @ digest @ ''.zip'']"

definition prepare_generated_artifact ::
  "toolchain \<Rightarrow> path \<Rightarrow> string \<Rightarrow> string \<Rightarrow> revision_request \<Rightarrow> bytes option \<Rightarrow> string option \<Rightarrow> files
   \<Rightarrow> (build_error + prepared option) \<times> files" where
  "prepare_generated_artifact tc base name hex q previous previous_version fs =
     (case generate_contract (tc_history tc) (tc_numbers tc) name hex (if_endpoints (rr_interface q)) previous previous_version of
        Inl e \<Rightarrow> (Inl (if is_generation_error e then NotGenerated e else Crash), fs)
      | Inr None \<Rightarrow> (Inr None, fs)
      | Inr (Some g) \<Rightarrow>
          (case bindE (obtain_artifact tc (rr_uri q) (rr_digest q) fs) (\<lambda>content.
                bindE (unpack tc content) (\<lambda>t.
                bindE (augment tc g t) (\<lambda>(canonical, t').
                bindE (contract_version tc previous previous_version canonical (generated_contract_spec g)) (\<lambda>contract.
                  Inr (augmented_artifact tc t', contract))))) of
             Inl e \<Rightarrow> (Inl e, fs)
           | Inr (augmented, contract) \<Rightarrow>
               let target = artifact_file base (tc_sha tc augmented)
               in (Inr (Some \<lparr>pa_uri = tc_uri tc target, pa_digest = tc_sha tc augmented, pa_endpoints = gt_endpoints g,
                              pa_contract = contract\<rparr>), keep_file target augmented fs)))"

section \<open>Reading contracts\<close>

definition resolve_local_uri :: "toolchain \<Rightarrow> path \<Rightarrow> string \<Rightarrow> files \<Rightarrow> build_error + path" where
  \<comment> \<open>the path is resolved\<close>
  "resolve_local_uri tc base uri fs =
     (if pu_scheme (urlparse uri) \<noteq> ''file'' then Inl NotLocal
      else let p = norm_path [] (tc_path tc uri) in
           if \<not> is_prefix base p \<or> map_of fs p = None then Inl OutsideRoot else Inr p)"

definition max_contract_bytes :: nat where
  "max_contract_bytes = 64 * 1024 * 1024"

definition read_contract_bytes :: "toolchain \<Rightarrow> string \<Rightarrow> files \<Rightarrow> build_error + bytes" where
  \<comment> \<open>\<open>read_bytes\<close>\<close>
  "read_contract_bytes tc uri fs =
     (let scheme = pu_scheme (urlparse uri) in
      bindE (if scheme \<in> {[], ''file''} then of_opt ContractMissingFile (map_of fs (tc_path tc uri))
             else if scheme \<in> {''http'', ''https''} then of_opt Crash (tc_http tc uri)
             else Inl ContractUri) (\<lambda>b.
        if max_contract_bytes < length b then Inl TooLarge else Inr b))"

section \<open>The encoding of the sources\<close>

lemma length_big_endian [simp]: "length (big_endian k n) = k"
  by (induction k arbitrary: n) simp_all

lemma big_endian_inj: "big_endian k n = big_endian k m \<Longrightarrow> n < 256 ^ k \<Longrightarrow> m < 256 ^ k \<Longrightarrow> n = m"
proof (induction k arbitrary: n m)
  case (Suc k)
  then have d: "n div 256 = m div 256"
    using Suc.IH [of "n div 256" "m div 256"] by (simp add: less_mult_imp_div_less mult.commute)
  moreover have "n mod 256 = m mod 256" using Suc.prems(1) by simp
  ultimately show ?case by (metis div_mult_mod_eq)
qed simp

lemma to_bytes_eq: "to_bytes k n = Inr b \<longleftrightarrow> n < 256 ^ k \<and> b = big_endian k n"
  by (auto simp: to_bytes_def)

lemma encode_inj [simp]: "encode s = encode t \<longleftrightarrow> s = t"
  by (simp add: encode_def inj_map_eq_map inj_on_def)

lemma encode_source_eq:
  "encode_source (p, c) = Inr b \<longleftrightarrow> length (encode (posix p)) < 256 ^ 4 \<and> length c < 256 ^ 8 \<and>
     b = big_endian 4 (length (encode (posix p))) @ encode (posix p) @ big_endian 8 (length c) @ c"
  by (auto simp: encode_source_def bindE_eq_Inr to_bytes_eq)

lemma encode_source_inj:
  assumes "encode_source (p, c) = Inr a" and "encode_source (q, d) = Inr b" and "a @ x = b @ y"
  shows "posix p = posix q \<and> c = d \<and> x = y"
proof -
  let ?n = "length (encode (posix p))" and ?m = "length (encode (posix q))"
  have e: "big_endian 4 ?n @ encode (posix p) @ big_endian 8 (length c) @ c @ x =
      big_endian 4 ?m @ encode (posix q) @ big_endian 8 (length d) @ d @ y"
    and l: "?n < 256 ^ 4" "?m < 256 ^ 4" "length c < 256 ^ 8" "length d < 256 ^ 8"
    using assms unfolding encode_source_eq by simp_all
  have "big_endian 4 ?n = big_endian 4 ?m" and e1: "encode (posix p) @ big_endian 8 (length c) @ c @ x =
      encode (posix q) @ big_endian 8 (length d) @ d @ y"
    using e append_eq_append_conv [of "big_endian 4 ?n" "big_endian 4 ?m"] by simp_all
  then have n: "?n = ?m" using big_endian_inj l(1,2) by blast
  then have p: "encode (posix p) = encode (posix q)" and e2: "big_endian 8 (length c) @ c @ x = big_endian 8 (length d) @ d @ y"
    using e1 append_eq_append_conv [of "encode (posix p)" "encode (posix q)"] by simp_all
  have "big_endian 8 (length c) = big_endian 8 (length d)" and e3: "c @ x = d @ y"
    using e2 append_eq_append_conv [of "big_endian 8 (length c)" "big_endian 8 (length d)"] by simp_all
  then have "length c = length d" using big_endian_inj l(3,4) by blast
  then show ?thesis using p e3 append_eq_append_conv [of c d] by simp
qed

lemma encode_source_nonempty: "encode_source x = Inr b \<Longrightarrow> b \<noteq> []"
proof -
  assume "encode_source x = Inr b"
  then have "length b \<ge> 4" by (cases x) (auto simp: encode_source_eq)
  then show "b \<noteq> []" by auto
qed

lemma mapE_Cons_eq: "mapE f (x # xs) = Inr ys \<longleftrightarrow> (\<exists>y zs. ys = y # zs \<and> f x = Inr y \<and> mapE f xs = Inr zs)"
  by (auto simp: bindE_eq_Inr)

lemma encoded_sources_inj:
  "mapE encode_source xs = Inr as \<Longrightarrow> mapE encode_source ys = Inr bs \<Longrightarrow> concat as = concat bs \<Longrightarrow>
     map (\<lambda>(p, c). (posix p, c)) xs = map (\<lambda>(p, c). (posix p, c)) ys"
proof (induction xs arbitrary: as ys bs)
  case Nil
  then have "as = []" by simp
  show ?case
  proof (cases ys)
    case (Cons y ys')
    then obtain b bs' where "bs = b # bs'" "encode_source y = Inr b" using Nil.prems(2) mapE_Cons_eq by metis
    then show ?thesis using Nil.prems(3) encode_source_nonempty \<open>as = []\<close> by simp
  qed simp
next
  case (Cons x xs)
  obtain a as' where a: "as = a # as'" "encode_source x = Inr a" "mapE encode_source xs = Inr as'"
    using Cons.prems(1) mapE_Cons_eq by metis
  show ?case
  proof (cases ys)
    case Nil
    then show ?thesis using Cons.prems(2,3) a encode_source_nonempty by simp
  next
    case (Cons y ys')
    then obtain b bs' where b: "bs = b # bs'" "encode_source y = Inr b" "mapE encode_source ys' = Inr bs'"
      using Cons.prems(2) mapE_Cons_eq by metis
    obtain p c q d where x: "x = (p, c)" "y = (q, d)" by (metis surj_pair)
    have "a @ concat as' = b @ concat bs'" using Cons.prems(3) a(1) b(1) by simp
    then have "posix p = posix q \<and> c = d \<and> concat as' = concat bs'"
      using encode_source_inj a(2) b(2) unfolding x by blast
    then show ?thesis using Cons.IH [OF a(3) b(3)] x Cons by simp
  qed
qed

text \<open>C40. The source digest of a contract identifies its sources: two lists of files with one digest have the same names
  and contents in the same order, wherever a name ends and a content begins, or SHA-256 collides.\<close>

theorem source_digest_identifies:
  assumes "source_digest tc xs = Inr d" and "source_digest tc ys = Inr d"
  shows "map (\<lambda>(p, c). (posix p, c)) xs = map (\<lambda>(p, c). (posix p, c)) ys \<or> (\<exists>a b. a \<noteq> b \<and> tc_sha tc a = tc_sha tc b)"
proof -
  obtain as bs where a: "mapE encode_source xs = Inr as" "d = sha256 tc (concat as)"
    and b: "mapE encode_source ys = Inr bs" "d = sha256 tc (concat bs)"
    using assms by (auto simp: source_digest_def encode_sources_def bindE_eq_Inr)
  have "tc_sha tc (concat as) = tc_sha tc (concat bs)" using a(2) b(2) by (simp add: sha256_def)
  then show ?thesis using encoded_sources_inj [OF a(1) b(1)] by blast
qed

section \<open>Trees\<close>

definition good :: "string \<Rightarrow> bool" where
  "good c = (c \<noteq> [] \<and> c \<noteq> ''.'' \<and> c \<noteq> ''..'' \<and> CHR ''/'' \<notin> set c)"

definition tree_ok :: "tree \<Rightarrow> bool" where
  "tree_ok t = (distinct (map fst (tr_files t)) \<and> (\<forall>p \<in> fst ` set (tr_files t). p \<noteq> [] \<and> list_all good p) \<and>
     (\<forall>p \<in> fst ` set (tr_files t). \<forall>q \<in> fst ` set (tr_files t). is_prefix p q \<longrightarrow> p = q))"

lemma is_prefix_append: "is_prefix p q \<longleftrightarrow> (\<exists>r. q = p @ r)"
  by (auto simp: is_prefix_def) (metis append_take_drop_id)

lemma extracted_good: "list_all good (extracted_path [] name)"
  using split_on_no_sep [of _ "CHR ''/''" name] by (auto simp: extracted_path_def list_all_iff good_def)

lemma add_file_eq:
  "add_file p b t = Inr t' \<longleftrightarrow> \<not> is_dir t p \<and> (\<forall>q \<in> fst ` set (tr_files t). \<not> inside_of q p) \<and>
     t' = t\<lparr>tr_files := AList.update p b (tr_files t)\<rparr>"
  by (auto simp: add_file_def)

lemma add_file_ok:
  assumes "tree_ok t" and "list_all good p" and "add_file p b t = Inr t'"
  shows "tree_ok t' \<and> map_of (tr_files t') = (map_of (tr_files t))(p \<mapsto> b)"
proof -
  have n: "\<not> is_dir t p" "\<forall>q \<in> fst ` set (tr_files t). \<not> inside_of q p" and t': "t' = t\<lparr>tr_files := AList.update p b (tr_files t)\<rparr>"
    using assms(3) unfolding add_file_eq by blast+
  have k: "fst ` set (tr_files t') = insert p (fst ` set (tr_files t))"
    by (simp add: t' dom_map_of_conv_image_fst [symmetric] update_conv')
  have "p \<noteq> []" "\<forall>q \<in> fst ` set (tr_files t). \<not> inside_of p q" using n(1) by (auto simp: is_dir_def)
  then have "tree_ok t'"
    unfolding tree_ok_def k using assms(1,2) n(2) by (auto simp: tree_ok_def inside_of_def t' distinct_update)
  then show ?thesis by (simp add: t' update_conv')
qed

lemma unpack_ok:
  assumes "unpack tc content = Inr t"
  shows "tree_ok t"
proof -
  have e: "tree_ok t'" if x: "extract_entry x t = Inr t'" and ok: "tree_ok t" for x t t'
  proof (cases "ends_with ''/'' (zm_name (ze_member x))")
    case True
    then have "tr_files t' = tr_files t" using x by (auto simp: extract_entry_def Let_def add_dir_def split: if_splits)
    then show ?thesis using ok by (simp add: tree_ok_def)
  next
    case False
    then obtain b where "add_file (extracted_path [] (zm_name (ze_member x))) b t = Inr t'"
      using x by (auto simp: extract_entry_def Let_def bindE_eq_Inr)
    then show ?thesis using add_file_ok [OF ok extracted_good] by blast
  qed
  obtain entries where u: "(case mapE (validate_zip_member [''source'']) (map ze_member entries) of
       Inl e \<Rightarrow> Inl (UnsafeArchive e) | Inr _ \<Rightarrow> foldE extract_entry entries \<lparr>tr_files = [], tr_dirs = []\<rparr>) = Inr t"
    using assms by (auto simp: unpack_def bindE_eq_Inr)
  then have "foldE extract_entry entries \<lparr>tr_files = [], tr_dirs = []\<rparr> = Inr t"
    by (cases "mapE (validate_zip_member [''source'']) (map ze_member entries)") simp_all
  moreover have "tree_ok \<lparr>tr_files = [], tr_dirs = []\<rparr>" by (simp add: tree_ok_def)
  ultimately show ?thesis using foldE_invariant [where P = tree_ok] e by metis
qed

lemma split_posix: "p \<noteq> [] \<Longrightarrow> list_all good p \<Longrightarrow> split_on (CHR ''/'') (posix p) = p"
proof (induction p)
  case (Cons c p)
  have "CHR ''/'' \<notin> set c" using Cons.prems(2) by (simp add: good_def)
  then have c: "split_on (CHR ''/'') c = [c]" by (induction c) auto
  show ?case
  proof (cases p)
    case Nil
    then show ?thesis using c by (simp add: posix_def join_def)
  next
    case (Cons d q)
    then have "posix (c # p) = c @ CHR ''/'' # posix p" by (simp add: posix_def join_def)
    then show ?thesis using Cons.IH Cons.prems(2) c Cons by (simp add: split_on_append)
  qed
qed simp

lemma extracted_posix: "p \<noteq> [] \<Longrightarrow> list_all good p \<Longrightarrow> extracted_path [] (posix p) = p"
  by (simp add: extracted_path_def split_posix) (auto simp: filter_id_conv list_all_iff good_def)

lemma posix_plain:
  assumes "p \<noteq> []" and "list_all good p"
  shows "\<not> ends_with ''/'' (posix p)" and "\<not> starts_with ''/'' (posix p)"
proof -
  have l: "posix (q @ [c]) = (if q = [] then c else posix q @ CHR ''/'' # c)" for q c
    by (cases q) (simp_all add: posix_def join_def)
  obtain q c where p: "p = q @ [c]" using assms(1) by (metis rev_exhaust)
  then have "good c" using assms(2) by simp
  then obtain d x where c: "c = d @ [x]" "x \<noteq> CHR ''/''" by (cases c rule: rev_cases) (auto simp: good_def)
  have "last (posix p) \<noteq> CHR ''/'' \<and> posix p \<noteq> []" using c by (simp add: p l)
  then show "\<not> ends_with ''/'' (posix p)" by (cases "posix p" rule: rev_cases) (auto simp: ends_with_def)
  obtain e r where e: "p = e # r" "good e" using assms by (cases p) auto
  then obtain y z where "e = y # z" "y \<noteq> CHR ''/''" by (cases e) (auto simp: good_def)
  then show "\<not> starts_with ''/'' (posix p)" by (simp add: e(1) posix_def join_def starts_with_def)
qed

definition zipped :: "string \<times> bytes \<Rightarrow> zip_entry" where
  \<comment> \<open>what a reader finds of a file that the builder put into an archive: mode \<open>0o100644\<close>\<close>
  "zipped = (\<lambda>(n, b). \<lparr>ze_member = \<lparr>zm_name = n, zm_attr = 0x81A40000\<rparr>, ze_size = length b, ze_data = Some b\<rparr>)"

lemma zipped_valid:
  assumes "p \<noteq> []" and "list_all good p"
  shows "validate_zip_member [''source''] (ze_member (zipped (posix p, b))) = Inr ()"
proof -
  have "\<forall>c \<in> set p. c \<noteq> ''..''" using assms(2) by (auto simp: list_all_iff good_def)
  then have "resolve_member [''source''] (posix p) = [''source''] @ filter (\<lambda>c. c \<notin> {[], ''.'', ''..''}) p"
    using posix_plain(2) [OF assms] by (simp add: resolve_member_def split_posix [OF assms] norm_path_plain)
  moreover have "drop_bit 16 (0x81A40000 :: nat) AND 0xF000 = 0x8000" by (simp add: drop_bit_eq_div)
  ultimately show ?thesis by (simp add: validate_zip_member_def zipped_def is_prefix_def)
qed

definition flat :: "(path \<times> bytes) list \<Rightarrow> tree" where
  "flat fs = \<lparr>tr_files = fs, tr_dirs = []\<rparr>"

lemma zipped_extract:
  assumes "tree_ok (flat (ys @ (p, b) # xs))"
  shows "extract_entry (zipped (posix p, b)) (flat ys) = Inr (flat (ys @ [(p, b)]))"
proof -
  have p: "p \<noteq> []" "list_all good p" using assms by (simp_all add: tree_ok_def flat_def)
  have new: "p \<notin> fst ` set ys" using assms by (auto simp: tree_ok_def flat_def)
  have "\<not> is_prefix p q \<and> \<not> is_prefix q p" if "q \<in> fst ` set ys" for q
    using assms that new unfolding tree_ok_def flat_def by auto
  then have "\<not> is_dir (flat ys) p" "\<forall>q \<in> fst ` set (tr_files (flat ys)). \<not> inside_of q p"
    using p(1) by (auto simp: is_dir_def inside_of_def flat_def)
  then have "add_file p b (flat ys) = Inr (flat (AList.update p b ys))" by (simp add: add_file_eq) (simp add: flat_def)
  moreover have "AList.update p b ys = ys @ [(p, b)]" using new by (induction ys) auto
  ultimately show ?thesis
    using posix_plain(1) [OF p] by (simp add: extract_entry_def zipped_def extracted_posix [OF p])
qed

lemma zipped_unpack:
  assumes "tree_ok (flat fs)" and "tc_unzip tc z = Some (map zipped (map (\<lambda>(p, b). (posix p, b)) fs))"
  shows "unpack tc z = Inr (flat fs)"
proof -
  have *: "foldE extract_entry (map zipped (map (\<lambda>(p, b). (posix p, b)) xs)) (flat ys) = Inr (flat (ys @ xs))"
    if "tree_ok (flat (ys @ xs))" for xs ys
    using that
  proof (induction xs arbitrary: ys)
    case (Cons x xs)
    obtain p b where x: "x = (p, b)" by (metis surj_pair)
    show ?case using Cons.IH [of "ys @ [(p, b)]"] zipped_extract [of ys p b xs] Cons.prems by (simp add: x)
  qed simp
  have "mapE (validate_zip_member [''source'']) (map ze_member (map zipped (map (\<lambda>(p, b). (posix p, b)) fs))) = Inr (map (\<lambda>_. ()) fs)"
    using assms(1)
    by (auto simp: mapE_eq_Inr list_all2_map1 list_all2_map2 tree_ok_def flat_def intro!: list.rel_refl_strong zipped_valid)
  then show ?thesis using * [of "[]" fs] assms by (simp add: unpack_def flat_def)
qed

lemma canonical_twice: "canonical_files (canonical_files files) = canonical_files files"
proof -
  have f: "fst \<circ> (\<lambda>(n, b, _). (n, b, [])) = fst" by auto
  have "sorted (map fst (canonical_files files))"
    by (simp add: canonical_files_def f)
  then have "sort_key fst (canonical_files files) = canonical_files files" by (simp add: sort_key_id_if_sorted)
  then show ?thesis unfolding canonical_files_def [of "canonical_files files"] by (auto simp: canonical_files_def)
qed

section \<open>What is generated\<close>

lemma slash_code: "(of_char (CHR ''/'') :: nat) = 47"
  by simp

lemma dec_no_slash: "CHR ''/'' \<notin> set (dec n)"
proof (induction n rule: dec.induct)
  case (1 n)
  have d: "CHR ''/'' \<noteq> char_of (48 + d :: nat)" if "d < 10" for d
  proof
    assume "CHR ''/'' = char_of (48 + d :: nat)"
    then have "(47 :: nat) = of_char (char_of (48 + d :: nat) :: char)" by (metis slash_code)
    then show False using that by (simp add: of_char_of)
  qed
  show ?case
  proof (cases "n < 10")
    case True
    then show ?thesis using d [of n] by (simp add: dec.simps [of n])
  next
    case False
    then show ?thesis using 1 d [of "n mod 10"] by (simp add: dec.simps [of n])
  qed
qed

definition own_path :: "path \<Rightarrow> bool" where
  \<comment> \<open>where a generated source goes\<close>
  "own_path p = (\<exists>a b. p = [''.pyscripts'', ''generated'', ''proto'', a, b, ''service.proto''] \<and> good a \<and> good b)"

lemma generated_own_path:
  assumes "generate_contract parse numbers name hex es prev pv = Inr (Some g)" and "CHR ''/'' \<notin> set hex"
  shows "own_path (generated_path g)"
proof -
  obtain segment m where s: "segment = package_segment name hex"
    and p: "gt_path g = generated_proto_root @ ''/pyscripts_'' @ segment @ ''_sdk_proto/v'' @ dec m @ ''/service.proto''"
    by (rule generate_contractD [OF assms(1)]) (simp add: build_contract_def Let_def)
  have "CHR ''/'' \<notin> set (slug name)" by (auto simp: slug_def is_lower_def is_digit_def less_eq_char_def)
  then have "CHR ''/'' \<notin> set segment" using assms(2) by (simp add: s package_segment_def)
  then have a: "good (''pyscripts_'' @ segment @ ''_sdk_proto'')" by (simp add: good_def)
  have b: "good (CHR ''v'' # dec m)" using dec_no_slash [of m] by (simp add: good_def)
  let ?p = "[''.pyscripts'', ''generated'', ''proto'', ''pyscripts_'' @ segment @ ''_sdk_proto'', CHR ''v'' # dec m, ''service.proto'']"
  have "list_all good ?p" using a b by (simp add: good_def)
  moreover have "gt_path g = posix ?p" by (simp add: p posix_def join_def generated_proto_root_def)
  ultimately have "generated_path g = ?p" by (simp add: generated_path_def extracted_posix)
  then show ?thesis using a b by (auto simp: own_path_def)
qed

lemma generated_specs:
  assumes "generate_contract parse numbers name hex es prev pv = Inr (Some g)" and "\<forall>e \<in> set es. es_grpc e = None"
  shows "List.map_filter es_grpc (gt_endpoints g) \<noteq> []"
    and "\<forall>s \<in> set (List.map_filter es_grpc (gt_endpoints g)). gs_descriptor s = ''.pyscripts/generated/descriptor.pb''"
proof -
  obtain service methods shapes package eps where ge: "gen_endpoints es = Inr (methods, shapes)"
    and w: "mapE (with_grpc package service methods) es = Inr eps" and g: "gt_endpoints g = eps"
    by (rule generate_contractD [OF assms(1)]) (simp add: build_contract_def Let_def)
  have step: "rp_endpoint ` set ms' = insert e (rp_endpoint ` set ms)"
    if "gen_endpoint e (ms, b, gn) = Inr (ms', b', gn')" for e ms b gn ms' b' gn'
    using that by (auto simp: gen_endpoint_def bindE_eq_Inr Let_def split: if_splits option.splits)
  have "rp_endpoint ` set ms' = rp_endpoint ` set ms \<union> set xs"
    if "foldE gen_endpoint xs (ms, b, gn) = Inr (ms', b', gn')" for xs ms b gn ms' b' gn'
    using that
  proof (induction xs arbitrary: ms b gn)
    case (Cons x xs)
    then obtain ms1 b1 gn1 where "gen_endpoint x (ms, b, gn) = Inr (ms1, b1, gn1)" "foldE gen_endpoint xs (ms1, b1, gn1) = Inr (ms', b', gn')"
      by (auto simp: bindE_eq_Inr)
    then show ?case using Cons.IH step by fastforce
  qed simp
  then have m: "rp_endpoint ` set methods = set (grpc_endpoints es)"
    using ge by (fastforce simp: gen_endpoints_def bindE_eq_Inr)
  have some: "(\<exists>r \<in> set methods. es_id (rp_endpoint r) = es_id e) \<longrightarrow> es_grpc e' \<noteq> None"
    and desc: "es_grpc e = None \<longrightarrow> es_grpc e' = Some s \<longrightarrow> gs_descriptor s = ''.pyscripts/generated/descriptor.pb''"
    if "with_grpc package service methods e = Inr e'" for e e' s
  proof -
    have d: "validate_descriptor_path ''.pyscripts/generated/descriptor.pb'' = Some ''.pyscripts/generated/descriptor.pb''" by code_simp
    show "es_grpc e = None \<longrightarrow> es_grpc e' = Some s \<longrightarrow> gs_descriptor s = ''.pyscripts/generated/descriptor.pb''"
      using that by (auto simp: with_grpc_def bindE_eq_Inr of_opt_eq validate_grpc_def d split: option.splits if_splits)
    have "(\<exists>r \<in> set methods. es_id (rp_endpoint r) = es_id e) \<longrightarrow> find (\<lambda>r. es_id (rp_endpoint r) = es_id e) (rev methods) \<noteq> None"
      by (auto simp: find_None_iff)
    then show "(\<exists>r \<in> set methods. es_id (rp_endpoint r) = es_id e) \<longrightarrow> es_grpc e' \<noteq> None"
      using that by (auto simp: with_grpc_def bindE_eq_Inr of_opt_eq split: option.splits)
  qed
  have "grpc_endpoints es \<noteq> []" using assms(1) by (auto simp: generate_contract_def)
  then obtain e where e: "e \<in> set (grpc_endpoints es)" by (cases "grpc_endpoints es") auto
  then have "e \<in> set es" by (simp add: grpc_endpoints_def)
  then obtain i where i: "i < length es" "es ! i = e" by (auto simp: in_set_conv_nth)
  have "list_all2 (\<lambda>x y. with_grpc package service methods x = Inr y) es eps" using w by (simp add: mapE_eq_Inr)
  then have "eps ! i \<in> set eps" "with_grpc package service methods e = Inr (eps ! i)"
    using i by (auto simp: list_all2_conv_all_nth)
  then obtain e' where e': "e' \<in> set eps" "with_grpc package service methods e = Inr e'" by blast
  have "es_grpc e' \<noteq> None" using some [OF e'(2)] m e by force
  then show "List.map_filter es_grpc (gt_endpoints g) \<noteq> []"
    using e'(1) by (force simp: g List.map_filter_def filter_empty_conv)
  show "\<forall>s \<in> set (List.map_filter es_grpc (gt_endpoints g)). gs_descriptor s = ''.pyscripts/generated/descriptor.pb''"
  proof
    fix s assume "s \<in> set (List.map_filter es_grpc (gt_endpoints g))"
    then obtain x where x: "x \<in> set eps" "es_grpc x = Some s" by (auto simp: g List.map_filter_def)
    obtain e where "e \<in> set es" "with_grpc package service methods e = Inr x" using mapE_source [OF w x(1)] by blast
    then show "gs_descriptor s = ''.pyscripts/generated/descriptor.pb''" using desc assms(2) x(2) by blast
  qed
qed

section \<open>What is prepared can be published\<close>

definition own_descriptor :: path where
  "own_descriptor = [''.pyscripts'', ''generated'', ''descriptor.pb'']"

definition own_root :: path where
  "own_root = [''.pyscripts'', ''generated'', ''proto'']"

lemma own_names:
  "extracted_path [] generated_proto_root = own_root" "below generated_proto_root = Some own_root"
  "below ''.pyscripts/generated/descriptor.pb'' = Some own_descriptor" "generated_dir @ [''descriptor.pb''] = own_descriptor"
  by code_simp+

lemma own_path_below: "own_path p \<Longrightarrow> p = own_root @ drop (length own_root) p \<and> p \<noteq> own_descriptor \<and> list_all good p"
  by (auto simp: own_path_def own_root_def own_descriptor_def good_def)

definition only_source :: "path \<Rightarrow> bytes \<Rightarrow> path \<Rightarrow> bytes option" where
  "only_source p b = (\<lambda>r. if r = drop (length own_root) p then Some b else None)"

definition augmented_tree :: "path \<Rightarrow> bytes \<Rightarrow> bytes \<Rightarrow> tree \<Rightarrow> bool" where
  "augmented_tree p b canonical t =
     (tree_ok t \<and> subtree t own_root = only_source p b \<and> map_of (tr_files t) own_descriptor = Some canonical \<and>
      (\<forall>q \<in> fst ` set (tr_files t). is_prefix own_root q \<longrightarrow> q = p) \<and> map_of (tr_files t) p = Some b)"

lemma augment_tree:
  assumes "tree_ok t" and "own_path (generated_path g)" and "augment tc g t = Inr (canonical, t')"
  shows "augmented_tree (generated_path g) (encode (gt_source g)) canonical t' \<and>
    (\<exists>raw. tc_protoc tc (only_source (generated_path g) (encode (gt_source g))) [drop (length own_root) (generated_path g)] = Some raw \<and>
       canonical_descriptor tc raw = Inr canonical)"
proof -
  let ?p = "generated_path g" and ?b = "encode (gt_source g)"
  have free: "\<not> is_dir t generated_dir" "map_of (tr_files t) generated_dir = None"
    using assms(3) unfolding augment_def by (auto split: if_splits)
  obtain t1 raw where t1: "add_file ?p ?b t = Inr t1"
    and raw: "tc_protoc tc (subtree t1 own_root) [drop (length own_root) ?p] = Some raw" "canonical_descriptor tc raw = Inr canonical"
    and t': "add_file own_descriptor canonical t1 = Inr t'"
    using assms(3) free by (auto simp: augment_def own_names Let_def bindE_eq_Inr of_opt_eq)
  have o: "list_all good own_descriptor" "list_all good ?p" "?p = own_root @ drop (length own_root) ?p" "?p \<noteq> own_descriptor"
    using own_path_below [OF assms(2)] by (simp_all add: own_descriptor_def good_def)
  note A = add_file_ok [OF assms(1) o(2) t1] and B = add_file_ok [OF conjunct1 [OF add_file_ok [OF assms(1) o(2) t1]] o(1) t']
  have none: "\<not> is_prefix own_root q" if "q \<in> fst ` set (tr_files t)" for q
  proof
    assume "is_prefix own_root q"
    then have "inside_of generated_dir q" by (auto simp: is_prefix_append inside_of_def own_root_def generated_dir_def)
    then show False using free(1) that by (auto simp: is_dir_def)
  qed
  have at: "map_of (tr_files t1) q = (if q = ?p then Some ?b else None)" if "is_prefix own_root q" for q
    using A none that by (auto simp: map_of_None_iff)
  have d: "\<not> is_prefix own_root own_descriptor" by (simp add: is_prefix_def own_root_def own_descriptor_def)
  have sub1: "subtree t1 own_root = only_source ?p ?b"
  proof
    fix r
    have "is_prefix own_root (own_root @ r)" by (simp add: is_prefix_def)
    moreover have "own_root @ r = ?p \<longleftrightarrow> r = drop (length own_root) ?p" using o(3) by (metis append_eq_append_conv)
    ultimately show "subtree t1 own_root r = only_source ?p ?b r" using at by (simp add: subtree_def only_source_def)
  qed
  have same: "map_of (tr_files t') q = map_of (tr_files t1) q" if "is_prefix own_root q" for q
    using B d that by (cases "q = own_descriptor") auto
  have sub: "subtree t' own_root = only_source ?p ?b"
    unfolding sub1 [symmetric] by (rule ext) (simp add: subtree_def same is_prefix_def)
  have keys: "q = ?p" if "q \<in> fst ` set (tr_files t')" "is_prefix own_root q" for q
  proof -
    have "map_of (tr_files t') q \<noteq> None" using that(1) by (simp add: map_of_None_iff)
    then show ?thesis using same [OF that(2)] at [OF that(2)] by (auto split: if_splits)
  qed
  have "is_prefix own_root ?p" using o(3) by (metis is_prefix_append)
  then have "map_of (tr_files t') ?p = Some ?b" using same at by simp
  moreover have "map_of (tr_files t') own_descriptor = Some canonical" using B by simp
  ultimately show ?thesis using B sub keys raw unfolding augmented_tree_def sub1 by blast
qed

lemma map_of_sorted:
  assumes "distinct (map fst xs)"
  shows "map_of (sort_key fst xs) = map_of xs" and "distinct (map fst (sort_key fst xs))"
proof -
  show d: "distinct (map fst (sort_key fst xs))" using assms by (simp add: distinct_map)
  show "map_of (sort_key fst xs) = map_of xs" using map_of_inject_set [OF d assms] by simp
qed

lemma augmented_sorted:
  assumes "augmented_tree p b canonical t"
  shows "augmented_tree p b canonical (flat (sort_key fst (tr_files t)))"
proof -
  have ok: "tree_ok t" using assms by (simp add: augmented_tree_def)
  then have d: "distinct (map fst (tr_files t))" by (simp add: tree_ok_def)
  have m: "map_of (tr_files (flat (sort_key fst (tr_files t)))) = map_of (tr_files t)"
    using map_of_sorted(1) [OF d] by (simp add: flat_def)
  have k: "fst ` set (tr_files (flat (sort_key fst (tr_files t)))) = fst ` set (tr_files t)" by (simp add: flat_def)
  have "tree_ok (flat (sort_key fst (tr_files t)))"
    unfolding tree_ok_def k using ok map_of_sorted(2) [OF d] unfolding tree_ok_def by (simp add: flat_def)
  then show ?thesis using assms unfolding augmented_tree_def subtree_def m k by blast
qed

lemma filter_one: "distinct xs \<Longrightarrow> x \<in> set xs \<Longrightarrow> \<forall>y \<in> set xs. P y \<longleftrightarrow> y = x \<Longrightarrow> filter P xs = [x]"
  by (induction xs) (auto simp: filter_empty_conv)

lemma augmented_protos:
  assumes "augmented_tree p b canonical t" and "own_path p"
  shows "proto_files t own_root = [drop (length own_root) p]" and "is_dir t own_root"
proof -
  have k: "p \<in> fst ` set (tr_files t)" using assms(1) by (auto simp: augmented_tree_def dest: map_of_SomeD intro: image_eqI [rotated])
  have i: "inside_of own_root p \<and> ends_with ''.proto'' (last p)"
    using assms(2) by (auto simp: own_path_def inside_of_def is_prefix_def own_root_def ends_with_def)
  have "filter (\<lambda>q. inside_of own_root q \<and> ends_with ''.proto'' (last q)) (map fst (tr_files t)) = [p]"
  proof (rule filter_one)
    show "distinct (map fst (tr_files t))" using assms(1) by (simp add: augmented_tree_def tree_ok_def)
    show "p \<in> set (map fst (tr_files t))" using k by simp
    show "\<forall>q \<in> set (map fst (tr_files t)). (inside_of own_root q \<and> ends_with ''.proto'' (last q)) = (q = p)"
      using assms(1) i by (auto simp: augmented_tree_def inside_of_def)
  qed
  then show "proto_files t own_root = [drop (length own_root) p]" by (simp add: proto_files_def)
  show "is_dir t own_root" using k i by (auto simp: is_dir_def)
qed

definition tools_ok :: "toolchain \<Rightarrow> bool" where
  \<comment> \<open>\<open>as_uri\<close> and \<open>url2pathname\<close> are inverse on plain paths, digests are lowercase hexadecimal, and what \<open>zipfile\<close> and
    \<open>protobuf\<close> write they read back\<close>
  "tools_ok tc =
     ((\<forall>p. p \<noteq> [] \<and> list_all good p \<longrightarrow> tc_path tc (tc_uri tc p) = p \<and> pu_scheme (urlparse (tc_uri tc p)) = ''file'') \<and>
      (\<forall>b. list_all hex_char (tc_sha tc b)) \<and>
      (\<forall>xs. tc_unzip tc (tc_zip tc xs) = Some (map zipped xs)) \<and>
      (\<forall>fs. tc_parse tc (tc_serialize tc fs) = Some fs))"

definition collision :: "toolchain \<Rightarrow> bool" where
  "collision tc = (\<exists>a b. a \<noteq> b \<and> tc_sha tc a = tc_sha tc b)"

definition builder_ok :: "toolchain \<Rightarrow> path \<Rightarrow> files \<Rightarrow> bool" where
  "builder_ok tc base fs =
     ((\<forall>h b. map_of fs (artifact_file base h) = Some b \<longrightarrow> tc_sha tc b = h) \<and>
      (\<forall>name h b. map_of fs (contract_file tc base name h ''descriptor.pb'') = Some b \<longrightarrow> tc_sha tc b = h))"

lemma keep_file_at: "map_of (keep_file p b fs) q = (if q = p \<and> map_of fs p = None then Some b else map_of fs q)"
  by (auto simp: keep_file_def update_conv')

lemma builder_ok_keep:
  assumes "builder_ok tc base fs"
  shows "builder_ok tc base (keep_file (artifact_file base (tc_sha tc b)) b fs)"
    and "builder_ok tc base (keep_file (contract_file tc base name (tc_sha tc c) ''descriptor.pb'') c fs)"
    and "builder_ok tc base (keep_file (contract_file tc base name h ''proto.zip'') d fs)"
  using assms by (auto simp: builder_ok_def keep_file_at artifact_file_def contract_file_def split: if_splits)

lemma lower_hex: "hex_char c \<Longrightarrow> lower_char c = c \<and> c \<noteq> CHR ''s''"
proof -
  have "list_all (\<lambda>c. lower_char c = c \<and> c \<noteq> CHR ''s'') ''0123456789abcdef''" by code_simp
  then show "hex_char c \<Longrightarrow> lower_char c = c \<and> c \<noteq> CHR ''s''" by (simp only: hex_char_def list_all_iff) blast
qed

lemma normal_hex:
  assumes "list_all hex_char h"
  shows "normal_digest h = h"
proof -
  have c: "\<forall>c \<in> set h. lower_char c = c \<and> c \<noteq> CHR ''s''" using assms lower_hex by (simp add: list_all_iff)
  have "\<not> starts_with ''sha256:'' h"
  proof (cases h)
    case (Cons x xs)
    then show ?thesis using c by (simp add: starts_with_def)
  qed (simp add: starts_with_def)
  moreover have "lower h = h" unfolding lower_def by (rule map_idI) (use c in blast)
  ultimately show ?thesis by (simp add: normal_digest_def removeprefix_def)
qed

lemma good_hex:
  assumes "list_all hex_char h"
  shows "good (''sha256:'' @ h @ ''.zip'')" and "CHR ''/'' \<notin> set h"
  using hex_no_slash [OF assms] by (auto simp: good_def)

lemma canonical_again:
  assumes "tools_ok tc" and "canonical_descriptor tc raw = Inr c"
  shows "canonical_descriptor tc c = Inr c"
proof -
  obtain files where f: "files \<noteq> []" "c = tc_serialize tc (canonical_files files)"
    using assms(2) by (auto simp: canonical_descriptor_def bindE_eq_Inr of_opt_eq split: if_splits)
  have "tc_parse tc c = Some (canonical_files files)" using assms(1) f(2) by (simp add: tools_ok_def)
  moreover have "canonical_files files \<noteq> []"
  proof
    assume "canonical_files files = []"
    then have "length (sort_key fst files) = 0" by (simp add: canonical_files_def)
    then show False using f(1) by simp
  qed
  ultimately show ?thesis by (simp add: canonical_descriptor_def canonical_twice f(2))
qed

lemma compile_augmented:
  assumes "tools_ok tc" and t: "augmented_tree p b canonical t" and "own_path p"
    and "obtain_artifact tc (rr_uri q) (rr_digest q) fs = Inr z" and "unpack tc z = Inr t"
    and raw: "tc_protoc tc (only_source p b) [drop (length own_root) p] = Some raw" "canonical_descriptor tc raw = Inr canonical"
    and "gc_root contract = generated_proto_root" and "specs \<noteq> []"
    and "\<forall>s \<in> set specs. gs_descriptor s = ''.pyscripts/generated/descriptor.pb''"
    and "length b < 256 ^ 8" and "length (encode (posix (drop (length own_root) p))) < 256 ^ 4"
  shows "\<exists>d. compile_contract tc q contract specs fs =
    Inr \<lparr>cp_descriptor = canonical, cp_sources = [(drop (length own_root) p, b)], cp_source_digest = d,
         cp_methods = sort (map method_path specs), cp_version = gc_version contract\<rparr>"
proof -
  let ?r = "drop (length own_root) p"
  have s: "subtree t own_root = only_source p b" and o: "map_of (tr_files t) own_descriptor = Some canonical"
    using t by (simp_all add: augmented_tree_def)
  have "gs_descriptor (hd specs) = ''.pyscripts/generated/descriptor.pb''" using assms(9,10) by simp
  then have supplied: "Option.bind (below (gs_descriptor (hd specs))) (map_of (tr_files t)) = Some canonical"
    by (simp add: own_names o)
  have "\<exists>e. encode_source (?r, b) = Inr e" using assms(11,12) by (simp add: encode_source_eq)
  then obtain d where d: "source_digest tc [(?r, b)] = Inr d" by (auto simp: source_digest_def encode_sources_def)
  have "only_source p b ?r = Some b" by (simp add: only_source_def)
  then show ?thesis
    using supplied d augmented_protos [OF t assms(3)] canonical_again [OF assms(1) raw(2)]
    by (simp add: compile_contract_def assms(4,5,8) own_names s raw Let_def)
qed

lemma prepareD:
  assumes "prepare_generated_artifact tc base name hex q previous version fs = (Inr (Some pa), fs1)"
  shows "\<exists>g content t canonical t' contract.
    generate_contract (tc_history tc) (tc_numbers tc) name hex (if_endpoints (rr_interface q)) previous version = Inr (Some g) \<and>
    unpack tc content = Inr t \<and> augment tc g t = Inr (canonical, t') \<and>
    contract_version tc previous version canonical (generated_contract_spec g) = Inr contract \<and>
    pa = \<lparr>pa_uri = tc_uri tc (artifact_file base (tc_sha tc (augmented_artifact tc t'))),
        pa_digest = tc_sha tc (augmented_artifact tc t'), pa_endpoints = gt_endpoints g, pa_contract = contract\<rparr> \<and>
    fs1 = keep_file (artifact_file base (tc_sha tc (augmented_artifact tc t'))) (augmented_artifact tc t') fs"
proof -
  obtain g where g: "generate_contract (tc_history tc) (tc_numbers tc) name hex (if_endpoints (rr_interface q)) previous version = Inr (Some g)"
    using assms by (auto simp: prepare_generated_artifact_def split: sum.splits option.splits)
  let ?m = "bindE (obtain_artifact tc (rr_uri q) (rr_digest q) fs) (\<lambda>content. bindE (unpack tc content) (\<lambda>t.
      bindE (augment tc g t) (\<lambda>(canonical, t').
      bindE (contract_version tc previous version canonical (generated_contract_spec g)) (\<lambda>contract.
        Inr (augmented_artifact tc t', contract)))))"
  obtain z contract where m: "?m = Inr (z, contract)"
    and r: "pa = \<lparr>pa_uri = tc_uri tc (artifact_file base (tc_sha tc z)), pa_digest = tc_sha tc z, pa_endpoints = gt_endpoints g,
        pa_contract = contract\<rparr>" "fs1 = keep_file (artifact_file base (tc_sha tc z)) z fs"
    using assms unfolding prepare_generated_artifact_def by (cases ?m) (auto simp: g Let_def)
  obtain content t canonical t' where "unpack tc content = Inr t" "augment tc g t = Inr (canonical, t')"
      "contract_version tc previous version canonical (generated_contract_spec g) = Inr contract" "z = augmented_artifact tc t'"
    using m by (auto simp: bindE_eq_Inr)
  then show ?thesis using g r by blast
qed

lemma contract_version_root: "contract_version tc previous version canonical c = Inr c' \<Longrightarrow> gc_root c' = gc_root c"
  by (auto simp: contract_version_def bindE_eq_Inr split: option.splits if_splits)

text \<open>C15. What the platform prepares it can publish: an artifact with a generated contract compiles to the descriptor
  that was put into it, the contract is published under its version with a stored descriptor of its schema digest, and
  a schema that did not change keeps its version. Only a collision of SHA-256 can spoil it.\<close>

theorem prepared_publishes:
  assumes "tools_ok tc" and "list_all good base" and "builder_ok tc base fs"
    and "\<forall>e \<in> set (if_endpoints (rr_interface q)). es_grpc e = None" and "CHR ''/'' \<notin> set hex"
    and "prepare_generated_artifact tc base name hex q previous version fs = (Inr (Some pa), fs1)"
    and "\<And>g. generate_contract (tc_history tc) (tc_numbers tc) name hex (if_endpoints (rr_interface q)) previous version = Inr (Some g) \<Longrightarrow>
      length (gt_source g) < 256 ^ 8 \<and> length (posix (drop (length own_root) (generated_path g))) < 256 ^ 4"
  shows "collision tc \<or> (\<exists>pub fs2 b.
    publish_contract tc base name (q\<lparr>rr_uri := pa_uri pa, rr_digest := pa_digest pa,
      rr_interface := (rr_interface q)\<lparr>if_endpoints := pa_endpoints pa, if_contract := Some (pa_contract pa)\<rparr>\<rparr>) fs1 = (Inr (Some pub), fs2) \<and>
    pub_version pub = gc_version (pa_contract pa) \<and>
    map_of fs2 (contract_file tc base name (tc_sha tc b) ''descriptor.pb'') = Some b \<and> pub_schema pub = sha256 tc b \<and>
    pub_bundle_digest pub \<noteq> None \<and> builder_ok tc base fs2 \<and>
    (\<forall>old c v. previous = Some old \<and> version = Some v \<and> v \<noteq> [] \<and> canonical_descriptor tc old = Inr c \<and>
       pub_schema pub = sha256 tc c \<longrightarrow> pub_version pub = v))"
proof (cases "collision tc")
  case False
  then have inj: "tc_sha tc a = tc_sha tc b \<Longrightarrow> a = b" for a b by (auto simp: collision_def)
  obtain g content t canonical t' contract where
    g: "generate_contract (tc_history tc) (tc_numbers tc) name hex (if_endpoints (rr_interface q)) previous version = Inr (Some g)"
    and t: "unpack tc content = Inr t" and a: "augment tc g t = Inr (canonical, t')"
    and v: "contract_version tc previous version canonical (generated_contract_spec g) = Inr contract"
    and pa: "pa = \<lparr>pa_uri = tc_uri tc (artifact_file base (tc_sha tc (augmented_artifact tc t'))),
        pa_digest = tc_sha tc (augmented_artifact tc t'), pa_endpoints = gt_endpoints g, pa_contract = contract\<rparr>"
    and fs1: "fs1 = keep_file (artifact_file base (tc_sha tc (augmented_artifact tc t'))) (augmented_artifact tc t') fs"
    using prepareD [OF assms(6)] by blast
  let ?z = "augmented_artifact tc t'" and ?p = "generated_path g" and ?b = "encode (gt_source g)"
  let ?target = "artifact_file base (tc_sha tc ?z)"
  have own: "own_path ?p" by (rule generated_own_path [OF g assms(5)])
  obtain raw where A: "augmented_tree ?p ?b canonical t'"
    and raw: "tc_protoc tc (only_source ?p ?b) [drop (length own_root) ?p] = Some raw" "canonical_descriptor tc raw = Inr canonical"
    using augment_tree [OF unpack_ok [OF t] own a] by blast
  let ?t = "flat (sort_key fst (tr_files t'))"
  have S: "augmented_tree ?p ?b canonical ?t" by (rule augmented_sorted [OF A])
  have z: "unpack tc ?z = Inr ?t"
    by (rule zipped_unpack) (use S assms(1) in \<open>simp_all add: augmented_tree_def tools_ok_def augmented_artifact_def\<close>)
  have hex: "list_all hex_char (tc_sha tc ?z)" using assms(1) by (simp add: tools_ok_def)
  have "?target \<noteq> [] \<and> list_all good ?target" using assms(2) good_hex(1) [OF hex] by (simp add: artifact_file_def) (simp add: good_def)
  then have uri: "tc_path tc (tc_uri tc ?target) = ?target" "pu_scheme (urlparse (tc_uri tc ?target)) = ''file''"
    using assms(1) unfolding tools_ok_def by blast+
  have "map_of fs1 ?target = Some ?z"
  proof (cases "map_of fs ?target")
    case (Some x)
    then have "tc_sha tc x = tc_sha tc ?z" using assms(3) by (auto simp: builder_ok_def)
    then have "x = ?z" by (rule inj)
    then show ?thesis by (simp add: fs1 keep_file_at Some)
  qed (simp add: fs1 keep_file_at)
  then have got: "obtain_artifact tc (pa_uri pa) (pa_digest pa) fs1 = Inr ?z"
    by (simp add: obtain_artifact_def pa uri normal_hex [OF hex])
  let ?specs = "List.map_filter es_grpc (gt_endpoints g)"
  let ?q = "q\<lparr>rr_uri := pa_uri pa, rr_digest := pa_digest pa,
      rr_interface := (rr_interface q)\<lparr>if_endpoints := pa_endpoints pa, if_contract := Some (pa_contract pa)\<rparr>\<rparr>"
  have root: "gc_root contract = generated_proto_root"
    using contract_version_root [OF v] by (simp add: generated_contract_spec_def)
  have len: "length ?b < 256 ^ 8" "length (encode (posix (drop (length own_root) ?p))) < 256 ^ 4"
    using assms(7) [OF g] by (simp_all add: encode_def)
  have got': "obtain_artifact tc (rr_uri ?q) (rr_digest ?q) fs1 = Inr ?z" using got by simp
  obtain d where c: "compile_contract tc ?q contract ?specs fs1 =
    Inr \<lparr>cp_descriptor = canonical, cp_sources = [(drop (length own_root) ?p, ?b)], cp_source_digest = d,
         cp_methods = sort (map method_path ?specs), cp_version = gc_version contract\<rparr>"
    using compile_augmented [OF assms(1) S own got' z raw root generated_specs [OF g assms(4)] len] by blast
  let ?dt = "contract_file tc base name (tc_sha tc canonical) ''descriptor.pb''"
    and ?pt = "contract_file tc base name (tc_sha tc canonical) ''proto.zip''"
  let ?sources = "bundle_of tc [(drop (length own_root) ?p, ?b)]"
  let ?fs2 = "keep_file ?pt ?sources (keep_file ?dt canonical fs1)"
  have ok1: "builder_ok tc base fs1" unfolding fs1 by (rule builder_ok_keep(1) [OF assms(3)])
  have ok2: "builder_ok tc base ?fs2" by (rule builder_ok_keep(3) [OF builder_ok_keep(2) [OF ok1]])
  have pub: "publish_contract tc base name ?q fs1 =
    (Inr (Some \<lparr>pub_schema = sha256 tc canonical, pub_source = d, pub_version = gc_version contract,
       pub_descriptor = tc_uri tc ?dt, pub_bundle = tc_uri tc ?pt, pub_bundle_digest = map_option (sha256 tc) (map_of ?fs2 ?pt),
       pub_methods = sort (map method_path ?specs)\<rparr>), ?fs2)"
    using c generated_specs(1) [OF g assms(4)] by (simp add: publish_contract_def pa Let_def)
  have dt: "map_of ?fs2 ?dt = Some canonical"
  proof (cases "map_of fs1 ?dt")
    case (Some x)
    then have "tc_sha tc x = tc_sha tc canonical" using ok1 by (auto simp: builder_ok_def)
    then have "x = canonical" by (rule inj)
    then show ?thesis using Some by (simp add: keep_file_at contract_file_def)
  qed (simp add: keep_file_at contract_file_def)
  have pt: "map_of ?fs2 ?pt \<noteq> None" by (simp add: keep_file_at)
  have ver: "gc_version contract = w"
    if "previous = Some old" "version = Some w" "w \<noteq> []" "canonical_descriptor tc old = Inr x" "sha256 tc canonical = sha256 tc x" for old x w
  proof -
    have "canonical = x" by (rule inj) (use that(5) in \<open>simp add: sha256_def\<close>)
    then show ?thesis using v that by (auto simp: contract_version_def)
  qed
  show ?thesis using pub dt pt ok2 ver by (intro disjI2) (auto simp: pa)
qed simp

section \<open>Stale sources\<close>

lemma publish_contractD:
  assumes "publish_contract tc base name q fs = (Inr (Some p), fs')"
  shows "\<exists>contract c. compile_contract tc q contract (List.map_filter es_grpc (if_endpoints (rr_interface q))) fs = Inr c \<and>
    pub_schema p = sha256 tc (cp_descriptor c) \<and> pub_source p = cp_source_digest c \<and>
    pub_bundle p = tc_uri tc (contract_file tc base name (tc_sha tc (cp_descriptor c)) ''proto.zip'') \<and>
    pub_bundle_digest p = map_option (sha256 tc) (map_of fs' (contract_file tc base name (tc_sha tc (cp_descriptor c)) ''proto.zip'')) \<and>
    fs' = keep_file (contract_file tc base name (tc_sha tc (cp_descriptor c)) ''proto.zip'') (bundle_of tc (cp_sources c))
      (keep_file (contract_file tc base name (tc_sha tc (cp_descriptor c)) ''descriptor.pb'') (cp_descriptor c) fs)"
proof -
  let ?specs = "List.map_filter es_grpc (if_endpoints (rr_interface q))"
  obtain contract where k: "if_contract (rr_interface q) = Some contract" and ne: "?specs \<noteq> []"
    using assms by (auto simp: publish_contract_def Let_def split: option.splits if_splits)
  obtain c where c: "compile_contract tc q contract ?specs fs = Inr c"
    using assms k ne by (cases "compile_contract tc q contract ?specs fs") (auto simp: publish_contract_def)
  show ?thesis
    by (rule exI [of _ contract], rule exI [of _ c]) (use assms in \<open>auto simp: publish_contract_def k ne c Let_def\<close>)
qed

text \<open>A descriptor that is published again keeps the bundle of sources that was stored first, whatever the sources of its
  artifact are now; the source digest is that of the new ones.\<close>

lemma stale_bundle:
  assumes "publish_contract tc base name q fs = (Inr (Some p), fs1)"
    and "publish_contract tc base name q' fs1 = (Inr (Some p'), fs2)" and "pub_schema p' = pub_schema p"
  shows "pub_bundle p' = pub_bundle p" and "pub_bundle_digest p' = pub_bundle_digest p"
    and "\<exists>contract c. compile_contract tc q' contract (List.map_filter es_grpc (if_endpoints (rr_interface q'))) fs1 = Inr c \<and>
      pub_source p' = cp_source_digest c"
proof -
  obtain c :: compiled where c: "pub_schema p = sha256 tc (cp_descriptor c)"
      "pub_bundle p = tc_uri tc (contract_file tc base name (tc_sha tc (cp_descriptor c)) ''proto.zip'')"
      "pub_bundle_digest p = map_option (sha256 tc) (map_of fs1 (contract_file tc base name (tc_sha tc (cp_descriptor c)) ''proto.zip''))"
    and f: "fs1 = keep_file (contract_file tc base name (tc_sha tc (cp_descriptor c)) ''proto.zip'') (bundle_of tc (cp_sources c))
      (keep_file (contract_file tc base name (tc_sha tc (cp_descriptor c)) ''descriptor.pb'') (cp_descriptor c) fs)"
    using publish_contractD [OF assms(1)] by (elim exE conjE) (rule that; assumption)
  obtain c' :: compiled where c': "pub_schema p' = sha256 tc (cp_descriptor c')"
      "pub_bundle p' = tc_uri tc (contract_file tc base name (tc_sha tc (cp_descriptor c')) ''proto.zip'')"
      "pub_bundle_digest p' = map_option (sha256 tc) (map_of fs2 (contract_file tc base name (tc_sha tc (cp_descriptor c')) ''proto.zip''))"
    and f': "fs2 = keep_file (contract_file tc base name (tc_sha tc (cp_descriptor c')) ''proto.zip'') (bundle_of tc (cp_sources c'))
      (keep_file (contract_file tc base name (tc_sha tc (cp_descriptor c')) ''descriptor.pb'') (cp_descriptor c') fs1)"
    using publish_contractD [OF assms(2)] by (elim exE conjE) (rule that; assumption)
  have s: "tc_sha tc (cp_descriptor c') = tc_sha tc (cp_descriptor c)" using assms(3) c(1) c'(1) by (simp add: sha256_def)
  let ?pt = "contract_file tc base name (tc_sha tc (cp_descriptor c)) ''proto.zip''"
  have "map_of fs1 ?pt \<noteq> None" by (simp add: f keep_file_at)
  then have "map_of fs2 ?pt = map_of fs1 ?pt" by (simp add: f' s keep_file_at contract_file_def)
  then show "pub_bundle p' = pub_bundle p" "pub_bundle_digest p' = pub_bundle_digest p" using c c' s by simp_all
  show "\<exists>contract c. compile_contract tc q' contract (List.map_filter es_grpc (if_endpoints (rr_interface q'))) fs1 = Inr c \<and>
      pub_source p' = cp_source_digest c"
    using publish_contractD [OF assms(2)] by blast
qed

section \<open>A toolchain\<close>

definition pack :: "(string \<times> bytes) list \<Rightarrow> bytes" where
  "pack xs = concat (map (\<lambda>(n, b). length n # map of_char n @ length b # b) xs)"

fun unpack_pairs :: "nat \<Rightarrow> bytes \<Rightarrow> (string \<times> bytes) list" where
  "unpack_pairs (Suc k) (n # xs) =
     (case drop n xs of
        [] \<Rightarrow> []
      | m # ys \<Rightarrow> (map char_of (take n xs), take m ys) # unpack_pairs k (drop m ys))"
| "unpack_pairs _ _ = []"

lemma unpack_pack: "length xs \<le> k \<Longrightarrow> unpack_pairs k (pack xs) = xs"
proof (induction xs arbitrary: k)
  case (Cons x xs)
  then obtain j where "k = Suc j" by (cases k) auto
  moreover obtain n b where "x = (n, b)" by (metis surj_pair)
  ultimately show ?case using Cons by (simp add: pack_def comp_def)
qed (simp add: pack_def)

lemma unpack_whole: "unpack_pairs (length (pack xs)) (pack xs) = xs"
proof (rule unpack_pack)
  show "length xs \<le> length (pack xs)" by (induction xs) (auto simp: pack_def)
qed

definition unary :: "bytes \<Rightarrow> string" where
  "unary b = concat (map (\<lambda>n. replicate n (CHR ''a'') @ ''b'') b)"

lemma unary_hex: "list_all hex_char (unary b)"
proof -
  have "hex_char (CHR ''a'')" "hex_char (CHR ''b'')" by code_simp+
  then show ?thesis by (auto simp: unary_def list_all_iff)
qed

lemma unary_inj: "unary a = unary b \<Longrightarrow> a = b"
proof (induction a arbitrary: b)
  case Nil
  then show ?case by (cases b) (simp_all add: unary_def)
next
  case (Cons x a)
  show ?case
  proof (cases b)
    case Nil
    then show ?thesis using Cons.prems by (simp add: unary_def)
  next
    case (Cons y b')
    have e: "replicate x (CHR ''a'') @ CHR ''b'' # unary a = replicate y (CHR ''a'') @ CHR ''b'' # unary b'"
      using Cons.prems Cons by (simp add: unary_def)
    have t: "takeWhile (\<lambda>c. c = CHR ''a'') (replicate n (CHR ''a'') @ CHR ''b'' # u) = replicate n (CHR ''a'')" for n u
      by (induction n) simp_all
    have "x = y" using arg_cong [OF e, of "\<lambda>s. length (takeWhile (\<lambda>c. c = CHR ''a'') s)"] by (simp add: t)
    then have "unary a = unary b'" using e by simp
    then show ?thesis using Cons.IH \<open>x = y\<close> Cons by simp
  qed
qed

definition pack_triples :: "(string \<times> bytes \<times> bytes) list \<Rightarrow> bytes" where
  "pack_triples xs = pack (map (\<lambda>(n, b, i). (n, length b # b @ i)) xs)"

definition unpack_triples :: "bytes \<Rightarrow> (string \<times> bytes \<times> bytes) list" where
  "unpack_triples z = map (\<lambda>(n, r). case r of [] \<Rightarrow> (n, [], []) | l # u \<Rightarrow> (n, take l u, drop l u)) (unpack_pairs (length z) z)"

definition demo_tools :: toolchain where
  "demo_tools = \<lparr>tc_http = (\<lambda>_. None), tc_path = (\<lambda>u. split_on (CHR ''/'') (drop 5 u)), tc_uri = (\<lambda>p. ''file:'' @ posix p),
     tc_sha = unary, tc_unzip = (\<lambda>z. Some (map zipped (unpack_pairs (length z) z))), tc_zip = pack,
     tc_protoc = (\<lambda>f ps. Some (pack_triples (map (\<lambda>p. (posix p, case f p of Some b \<Rightarrow> b | None \<Rightarrow> [], [9])) ps))),
     tc_parse = (\<lambda>z. Some (unpack_triples z)), tc_serialize = pack_triples, tc_history = (\<lambda>_. None), tc_numbers = demo_versions\<rparr>"

lemma demo_tools_ok: "tools_ok demo_tools" "\<not> collision demo_tools"
proof -
  have "takeWhile (\<lambda>c. c \<noteq> CHR '':'') (''file:'' @ s) = ''file''" for s by simp
  moreover have "lower ''file'' = ''file''" "list_all scheme_char ''file''" "is_alpha (CHR ''f'')" by code_simp+
  ultimately have u: "pu_scheme (urlparse (''file:'' @ s)) = ''file''" for s by (simp add: urlparse_def Let_def)
  have t: "unpack_triples (pack_triples fs) = fs" for fs
    unfolding unpack_triples_def pack_triples_def unpack_whole by (induction fs) auto
  show "tools_ok demo_tools"
    using u by (simp add: tools_ok_def demo_tools_def split_posix unary_hex unpack_whole t)
  show "\<not> collision demo_tools" using unary_inj by (auto simp: collision_def demo_tools_def)
qed

theorem source_digest_identifies_witness:
  "\<exists>d. source_digest demo_tools [([''a'', ''b.proto''], [1])] = Inr d \<and> \<not> collision demo_tools"
proof -
  have "\<exists>b. encode_source ([''a'', ''b.proto''], [1]) = Inr b" by (simp add: encode_source_eq encode_def posix_def join_def)
  then obtain d where d: "source_digest demo_tools [([''a'', ''b.proto''], [1])] = Inr d"
    by (auto simp: source_digest_def encode_sources_def)
  show ?thesis using source_digest_identifies [OF d d] d demo_tools_ok(2) by blast
qed

lemma demo_path: "generated_path demo_contract = own_root @ [''pyscripts_adder_s00_sdk_proto'', ''v1'', ''service.proto'']"
  by code_simp

lemma length_join: "length (join [c] ps) \<le> sum_list (map (\<lambda>p. Suc (length p)) ps)"
proof (cases ps)
  case (Cons p qs)
  have "length (concat (map (\<lambda>q. [c] @ q) qs)) = sum_list (map (\<lambda>p. Suc (length p)) qs)" by (induction qs) simp_all
  moreover have "(@) [c] = (#) c" by (simp add: fun_eq_iff)
  ultimately show ?thesis by (simp add: Cons join_def)
qed (simp add: join_def)

lemma sum_concat: "sum_list (map f (concat xss)) = sum_list (map (\<lambda>xs. sum_list (map f xs)) xss)" for f :: "'a \<Rightarrow> nat"
  by (induction xss) simp_all

lemma sum_sorted: "sum_list (map f (sort_key k xs)) = sum_list (map f xs)" for f :: "'a \<Rightarrow> nat"
  by (metis mset_map mset_sort sum_mset_sum_list)

lemma dec_digit: "n < 10 \<Longrightarrow> length (dec n) = 1"
  by (simp add: dec.simps [of n])

lemma demo_length: "length (gt_source demo_contract) < 5000"
proof -
  have s: "gt_source demo_contract = render_proto (package_of ''adder_s00'' 1) ''AdderService'' demo_messages [demo_rpc]"
    by (simp add: demo_contract_def build_contract_def Let_def)
  have m: "sum_list (map (\<lambda>p. Suc (length p)) (concat (map render_message (sort_key ms_name demo_messages)))) < 2000"
    unfolding sum_concat map_map sum_sorted comp_def
    by (simp add: render_message_def reserved_line_def sum_sorted demo_messages_def demo_shape_def number_all_def render_field_def
       new_field_def log_fields_def execution_fields_def dec_digit)
  show ?thesis
    unfolding s render_proto_def
    by (rule le_less_trans [OF length_join]) (use m in \<open>simp add: demo_rpc_def render_rpc_def quoted_def demo_package\<close>)
qed

definition demo_request :: revision_request where
  "demo_request = \<lparr>rr_revision = ''r1'', rr_uri = ''file:src.zip'', rr_digest = unary (pack [(''app.py'', [2])]),
     rr_interface = \<lparr>if_endpoints = [demo_add], if_contract = None, if_profile = ''main'', if_requires = ''==3.12'', if_dependencies = []\<rparr>\<rparr>"

definition demo_disk :: files where
  "demo_disk = [([''src.zip''], pack [(''app.py'', [2])])]"

lemma demo_tools_generated:
  "generate_contract (tc_history demo_tools) (tc_numbers demo_tools) ''adder'' ''00'' [demo_add] None None = Inr (Some demo_contract)"
proof -
  have "tc_numbers demo_tools = demo_versions" by (simp add: demo_tools_def)
  moreover have "grpc_endpoints [demo_add] = [demo_add]" "es_grpc demo_add = None"
    by (simp_all add: grpc_endpoints_def demo_add_def demo_endpoint_of_def)
  ultimately show ?thesis
    by (simp add: generate_contract_def demo_texts demo_gen demo_assign_all read_previous_def version_text_def demo_versions_def Let_def
        contract_breaks_def response_lost_execution_def next_version_def demo_with_grpc demo_contract_def)
qed

lemma demo_augmented: "\<exists>c t. augment demo_tools demo_contract (flat [([''app.py''], [2])]) = Inr (c, t)"
proof -
  let ?t = "flat [([''app.py''], [2])]" and ?b = "encode (gt_source demo_contract)"
  have f: "\<not> is_dir ?t generated_dir" "map_of (tr_files ?t) generated_dir = None"
    by (simp_all add: is_dir_def flat_def inside_of_def is_prefix_def generated_dir_def)
  let ?t1 = "flat [([''app.py''], [2]), (generated_path demo_contract, ?b)]"
  have a: "add_file (generated_path demo_contract) ?b ?t = Inr ?t1"
    by (simp add: add_file_eq is_dir_def flat_def inside_of_def is_prefix_def demo_path own_root_def)
  have c: "\<exists>c. canonical_descriptor demo_tools (pack_triples [x]) = Inr c" for x
  proof -
    have "tc_parse demo_tools (tc_serialize demo_tools [x]) = Some [x]" using demo_tools_ok(1) unfolding tools_ok_def by blast
    then show ?thesis by (simp add: canonical_descriptor_def demo_tools_def)
  qed
  have d: "\<exists>t. add_file own_descriptor c ?t1 = Inr t" for c
    by (simp add: add_file_eq is_dir_def flat_def inside_of_def is_prefix_def demo_path own_root_def own_descriptor_def)
  have p: "tc_protoc demo_tools f [r] = Some (pack_triples [(posix r, case f r of Some b \<Rightarrow> b | None \<Rightarrow> [], [9])])" for f r
    by (simp add: demo_tools_def)
  obtain c where "canonical_descriptor demo_tools (pack_triples [(posix (drop (length own_root) (generated_path demo_contract)),
      case subtree ?t1 own_root (drop (length own_root) (generated_path demo_contract)) of Some b \<Rightarrow> b | None \<Rightarrow> [], [9])]) = Inr c"
    using c by blast
  moreover obtain t where "add_file own_descriptor c ?t1 = Inr t" using d by blast
  ultimately show ?thesis by (simp add: augment_def f a own_names p Let_def)
qed

theorem prepared_publishes_witness:
  "\<exists>pa fs1 pub fs2. prepare_generated_artifact demo_tools [''var''] ''adder'' ''00'' demo_request None None demo_disk = (Inr (Some pa), fs1) \<and>
     publish_contract demo_tools [''var''] ''adder'' (demo_request\<lparr>rr_uri := pa_uri pa, rr_digest := pa_digest pa,
      rr_interface := (rr_interface demo_request)\<lparr>if_endpoints := pa_endpoints pa, if_contract := Some (pa_contract pa)\<rparr>\<rparr>) fs1
       = (Inr (Some pub), fs2) \<and> pub_version pub = ''1.0.0''"
proof -
  let ?z = "pack [(''app.py'', [2 :: nat])]"
  have u: "pu_scheme (urlparse ''file:src.zip'') = ''file''" "tc_path demo_tools ''file:src.zip'' = [''src.zip'']"
    by (code_simp, simp add: demo_tools_def)
  have o: "obtain_artifact demo_tools (rr_uri demo_request) (rr_digest demo_request) demo_disk = Inr ?z"
    by (simp add: obtain_artifact_def demo_request_def u demo_disk_def normal_hex unary_hex) (simp add: demo_tools_def)
  have t: "unpack demo_tools ?z = Inr (flat [([''app.py''], [2])])"
  proof (rule zipped_unpack)
    show "tree_ok (flat [([''app.py''], [2])])" by (simp add: tree_ok_def flat_def good_def)
    show "tc_unzip demo_tools ?z = Some (map zipped (map (\<lambda>(p, b). (posix p, b)) [([''app.py''], [2])]))"
      by (simp add: demo_tools_def unpack_whole posix_def join_def del: One_nat_def)
  qed
  obtain c t' where a: "augment demo_tools demo_contract (flat [([''app.py''], [2])]) = Inr (c, t')" using demo_augmented by blast
  have e: "if_endpoints (rr_interface demo_request) = [demo_add]" by (simp add: demo_request_def)
  obtain pa fs1 where p: "prepare_generated_artifact demo_tools [''var''] ''adder'' ''00'' demo_request None None demo_disk = (Inr (Some pa), fs1)"
    and v: "gc_version (pa_contract pa) = ''1.0.0''"
  proof -
    have "gt_version demo_contract = ''1.0.0''" by (simp add: demo_contract_def build_contract_def Let_def demo_texts)
    then show ?thesis
      using that by (simp add: prepare_generated_artifact_def e demo_tools_generated o t a contract_version_def Let_def
          generated_contract_spec_def)
  qed
  have l: "length (gt_source g) < 256 ^ 8 \<and> length (posix (drop (length own_root) (generated_path g))) < 256 ^ 4"
    if "generate_contract (tc_history demo_tools) (tc_numbers demo_tools) ''adder'' ''00'' (if_endpoints (rr_interface demo_request)) None None = Inr (Some g)" for g
  proof -
    have g: "g = demo_contract" using that by (simp add: e demo_tools_generated)
    show ?thesis using demo_length by (simp add: g demo_path posix_def join_def)
  qed
  have "list_all good [''var'']" "CHR ''/'' \<notin> set ''00''" by (simp_all add: good_def)
  moreover have "builder_ok demo_tools [''var''] demo_disk" by (simp add: builder_ok_def demo_disk_def artifact_file_def contract_file_def)
  moreover have "\<forall>e \<in> set (if_endpoints (rr_interface demo_request)). es_grpc e = None" by (simp add: e demo_add_def demo_endpoint_of_def)
  ultimately show ?thesis
    using prepared_publishes [OF demo_tools_ok(1) _ _ _ _ p l] demo_tools_ok(2) v p by auto
qed

end
