(* ===== verification/Spec2Isabelle.thy ===== *)
theory Spec2Isabelle
  imports Admission Validation Output Profiles Contracts Invocations Sizing Pool Access Repository Registry Invoke Loader Actor Builder
begin

text \<open>
  pyscripts is a platform that runs Python services. A gateway (\<open>src/pyscripts/api.py\<close>, \<open>grpc_gateway/\<close>) keeps
  services, revisions, contracts, runtime profiles, tokens and invocations in PostgreSQL (\<open>repository.py\<close>, \<open>models.py\<close>),
  publishes the artifact of a revision (\<open>interface_metadata.py\<close>, \<open>contracts/\<close>, \<open>storage.py\<close>), and sends each call
  through a scheduler of actor pools (\<open>runtime/directory.py\<close>) to an IO actor (\<open>runtime/actor.py\<close>) or a Ray task
  (\<open>runtime/compute.py\<close>), where the version of the artifact is loaded (\<open>runtime/loader.py\<close>) and what it prints is
  captured (\<open>runtime/output.py\<close>). The Hook package (\<open>pyscripts_hook/\<close>) is what a service imports.

  \<^bold>\<open>Which theory models what\<close>

  \<^item> \<open>Prelude\<close>: results that may raise (\<open>bindE\<close>, \<open>mapE\<close>, \<open>foldE\<close> on \<open>'e + 'a\<close>), Python dictionaries as
    association lists, rows under a primary key (locale \<open>keyed_table\<close>), reachable states (locale
    \<open>inductive_invariant\<close>), text. \<open>Json\<close>: JSON-shaped Python values.
  \<^item> \<open>Schemas\<close> (\<open>schemas.py\<close>): validators of requests, \<open>EndpointSpec\<close> and its manifest form, the interface of a
    revision. \<open>Validation\<close> (\<open>contracts/validation.py\<close>, \<open>sc_hook/datatype.py\<close>): checking a value against a schema.
  \<^item> \<open>Database\<close> (\<open>models.py\<close>): the tables with their keys. A method of \<open>PlatformRepository\<close> is a function from the
    database to an exception or a result and the new database. \<open>Services\<close>, \<open>Profiles\<close> (with \<open>runtime/profiles.py\<close>),
    \<open>Contracts\<close>, \<open>Invocations\<close>, \<open>Access\<close> (with \<open>auth.py\<close>, \<open>api_tokens.py\<close>): its methods. \<open>Repository\<close>: all of
    them as one step relation.
  \<^item> \<open>Store\<close> (\<open>storage.py\<close>): the local and the S3 store behind the locale \<open>blob_store\<close>. \<open>Interface\<close>
    (\<open>interface_metadata.py\<close>, \<open>sc_hook\<close>): project settings and discovery of endpoints. \<open>Generator\<close>
    (\<open>contracts/generator.py\<close>): the generated Protobuf contract. \<open>Builder\<close> (\<open>contracts/builder.py\<close>): compiling and
    storing contracts, and putting a generated one into an artifact.
  \<^item> \<open>Admission\<close> (\<open>runtime/admission.py\<close>), \<open>Sizing\<close> and \<open>Pool\<close> (\<open>runtime/directory.py\<close>): capacity of an actor, how
    many actors a profile gets, and the scheduler with an arbitrary environment at every \<open>await\<close>.
  \<^item> \<open>Output\<close> (\<open>runtime/output.py\<close>): the capture buffer with Python's UTF-8 codec. \<open>Artifact\<close> and \<open>Loader\<close>
    (\<open>runtime/loader.py\<close>): archives, imports, runners, and the versions of a worker as interleaved steps. \<open>Actor\<close>
    (\<open>runtime/actor.py\<close>): admission, versions and executions composed. \<open>Calls\<close> (\<open>runtime/actor.py\<close>,
    \<open>sc_hook/hook.py\<close>, \<open>runtime/compute.py\<close>): calls between endpoints and the worker of a Ray task.
  \<^item> \<open>Registry\<close> and \<open>Invoke\<close> (\<open>grpc_gateway/\<close>, \<open>api.py\<close>): routes, and one invocation from request to answer.

  \<^bold>\<open>How they interact\<close>

  \<open>Invoke\<close> runs the transactions of \<open>Access\<close> and \<open>Invocations\<close>, reads the snapshot of \<open>Registry\<close> and calls the
  scheduler, whose outcome is arbitrary there. \<open>Pool\<close> offers a request to actors that are admission controllers;
  \<open>Actor\<close> joins such a controller with the versions of \<open>Loader\<close>. \<open>Loader\<close> obtains and unpacks archives by \<open>Artifact\<close>,
  and \<open>Interface\<close> states that what publication discovers, \<open>Artifact\<close> loads. \<open>Builder\<close> calls \<open>Generator\<close>, and what
  it publishes is registered by \<open>Contracts\<close>. The manifest that \<open>Schemas\<close> writes is the one \<open>Artifact\<close> reads.

  \<^bold>\<open>What the groups of lemmas show\<close>

  \<^item> Invariants over all reachable states: of the whole repository, of an IO actor, of the versions of a worker, of
    the pools, of admission. Each is an interpretation of \<open>inductive_invariant\<close> (or a loop invariant of \<open>Pool\<close>, whose
    environment may do anything that keeps it).
  \<^item> Effects of operations on every branch: activation and retirement, finishing an invocation, retained output,
    archives handed out, discovery, publication in the stores.
  \<^item> Round trips and equivalences: session cookies, manifests, references to a bucket, the bytes under a source
    digest; validation against \<open>inhabits\<close>; admission refines a multiset of slots.
  \<^item> Ends: invocations are finished, nested calls end, drained versions go, a prepared artifact is published.
  \<^item> Errors of the code that the model exhibits: a surrogate in captured output, a lost directory, a generated
    response in the wrong message, an id that only the decorator accepts, a stale bundle of sources.

  \<^bold>\<open>Bounds, measures and fuel\<close>

  Loops of the program are structural recursion, or have a measure: \<open>run_program\<close> descends by the levels of calls left
  (sixteen, \<open>max_call_depth\<close>) and then by the program; \<open>next_number\<close> by the occupied numbers above the candidate. The
  write loop of the capture buffer is \<open>partial_function\<close>: \<open>None\<close> is a loop that does not end, and the theorems say when
  it returns. No fuel bounds a statement. Python's unbounded integers are \<open>int\<close>; where a width matters (mode bits of ZIP
  members, the 4 and 8 byte lengths under a digest, field numbers) it is written out.

  \<^bold>\<open>What is assumed and what is not modelled\<close>

  Third-party code is a parameter, and what is used of it is a named hypothesis: SHA-256, HMAC and scrypt, ZIP and TOML
  readers, \<open>protoc\<close> and descriptors (\<open>tools_ok\<close>), \<open>packaging\<close>, the S3 client, Ray, URL transports and the gRPC codecs of
  \<open>runtime/protobuf.py\<close>. Artifact code is arbitrary. One repository method is one atomic step, so what PostgreSQL
  allows below serialisable is not seen; of its rules for text only those on log content and error text are. Durations
  are exact rationals. \<open>_safe_token\<close> does not collide, and the removal of a directory is atomic for other requests.
  The semaphore that bounds computations under way, log messages and tracebacks are left out.

  Not modelled: the engine and the schema upgrade of \<open>db.py\<close>, \<open>init_db.py\<close>, settings (\<open>config.py\<close>), the connection to
  Ray (\<open>ray_client.py\<close>), the probe of a profile and the commands of \<open>worker_pools.py\<close>, the Git subprocesses of
  \<open>git_source.py\<close>, message conversion of \<open>runtime/protobuf.py\<close> (its codecs are parameters of \<open>Invoke\<close> and \<open>Loader\<close>),
  the server object and TLS of the gateway, the remaining administration handlers of \<open>api.py\<close>, which call one
  repository method each and map its exception to a status, and the web interface.
\<close>

end
